(* ===== verification/Prelude.thy ===== *)
theory Prelude
  imports Main "HOL-Library.Word" "HOL-Library.Monad_Syntax"
begin

text \<open>
  Shared vocabulary of the development: the machine integers of the crate, undefined behaviour and
  panics as a value, slot arrays of possibly uninitialised cells, and the word and list lemmas the
  component theories share.

  \<^item> \<open>u32\<close> is the crate's counter and cursor type; \<open>+\<close> and \<open>-\<close> on it are \<open>wrapping_add\<close> and
    \<open>wrapping_sub\<close>. A cast \<open>as usize\<close> of a \<open>u32\<close> is \<open>unat\<close>: it is lossless on the 32-bit and
    64-bit targets of the crate.
  \<^item> \<open>usize\<close> is \<open>nat\<close>; where the code depends on its range, \<open>usize::MAX\<close> is the parameter \<open>U\<close> and
    overflowing arithmetic is written out with \<open>usize_add\<close>, \<open>usize_sub\<close> and \<open>sat_add\<close>.
  \<^item> An operation that can panic or read an uninitialised cell has a result of type \<open>'a exec\<close>:
    \<open>None\<close> is that failure, \<open>Some r\<close> is the normal return of \<open>r\<close>.
  \<^item> Rust's \<open>Result<A, E>\<close> is the sum \<open>'e + 'a\<close>, with \<open>Inl\<close> for \<open>Err\<close> and \<open>Inr\<close> for \<open>Ok\<close>.
\<close>

type_synonym u32 = "32 word"
type_synonym usize = nat
type_synonym 'a exec = "'a option"

text \<open>\<open>u32::MAX\<close> is the all-ones word.\<close>

abbreviation u32_MAX :: u32 where
  "u32_MAX \<equiv> - 1"

named_theorems wf_intros \<open>introduction rules for the well-formedness of component states\<close>
named_theorems op_defs \<open>definitions of the operations of a component, for symbolic execution\<close>

section \<open>Checked and saturating arithmetic on usize\<close>

definition usize_add :: "usize \<Rightarrow> usize \<Rightarrow> usize \<Rightarrow> usize exec" where
  "usize_add U a b = (if a + b \<le> U then Some (a + b) else None)"

definition usize_sub :: "usize \<Rightarrow> usize \<Rightarrow> usize exec" where
  "usize_sub a b = (if b \<le> a then Some (a - b) else None)"

definition sat_add :: "usize \<Rightarrow> usize \<Rightarrow> usize \<Rightarrow> usize" where
  "sat_add U a b = min (a + b) U"

lemma usize_add_Some [simp]: "a + b \<le> U \<Longrightarrow> usize_add U a b = Some (a + b)"
  by (simp add: usize_add_def)

lemma usize_sub_Some [simp]: "b \<le> a \<Longrightarrow> usize_sub a b = Some (a - b)"
  by (simp add: usize_sub_def)

lemma sat_add_exact: "a + b \<le> U \<Longrightarrow> sat_add U a b = a + b"
  by (simp add: sat_add_def)

lemma sat_add_le [simp]: "sat_add U a b \<le> U"
  by (simp add: sat_add_def)

lemma sat_add_mono: "a \<le> U \<Longrightarrow> a \<le> sat_add U a b"
  by (simp add: sat_add_def)

lemma sat_add_assoc: "sat_add U (sat_add U a b) c = sat_add U a (b + c)"
  by (simp add: sat_add_def)

section \<open>Slot arrays\<close>

text \<open>
  \<open>[MaybeUninit<T>; N]\<close> is a list of \<open>N\<close> optional values, \<open>None\<close> for an uninitialised cell.
  Reading an uninitialised cell (\<open>assume_init\<close>) and indexing out of bounds are failures.
\<close>

type_synonym 'a slots = "'a option list"

definition uninit_slots :: "nat \<Rightarrow> 'a slots" where
  "uninit_slots n = replicate n None"

definition slot_read :: "'a slots \<Rightarrow> nat \<Rightarrow> 'a exec" where
  "slot_read xs i = (if i < length xs then xs ! i else None)"

definition slot_write :: "'a slots \<Rightarrow> nat \<Rightarrow> 'a \<Rightarrow> 'a slots exec" where
  "slot_write xs i v = (if i < length xs then Some (xs[i := Some v]) else None)"

definition array_read :: "'a list \<Rightarrow> nat \<Rightarrow> 'a exec" where
  "array_read xs i = (if i < length xs then Some (xs ! i) else None)"

definition array_write :: "'a list \<Rightarrow> nat \<Rightarrow> 'a \<Rightarrow> 'a list exec" where
  "array_write xs i v = (if i < length xs then Some (xs[i := v]) else None)"

lemma length_uninit_slots [simp]: "length (uninit_slots n) = n"
  by (simp add: uninit_slots_def)

lemma slot_write_Some [simp]: "i < length xs \<Longrightarrow> slot_write xs i v = Some (xs[i := Some v])"
  by (simp add: slot_write_def)

lemma slot_read_in_range [simp]: "i < length xs \<Longrightarrow> slot_read xs i = xs ! i"
  by (simp add: slot_read_def)

lemma array_read_in_range [simp]: "i < length xs \<Longrightarrow> array_read xs i = Some (xs ! i)"
  by (simp add: array_read_def)

lemma array_write_in_range [simp]: "i < length xs \<Longrightarrow> array_write xs i v = Some (xs[i := v])"
  by (simp add: array_write_def)

section \<open>Words as wrapped naturals\<close>

lemma unat_u32_less: "unat (x::u32) < 2 ^ 32"
  using unsigned_less [of x, where ?'a = nat] by simp

lemma unat_of_nat_u32: "unat (of_nat n :: u32) = n mod 2 ^ 32"
  by (simp add: unat_of_nat)

lemma unat_of_nat_u32_small [simp]: "n < 2 ^ 32 \<Longrightarrow> unat (of_nat n :: u32) = n"
  by (simp add: unat_of_nat)

lemma of_nat_u32_eq_iff: "(of_nat m :: u32) = of_nat n \<longleftrightarrow> m mod 2 ^ 32 = n mod 2 ^ 32"
  by (metis unat_of_nat_u32 word_unat_eq_iff)

text \<open>The counter of a loop \<open>for i in 0..n\<close>.\<close>

lemma u32_loop_counter:
  fixes i n :: u32
  assumes "i < n"
  shows "unat (i + 1) = Suc (unat i)" and "i + 1 < n \<longleftrightarrow> Suc (unat i) < unat n"
proof -
  have "Suc (unat i) < 2 ^ 32" using assms unat_u32_less [of n] by (simp add: word_less_nat_alt)
  then have "unat (of_nat (Suc (unat i)) :: u32) = Suc (unat i)" by (rule unat_of_nat_u32_small)
  then show "unat (i + 1) = Suc (unat i)" by (simp add: add.commute)
  then show "i + 1 < n \<longleftrightarrow> Suc (unat i) < unat n" by (simp add: word_less_nat_alt)
qed

lemma u32_of_unat: "(x::u32) = of_nat (unat x)"
  by simp

lemma unat_u32_add: "unat (x + y :: u32) = (unat x + unat y) mod 2 ^ 32"
  by (simp add: unat_word_ariths)

lemma unat_u32_sub: "unat (x - y :: u32) = (unat x + (2 ^ 32 - unat y)) mod 2 ^ 32"
proof -
  have "unat x < 2 ^ 32" and "unat y < 2 ^ 32" by (rule unat_u32_less)+
  moreover have "unat (x - y) = (if unat y \<le> unat x then unat x - unat y else unat x + 2 ^ 32 - unat y)"
    by (simp add: unat_sub_if')
  ultimately show ?thesis by (simp add: mod_if)
qed

lemma unat_u32_MAX [simp]: "unat u32_MAX = 4294967295"
  using unat_u32_sub [of 0 1] by simp

text \<open>The wrapped difference of two wrapped counters is their difference while it is below \<open>2 ^ 32\<close>.\<close>

lemma of_nat_u32_diff:
  assumes "m \<le> n"
  shows "(of_nat n :: u32) - of_nat m = of_nat (n - m)"
  using assms by (rule of_nat_diff [symmetric])

lemma unat_cursor_diff:
  assumes "m \<le> n" and "n - m < 2 ^ 32"
  shows "unat ((of_nat n :: u32) - of_nat m) = n - m"
  unfolding of_nat_u32_diff [OF assms(1)] using assms(2) by (rule unat_of_nat_u32_small)

lemma mod_mod_u32: "N dvd 2 ^ 32 \<Longrightarrow> (n mod 2 ^ 32) mod N = (n::nat) mod N"
  by (simp add: mod_mod_cancel)

text \<open>Consecutive positions, fewer than \<open>N\<close> apart, lie in different slots of a ring of \<open>N\<close>.\<close>

lemma ring_index_inj:
  assumes "a mod N = b mod N" and "a \<le> b" and "b - a < N"
  shows "a = (b::nat)"
proof -
  from assms(1,2) have "N dvd b - a" by (metis mod_eq_dvd_iff_nat)
  with assms(3) have "b - a = 0" by (metis dvd_imp_le neq0_conv not_less)
  with assms(2) show ?thesis by simp
qed

section \<open>Lists\<close>

lemma map_upt_snoc: "map f [0..<Suc n] = map f [0..<n] @ [f n]"
  by simp

lemma map_upt_Cons: "0 < n \<Longrightarrow> map f [0..<n] = f 0 # map (\<lambda>k. f (Suc k)) [0..<n - 1]"
  by (induction n) (auto simp: map_upt_Suc simp del: upt_Suc)

lemma option_bind_SomeE:
  assumes "Option.bind m f = Some r"
  obtains x where "m = Some x" and "f x = Some r"
  using assms by (cases m) auto

end
