(* ===== verification/Sequence.thy ===== *)
theory Sequence
  imports Prelude
begin

text \<open>
  Sequence numbers. \<open>SeqRing\<close>, \<open>LatestBuf\<close> and \<open>BlockBuilder\<close> each number their items with a
  \<open>u32\<close> that wraps past the reserved value \<open>0\<close>, so the numbers cycle through \<open>2 ^ 32 - 1\<close> values.
  The unbounded ordinal \<open>n\<close> of an item (1 for the first) is what a proof counts with; \<open>seq_at n\<close>
  is the number the code gives it. The code has three copies of the successor and two of the
  distance; their contract is the locales \<open>seq_next\<close> and \<open>seq_cycle\<close>, interpreted on each copy.
\<close>

definition SPAN :: nat where
  "SPAN = 2 ^ 32 - 1"

definition seq_at :: "nat \<Rightarrow> u32" where
  "seq_at n = (if n = 0 then 0 else of_nat ((n - 1) mod SPAN + 1))"

text \<open>The number of the next item, by the ordinals: \<open>s\<close> itself is the number of item \<open>unat s\<close>.\<close>

definition number_after :: "u32 \<Rightarrow> u32" where
  "number_after s = seq_at (Suc (unat s))"

text \<open>
  A resume cursor stands at ordinal \<open>c\<close>: it holds the number of the \<open>c\<close>-th item, or the reserved
  \<open>0\<close> when \<open>c\<close> closes a whole cycle (a cursor computed as "one before sequence 1").
\<close>

definition cursor_at :: "nat \<Rightarrow> u32 \<Rightarrow> bool" where
  "cursor_at c s \<longleftrightarrow> s = seq_at c \<or> s = 0 \<and> c mod SPAN = 0"

lemma SPAN_pos [simp]: "0 < SPAN"
  by (simp add: SPAN_def)

lemma SPAN_eq: "SPAN = 4294967295"
  by (simp add: SPAN_def)

lemma seq_at_0 [simp]: "seq_at 0 = 0"
  by (simp add: seq_at_def)

lemma unat_seq_at: "unat (seq_at n) = (if n = 0 then 0 else (n - 1) mod SPAN + 1)"
proof -
  have "(n - 1) mod SPAN + 1 < 2 ^ 32"
    using mod_less_divisor [OF SPAN_pos, of "n - 1"] unfolding SPAN_def by linarith
  then have "unat (of_nat ((n - 1) mod SPAN + 1) :: u32) = (n - 1) mod SPAN + 1"
    by (rule unat_of_nat_u32_small)
  then show ?thesis by (simp add: seq_at_def del: of_nat_add)
qed

lemma unat_seq_at_Suc: "unat (seq_at (Suc n)) = n mod SPAN + 1"
  by (simp add: unat_seq_at)

lemma seq_at_eq_0_iff [simp]: "seq_at n = 0 \<longleftrightarrow> n = 0"
  by (metis add_is_0 unat_seq_at unat_eq_zero zero_neq_one)

lemma seq_at_small: "n \<le> SPAN \<Longrightarrow> seq_at n = of_nat n"
  by (cases n) (auto simp: seq_at_def)

lemma unat_seq_at_small [simp]: "n \<le> SPAN \<Longrightarrow> unat (seq_at n) = n"
  by (cases n) (auto simp: unat_seq_at)

lemma seq_at_Suc_eq_iff: "seq_at (Suc m) = seq_at (Suc n) \<longleftrightarrow> m mod SPAN = n mod SPAN"
  by (simp add: word_unat_eq_iff unat_seq_at_Suc)

lemma seq_at_inj_near:
  assumes "seq_at m = seq_at n" and "0 < m" and "m \<le> n" and "n - m < SPAN"
  shows "m = n"
proof -
  from assms(2,3) obtain a b where ab: "m = Suc a" "n = Suc b" by (metis Suc_le_D gr0_implies_Suc)
  with assms have "a mod SPAN = b mod SPAN" by (simp add: seq_at_Suc_eq_iff)
  then have "a = b" by (rule ring_index_inj) (use ab assms in auto)
  with ab show ?thesis by simp
qed

lemma seq_at_wrap: "0 < n \<Longrightarrow> seq_at (n + SPAN) = seq_at n"
  by (cases n) (auto simp: seq_at_def)

lemma seq_at_MAX_iff: "seq_at n = u32_MAX \<longleftrightarrow> 0 < n \<and> n mod SPAN = 0"
proof (cases n)
  case (Suc m)
  have "seq_at n = u32_MAX \<longleftrightarrow> unat (seq_at n) = unat u32_MAX"
    by (simp add: word_unat_eq_iff)
  also have "unat u32_MAX = SPAN" by (simp add: SPAN_eq)
  also have "unat (seq_at n) = SPAN \<longleftrightarrow> Suc (m mod SPAN) = SPAN" by (simp add: Suc unat_seq_at_Suc)
  also have "\<dots> \<longleftrightarrow> n mod SPAN = 0" using mod_less_divisor [OF SPAN_pos, of m]
    by (auto simp: Suc mod_Suc)
  finally show ?thesis using Suc by simp
qed simp

lemma cursor_at_seq_at [simp]: "cursor_at c (seq_at c)"
  by (simp add: cursor_at_def)

lemma cursor_at_zero [simp]: "cursor_at 0 0"
  by (simp add: cursor_at_def)

text \<open>The successor: what every copy of it in the code computes, and what follows.\<close>

locale seq_next =
  fixes nxt :: "u32 \<Rightarrow> u32"
  assumes nxt_eq: "nxt s = (if s = u32_MAX then 1 else s + 1)"
begin

lemma nxt_nonzero: "nxt s \<noteq> 0"
  using nxt_eq [of s] by (simp add: eq_neg_iff_add_eq_0)

lemma nxt_seq_at: "nxt (seq_at n) = seq_at (Suc n)"
proof (cases "seq_at n = u32_MAX")
  case True
  then have "n mod SPAN = 0" by (simp add: seq_at_MAX_iff)
  with True show ?thesis by (simp add: nxt_eq seq_at_def)
next
  case False
  have "n mod SPAN \<noteq> 0 \<or> n = 0" using False unfolding seq_at_MAX_iff by linarith
  then have "unat (seq_at (Suc n)) = unat (seq_at n) + 1"
    by (cases n) (auto simp: unat_seq_at_Suc mod_Suc)
  moreover from this have "unat (seq_at n) + 1 < 2 ^ 32" using unat_u32_less [of "seq_at (Suc n)"] by linarith
  then have "unat (seq_at n + 1) = unat (seq_at n) + 1"
    by (simp add: unat_u32_add)
  ultimately show ?thesis using False by (simp add: nxt_eq word_unat_eq_iff)
qed

lemma nxt_number_after: "nxt s = number_after s"
proof -
  have "unat s \<le> SPAN" using unat_u32_less [of s] by (simp add: SPAN_eq)
  then have "s = seq_at (unat s)" by (simp add: seq_at_small)
  then show ?thesis unfolding number_after_def using nxt_seq_at by metis
qed

lemma nxt_cursor: "cursor_at c s \<Longrightarrow> nxt s = seq_at (Suc c)"
proof (cases "s = seq_at c")
  case False
  assume "cursor_at c s"
  with False have "s = 0" and "c mod SPAN = 0" by (auto simp: cursor_at_def)
  then show ?thesis by (simp add: nxt_eq seq_at_def)
qed (simp add: nxt_seq_at)

end

text \<open>The distance: how many numbers are assigned after \<open>f\<close>, up to and including \<open>t\<close>.\<close>

locale seq_cycle = seq_next +
  fixes dist :: "u32 \<Rightarrow> u32 \<Rightarrow> u32"
  assumes dist_eq: "dist f t = (if t < f then t - f - 1 else t - f)"
begin

lemma unat_dist:
  "unat (dist f t) = (if unat t < unat f then unat t + SPAN - unat f else unat t - unat f)"
proof (cases "unat t < unat f")
  case True
  have f: "unat f < 2 ^ 32" and t: "unat t < 2 ^ 32" by (rule unat_u32_less)+
  have raw: "unat (t - f) = unat t + (2 ^ 32 - unat f)"
    using True f by (simp add: unat_u32_sub)
  then have "t - f \<noteq> 0" using f by (metis add_is_0 diff_is_0_eq not_less unat_eq_zero)
  then have "unat (t - f - 1) = unat (t - f) - 1" by (rule unat_minus_one)
  with raw True f show ?thesis by (simp add: dist_eq word_less_nat_alt SPAN_def)
next
  case False
  then show ?thesis by (simp add: dist_eq word_less_nat_alt unat_sub word_le_nat_alt)
qed

lemma dist_refl [simp]: "dist s s = 0"
  by (simp add: dist_eq)

lemma unat_dist_le: "unat (dist f t) \<le> SPAN"
  using unat_u32_less [of f] unat_u32_less [of t] by (auto simp: unat_dist SPAN_def)

text \<open>Between two assigned numbers the distance is exact modulo the span: it forgets whole cycles.\<close>

lemma dist_seq_at_mod:
  assumes "0 < c" and "c \<le> n"
  shows "unat (dist (seq_at c) (seq_at n)) = (n - c) mod SPAN"
proof -
  from assms obtain a b where ab: "c = Suc a" "n = Suc b" by (metis Suc_le_D gr0_implies_Suc)
  with assms have le: "a \<le> b" by simp
  have lt: "a mod SPAN < SPAN" "b mod SPAN < SPAN" by simp_all
  have "(b - a) mod SPAN = (if b mod SPAN < a mod SPAN then b mod SPAN + SPAN - a mod SPAN
      else b mod SPAN - a mod SPAN)"
  proof -
    have "int ((b - a) mod SPAN) = (int (b mod SPAN) - int (a mod SPAN)) mod int SPAN"
      using le by (simp add: zmod_int of_nat_diff mod_diff_eq)
    also have "\<dots> = int (if b mod SPAN < a mod SPAN then b mod SPAN + SPAN - a mod SPAN
      else b mod SPAN - a mod SPAN)"
    proof (cases "b mod SPAN < a mod SPAN")
      case True
      have "(int (b mod SPAN) - int (a mod SPAN)) mod int SPAN
          = (int (b mod SPAN) - int (a mod SPAN) + int SPAN) mod int SPAN" by simp
      also have "\<dots> = int (b mod SPAN) - int (a mod SPAN) + int SPAN"
        using True lt by (intro mod_pos_pos_trivial) linarith+
      moreover have "a mod SPAN \<le> b mod SPAN + SPAN" using lt by linarith
      ultimately show ?thesis using True by (simp add: of_nat_diff)
    next
      case False
      then have "(int (b mod SPAN) - int (a mod SPAN)) mod int SPAN = int (b mod SPAN) - int (a mod SPAN)"
        using lt by (intro mod_pos_pos_trivial) linarith+
      with False show ?thesis by (simp add: of_nat_diff)
    qed
    finally show ?thesis by (simp only: of_nat_eq_iff)
  qed
  then show ?thesis by (simp add: ab unat_dist unat_seq_at_Suc)
qed

lemma dist_seq_at:
  assumes "c \<le> n" and "n - c < SPAN"
  shows "unat (dist (seq_at c) (seq_at n)) = n - c"
proof (cases "c = 0")
  case True
  with assms show ?thesis by (simp add: unat_dist)
next
  case False
  with assms show ?thesis by (simp add: dist_seq_at_mod)
qed

lemma dist_cursor:
  assumes "cursor_at c s" and "c < n" and "n - c < SPAN"
  shows "unat (dist s (seq_at n)) = n - c"
proof (cases "s = seq_at c")
  case True
  then show ?thesis using assms by (simp add: dist_seq_at)
next
  case False
  with assms(1) have s: "s = 0" and c: "c mod SPAN = 0" by (auto simp: cursor_at_def)
  obtain m where m: "n = Suc m" using assms(2) by (cases n) auto
  have "m = (m - c) + c" using assms(2) m by simp
  then have "m mod SPAN = (m - c) mod SPAN" using c by (metis add.right_neutral mod_add_right_eq)
  also have "\<dots> = m - c" using assms m by simp
  finally show ?thesis using assms m by (simp add: s unat_dist unat_seq_at_Suc)
qed

text \<open>The goal may itself be a cursor that stands on the reserved 0.\<close>

lemma dist_cursors:
  assumes s: "cursor_at c s" and t: "cursor_at d t" and "c < d" and "d - c < SPAN"
  shows "unat (dist s t) = d - c"
proof (cases "t = seq_at d")
  case True
  with assms show ?thesis by (simp add: dist_cursor)
next
  case False
  with t have t0: "t = 0" and d: "d mod SPAN = 0" by (auto simp: cursor_at_def)
  have "unat (seq_at d) = SPAN"
    using d assms(3) seq_at_MAX_iff [of d] by (simp add: SPAN_eq)
  moreover have "unat s \<noteq> 0"
  proof
    assume "unat s = 0"
    then have "s = 0" by (simp add: unat_eq_0)
    then have "c mod SPAN = 0" using s by (auto simp: cursor_at_def)
    with d have "SPAN dvd d - c" by (simp add: dvd_eq_mod_eq_0 [symmetric] dvd_diff_nat)
    with assms(3,4) show False using dvd_imp_le [of SPAN "d - c"] by linarith
  qed
  moreover have "unat s \<le> SPAN" using unat_u32_less [of s] by (simp add: SPAN_eq)
  moreover have "unat (dist s (seq_at d)) = d - c" using assms by (simp add: dist_cursor)
  ultimately show ?thesis by (simp add: t0 unat_dist split: if_splits)
qed

text \<open>Taking a step towards a non-zero goal brings it one closer.\<close>

lemma dist_nxt:
  assumes "t \<noteq> 0" and "s \<noteq> t"
  shows "unat (dist s t) = Suc (unat (dist (nxt s) t))"
proof -
  have t: "0 < unat t" using assms(1) by (simp add: unat_gt_0)
  have ne: "unat s \<noteq> unat t" using assms(2) by (simp add: word_unat_eq_iff)
  show ?thesis
  proof (cases "s = u32_MAX")
    case True
    then have "unat s = SPAN" by (simp add: SPAN_eq)
    moreover have "unat t \<le> SPAN" using unat_u32_less [of t] by (simp add: SPAN_eq)
    ultimately show ?thesis using True t ne by (simp add: nxt_eq unat_dist)
  next
    case False
    then have "unat s \<noteq> unat u32_MAX" by (simp add: word_unat_eq_iff)
    then have "unat s < SPAN" using unat_u32_less [of s] by (simp add: SPAN_eq)
    then have "unat (nxt s) = unat s + 1"
      using False by (simp add: nxt_eq unat_u32_add SPAN_eq)
    with t ne \<open>unat s < SPAN\<close> show ?thesis
      by (auto simp: unat_dist)
  qed
qed

end

end
