(* ===== verification/Roles.thy ===== *)
theory Roles
  imports Prelude
begin

text \<open>
  Role claims. Each concurrent type of the crate hands out at most one producer and one consumer
  handle: \<open>try_producer\<close>/\<open>try_consumer\<close> swap a claim flag to true and return a handle only if it was
  false, and dropping the handle stores false. The locale \<open>role\<close> is that contract, stated once over
  the acquisition \<open>acq\<close>, the drop \<open>rel\<close>, the claim flag \<open>taken\<close> and the rest of the state; every
  component interprets it for both of its roles.
\<close>

datatype role_event = Acquire | Drop

text \<open>
  A run of acquisition attempts and drops, with the number of live handles: an attempt that returns
  a handle adds one, and only a live handle can be dropped.
\<close>

fun role_step :: "('s \<Rightarrow> 'h option \<times> 's) \<Rightarrow> ('s \<Rightarrow> 's) \<Rightarrow> 's \<times> nat \<Rightarrow> role_event \<Rightarrow> 's \<times> nat" where
  "role_step acq rel (s, n) Acquire =
     (case acq s of (Some h, s') \<Rightarrow> (s', Suc n) | (None, s') \<Rightarrow> (s', n))"
| "role_step acq rel (s, n) Drop = (if n = 0 then (s, n) else (rel s, n - 1))"

definition role_run :: "('s \<Rightarrow> 'h option \<times> 's) \<Rightarrow> ('s \<Rightarrow> 's) \<Rightarrow> 's \<Rightarrow> role_event list \<Rightarrow> 's \<times> nat" where
  "role_run acq rel s es = foldl (role_step acq rel) (s, 0) es"

text \<open>\<open>try_producer().unwrap()\<close>: the container with the role claimed, or a panic.\<close>

definition claim :: "'h option \<times> 's \<Rightarrow> 's exec" where
  "claim hs = (case fst hs of Some h \<Rightarrow> Some (snd hs) | None \<Rightarrow> None)"

locale role =
  fixes acq :: "'s \<Rightarrow> 'h option \<times> 's"
    and rel :: "'s \<Rightarrow> 's"
    and taken :: "'s \<Rightarrow> bool"
    and rest :: "'s \<Rightarrow> 'r"
  assumes acq_taken: "taken s \<Longrightarrow> acq s = (None, s)"
    and acq_free: "\<not> taken s \<Longrightarrow> \<exists>h s'. acq s = (Some h, s') \<and> taken s' \<and> rest s' = rest s"
    and rel_taken: "\<not> taken (rel s)"
    and rel_rest: "rest (rel s) = rest s"
begin

lemma acq_Some_iff: "fst (acq s) \<noteq> None \<longleftrightarrow> \<not> taken s"
  using acq_taken acq_free by (cases "taken s") fastforce+

lemma acq_claims: "taken (snd (acq s))"
  using acq_taken acq_free by (cases "taken s") fastforce+

lemma acq_rest: "rest (snd (acq s)) = rest s"
  using acq_taken acq_free by (cases "taken s") fastforce+

lemma second_acq_fails: "fst (acq (snd (acq s))) = None"
  using acq_Some_iff acq_claims by blast

lemma reacquire: "fst (acq (rel s)) \<noteq> None"
  using acq_Some_iff rel_taken by blast

definition claimed :: "'s \<times> nat \<Rightarrow> bool" where
  "claimed sn \<longleftrightarrow> snd sn = (if taken (fst sn) then 1 else 0)"

lemma step_claimed:
  assumes "claimed sn"
  shows "claimed (role_step acq rel sn e) \<and> rest (fst (role_step acq rel sn e)) = rest (fst sn)"
proof (cases sn)
  case (Pair s n)
  show ?thesis
  proof (cases "taken s")
    case True
    with assms Pair show ?thesis
      by (cases e) (simp_all add: claimed_def acq_taken rel_taken rel_rest)
  next
    case False
    then obtain h s' where "acq s = (Some h, s')" "taken s'" "rest s' = rest s"
      using acq_free by blast
    with assms Pair False show ?thesis
      by (cases e) (simp_all add: claimed_def)
  qed
qed

lemma fold_claimed:
  "claimed sn \<Longrightarrow> claimed (foldl (role_step acq rel) sn es) \<and>
     rest (fst (foldl (role_step acq rel) sn es)) = rest (fst sn)"
  by (induction es arbitrary: sn) (auto simp: step_claimed)

text \<open>At every moment of a run there is at most one live handle, and the rest is untouched.\<close>

lemma run_exclusive:
  assumes "\<not> taken s"
  shows "snd (role_run acq rel s es) \<le> 1 \<and> rest (fst (role_run acq rel s es)) = rest s"
proof -
  have "claimed (s, 0)" using assms by (simp add: claimed_def)
  from fold_claimed [OF this, of es] show ?thesis by (simp add: role_run_def claimed_def)
qed

end

end
