(* ===== verification/Fifo.thy ===== *)
theory Fifo
  imports Prelude
begin

text \<open>
  The bounded FIFO channel, as a contract. A client of \<open>EventBuf\<close> sees a queue of at most \<open>cap\<close>
  values: a push appends or is rejected with its value handed back, a pop removes the oldest value, a
  peek shows it. \<open>chan_run\<close> runs a list of operations over any implementation, \<open>fifo_run\<close> over the
  list that specifies it; the locale \<open>fifo\<close> holds the laws and proves that the two agree.
\<close>

datatype 'a chan_op = Put 'a | Take | Look

datatype 'a chan_resp = Accepted | Rejected 'a | Got "'a option"

fun chan_step ::
  "('s \<Rightarrow> 'a \<Rightarrow> (('a + unit) \<times> 's) exec) \<Rightarrow> ('s \<Rightarrow> ('a option \<times> 's) exec) \<Rightarrow>
   ('s \<Rightarrow> 'a option exec) \<Rightarrow> 's \<Rightarrow> 'a chan_op \<Rightarrow> ('a chan_resp \<times> 's) exec" where
  "chan_step push pop peek s (Put v) = do {
     (res, s') \<leftarrow> push s v;
     Some ((case res of Inr _ \<Rightarrow> Accepted | Inl w \<Rightarrow> Rejected w), s')
   }"
| "chan_step push pop peek s Take = do { (res, s') \<leftarrow> pop s; Some (Got res, s') }"
| "chan_step push pop peek s Look = do { res \<leftarrow> peek s; Some (Got res, s) }"

fun chan_run ::
  "('s \<Rightarrow> 'a \<Rightarrow> (('a + unit) \<times> 's) exec) \<Rightarrow> ('s \<Rightarrow> ('a option \<times> 's) exec) \<Rightarrow>
   ('s \<Rightarrow> 'a option exec) \<Rightarrow> 's \<Rightarrow> 'a chan_op list \<Rightarrow> ('a chan_resp list \<times> 's) exec" where
  "chan_run push pop peek s [] = Some ([], s)"
| "chan_run push pop peek s (op # ops) = do {
     (r, s') \<leftarrow> chan_step push pop peek s op;
     (rs, s'') \<leftarrow> chan_run push pop peek s' ops;
     Some (r # rs, s'')
   }"

fun fifo_step :: "nat \<Rightarrow> 'a list \<Rightarrow> 'a chan_op \<Rightarrow> 'a chan_resp \<times> 'a list" where
  "fifo_step cap q (Put v) = (if length q < cap then (Accepted, q @ [v]) else (Rejected v, q))"
| "fifo_step cap q Take = (case q of [] \<Rightarrow> (Got None, []) | x # q' \<Rightarrow> (Got (Some x), q'))"
| "fifo_step cap q Look = (case q of [] \<Rightarrow> (Got None, q) | x # q' \<Rightarrow> (Got (Some x), q))"

fun fifo_run :: "nat \<Rightarrow> 'a list \<Rightarrow> 'a chan_op list \<Rightarrow> 'a chan_resp list \<times> 'a list" where
  "fifo_run cap q [] = ([], q)"
| "fifo_run cap q (op # ops) =
     (let (r, q') = fifo_step cap q op; (rs, q'') = fifo_run cap q' ops in (r # rs, q''))"

lemma chan_run_append:
  "chan_run push pop peek s (xs @ ys) = do {
     (rs, s') \<leftarrow> chan_run push pop peek s xs;
     (rs', s'') \<leftarrow> chan_run push pop peek s' ys;
     Some (rs @ rs', s'')
   }"
proof (induction xs arbitrary: s)
  case Nil
  show ?case by (cases "chan_run push pop peek s ys") auto
next
  case (Cons op xs)
  show ?case
  proof (cases "chan_step push pop peek s op")
    case (Some rs)
    then show ?thesis using Cons.IH [of "snd rs"]
      by (cases rs; cases "chan_run push pop peek (snd rs) xs";
          cases "chan_run push pop peek (snd (the (chan_run push pop peek (snd rs) xs))) ys") auto
  qed simp
qed

lemma fifo_run_append:
  "fifo_run cap q (xs @ ys) =
     (let (rs, q') = fifo_run cap q xs; (rs', q'') = fifo_run cap q' ys in (rs @ rs', q''))"
  by (induction xs arbitrary: q) (auto split: prod.splits simp: Let_def)

lemma fifo_step_bounded: "length q \<le> cap \<Longrightarrow> length (snd (fifo_step cap q op)) \<le> cap"
  by (cases op) (auto split: list.splits)

text \<open>The channel never holds more than its capacity.\<close>

lemma fifo_run_bounded: "length q \<le> cap \<Longrightarrow> length (snd (fifo_run cap q ops)) \<le> cap"
proof (induction ops arbitrary: q)
  case (Cons op ops)
  from Cons.IH [OF fifo_step_bounded [OF Cons.prems, of op]] show ?case
    by (simp add: split_beta Let_def)
qed simp

text \<open>
  Conservation and order: the values of a run's accepted pushes, after what was queued before, are
  the values its pops returned followed by what is queued after.
\<close>

fun accepted :: "'a chan_op list \<Rightarrow> 'a chan_resp list \<Rightarrow> 'a list" where
  "accepted (Put v # ops) (Accepted # rs) = v # accepted ops rs"
| "accepted (op # ops) (r # rs) = accepted ops rs"
| "accepted ops rs = []"

fun taken_values :: "'a chan_op list \<Rightarrow> 'a chan_resp list \<Rightarrow> 'a list" where
  "taken_values (Take # ops) (Got (Some v) # rs) = v # taken_values ops rs"
| "taken_values (op # ops) (r # rs) = taken_values ops rs"
| "taken_values ops rs = []"

lemma fifo_run_conserves:
  "q @ accepted ops (fst (fifo_run cap q ops)) =
     taken_values ops (fst (fifo_run cap q ops)) @ snd (fifo_run cap q ops)"
proof (induction ops arbitrary: q)
  case (Cons op ops)
  show ?case
  proof (cases op)
    case (Put v)
    then show ?thesis using Cons.IH [of "q @ [v]"] Cons.IH [of q]
      by (simp add: split_beta Let_def)
  next
    case Take
    then show ?thesis using Cons.IH [of "tl q"]
      by (cases q) (simp_all add: split_beta Let_def)
  next
    case Look
    then show ?thesis using Cons.IH [of q]
      by (cases q) (simp_all add: split_beta Let_def)
  qed
qed simp

locale fifo =
  fixes push :: "'s \<Rightarrow> 'a \<Rightarrow> (('a + unit) \<times> 's) exec"
    and pop :: "'s \<Rightarrow> ('a option \<times> 's) exec"
    and peek :: "'s \<Rightarrow> 'a option exec"
    and contents :: "'s \<Rightarrow> 'a list"
    and cap :: "'s \<Rightarrow> nat"
    and ok :: "'s \<Rightarrow> bool"
  assumes push_room: "ok s \<Longrightarrow> length (contents s) < cap s \<Longrightarrow>
      \<exists>s'. push s v = Some (Inr (), s') \<and> ok s' \<and> cap s' = cap s \<and> contents s' = contents s @ [v]"
    and push_full: "ok s \<Longrightarrow> cap s \<le> length (contents s) \<Longrightarrow> push s v = Some (Inl v, s)"
    and pop_empty: "ok s \<Longrightarrow> contents s = [] \<Longrightarrow> pop s = Some (None, s)"
    and pop_some: "ok s \<Longrightarrow> contents s = x # q \<Longrightarrow>
      \<exists>s'. pop s = Some (Some x, s') \<and> ok s' \<and> cap s' = cap s \<and> contents s' = q"
    and peek_eq: "ok s \<Longrightarrow> peek s = Some (case contents s of [] \<Rightarrow> None | x # q \<Rightarrow> Some x)"
    and ok_bounded: "ok s \<Longrightarrow> length (contents s) \<le> cap s"
begin

lemma step_refines:
  assumes "ok s"
  shows "\<exists>s'. chan_step push pop peek s op = Some (fst (fifo_step (cap s) (contents s) op), s') \<and>
    ok s' \<and> cap s' = cap s \<and> contents s' = snd (fifo_step (cap s) (contents s) op)"
proof (cases op)
  case (Put v)
  then show ?thesis using push_room [OF assms, of v] push_full [OF assms, of v] assms
    by (cases "length (contents s) < cap s") auto
next
  case Take
  then show ?thesis using pop_empty [OF assms] pop_some [OF assms] assms
    by (cases "contents s") fastforce+
next
  case Look
  then show ?thesis using peek_eq [OF assms] assms by (cases "contents s") auto
qed

text \<open>Every run of the implementation gives the responses of the specification.\<close>

lemma run_refines:
  "ok s \<Longrightarrow> \<exists>s'. chan_run push pop peek s ops = Some (fst (fifo_run (cap s) (contents s) ops), s') \<and>
    ok s' \<and> cap s' = cap s \<and> contents s' = snd (fifo_run (cap s) (contents s) ops)"
proof (induction ops arbitrary: s)
  case (Cons op ops)
  from step_refines [OF Cons.prems, of op] obtain s1 where
    s1: "chan_step push pop peek s op = Some (fst (fifo_step (cap s) (contents s) op), s1)"
      "ok s1" "cap s1 = cap s" "contents s1 = snd (fifo_step (cap s) (contents s) op)" by blast
  from Cons.IH [OF s1(2)] s1 show ?case by (auto simp: split_beta Let_def)
qed auto

end

end
