(* ===== verification/Traits.thy ===== *)
theory Traits
  imports Fifo
begin

text \<open>
  The \<open>Source\<close> and \<open>Sink\<close> traits and \<open>forward\<close> (\<open>src/traits.rs\<close>). A trait is an interface: its method
  is an argument of \<open>forward\<close> here, and its contract is a locale that the components implementing the
  trait interpret.
\<close>

text \<open>
  \<open>forward\<close> moves up to \<open>limit\<close> items (the code's \<open>max\<close>) from a source to a sink; \<open>try_pop\<close> and
  \<open>try_push\<close> are the methods of the two trait implementations.
\<close>

function forward_loop ::
  "('s \<Rightarrow> ('t option \<times> 's) exec) \<Rightarrow> ('k \<Rightarrow> 't \<Rightarrow> (('e + unit) \<times> 'k) exec) \<Rightarrow>
   usize \<Rightarrow> usize \<Rightarrow> 's \<Rightarrow> 'k \<Rightarrow> ((usize \<times> 'e option) \<times> 's \<times> 'k) exec" where
  "forward_loop try_pop try_push limit count src snk =
     (if count < limit then do {
        (got, src') \<leftarrow> try_pop src;
        (case got of
           Some val \<Rightarrow> do {
             (res, snk') \<leftarrow> try_push snk val;
             (case res of
                Inr _ \<Rightarrow> forward_loop try_pop try_push limit (count + 1) src' snk'
              | Inl e \<Rightarrow> Some ((count, Some e), src', snk'))
           }
         | None \<Rightarrow> Some ((count, None), src', snk))
      }
      else Some ((count, None), src, snk))"
  by pat_completeness auto
termination
  by (relation "measure (\<lambda>(pop, push, limit, count, src, snk). limit - count)") auto

declare forward_loop.simps [simp del]

definition forward ::
  "('s \<Rightarrow> ('t option \<times> 's) exec) \<Rightarrow> ('k \<Rightarrow> 't \<Rightarrow> (('e + unit) \<times> 'k) exec) \<Rightarrow>
   's \<Rightarrow> 'k \<Rightarrow> usize \<Rightarrow> ((usize \<times> 'e option) \<times> 's \<times> 'k) exec" where
  "forward try_pop try_push src snk limit = forward_loop try_pop try_push limit 0 src snk"

section \<open>The contract of Source\<close>

text \<open>\<open>avail s\<close> is the list of items the source will yield if nothing is added to it.\<close>

locale source =
  fixes try_pop :: "'s \<Rightarrow> ('t option \<times> 's) exec"
    and avail :: "'s \<Rightarrow> 't list"
    and src_ok :: "'s \<Rightarrow> bool"
  assumes pop_none: "src_ok s \<Longrightarrow> avail s = [] \<Longrightarrow>
      \<exists>s'. try_pop s = Some (None, s') \<and> src_ok s' \<and> avail s' = []"
    and pop_some: "src_ok s \<Longrightarrow> avail s = x # xs \<Longrightarrow>
      \<exists>s'. try_pop s = Some (Some x, s') \<and> src_ok s' \<and> avail s' = xs"

section \<open>The contract of Sink\<close>

text \<open>
  \<open>view k\<close> is what the sink holds, \<open>refuse x v\<close> the error with which a sink holding \<open>x\<close> rejects \<open>v\<close>
  (none if it accepts), and \<open>put x v\<close> what it holds after accepting \<open>v\<close>.
\<close>

locale sink =
  fixes try_push :: "'k \<Rightarrow> 't \<Rightarrow> (('e + unit) \<times> 'k) exec"
    and view :: "'k \<Rightarrow> 'x"
    and refuse :: "'x \<Rightarrow> 't \<Rightarrow> 'e option"
    and put :: "'x \<Rightarrow> 't \<Rightarrow> 'x"
    and snk_ok :: "'k \<Rightarrow> bool"
  assumes push_accept: "snk_ok k \<Longrightarrow> refuse (view k) v = None \<Longrightarrow>
      \<exists>k'. try_push k v = Some (Inr (), k') \<and> snk_ok k' \<and> view k' = put (view k) v"
    and push_refuse: "snk_ok k \<Longrightarrow> refuse (view k) v = Some e \<Longrightarrow>
      \<exists>k'. try_push k v = Some (Inl e, k') \<and> snk_ok k' \<and> view k' = view k"

text \<open>A sink of error type \<open>Infallible\<close> never refuses.\<close>

locale infallible_sink = sink +
  assumes never_refuses: "refuse x v = None"
begin

lemma push_accepts: "snk_ok k \<Longrightarrow>
    \<exists>k'. try_push k v = Some (Inr (), k') \<and> snk_ok k' \<and> view k' = put (view k) v"
  by (rule push_accept) (simp_all add: never_refuses)

end

text \<open>The sinks that overwrite their oldest item are windows over the last \<open>N\<close> items.\<close>

definition keep_last :: "nat \<Rightarrow> 'a list \<Rightarrow> 'a list" where
  "keep_last N xs = drop (length xs - N) xs"

definition window_put :: "nat \<times> 'a list \<Rightarrow> 'a \<Rightarrow> nat \<times> 'a list" where
  "window_put held v = (fst held, keep_last (fst held) (snd held @ [v]))"

lemma keep_last_snoc: "keep_last N (keep_last N xs @ [v]) = keep_last N (xs @ [v])"
  by (cases "N \<le> length xs") (auto simp: keep_last_def Suc_diff_le)

lemma keep_last_id: "length xs \<le> N \<Longrightarrow> keep_last N xs = xs"
  by (simp add: keep_last_def)

lemma foldl_window_put:
  "length xs \<le> N \<Longrightarrow> foldl window_put (N, xs) vs = (N, keep_last N (xs @ vs))"
proof (induction vs rule: rev_induct)
  case (snoc w vs)
  then show ?case by (simp add: window_put_def keep_last_snoc)
qed (simp add: keep_last_id)

section \<open>What forward does, over the contracts\<close>

text \<open>The specification, on the list of available items and the contents of the sink.\<close>

fun forward_spec ::
  "('x \<Rightarrow> 't \<Rightarrow> 'e option) \<Rightarrow> ('x \<Rightarrow> 't \<Rightarrow> 'x) \<Rightarrow> nat \<Rightarrow> 't list \<Rightarrow> 'x \<Rightarrow>
   (nat \<times> 'e option) \<times> 't list \<times> 'x" where
  "forward_spec refuse put 0 xs held = ((0, None), xs, held)"
| "forward_spec refuse put (Suc n) [] held = ((0, None), [], held)"
| "forward_spec refuse put (Suc n) (x # xs) held =
     (case refuse held x of
        Some e \<Rightarrow> ((0, Some e), xs, held)
      | None \<Rightarrow> (case forward_spec refuse put n xs (put held x) of
                  ((j, err), rest) \<Rightarrow> ((Suc j, err), rest)))"

text \<open>
  Nothing is lost in order or number: the transferred items are a prefix of what was available, they
  were put in order, and when an item is refused it is the one after them, handed to the sink and
  taken from the source, while the rest stays in the source.
\<close>

lemma forward_spec_prefix:
  "forward_spec refuse put n xs held = ((j, err), xs', held') \<Longrightarrow>
     j \<le> n \<and> j \<le> length xs \<and> held' = foldl put held (take j xs) \<and>
     (case err of
        None \<Rightarrow> j = min n (length xs) \<and> xs' = drop j xs
      | Some e \<Rightarrow> j < n \<and> j < length xs \<and> refuse held' (xs ! j) = Some e \<and> xs' = drop (Suc j) xs)"
proof (induction refuse put n xs held arbitrary: j rule: forward_spec.induct)
  case (3 refuse put n x xs held)
  show ?case
  proof (cases "refuse held x")
    case None
    obtain j0 where j0: "forward_spec refuse put n xs (put held x) = ((j0, err), xs', held')"
      and j: "j = Suc j0"
      using "3.prems" None by (auto split: prod.splits)
    from "3.IH" [OF None j0] show ?thesis by (auto simp: j split: option.splits)
  next
    case (Some e)
    with "3.prems" have "j = 0" "err = Some e" "xs' = xs" "held' = held" by simp_all
    with Some show ?thesis by simp
  qed
qed auto

locale bridge = source try_pop avail src_ok + sink try_push view refuse put snk_ok
  for try_pop :: "'s \<Rightarrow> ('t option \<times> 's) exec" and avail and src_ok
    and try_push :: "'k \<Rightarrow> 't \<Rightarrow> (('e + unit) \<times> 'k) exec" and view :: "'k \<Rightarrow> 'x"
    and refuse and put and snk_ok
begin

lemma forward_loop_refines:
  assumes "src_ok s" and "snk_ok k" and "limit = count + n"
  shows "\<exists>s' k'. forward_loop try_pop try_push limit count s k
      = Some ((count + fst (fst (forward_spec refuse put n (avail s) (view k))),
               snd (fst (forward_spec refuse put n (avail s) (view k)))), s', k')
    \<and> src_ok s' \<and> snk_ok k'
    \<and> (avail s', view k') = snd (forward_spec refuse put n (avail s) (view k))"
  using assms
proof (induction n arbitrary: s k count)
  case 0
  then show ?case by (subst forward_loop.simps) simp
next
  case (Suc n)
  have lt: "count < limit" using Suc.prems(3) by simp
  show ?case
  proof (cases "avail s")
    case Nil
    with pop_none [OF Suc.prems(1)] lt Suc.prems(2) show ?thesis
      by (subst forward_loop.simps) auto
  next
    case (Cons x xs)
    from pop_some [OF Suc.prems(1) Cons] obtain s1 where
      s1: "try_pop s = Some (Some x, s1)" "src_ok s1" "avail s1 = xs" by blast
    show ?thesis
    proof (cases "refuse (view k) x")
      case None
      from push_accept [OF Suc.prems(2) None] obtain k1 where
        k1: "try_push k x = Some (Inr (), k1)" "snk_ok k1" "view k1 = put (view k) x" by blast
      have "limit = count + 1 + n" using Suc.prems(3) by simp
      from Suc.IH [OF s1(2) k1(2) this] lt s1 k1 None Cons show ?thesis
        by (subst forward_loop.simps) (auto split: prod.splits)
    next
      case (Some e)
      from push_refuse [OF Suc.prems(2) Some] obtain k1 where
        k1: "try_push k x = Some (Inl e, k1)" "snk_ok k1" "view k1 = view k" by blast
      with lt s1 Some Cons show ?thesis by (subst forward_loop.simps) auto
    qed
  qed
qed

text \<open>\<open>forward\<close> returns and computes its specification, for every source and sink of the contracts.\<close>

lemma forward_refines:
  assumes "src_ok s" and "snk_ok k"
  shows "\<exists>s' k'. forward try_pop try_push s k limit
      = Some (fst (forward_spec refuse put limit (avail s) (view k)), s', k')
    \<and> src_ok s' \<and> snk_ok k'
    \<and> (avail s', view k') = snd (forward_spec refuse put limit (avail s) (view k))"
  using forward_loop_refines [OF assms, of limit 0 limit] by (simp add: forward_def)

end

section \<open>The contract of LatestSink and LatestSource\<close>

text \<open>
  The latest-value pair is one channel seen from its two ends: \<open>rep s hist c\<close> says that the values
  \<open>hist\<close> were published and the source is past the first \<open>c\<close>. A publication always succeeds and tells
  whether it displaced an unread one; a take delivers the newest value and how far it jumped.
\<close>

locale latest_channel =
  fixes publish_latest :: "'s \<Rightarrow> 't \<Rightarrow> ('r \<times> 's) exec"
    and try_take_latest :: "'s \<Rightarrow> ('i option \<times> 's) exec"
    and rep :: "'s \<Rightarrow> 't list \<Rightarrow> nat \<Rightarrow> bool"
    and report :: "nat \<Rightarrow> bool \<Rightarrow> 'r"
    and item :: "'t \<Rightarrow> nat \<Rightarrow> nat \<Rightarrow> 'i"
  assumes rep_bounded: "rep s hist c \<Longrightarrow> c \<le> length hist"
    and publish_law: "rep s hist c \<Longrightarrow>
      \<exists>s'. publish_latest s v = Some (report (Suc (length hist)) (c < length hist), s') \<and> rep s' (hist @ [v]) c"
    and take_fresh: "rep s hist c \<Longrightarrow> c < length hist \<Longrightarrow>
      \<exists>s'. try_take_latest s = Some (Some (item (last hist) c (length hist)), s') \<and> rep s' hist (length hist)"
    and take_stale: "rep s hist c \<Longrightarrow> \<not> c < length hist \<Longrightarrow> try_take_latest s = Some (None, s)"
begin

fun publish_all :: "'s \<Rightarrow> 't list \<Rightarrow> ('r list \<times> 's) exec" where
  "publish_all s [] = Some ([], s)"
| "publish_all s (v # vs) = do {
     (r, s') \<leftarrow> publish_latest s v;
     (rs, s'') \<leftarrow> publish_all s' vs;
     Some (r # rs, s'')
   }"

lemma publish_all_rep:
  "rep s hist c \<Longrightarrow> \<exists>rs s'. publish_all s vs = Some (rs, s') \<and> rep s' (hist @ vs) c \<and> length rs = length vs"
proof (induction vs arbitrary: s hist)
  case (Cons v vs)
  from publish_law [OF Cons.prems, of v] obtain r s1 where
    s1: "publish_latest s v = Some (r, s1)" "rep s1 (hist @ [v]) c" by blast
  from Cons.IH [OF s1(2)] s1(1) show ?case by auto
qed simp

text \<open>After a burst the source gets its last value, once.\<close>

lemma burst_then_take:
  assumes "rep s hist c" and "vs \<noteq> []"
  shows "\<exists>rs s1 s2. publish_all s vs = Some (rs, s1) \<and>
    try_take_latest s1 = Some (Some (item (last vs) c (length hist + length vs)), s2) \<and>
    try_take_latest s2 = Some (None, s2)"
proof -
  from publish_all_rep [OF assms(1), of vs] obtain rs s1 where
    s1: "publish_all s vs = Some (rs, s1)" "rep s1 (hist @ vs) c" by blast
  have "c < length (hist @ vs)" using rep_bounded [OF assms(1)] assms(2) by (cases vs) auto
  from take_fresh [OF s1(2) this] obtain s2 where
    s2: "try_take_latest s1 = Some (Some (item (last vs) c (length hist + length vs)), s2)"
      "rep s2 (hist @ vs) (length (hist @ vs))" using assms(2) by auto
  with s1(1) take_stale [OF s2(2)] show ?thesis by auto
qed

end

section \<open>A bounded queue is a source and a sink\<close>

text \<open>A full queue refuses a value with that value as the error.\<close>

definition queue_refuse :: "nat \<times> 'a list \<Rightarrow> 'a \<Rightarrow> 'a option" where
  "queue_refuse held v = (if length (snd held) < fst held then None else Some v)"

definition queue_put :: "nat \<times> 'a list \<Rightarrow> 'a \<Rightarrow> nat \<times> 'a list" where
  "queue_put held v = (fst held, snd held @ [v])"

lemma foldl_queue_put: "foldl queue_put (n, q) xs = (n, q @ xs)"
  by (induction xs arbitrary: q) (simp_all add: queue_put_def)

sublocale fifo \<subseteq> as_source: source pop contents ok
  by unfold_locales (use pop_empty pop_some in \<open>fastforce+\<close>)

sublocale fifo \<subseteq> as_sink: sink push "\<lambda>s. (cap s, contents s)" queue_refuse queue_put ok
proof
  fix s v e
  assume ok: "ok s"
  show "\<exists>s'. push s v = Some (Inr (), s') \<and> ok s' \<and> (cap s', contents s') = queue_put (cap s, contents s) v"
    if "queue_refuse (cap s, contents s) v = None"
    using push_room [OF ok, of v] that by (auto simp: queue_refuse_def queue_put_def split: if_splits)
  show "\<exists>s'. push s v = Some (Inl e, s') \<and> ok s' \<and> (cap s', contents s') = (cap s, contents s)"
    if "queue_refuse (cap s, contents s) v = Some e"
    using push_full [OF ok, of v] that ok by (auto simp: queue_refuse_def split: if_splits)
qed

end
