(* ===== verification/SeqRing.thy ===== *)
theory SeqRing
  imports Sequence Roles Traits
begin

text \<open>
  \<open>SeqRing\<close> (\<open>src/seq_ring.rs\<close>): the SPSC ring that overwrites old entries, its operations run one at
  a time (a hook may push while a poll runs). The length of the two arrays is the const parameter
  \<open>N\<close>; \<open>U\<close> is \<open>usize::MAX\<close>, where the drop counters saturate.
\<close>

record 'a seq_ring =
  sr_next_seq :: u32
  sr_published_seq :: u32
  sr_slot_seq :: "u32 list"
  sr_slots :: "'a slots"
  sr_producer_taken :: bool
  sr_consumer_taken :: bool

text \<open>The consumer handle owns the resume cursor and the drop counter.\<close>

record sr_consumer =
  sc_last_seq :: u32
  sc_dropped_accum :: usize

datatype sr_producer = SrProducer

record poll_stats =
  ps_read :: usize
  ps_dropped :: usize
  ps_newest :: u32

definition sr_atomic_u32_array :: "nat \<Rightarrow> u32 list" where
  "sr_atomic_u32_array N = replicate N 0"

definition sr_unsafe_cell_array :: "nat \<Rightarrow> 'a slots" where
  "sr_unsafe_cell_array N = uninit_slots N"

definition sr_new :: "nat \<Rightarrow> 'a seq_ring" where
  "sr_new N = \<lparr>sr_next_seq = 0, sr_published_seq = 0, sr_slot_seq = sr_atomic_u32_array N,
     sr_slots = sr_unsafe_cell_array N, sr_producer_taken = False, sr_consumer_taken = False\<rparr>"

definition sr_default :: "nat \<Rightarrow> 'a seq_ring" where
  "sr_default N = sr_new N"

lemmas sr_array_defs [simp] = sr_atomic_u32_array_def sr_unsafe_cell_array_def

definition sr_capacity :: "'a seq_ring \<Rightarrow> usize" where
  "sr_capacity r = length (sr_slots r)"

definition sr_idx_for :: "nat \<Rightarrow> u32 \<Rightarrow> usize" where
  "sr_idx_for N seq = unat (seq - 1) mod N"

definition sr_try_producer :: "'a seq_ring \<Rightarrow> sr_producer option \<times> 'a seq_ring" where
  "sr_try_producer r =
     (let was_taken = sr_producer_taken r; r' = r\<lparr>sr_producer_taken := True\<rparr>
      in if was_taken then (None, r') else (Some SrProducer, r'))"

definition sr_try_consumer :: "'a seq_ring \<Rightarrow> sr_consumer option \<times> 'a seq_ring" where
  "sr_try_consumer r =
     (let was_taken = sr_consumer_taken r; r' = r\<lparr>sr_consumer_taken := True\<rparr>
      in if was_taken then (None, r')
         else (Some \<lparr>sc_last_seq = 0, sc_dropped_accum = 0\<rparr>, r'))"

definition sr_drop_producer :: "'a seq_ring \<Rightarrow> 'a seq_ring" where
  "sr_drop_producer r = r\<lparr>sr_producer_taken := False\<rparr>"

definition sr_drop_consumer :: "'a seq_ring \<Rightarrow> 'a seq_ring" where
  "sr_drop_consumer r = r\<lparr>sr_consumer_taken := False\<rparr>"

definition sr_newest_seq :: "'a seq_ring \<Rightarrow> u32" where
  "sr_newest_seq r = sr_published_seq r"

definition sr_next_after :: "u32 \<Rightarrow> u32" where
  "sr_next_after seq = (let n = seq + 1 in if n = 0 then 1 else n)"

definition sr_seq_distance :: "u32 \<Rightarrow> u32 \<Rightarrow> u32" where
  "sr_seq_distance from to' = (let raw = to' - from in if to' < from then raw - 1 else raw)"

section \<open>Producer\<close>

text \<open>
  \<open>push_inner\<close>: take the next number (skipping 0), invalidate the slot, write the value, publish the
  slot's number and then the newest number.
\<close>

definition sr_push_inner :: "'a seq_ring \<Rightarrow> 'a \<Rightarrow> (u32 \<times> 'a seq_ring) exec" where
  "sr_push_inner r value = do {
     let seq0 = sr_next_seq r + 1;
     let r1 = r\<lparr>sr_next_seq := sr_next_seq r + 1\<rparr>;
     let (seq, r2) = (if seq0 = 0 then (1, r1\<lparr>sr_next_seq := 1\<rparr>) else (seq0, r1));
     let idx = sr_idx_for (sr_capacity r) seq;
     seqs1 \<leftarrow> array_write (sr_slot_seq r2) idx 0;
     slots' \<leftarrow> slot_write (sr_slots r2) idx value;
     seqs2 \<leftarrow> array_write seqs1 idx seq;
     Some (seq, r2\<lparr>sr_slot_seq := seqs2, sr_slots := slots', sr_published_seq := seq\<rparr>)
   }"

definition sr_push :: "'a seq_ring \<Rightarrow> 'a \<Rightarrow> (u32 \<times> 'a seq_ring) exec" where
  "sr_push r value = sr_push_inner r value"

definition sr_try_push :: "'a seq_ring \<Rightarrow> 'a \<Rightarrow> (('e + unit) \<times> 'a seq_ring) exec" where
  "sr_try_push r val = do { (seq, r') \<leftarrow> sr_push r val; Some (Inr (), r') }"

section \<open>Consumer\<close>

text \<open>
  \<open>read_seq_inner\<close>: check the slot's number, copy the cell as raw storage, check the number again,
  and only then treat the copy as an initialised value.
\<close>

definition sr_read_seq_inner :: "'a seq_ring \<Rightarrow> u32 \<Rightarrow> 'a option exec" where
  "sr_read_seq_inner r seq = do {
     let idx = sr_idx_for (sr_capacity r) seq;
     s1 \<leftarrow> array_read (sr_slot_seq r) idx;
     if s1 \<noteq> seq then Some None
     else do {
       raw \<leftarrow> array_read (sr_slots r) idx;
       s2 \<leftarrow> array_read (sr_slot_seq r) idx;
       if s2 \<noteq> seq then Some None
       else do { v \<leftarrow> raw; Some (Some v) }
     }
   }"

definition sr_dropped :: "sr_consumer \<Rightarrow> usize" where
  "sr_dropped c = sc_dropped_accum c"

definition sr_reset_dropped :: "sr_consumer \<Rightarrow> sr_consumer" where
  "sr_reset_dropped c = c\<lparr>sc_dropped_accum := 0\<rparr>"

text \<open>
  The drain loop of \<open>poll_up_to\<close>. The hook gets the number and the value; it may use the ring (push
  through the producer handle), so it is a function of the ring and of its own state \<open>h\<close>.
\<close>

partial_function (option) sr_poll_loop ::
  "usize \<Rightarrow> (u32 \<Rightarrow> 'a \<Rightarrow> 'a seq_ring \<times> 'h \<Rightarrow> ('a seq_ring \<times> 'h) exec) \<Rightarrow> usize \<Rightarrow> u32 \<Rightarrow>
   usize \<Rightarrow> usize \<Rightarrow> u32 \<Rightarrow> 'a seq_ring \<Rightarrow> 'h \<Rightarrow> (usize \<times> usize \<times> u32 \<times> 'a seq_ring \<times> 'h) exec" where
  "sr_poll_loop U hook limit newest read dropped last_seq r h =
     (if read < limit \<and> last_seq \<noteq> newest then do {
        let next_seq = sr_next_after last_seq;
        got \<leftarrow> sr_read_seq_inner r next_seq;
        (case got of
           Some v \<Rightarrow> do {
             (r', h') \<leftarrow> hook next_seq v (r, h);
             sr_poll_loop U hook limit newest (read + 1) dropped next_seq r' h'
           }
         | None \<Rightarrow> sr_poll_loop U hook limit newest read (sat_add U dropped 1) next_seq r h)
      }
      else Some (read, dropped, last_seq, r, h))"

definition sr_poll_up_to ::
  "usize \<Rightarrow> sr_consumer \<Rightarrow> 'a seq_ring \<Rightarrow> usize \<Rightarrow>
   (u32 \<Rightarrow> 'a \<Rightarrow> 'a seq_ring \<times> 'h \<Rightarrow> ('a seq_ring \<times> 'h) exec) \<Rightarrow> 'h \<Rightarrow>
   (poll_stats \<times> sr_consumer \<times> 'a seq_ring \<times> 'h) exec" where
  "sr_poll_up_to U c r limit hook h =
     (if limit = 0 then
        Some (\<lparr>ps_read = 0, ps_dropped = 0, ps_newest = sr_newest_seq r\<rparr>, c, r, h)
      else
        let newest = sr_newest_seq r in
        if newest = 0 \<or> newest = sc_last_seq c then
          Some (\<lparr>ps_read = 0, ps_dropped = 0, ps_newest = newest\<rparr>, c, r, h)
        else do {
          let N = sr_capacity r;
          let lag = unat (sr_seq_distance (sc_last_seq c) newest);
          let (dropped0, last0) =
            (if N < lag then
               let keep_from = newest - of_nat (N - 1);
                   resume_after = keep_from - 1;
                   jumped = unat (sr_seq_distance (sc_last_seq c) resume_after)
               in (sat_add U 0 jumped, resume_after)
             else (0, sc_last_seq c));
          (read, dropped, last', r', h') \<leftarrow> sr_poll_loop U hook limit newest 0 dropped0 last0 r h;
          Some (\<lparr>ps_read = read, ps_dropped = dropped, ps_newest = newest\<rparr>,
            c\<lparr>sc_last_seq := last', sc_dropped_accum := sat_add U (sc_dropped_accum c) dropped\<rparr>,
            r', h')
        })"

text \<open>
  \<open>poll_one\<close> wraps an \<open>FnOnce\<close> hook in an \<open>Option\<close> that is taken at the first delivery; the hook
  state of the wrapped call is the pair of that option and the caller's state.
\<close>

definition sr_poll_one ::
  "usize \<Rightarrow> sr_consumer \<Rightarrow> 'a seq_ring \<Rightarrow>
   (u32 \<Rightarrow> 'a \<Rightarrow> 'a seq_ring \<times> 'h \<Rightarrow> ('a seq_ring \<times> 'h) exec) \<Rightarrow> 'h \<Rightarrow>
   (bool \<times> sr_consumer \<times> 'a seq_ring \<times> 'h) exec" where
  "sr_poll_one U c r hook h = do {
     (stats, c', r', armed, h') \<leftarrow> sr_poll_up_to U c r 1
       (\<lambda>seq v (r, armed, h).
          if armed then do { (r', h') \<leftarrow> hook seq v (r, h); Some (r', False, h') }
          else Some (r, armed, h))
       (True, h);
     Some (ps_read stats = 1, c', r', h')
   }"

definition sr_poll_one_value ::
  "usize \<Rightarrow> sr_consumer \<Rightarrow> 'a seq_ring \<Rightarrow> ((u32 \<times> 'a) option \<times> sr_consumer \<times> 'a seq_ring) exec" where
  "sr_poll_one_value U c r = do {
     (delivered, c', r', result) \<leftarrow>
       sr_poll_one U c r (\<lambda>seq v (r, result). Some (r, Some (seq, v))) None;
     Some (result, c', r')
   }"

definition sr_latest ::
  "'a seq_ring \<Rightarrow> (u32 \<Rightarrow> 'a \<Rightarrow> 'a seq_ring \<times> 'h \<Rightarrow> ('a seq_ring \<times> 'h) exec) \<Rightarrow> 'h \<Rightarrow>
   (bool \<times> 'a seq_ring \<times> 'h) exec" where
  "sr_latest r hook h =
     (let newest = sr_newest_seq r in
      if newest = 0 then Some (False, r, h)
      else do {
        got \<leftarrow> sr_read_seq_inner r newest;
        (case got of
           Some v \<Rightarrow> do { (r', h') \<leftarrow> hook newest v (r, h); Some (True, r', h') }
         | None \<Rightarrow> Some (False, r, h))
      })"

definition sr_latest_value :: "'a seq_ring \<Rightarrow> (u32 \<times> 'a) option exec" where
  "sr_latest_value r = do {
     (delivered, r', result) \<leftarrow> sr_latest r (\<lambda>seq v (r, result). Some (r, Some (seq, v))) None;
     Some result
   }"

definition sr_skip_to_latest :: "sr_consumer \<Rightarrow> 'a seq_ring \<Rightarrow> sr_consumer" where
  "sr_skip_to_latest c r =
     (let newest = sr_newest_seq r
      in if newest \<noteq> 0 then c\<lparr>sc_last_seq := newest - 1\<rparr> else c)"

text \<open>\<open>Source::try_pop\<close> drops the number and keeps the value.\<close>

definition sr_try_pop ::
  "usize \<Rightarrow> sr_consumer \<times> 'a seq_ring \<Rightarrow> ('a option \<times> sr_consumer \<times> 'a seq_ring) exec" where
  "sr_try_pop U cr = do {
     (got, c', r') \<leftarrow> sr_poll_one_value U (fst cr) (snd cr);
     Some (map_option snd got, c', r')
   }"

section \<open>The contracts of the numbers and of the roles\<close>

interpretation sr_seq: seq_cycle sr_next_after sr_seq_distance
  by unfold_locales (auto simp: sr_next_after_def sr_seq_distance_def Let_def eq_neg_iff_add_eq_0)

interpretation sr_prod: role sr_try_producer sr_drop_producer sr_producer_taken
  "\<lambda>r. r\<lparr>sr_producer_taken := False\<rparr>"
  by unfold_locales (auto simp: sr_try_producer_def sr_drop_producer_def)

interpretation sr_cons: role sr_try_consumer sr_drop_consumer sr_consumer_taken
  "\<lambda>r. r\<lparr>sr_consumer_taken := False\<rparr>"
  by unfold_locales (auto simp: sr_try_consumer_def sr_drop_consumer_def)

text \<open>The operations, for symbolic execution on concrete states.\<close>

lemmas sr_op_defs [op_defs] = sr_new_def sr_unsafe_cell_array_def sr_capacity_def sr_idx_for_def
  sr_try_producer_def sr_try_consumer_def sr_drop_producer_def sr_drop_consumer_def
  sr_newest_seq_def sr_next_after_def sr_seq_distance_def sr_push_def sr_push_inner_def
  sr_read_seq_inner_def sr_dropped_def sr_reset_dropped_def sr_poll_up_to_def sr_poll_one_def
  sr_poll_one_value_def sr_latest_def sr_latest_value_def sr_skip_to_latest_def sat_add_def

end
