(* ===== verification/SeqRing_History.thy ===== *)
theory SeqRing_History
  imports SeqRing
begin

text \<open>
  What the slots of a \<open>SeqRing\<close> hold, in terms of the list of all values pushed so far. Ordinal
  \<open>m\<close> (from 1) is the \<open>m\<close>-th push; its number is \<open>seq_at m\<close>. A slot holds the last ordinal that was
  written to it. From this: a read under a number returns that push's value or nothing.
\<close>

section \<open>Memory safety of the slot array\<close>

text \<open>
  A slot with a non-zero number has been written. This alone makes every read safe, in any state the
  cursors may be in.
\<close>

definition sr_safe :: "'a seq_ring \<Rightarrow> bool" where
  "sr_safe r \<longleftrightarrow> 0 < sr_capacity r \<and> length (sr_slot_seq r) = sr_capacity r \<and>
     (\<forall>i < sr_capacity r. sr_slot_seq r ! i \<noteq> 0 \<longrightarrow> sr_slots r ! i \<noteq> None)"

lemma sr_safe_new: "0 < N \<Longrightarrow> sr_safe (sr_new N)"
  by (simp add: sr_safe_def sr_new_def sr_capacity_def)

lemma sr_idx_less: "sr_safe r \<Longrightarrow> sr_idx_for (sr_capacity r) s < sr_capacity r"
  by (simp add: sr_safe_def sr_idx_for_def)

text \<open>The value a read under a number returns, if any.\<close>

definition sr_value :: "'a seq_ring \<Rightarrow> u32 \<Rightarrow> 'a option" where
  "sr_value r s = (let i = sr_idx_for (sr_capacity r) s
     in if sr_slot_seq r ! i = s then sr_slots r ! i else None)"

lemma sr_read_value:
  assumes "sr_safe r" and "s \<noteq> 0"
  shows "sr_read_seq_inner r s = Some (sr_value r s)"
proof -
  let ?i = "sr_idx_for (sr_capacity r) s"
  have i: "?i < sr_capacity r" using assms(1) by (rule sr_idx_less)
  moreover have "sr_slots r ! ?i \<noteq> None" if "sr_slot_seq r ! ?i = s"
    using assms that i by (auto simp: sr_safe_def)
  ultimately show ?thesis using assms
    by (auto simp: sr_read_seq_inner_def sr_value_def Let_def sr_safe_def sr_capacity_def)
qed

text \<open>The number \<open>push\<close> takes is the successor of the last one.\<close>

lemma sr_push_result:
  assumes "sr_safe r"
  shows "sr_push r v = (let s = sr_next_after (sr_next_seq r); i = sr_idx_for (sr_capacity r) s
    in Some (s, r\<lparr>sr_next_seq := s, sr_slot_seq := (sr_slot_seq r)[i := s],
         sr_slots := (sr_slots r)[i := Some v], sr_published_seq := s\<rparr>))"
  using assms sr_idx_less [OF assms]
  by (simp add: sr_push_def sr_push_inner_def sr_next_after_def Let_def sr_safe_def sr_capacity_def)

lemma sr_push_safe:
  assumes "sr_safe r"
  shows "\<exists>s r'. sr_push r v = Some (s, r') \<and> s \<noteq> 0 \<and> sr_safe r' \<and> sr_capacity r' = sr_capacity r"
proof -
  let ?s = "sr_next_after (sr_next_seq r)"
  have "?s \<noteq> 0" by (rule sr_seq.nxt_nonzero)
  with assms show ?thesis using sr_idx_less [OF assms, of ?s]
    by (auto simp: sr_push_result Let_def sr_safe_def sr_capacity_def nth_list_update)
qed

section \<open>The history of a ring\<close>

definition sr_slot_of :: "nat \<Rightarrow> nat \<Rightarrow> nat" where
  "sr_slot_of N m = sr_idx_for N (seq_at m)"

text \<open>The last of the first \<open>n\<close> ordinals that was written to slot \<open>i\<close>.\<close>

fun last_writer :: "nat \<Rightarrow> nat \<Rightarrow> nat \<Rightarrow> nat option" where
  "last_writer N 0 i = None"
| "last_writer N (Suc n) i = (if sr_slot_of N (Suc n) = i then Some (Suc n) else last_writer N n i)"

definition sr_rep :: "'a seq_ring \<Rightarrow> 'a list \<Rightarrow> bool" where
  "sr_rep r hist \<longleftrightarrow> 0 < sr_capacity r \<and> length (sr_slot_seq r) = sr_capacity r \<and>
     sr_next_seq r = seq_at (length hist) \<and> sr_published_seq r = seq_at (length hist) \<and>
     (\<forall>i < sr_capacity r.
        (case last_writer (sr_capacity r) (length hist) i of
           None \<Rightarrow> sr_slot_seq r ! i = 0
         | Some m \<Rightarrow> sr_slot_seq r ! i = seq_at m \<and> sr_slots r ! i = Some (hist ! (m - 1))))"

text \<open>Ordinal \<open>m\<close> is still held after \<open>n\<close> pushes if nothing later was written to its slot.\<close>

definition sr_live :: "nat \<Rightarrow> nat \<Rightarrow> nat \<Rightarrow> bool" where
  "sr_live N n m \<longleftrightarrow> last_writer N n (sr_slot_of N m) = Some m"

lemma sr_slot_of_Suc: "sr_slot_of N (Suc m) = m mod SPAN mod N"
proof -
  have "seq_at (Suc m) - 1 = of_nat (m mod SPAN)" by (simp add: seq_at_def)
  moreover have "m mod SPAN < 2 ^ 32"
    using mod_less_divisor [OF SPAN_pos, of m] unfolding SPAN_def by linarith
  ultimately show ?thesis by (simp add: sr_slot_of_def sr_idx_for_def)
qed

lemma last_writer_range: "last_writer N n i = Some m \<Longrightarrow> 0 < m \<and> m \<le> n \<and> sr_slot_of N m = i"
  by (induction n) (auto split: if_splits)

lemma last_writer_latest:
  "0 < m \<Longrightarrow> m \<le> n \<Longrightarrow> \<exists>m'. last_writer N n (sr_slot_of N m) = Some m' \<and> m \<le> m'"
  by (induction n) (auto simp: le_Suc_eq)

lemma sr_live_iff:
  assumes "0 < m" and "m \<le> n"
  shows "sr_live N n m \<longleftrightarrow> (\<forall>m'. m < m' \<and> m' \<le> n \<longrightarrow> sr_slot_of N m' \<noteq> sr_slot_of N m)"
proof
  assume live: "sr_live N n m"
  show "\<forall>m'. m < m' \<and> m' \<le> n \<longrightarrow> sr_slot_of N m' \<noteq> sr_slot_of N m"
  proof (intro allI impI notI)
    fix m' assume "m < m' \<and> m' \<le> n" and eq: "sr_slot_of N m' = sr_slot_of N m"
    then obtain k where "last_writer N n (sr_slot_of N m') = Some k" and "m' \<le> k"
      using last_writer_latest [of m' n N] by auto
    with live eq \<open>m < m' \<and> m' \<le> n\<close> show False by (simp add: sr_live_def)
  qed
next
  assume none: "\<forall>m'. m < m' \<and> m' \<le> n \<longrightarrow> sr_slot_of N m' \<noteq> sr_slot_of N m"
  obtain k where k: "last_writer N n (sr_slot_of N m) = Some k" "m \<le> k"
    using last_writer_latest [OF assms] by blast
  with none last_writer_range [OF k(1)] have "\<not> m < k" by blast
  with k(2) have "k = m" by simp
  with k show "sr_live N n m" by (simp add: sr_live_def)
qed

lemma sr_rep_safe:
  assumes "sr_rep r hist"
  shows "sr_safe r"
  unfolding sr_safe_def
proof (intro conjI allI impI)
  fix i assume i: "i < sr_capacity r" and nz: "sr_slot_seq r ! i \<noteq> 0"
  from assms i have "case last_writer (sr_capacity r) (length hist) i of
        None \<Rightarrow> sr_slot_seq r ! i = 0
      | Some m \<Rightarrow> sr_slot_seq r ! i = seq_at m \<and> sr_slots r ! i = Some (hist ! (m - 1))"
    by (simp add: sr_rep_def)
  with nz show "sr_slots r ! i \<noteq> None" by (simp split: option.splits)
qed (use assms in \<open>auto simp: sr_rep_def\<close>)

lemma sr_rep_new: "0 < N \<Longrightarrow> sr_rep (sr_new N) []"
  by (simp add: sr_rep_def sr_new_def sr_capacity_def)

lemma sr_rep_newest: "sr_rep r hist \<Longrightarrow> sr_newest_seq r = seq_at (length hist)"
  by (simp add: sr_rep_def sr_newest_seq_def)

text \<open>A push appends to the history.\<close>

lemma sr_push_rep:
  assumes rep: "sr_rep r hist"
  shows "\<exists>r'. sr_push r v = Some (seq_at (Suc (length hist)), r') \<and> sr_rep r' (hist @ [v]) \<and>
    sr_capacity r' = sr_capacity r"
proof -
  let ?n = "length hist" let ?N = "sr_capacity r"
  let ?i = "sr_slot_of ?N (Suc ?n)"
  have nxt: "sr_next_after (sr_next_seq r) = seq_at (Suc ?n)"
    using rep by (simp add: sr_rep_def sr_seq.nxt_seq_at)
  define r' where "r' = r\<lparr>sr_next_seq := seq_at (Suc ?n),
      sr_slot_seq := (sr_slot_seq r)[?i := seq_at (Suc ?n)],
      sr_slots := (sr_slots r)[?i := Some v], sr_published_seq := seq_at (Suc ?n)\<rparr>"
  have push: "sr_push r v = Some (seq_at (Suc ?n), r')"
    using sr_push_result [OF sr_rep_safe [OF rep], of v]
    by (simp add: nxt r'_def Let_def sr_slot_of_def)
  have cap: "sr_capacity r' = ?N" by (simp add: r'_def sr_capacity_def)
  have "case last_writer ?N (Suc ?n) i of None \<Rightarrow> sr_slot_seq r' ! i = 0
      | Some m \<Rightarrow> sr_slot_seq r' ! i = seq_at m \<and> sr_slots r' ! i = Some ((hist @ [v]) ! (m - 1))"
    if i: "i < ?N" for i
  proof (cases "i = ?i")
    case True
    with i rep show ?thesis by (auto simp: r'_def sr_rep_def sr_capacity_def)
  next
    case False
    then have slot: "sr_slot_seq r' ! i = sr_slot_seq r ! i" "sr_slots r' ! i = sr_slots r ! i"
      by (simp_all add: r'_def)
    from rep i have "case last_writer ?N ?n i of None \<Rightarrow> sr_slot_seq r ! i = 0
      | Some m \<Rightarrow> sr_slot_seq r ! i = seq_at m \<and> sr_slots r ! i = Some (hist ! (m - 1))"
      by (simp add: sr_rep_def)
    then show ?thesis using False slot last_writer_range [of ?N ?n i]
      by (auto simp: nth_append split: option.splits)
  qed
  then have "sr_rep r' (hist @ [v])"
    using rep by (simp add: sr_rep_def cap) (simp add: r'_def)
  with push cap show ?thesis by blast
qed

text \<open>
  A read under the number of an ordinal of the last span returns exactly that push's value while the
  ordinal is live, and nothing once its slot was written again: never another push's value.
\<close>

lemma sr_value_rep:
  assumes rep: "sr_rep r hist" and m: "0 < m" "m \<le> length hist" "length hist - m < SPAN"
  shows "sr_value r (seq_at m) =
    (if sr_live (sr_capacity r) (length hist) m then Some (hist ! (m - 1)) else None)"
proof -
  let ?N = "sr_capacity r" let ?i = "sr_slot_of ?N m"
  obtain k where k: "last_writer ?N (length hist) ?i = Some k" "m \<le> k"
    using last_writer_latest [OF m(1,2)] by blast
  then have k_le: "k \<le> length hist" using last_writer_range by blast
  have i: "?i < ?N" using rep by (simp add: sr_slot_of_def sr_idx_for_def sr_rep_def)
  with rep k have slot: "sr_slot_seq r ! ?i = seq_at k" "sr_slots r ! ?i = Some (hist ! (k - 1))"
    by (auto simp: sr_rep_def split: option.splits)
  have "seq_at k = seq_at m \<longleftrightarrow> k = m"
    using seq_at_inj_near [of m k] m k(2) k_le by force
  with slot k show ?thesis by (simp add: sr_value_def sr_live_def sr_slot_of_def Let_def)
qed

text \<open>
  When every window of \<open>N\<close> ordinals ending at \<open>n\<close> lies in different slots, exactly the last \<open>N\<close> are
  live. So it is when \<open>N\<close> divides the span, and while the window lies inside one cycle of numbers.
\<close>

definition sr_seamless :: "nat \<Rightarrow> nat \<Rightarrow> bool" where
  "sr_seamless N n \<longleftrightarrow> N dvd SPAN \<or> n \<le> SPAN \<or> N \<le> (n - 1) mod SPAN + 1"

lemma sr_slot_of_window:
  assumes "sr_seamless N n" and "0 < m" "m < m'" "m' \<le> n" "n < m + N"
  shows "sr_slot_of N m \<noteq> sr_slot_of N m'"
proof
  assume eq: "sr_slot_of N m = sr_slot_of N m'"
  obtain a b where ab: "m = Suc a" "m' = Suc b" using assms(2,3) by (metis Suc_lessE gr0_implies_Suc)
  from assms ab have lt: "a < b" "b \<le> n - 1" "n - 1 < a + N" by auto
  have eq': "a mod SPAN mod N = b mod SPAN mod N" using eq by (simp add: ab sr_slot_of_Suc)
  show False
  proof (cases "N dvd SPAN")
    case True
    then have "a mod N = b mod N" using eq' by (simp add: mod_mod_cancel)
    then have "a = b" by (rule ring_index_inj) (use lt in auto)
    with lt show False by simp
  next
    case False
    define q where "q = (n - 1) div SPAN"
    have "q * SPAN \<le> a" and "b < q * SPAN + SPAN"
    proof -
      have split: "n - 1 = q * SPAN + (n - 1) mod SPAN" by (simp add: q_def)
      show "b < q * SPAN + SPAN" using lt(2) split mod_less_divisor [OF SPAN_pos, of "n - 1"] by linarith
      show "q * SPAN \<le> a"
      proof (cases "n \<le> SPAN")
        case True
        then have "n - 1 < SPAN" using SPAN_pos by linarith
        then have "q = 0" by (simp add: q_def)
        then show ?thesis by simp
      next
        case False
        with assms(1) \<open>\<not> N dvd SPAN\<close> have "N \<le> (n - 1) mod SPAN + 1" by (simp add: sr_seamless_def)
        with lt(3) split show ?thesis by linarith
      qed
    qed
    then have "a div SPAN = q" "b div SPAN = q"
      using lt(1) by (auto intro!: div_nat_eqI simp: algebra_simps)
    then have "a = q * SPAN + a mod SPAN" "b = q * SPAN + b mod SPAN"
      by (metis div_mult_mod_eq)+
    then have r: "a mod SPAN < b mod SPAN" "b mod SPAN < a mod SPAN + N" using lt by linarith+
    have "a mod SPAN = b mod SPAN" by (rule ring_index_inj [OF eq']) (use r in auto)
    with r show False by simp
  qed
qed

lemma sr_live_window:
  assumes sl: "sr_seamless N n" and m: "0 < m" "m \<le> n" "n < m + N"
  shows "sr_live N n m"
  unfolding sr_live_iff [OF m(1,2)]
  using sr_slot_of_window [OF sl m(1) _ _ m(3)] by metis

text \<open>A ring that has seen given values, from a new one.\<close>

fun sr_push_all :: "'a seq_ring \<Rightarrow> 'a list \<Rightarrow> 'a seq_ring exec" where
  "sr_push_all r [] = Some r"
| "sr_push_all r (v # vs) = do { (s, r') \<leftarrow> sr_push r v; sr_push_all r' vs }"

lemma sr_push_all_from:
  "sr_rep r hist \<Longrightarrow> \<exists>r'. sr_push_all r vs = Some r' \<and> sr_rep r' (hist @ vs) \<and> sr_capacity r' = sr_capacity r"
proof (induction vs arbitrary: r hist)
  case (Cons v vs)
  from sr_push_rep [OF Cons.prems, of v] obtain r1 where
    r1: "sr_push r v = Some (seq_at (Suc (length hist)), r1)" "sr_rep r1 (hist @ [v])"
      "sr_capacity r1 = sr_capacity r" by blast
  from Cons.IH [OF r1(2)] r1 show ?case by simp
qed simp

lemma sr_push_all_rep:
  assumes "0 < N"
  obtains r where "sr_push_all (sr_new N) vs = Some r" "sr_rep r vs" "sr_capacity r = N"
  using sr_push_all_from [OF sr_rep_new [OF assms], of vs]
  by (auto simp: sr_new_def sr_capacity_def)

end
