(* ===== verification/SeqRing_Poll.thy ===== *)
theory SeqRing_Poll
  imports SeqRing_History
begin

text \<open>
  \<open>poll_up_to\<close>: it returns whatever the hook does to the ring, its counts account for every number it
  advances past, and with a hook that leaves the ring alone it delivers exactly the live values of its
  window. Positions are ordinals: the cursor stands at \<open>c\<close>, the newest publication is \<open>n\<close>.
\<close>

section \<open>Where the lag-recovery jump resumes\<close>

definition sr_resume :: "nat \<Rightarrow> nat \<Rightarrow> nat" where
  "sr_resume N n = (if N \<le> (n - 1) mod SPAN + 1 then n - N else n - N + 1)"

definition sr_start :: "nat \<Rightarrow> nat \<Rightarrow> nat \<Rightarrow> nat" where
  "sr_start N c n = (if N < n - c then sr_resume N n else c)"

lemma resume_cursor:
  assumes "0 < N" and "N < n" and "N < SPAN"
  shows "cursor_at (sr_resume N n) (seq_at n - of_nat (N - 1) - 1)"
proof -
  define u where "u = (n - 1) mod SPAN + 1"
  define q where "q = (n - 1) div SPAN"
  have u: "0 < u" "u \<le> SPAN"
    using mod_less_divisor [OF SPAN_pos, of "n - 1"] unfolding u_def by linarith+
  have n: "n = q * SPAN + u" using assms(2) by (simp add: q_def u_def)
  have seq: "seq_at n = of_nat u" using assms(2) by (simp add: seq_at_def u_def)
  have "of_nat (N - 1) + 1 = (of_nat N :: u32)" using assms(1) by (cases N) auto
  then have goal: "seq_at n - of_nat (N - 1) - 1 = of_nat u - of_nat N"
    by (simp add: seq algebra_simps)
  show ?thesis
    unfolding goal
  proof (cases "N \<le> u")
    case True
    have "sr_resume N n = n - N" using True by (simp add: sr_resume_def u_def)
    then have res: "sr_resume N n = q * SPAN + (u - N)" using True n by simp
    show "cursor_at (sr_resume N n) (of_nat u - of_nat N)"
    proof (cases "N = u")
      case True
      with res have "sr_resume N n = q * SPAN" by simp
      then show ?thesis unfolding \<open>N = u\<close> by (simp add: cursor_at_def)
    next
      case False
      with True have "q * SPAN + (u - N) - 1 = q * SPAN + (u - N - 1)" by simp
      then have "(q * SPAN + (u - N) - 1) mod SPAN = u - N - 1" using u assms(1) by simp
      moreover have "u - N - 1 + 1 = u - N" and "q * SPAN + (u - N) \<noteq> 0" using True False by auto
      ultimately have "seq_at (q * SPAN + (u - N)) = of_nat (u - N)"
        unfolding seq_at_def by (simp only: if_False)
      then show ?thesis using of_nat_u32_diff [OF True] by (simp add: res cursor_at_def del: of_nat_diff)
    qed
  next
    case False
    then have "0 < q" using n assms(2) by (cases q) auto
    then obtain p where p: "q = Suc p" by (cases q) auto
    have "sr_resume N n = n - N + 1" using False by (simp add: sr_resume_def u_def)
    then have res: "sr_resume N n = Suc (p * SPAN + (SPAN + u - N))"
      using n p assms(3) by simp
    have lt: "SPAN + u - N < SPAN" using False assms(3) by simp
    have "unat (of_nat u - of_nat N :: u32) = (u + (2 ^ 32 - N)) mod 2 ^ 32"
      using u False assms(3) by (simp add: unat_u32_sub SPAN_eq)
    also have "\<dots> = Suc (SPAN + u - N)"
      using u False assms(3) by (simp add: SPAN_eq)
    finally have "unat (of_nat u - of_nat N :: u32) = Suc (SPAN + u - N)" .
    then have "of_nat u - of_nat N = seq_at (Suc (p * SPAN + (SPAN + u - N)))"
      using lt by (simp add: word_unat_eq_iff unat_seq_at_Suc)
    then show "cursor_at (sr_resume N n) (of_nat u - of_nat N)" by (simp add: res)
  qed
qed

lemma sr_resume_bounds:
  assumes "0 < N" and "N < n - c"
  shows "c < sr_resume N n" and "n \<le> sr_resume N n + N" and "sr_resume N n < n \<or> N = 1"
  using assms by (auto simp: sr_resume_def)

lemma sr_resume_less:
  assumes "0 < N" and "N < n"
  shows "sr_resume N n < n"
proof (cases "N \<le> (n - 1) mod SPAN + 1")
  case True
  then show ?thesis using assms by (simp add: sr_resume_def)
next
  case False
  then have "1 < N" by simp
  then have "n - N + 1 < n" using assms by linarith
  with False show ?thesis by (simp add: sr_resume_def)
qed

lemma sr_start_bounds:
  assumes "0 < N" and "c < n"
  shows "c \<le> sr_start N c n" and "sr_start N c n < n" and "n \<le> sr_start N c n + N"
  using assms sr_resume_bounds [OF assms(1), of n c] sr_resume_less [OF assms(1), of n]
  by (auto simp: sr_start_def)

section \<open>The loop, under any hook\<close>

text \<open>A hook that returns and keeps the slot array safe, whatever else it does to the ring.\<close>

definition sr_hook_ok :: "(u32 \<Rightarrow> 'a \<Rightarrow> 'a seq_ring \<times> 'h \<Rightarrow> ('a seq_ring \<times> 'h) exec) \<Rightarrow> bool" where
  "sr_hook_ok hook \<longleftrightarrow> (\<forall>s v r h. sr_safe r \<longrightarrow>
     (\<exists>r' h'. hook s v (r, h) = Some (r', h') \<and> sr_safe r'))"

text \<open>One round of the loop, in ordinals, and its end.\<close>

lemma sr_poll_loop_round:
  assumes "cursor_at c cur" and "c < n" and "n - c < SPAN" and "sr_safe r"
  shows "sr_poll_loop U hook limit (seq_at n) read dropped cur r h =
    (if read < limit then
       (case sr_value r (seq_at (Suc c)) of
          Some v \<Rightarrow> do {
            (r', h') \<leftarrow> hook (seq_at (Suc c)) v (r, h);
            sr_poll_loop U hook limit (seq_at n) (read + 1) dropped (seq_at (Suc c)) r' h'
          }
        | None \<Rightarrow> sr_poll_loop U hook limit (seq_at n) read (sat_add U dropped 1) (seq_at (Suc c)) r h)
     else Some (read, dropped, cur, r, h))"
proof -
  have "cur \<noteq> seq_at n"
    using assms seq_at_inj_near [of c n] by (cases "c = 0") (auto simp: cursor_at_def)
  moreover have "sr_next_after cur = seq_at (Suc c)" by (rule sr_seq.nxt_cursor [OF assms(1)])
  moreover have "sr_read_seq_inner r (seq_at (Suc c)) = Some (sr_value r (seq_at (Suc c)))"
    using assms(4) by (simp add: sr_read_value)
  ultimately show ?thesis by (subst sr_poll_loop.simps) (simp add: Let_def split: option.split)
qed

lemma sr_poll_loop_end: "sr_poll_loop U hook limit newest read dropped newest r h = Some (read, dropped, newest, r, h)"
  by (subst sr_poll_loop.simps) simp

text \<open>
  What a run of the loop from the ordinal \<open>c\<close> ends with; a round that delivers or misses the next item
  hands it on to the rest of the run.
\<close>

definition sr_loop_ends ::
  "nat \<Rightarrow> usize \<Rightarrow> nat \<Rightarrow> usize \<Rightarrow> usize \<Rightarrow> u32 \<Rightarrow> (usize \<times> usize \<times> u32 \<times> 'a seq_ring \<times> 'h) exec \<Rightarrow> bool" where
  "sr_loop_ends n limit c read dropped cur res \<longleftrightarrow> (\<exists>e read' dropped' cur' r' h'.
     res = Some (read', dropped', cur', r', h')
     \<and> sr_safe r' \<and> c \<le> e \<and> e \<le> n \<and> read' \<le> limit \<and> read' + dropped' = read + dropped + (e - c)
     \<and> cur' = (if e = c then cur else seq_at e) \<and> (e = n \<or> read' = limit) \<and> dropped \<le> dropped')"

lemma sr_loop_ends_round:
  assumes "sr_loop_ends n limit (Suc c) read1 dropped1 (seq_at (Suc c)) res"
    and "read1 + dropped1 = Suc (read + dropped)" and "dropped \<le> dropped1"
  shows "sr_loop_ends n limit c read dropped cur res"
proof -
  from assms(1) obtain e read' dropped' cur' r' h' where
    "res = Some (read', dropped', cur', r', h')" "sr_safe r'" "Suc c \<le> e" "e \<le> n" "read' \<le> limit"
    "read' + dropped' = read1 + dropped1 + (e - Suc c)" "cur' = (if e = Suc c then seq_at (Suc c) else seq_at e)"
    "e = n \<or> read' = limit" "dropped1 \<le> dropped'" unfolding sr_loop_ends_def by (elim exE conjE) (rule that)
  moreover from this have "c \<le> e" "read' + dropped' = read + dropped + (e - c)" "dropped \<le> dropped'"
    "cur' = (if e = c then cur else seq_at e)" using assms(2,3) by auto
  ultimately show ?thesis unfolding sr_loop_ends_def by blast
qed

lemma sr_poll_loop_returns:
  assumes "cursor_at c cur" and "c \<le> n" and "n - c < SPAN" and "c = n \<longrightarrow> cur = seq_at n"
    and "sr_safe r" and "sr_hook_ok hook" and "read \<le> limit" and "dropped + (n - c) \<le> U"
  shows "sr_loop_ends n limit c read dropped cur (sr_poll_loop U hook limit (seq_at n) read dropped cur r h)"
  using assms
proof (induction "n - c" arbitrary: c cur read dropped r h)
  case 0
  then have "c = n" "cur = seq_at n" by simp_all
  with 0 show ?case by (auto simp: sr_loop_ends_def sr_poll_loop_end)
next
  case (Suc d)
  have lt: "c < n" using Suc.hyps(2) by simp
  have next_ordinal: "d = n - Suc c" "Suc c \<le> n" "n - Suc c < SPAN" "Suc c = n \<longrightarrow> seq_at (Suc c) = seq_at n"
    using Suc.hyps(2) Suc.prems(3) by auto
  note IH = Suc.hyps(1) [OF next_ordinal(1) cursor_at_seq_at next_ordinal(2-4) _ Suc.prems(6)]
  note round = sr_poll_loop_round [OF Suc.prems(1) lt Suc.prems(3,5)]
  show ?case
  proof (cases "read < limit")
    case False
    with Suc.prems(5,7) lt show ?thesis by (auto simp: round sr_loop_ends_def)
  next
    case True
    show ?thesis
    proof (cases "sr_value r (seq_at (Suc c))")
      case None
      have "sat_add U dropped 1 = dropped + 1" "dropped + 1 + (n - Suc c) \<le> U"
        using Suc.prems(8) lt by (simp_all add: sat_add_exact)
      with IH [OF Suc.prems(5,7), of "dropped + 1" h] True None show ?thesis
        by (simp only: round) (simp add: sr_loop_ends_round)
    next
      case (Some v)
      obtain r1 h1 where "hook (seq_at (Suc c)) v (r, h) = Some (r1, h1)" "sr_safe r1"
        using Suc.prems(5,6) unfolding sr_hook_ok_def by blast
      moreover have "dropped + (n - Suc c) \<le> U" "read + 1 \<le> limit" using Suc.prems(8) True by auto
      ultimately show ?thesis using IH [of r1 "read + 1" dropped h1] True Some
        by (simp only: round) (simp add: sr_loop_ends_round)
    qed
  qed
qed

section \<open>The whole call\<close>

text \<open>What the call does before its loop: the lag, the jump and the drops it books.\<close>

lemma sr_poll_unfold:
  assumes safe: "sr_safe r" and newest: "sr_newest_seq r = seq_at n"
    and c: "cursor_at c (sc_last_seq con)" "c < n" "n - c < SPAN"
    and limit: "0 < limit" and U: "SPAN \<le> U"
  shows "\<exists>cur. cursor_at (sr_start (sr_capacity r) c n) cur \<and>
    sr_poll_up_to U con r limit hook h = do {
      (read, dropped, cur', r', h') \<leftarrow>
        sr_poll_loop U hook limit (seq_at n) 0 (sr_start (sr_capacity r) c n - c) cur r h;
      Some (\<lparr>ps_read = read, ps_dropped = dropped, ps_newest = seq_at n\<rparr>,
        con\<lparr>sc_last_seq := cur', sc_dropped_accum := sat_add U (sc_dropped_accum con) dropped\<rparr>, r', h')
    }"
proof -
  let ?N = "sr_capacity r"
  have N: "0 < ?N" using safe by (simp add: sr_safe_def)
  have ne: "seq_at n \<noteq> 0" "seq_at n \<noteq> sc_last_seq con"
    using c seq_at_inj_near [of c n] by (cases "c = 0"; auto simp: cursor_at_def)+
  have lag: "unat (sr_seq_distance (sc_last_seq con) (seq_at n)) = n - c"
    by (rule sr_seq.dist_cursor [OF c])
  show ?thesis
  proof (cases "?N < n - c")
    case False
    then have "sr_start ?N c n = c" by (simp add: sr_start_def)
    with False show ?thesis using limit ne c(1)
      by (intro exI [of _ "sc_last_seq con"]) (simp add: sr_poll_up_to_def newest lag Let_def)
  next
    case True
    define cur where "cur = seq_at n - of_nat (?N - 1) - 1"
    have start: "sr_start ?N c n = sr_resume ?N n" using True by (simp add: sr_start_def)
    have bounds: "c < sr_resume ?N n" "sr_resume ?N n < n"
      using sr_resume_bounds(1) [OF N True] sr_resume_less [OF N] True by auto
    have cur: "cursor_at (sr_resume ?N n) cur"
      unfolding cur_def by (rule resume_cursor) (use N True c in auto)
    have "unat (sr_seq_distance (sc_last_seq con) cur) = sr_resume ?N n - c"
      by (rule sr_seq.dist_cursors [OF c(1) cur]) (use bounds c in auto)
    moreover have "sat_add U 0 (sr_resume ?N n - c) = sr_resume ?N n - c"
      using bounds c U by (simp add: sat_add_exact)
    ultimately show ?thesis using True limit ne cur
      by (intro exI [of _ cur]) (simp add: sr_poll_up_to_def newest lag Let_def start cur_def)
  qed
qed

text \<open>
  Under every hook the call returns; \<open>read + dropped\<close> is the number of ordinals the cursor advanced
  past, and the cursor ends fewer than \<open>N\<close> behind the newest publication of the entry.
\<close>

lemma sr_poll_accounts:
  assumes safe: "sr_safe r" and newest: "sr_newest_seq r = seq_at n"
    and c: "cursor_at c (sc_last_seq con)" "c < n" "n - c < SPAN"
    and limit: "0 < limit" and U: "SPAN \<le> U" and hook: "sr_hook_ok hook"
  shows "\<exists>st con' r' h' e. sr_poll_up_to U con r limit hook h = Some (st, con', r', h')
    \<and> sr_safe r' \<and> ps_newest st = seq_at n \<and> c < e \<and> e \<le> n \<and> n < e + sr_capacity r
    \<and> sc_last_seq con' = seq_at e \<and> ps_read st + ps_dropped st = e - c \<and> ps_read st \<le> limit
    \<and> (e = n \<or> ps_read st = limit)
    \<and> sc_dropped_accum con' = sat_add U (sc_dropped_accum con) (ps_dropped st)"
proof -
  let ?N = "sr_capacity r" let ?j = "sr_start ?N c n"
  have N: "0 < ?N" using safe by (simp add: sr_safe_def)
  note j = sr_start_bounds [OF N c(2)]
  obtain cur where cur: "cursor_at ?j cur" and unfold: "sr_poll_up_to U con r limit hook h = do {
      (read, dropped, cur', r', h') \<leftarrow> sr_poll_loop U hook limit (seq_at n) 0 (?j - c) cur r h;
      Some (\<lparr>ps_read = read, ps_dropped = dropped, ps_newest = seq_at n\<rparr>,
        con\<lparr>sc_last_seq := cur', sc_dropped_accum := sat_add U (sc_dropped_accum con) dropped\<rparr>, r', h')
    }" using sr_poll_unfold [OF safe newest c limit U, of hook h]
    by (elim exE conjE) (rule that, assumption+)
  have pre: "?j \<le> n" "n - ?j < SPAN" "?j = n \<longrightarrow> cur = seq_at n"
    and le0: "0 \<le> limit" and room: "?j - c + (n - ?j) \<le> U"
    using j c U by linarith+
  obtain e read dropped cur' r' h' where loop:
    "sr_poll_loop U hook limit (seq_at n) 0 (?j - c) cur r h = Some (read, dropped, cur', r', h')"
    "sr_safe r'" "?j \<le> e" "e \<le> n" "read \<le> limit" "read + dropped = 0 + (?j - c) + (e - ?j)"
    "cur' = (if e = ?j then cur else seq_at e)" "e = n \<or> read = limit" "?j - c \<le> dropped"
    using sr_poll_loop_returns [OF cur pre safe hook le0 room, of h] unfolding sr_loop_ends_def
    by (elim exE conjE) (rule that, assumption+)
  have "e \<noteq> ?j" using loop(6,8,9) limit j(2) by auto
  then have "c < e" "n < e + ?N" "cur' = seq_at e" using loop(3,7) j by auto
  moreover have "read + dropped = e - c" using loop(3,6) j(1) by simp
  ultimately show ?thesis using loop by (auto simp: unfold)
qed

text \<open>
  When the newest publication is a whole number of spans ahead of the cursor, the call takes its
  nothing-new return: nothing is read and nothing is reported as dropped.
\<close>

lemma sr_poll_alias:
  assumes "sr_newest_seq r = seq_at n" and "sc_last_seq con = seq_at c" and "0 < c"
    and "n = c + k * SPAN"
  shows "sr_poll_up_to U con r limit hook h
    = Some (\<lparr>ps_read = 0, ps_dropped = 0, ps_newest = sr_newest_seq r\<rparr>, con, r, h)"
proof -
  have "seq_at n = seq_at c"
    using assms(3,4) by (cases c) (auto simp: seq_at_Suc_eq_iff)
  with assms(1,2) show ?thesis by (simp add: sr_poll_up_to_def Let_def)
qed

section \<open>What is delivered, under a hook that leaves the ring alone\<close>

definition sr_pure_hook ::
  "(u32 \<Rightarrow> 'a \<Rightarrow> 'h \<Rightarrow> 'h) \<Rightarrow> u32 \<Rightarrow> 'a \<Rightarrow> 'a seq_ring \<times> 'h \<Rightarrow> ('a seq_ring \<times> 'h) exec" where
  "sr_pure_hook f s v rh = Some (fst rh, f s v (snd rh))"

text \<open>
  The specification of the loop: walk over the ordinals, deliver a value that can be read, count one
  that cannot, stop after \<open>k\<close> deliveries.
\<close>

fun sr_drain :: "(nat \<Rightarrow> 'a option) \<Rightarrow> nat \<Rightarrow> nat list \<Rightarrow> (nat \<times> 'a) list \<times> nat \<times> nat list" where
  "sr_drain rd k [] = ([], 0, [])"
| "sr_drain rd 0 (m # ms) = ([], 0, m # ms)"
| "sr_drain rd (Suc k) (m # ms) =
     (case rd m of
        Some v \<Rightarrow> (case sr_drain rd k ms of (d, x, rest) \<Rightarrow> ((m, v) # d, x, rest))
      | None \<Rightarrow> (case sr_drain rd (Suc k) ms of (d, x, rest) \<Rightarrow> (d, Suc x, rest)))"

lemma sr_drain_0 [simp]: "sr_drain rd 0 ms = ([], 0, ms)"
  by (cases ms) auto

lemma sr_drain_all:
  "\<forall>m \<in> set ms. rd m = Some (val m) \<Longrightarrow>
     sr_drain rd k ms = (map (\<lambda>m. (m, val m)) (take k ms), 0, drop k ms)"
  by (induction rd k ms rule: sr_drain.induct) auto

text \<open>Delivered values were readable, in increasing order, and everything consumed is accounted for.\<close>

lemma sr_drain_Cons_Some:
  assumes "sr_drain rd (Suc k) (m # ms) = (d, x, rest)" and "rd m = Some v"
  obtains d0 where "d = (m, v) # d0" and "sr_drain rd k ms = (d0, x, rest)"
  using assms by (cases "sr_drain rd k ms") auto

lemma sr_drain_Cons_None:
  assumes "sr_drain rd (Suc k) (m # ms) = (d, x, rest)" and "rd m = None"
  obtains x0 where "x = Suc x0" and "sr_drain rd (Suc k) ms = (d, x0, rest)"
  using assms by (cases "sr_drain rd (Suc k) ms") auto

lemma sr_drain_sound:
  "sr_drain rd k ms = (d, x, rest) \<Longrightarrow> (m, v) \<in> set d \<Longrightarrow> m \<in> set ms \<and> rd m = Some v"
proof (induction rd k ms arbitrary: d x rest rule: sr_drain.induct)
  case (3 rd k m' ms)
  show ?case
  proof (cases "rd m'")
    case None
    then obtain x0 where "sr_drain rd (Suc k) ms = (d, x0, rest)"
      by (rule sr_drain_Cons_None [OF "3.prems"(1)])
    with "3.IH"(1) [OF None] "3.prems"(2) show ?thesis by auto
  next
    case (Some v')
    obtain d0 where "d = (m', v') # d0" and "sr_drain rd k ms = (d0, x, rest)"
      by (rule sr_drain_Cons_Some [OF "3.prems"(1) Some])
    with "3.IH"(2) [OF Some] "3.prems"(2) Some show ?thesis by auto
  qed
qed auto

lemma sr_drain_sorted:
  "sr_drain rd k ms = (d, x, rest) \<Longrightarrow> sorted_wrt (<) ms \<Longrightarrow> sorted_wrt (<) (map fst d)"
proof (induction rd k ms arbitrary: d x rest rule: sr_drain.induct)
  case (3 rd k m ms)
  show ?case
  proof (cases "rd m")
    case None
    then obtain x0 where "sr_drain rd (Suc k) ms = (d, x0, rest)"
      by (rule sr_drain_Cons_None [OF "3.prems"(1)])
    with "3.IH"(1) [OF None] "3.prems"(2) show ?thesis by auto
  next
    case (Some v)
    obtain d0 where d: "d = (m, v) # d0" and d0: "sr_drain rd k ms = (d0, x, rest)"
      by (rule sr_drain_Cons_Some [OF "3.prems"(1) Some])
    have "sorted_wrt (<) (map fst d0)" using "3.IH"(2) [OF Some d0] "3.prems"(2) by simp
    moreover have "m < m'" if "(m', v') \<in> set d0" for m' v'
      using sr_drain_sound [OF d0 that] "3.prems"(2) by auto
    ultimately show ?thesis by (auto simp: d)
  qed
qed auto

lemma sr_drain_progress:
  assumes "sr_drain rd k (m # ms) = (d, x, rest)" and "0 < k"
  shows "d \<noteq> [] \<or> x \<noteq> 0"
proof (cases "rd m")
  case None
  with assms show ?thesis by (cases k) (auto split: prod.splits)
next
  case (Some v)
  with assms show ?thesis by (cases k) (auto split: prod.splits)
qed

lemma sr_drain_length: "sr_drain rd k ms = (d, x, rest) \<Longrightarrow> length d + x + length rest = length ms"
  by (induction rd k ms arbitrary: d x rest rule: sr_drain.induct)
    (auto split: option.splits prod.splits)

lemma sr_poll_loop_drain:
  assumes "cursor_at c cur" and "c \<le> n" and "n - c < SPAN" and "c = n \<longrightarrow> cur = seq_at n"
    and "sr_safe r" and "dropped + (n - c) \<le> U"
    and "sr_drain (\<lambda>m. sr_value r (seq_at m)) (limit - read) [Suc c..<Suc n] = (d, x, rest)"
  shows "sr_poll_loop U (sr_pure_hook f) limit (seq_at n) read dropped cur r h
    = Some (read + length d, dropped + x,
        (if read < limit \<and> c < n then seq_at (n - length rest) else cur), r,
        fold (\<lambda>(m, v). f (seq_at m) v) d h)"
  using assms
proof (induction "n - c" arbitrary: c cur read dropped h d x)
  case 0
  then have "c = n" "cur = seq_at n" by simp_all
  with 0 show ?case by (simp add: sr_poll_loop_end)
next
  case (Suc k)
  have lt: "c < n" using Suc.hyps(2) by simp
  have next_ordinal: "k = n - Suc c" "Suc c \<le> n" "n - Suc c < SPAN" "Suc c = n \<longrightarrow> seq_at (Suc c) = seq_at n"
    using Suc.hyps(2) Suc.prems(3) by auto
  note IH = Suc.hyps(1) [OF next_ordinal(1) cursor_at_seq_at next_ordinal(2-4) Suc.prems(5)]
  note round = sr_poll_loop_round [OF Suc.prems(1) lt Suc.prems(3,5)]
  have upt: "[Suc c..<Suc n] = Suc c # [Suc (Suc c)..<Suc n]" using lt by (simp add: upt_conv_Cons)
  show ?case
  proof (cases "read < limit")
    case False
    with Suc.prems(7) show ?thesis by (simp add: round)
  next
    case True
    then obtain b where b: "limit - read = Suc b" "limit - (read + 1) = b" by (cases "limit - read") auto
    have stop: "rest = [Suc (Suc c)..<Suc n] \<Longrightarrow> seq_at (n - length rest) = seq_at (Suc c)"
      using lt by (simp del: upt_Suc)
    show ?thesis
    proof (cases "sr_value r (seq_at (Suc c))")
      case None
      obtain x0 where x0: "x = Suc x0"
        "sr_drain (\<lambda>m. sr_value r (seq_at m)) (limit - read) [Suc (Suc c)..<Suc n] = (d, x0, rest)"
        using sr_drain_Cons_None [OF Suc.prems(7) [unfolded upt b(1)] None] unfolding b(1) by blast
      have "sat_add U dropped 1 = dropped + 1" "dropped + 1 + (n - Suc c) \<le> U"
        using Suc.prems(6) lt by (simp_all add: sat_add_exact)
      moreover have "seq_at (n - length rest) = seq_at (Suc c)" if "\<not> Suc c < n" using that lt x0(2) stop by simp
      ultimately show ?thesis using IH [OF _ x0(2), of "dropped + 1" h] True None lt x0(1)
        by (simp only: round) (auto simp del: upt_Suc)
    next
      case (Some v)
      obtain d0 where d0: "d = (Suc c, v) # d0"
        "sr_drain (\<lambda>m. sr_value r (seq_at m)) (limit - (read + 1)) [Suc (Suc c)..<Suc n] = (d0, x, rest)"
        using sr_drain_Cons_Some [OF Suc.prems(7) [unfolded upt b(1)] Some] unfolding b(2) by blast
      have "dropped + (n - Suc c) \<le> U" using Suc.prems(6) lt by simp
      moreover have "rest = [Suc (Suc c)..<Suc n]" if "\<not> (read + 1 < limit \<and> Suc c < n)"
        using that b lt d0(2) by (cases "Suc c = n") auto
      then have "seq_at (n - length rest) = seq_at (Suc c)" if "\<not> (read + 1 < limit \<and> Suc c < n)"
        using that stop by blast
      ultimately show ?thesis using IH [OF _ d0(2), of dropped "f (seq_at (Suc c)) v h"] True Some lt d0(1)
        by (simp only: round) (auto simp: sr_pure_hook_def simp del: upt_Suc)
    qed
  qed
qed

section \<open>The whole call under a pure hook\<close>

lemma sr_poll_drain:
  assumes safe: "sr_safe r" and newest: "sr_newest_seq r = seq_at n"
    and c: "cursor_at c (sc_last_seq con)" "c < n" "n - c < SPAN"
    and limit: "0 < limit" and U: "SPAN \<le> U"
    and drain: "sr_drain (\<lambda>m. sr_value r (seq_at m)) limit [Suc (sr_start (sr_capacity r) c n)..<Suc n]
      = (d, x, rest)"
  shows "sr_poll_up_to U con r limit (sr_pure_hook f) h
    = Some (\<lparr>ps_read = length d, ps_dropped = sr_start (sr_capacity r) c n - c + x,
          ps_newest = seq_at n\<rparr>,
        con\<lparr>sc_last_seq := seq_at (n - length rest), sc_dropped_accum :=
          sat_add U (sc_dropped_accum con) (sr_start (sr_capacity r) c n - c + x)\<rparr>,
        r, fold (\<lambda>(m, v). f (seq_at m) v) d h)"
proof -
  let ?N = "sr_capacity r" let ?j = "sr_start ?N c n"
  have N: "0 < ?N" using safe by (simp add: sr_safe_def)
  note j = sr_start_bounds [OF N c(2)]
  have pre: "?j \<le> n" "n - ?j < SPAN" and room: "?j - c + (n - ?j) \<le> U"
    using j c U by linarith+
  obtain cur where cur: "cursor_at ?j cur" and unfold: "sr_poll_up_to U con r limit (sr_pure_hook f) h = do {
      (read, dropped, cur', r', h') \<leftarrow>
        sr_poll_loop U (sr_pure_hook f) limit (seq_at n) 0 (?j - c) cur r h;
      Some (\<lparr>ps_read = read, ps_dropped = dropped, ps_newest = seq_at n\<rparr>,
        con\<lparr>sc_last_seq := cur', sc_dropped_accum := sat_add U (sc_dropped_accum con) dropped\<rparr>, r', h')
    }" using sr_poll_unfold [OF safe newest c limit U, of "sr_pure_hook f" h]
    by (elim exE conjE) (rule that, assumption+)
  have "?j = n \<longrightarrow> cur = seq_at n" using j(2) by simp
  note loop = sr_poll_loop_drain [OF cur pre(1,2) this safe room,
    of limit 0 d x rest f h, unfolded diff_zero, OF drain]
  show ?thesis using j(2) limit unfolding unfold loop by simp
qed

text \<open>
  For every consumer less than one span behind: a delivered value is the value that was pushed under
  its number, it is live (its slot has not been written again), the numbers increase, and every ordinal
  the cursor passed is either delivered or counted as dropped.
\<close>

lemma sr_poll_sound:
  assumes rep: "sr_rep r hist" and n: "n = length hist"
    and c: "cursor_at c (sc_last_seq con)" "c < n" "n - c < SPAN"
    and limit: "0 < limit" and U: "SPAN \<le> U"
  shows "\<exists>d st con'. sr_poll_up_to U con r limit (sr_pure_hook f) h
      = Some (st, con', r, fold (\<lambda>(m, v). f (seq_at m) v) d h)
    \<and> ps_read st = length d \<and> sorted_wrt (<) (map fst d)
    \<and> (\<forall>(m, v) \<in> set d. c < m \<and> m \<le> n \<and> v = hist ! (m - 1) \<and> sr_live (sr_capacity r) n m)
    \<and> (\<exists>e. c < e \<and> e \<le> n \<and> sc_last_seq con' = seq_at e \<and> ps_read st + ps_dropped st = e - c)"
proof -
  let ?N = "sr_capacity r" let ?j = "sr_start ?N c n"
  have safe: "sr_safe r" and newest: "sr_newest_seq r = seq_at n"
    using rep n by (simp_all add: sr_rep_safe sr_rep_newest)
  have j: "c \<le> ?j" "?j < n"
    using sr_start_bounds [of ?N c n] c(2) safe by (auto simp: sr_safe_def)
  obtain d x rest where drain: "sr_drain (\<lambda>m. sr_value r (seq_at m)) limit [Suc ?j..<Suc n] = (d, x, rest)"
    by (metis prod_cases3)
  have sound: "c < m \<and> m \<le> n \<and> v = hist ! (m - 1) \<and> sr_live ?N n m" if "(m, v) \<in> set d" for m v
  proof -
    from sr_drain_sound [OF drain that] have m: "c < m" "m \<le> n" and v: "sr_value r (seq_at m) = Some v"
      using j by auto
    have "sr_value r (seq_at m) = (if sr_live ?N n m then Some (hist ! (m - 1)) else None)"
      unfolding n by (rule sr_value_rep [OF rep]) (use m c n in auto)
    with m v show ?thesis by (auto split: if_splits)
  qed
  have sorted: "sorted_wrt (<) (map fst d)"
    by (rule sr_drain_sorted [OF drain]) (simp del: upt_Suc)
  have len: "length d + x + length rest = n - ?j"
    using sr_drain_length [OF drain] by (simp del: upt_Suc)
  have "[Suc ?j..<Suc n] = Suc ?j # [Suc (Suc ?j)..<Suc n]" using j by (simp add: upt_conv_Cons)
  then have "d \<noteq> [] \<or> x \<noteq> 0" using sr_drain_progress [OF _ limit] drain by metis
  then have "0 < length d + x" by auto
  then have e: "c < n - length rest" "length d + (?j - c + x) = n - length rest - c"
    using len j by linarith+
  define st where "st = \<lparr>ps_read = length d, ps_dropped = ?j - c + x, ps_newest = seq_at n\<rparr>"
  define con' where "con' = con\<lparr>sc_last_seq := seq_at (n - length rest),
    sc_dropped_accum := sat_add U (sc_dropped_accum con) (?j - c + x)\<rparr>"
  have call: "sr_poll_up_to U con r limit (sr_pure_hook f) h
      = Some (st, con', r, fold (\<lambda>(m, v). f (seq_at m) v) d h)"
    unfolding st_def con'_def by (rule sr_poll_drain [OF safe newest c limit U drain])
  have pos: "n - length rest \<le> n" "sc_last_seq con' = seq_at (n - length rest)"
    and counts: "ps_read st = length d" "ps_read st + ps_dropped st = n - length rest - c"
    using e by (simp_all add: st_def con'_def)
  show ?thesis
    using call counts sorted e(1) pos sound
    by (intro exI [of _ d] exI [of _ st] exI [of _ con'] conjI exI [of _ "n - length rest"]) auto
qed

text \<open>
  On a ring that represents a history and whose window does not straddle the reserved number, the call
  delivers the oldest live values, in order, and misses only what was overwritten.
\<close>

lemma sr_poll_exact:
  assumes rep: "sr_rep r hist" and n: "n = length hist" and seamless: "sr_seamless (sr_capacity r) n"
    and c: "cursor_at c (sc_last_seq con)" "c < n" "n - c < SPAN" and start: "sr_start (sr_capacity r) c n = j"
    and limit: "0 < limit" and U: "SPAN \<le> U"
  shows "sr_poll_up_to U con r limit (sr_pure_hook f) h
    = Some (\<lparr>ps_read = min limit (n - j), ps_dropped = j - c, ps_newest = seq_at n\<rparr>,
        con\<lparr>sc_last_seq := seq_at (j + min limit (n - j)),
          sc_dropped_accum := sat_add U (sc_dropped_accum con) (j - c)\<rparr>,
        r, fold (\<lambda>m. f (seq_at m) (hist ! (m - 1))) [Suc j..<Suc (j + min limit (n - j))] h)"
proof -
  let ?N = "sr_capacity r" let ?val = "\<lambda>m. hist ! (m - 1)"
  have safe: "sr_safe r" and newest: "sr_newest_seq r = seq_at n"
    using rep n by (simp_all add: sr_rep_safe sr_rep_newest)
  have j: "c \<le> j" "j < n" "n \<le> j + ?N"
    using sr_start_bounds [of ?N c n] c(2) safe start by (auto simp: sr_safe_def)
  have live: "\<forall>m \<in> set [Suc j..<Suc n]. sr_value r (seq_at m) = Some (?val m)"
  proof
    fix m assume "m \<in> set [Suc j..<Suc n]"
    then have m: "0 < m" "m \<le> n" "n < m + ?N" "c < m" using j by auto
    have "sr_value r (seq_at m) = (if sr_live ?N n m then Some (?val m) else None)"
      unfolding n by (rule sr_value_rep [OF rep]) (use m c n in auto)
    with sr_live_window [OF seamless m(1-3)] show "sr_value r (seq_at m) = Some (?val m)" by simp
  qed
  have take: "take limit [Suc j..<Suc n] = [Suc j..<Suc (j + min limit (n - j))]"
  proof (cases "limit \<le> n - j")
    case True
    then have "Suc j + limit \<le> Suc n" using j by simp
    then show ?thesis using True by (simp add: take_upt del: upt_Suc)
  next
    case False
    then show ?thesis using j by (simp del: upt_Suc)
  qed
  note drain = sr_drain_all [OF live, of limit]
  have rest: "n - length (drop limit [Suc j..<Suc n]) = j + min limit (n - j)"
    using j by (simp del: upt_Suc)
  have len: "length (map (\<lambda>m. (m, ?val m)) [Suc j..<Suc (j + k)]) = k" for k
    unfolding length_map length_upt by linarith
  have deliver: "fold (\<lambda>(m, v). f (seq_at m) v) (map (\<lambda>m. (m, ?val m)) ms) h
      = fold (\<lambda>m. f (seq_at m) (?val m)) ms h" for ms
    by (simp add: fold_map comp_def)
  show ?thesis
    unfolding sr_poll_drain [OF safe newest c limit U, unfolded start, OF drain, of f h]
      rest take len deliver add_0_right ..
qed

text \<open>A hook that pushes while it is polled.\<close>

definition sr_repush :: "u32 \<Rightarrow> 'a \<Rightarrow> 'a seq_ring \<times> unit \<Rightarrow> ('a seq_ring \<times> unit) exec" where
  "sr_repush s v rh = do { (s', r) \<leftarrow> sr_push (fst rh) v; Some (r, ()) }"

lemma sr_repush_ok: "sr_hook_ok sr_repush"
  unfolding sr_hook_ok_def sr_repush_def
  by (metis (no_types, lifting) sr_push_safe fst_conv bind.bind_lunit case_prod_conv)

end
