(* ===== verification/SeqRing_Api.thy ===== *)
theory SeqRing_Api
  imports SeqRing_Poll
begin

text \<open>
  The remaining operations of \<open>SeqRing\<close> in terms of its history: \<open>poll_one_value\<close>, \<open>latest\<close>,
  \<open>skip_to_latest\<close>; and its two trait contracts: the producer is a sink that never refuses and keeps
  the last \<open>N\<close> values, the consumer a source of the values it has still to read.
\<close>

section \<open>One value at a time\<close>

lemma sr_poll_one_pure:
  "sr_poll_one U con r (sr_pure_hook f) h = do {
     (stats, con', r', armed, h') \<leftarrow> sr_poll_up_to U con r 1
       (sr_pure_hook (\<lambda>s v (armed, h). if armed then (False, f s v h) else (armed, h))) (True, h);
     Some (ps_read stats = 1, con', r', h')
   }"
proof -
  have "(\<lambda>seq v (r, armed, h).
          if armed then do { (r', h') \<leftarrow> sr_pure_hook f seq v (r, h); Some (r', False, h') }
          else Some (r, armed, h))
      = sr_pure_hook (\<lambda>s v (armed, h). if armed then (False, f s v h) else (armed, h))"
    by (auto simp: sr_pure_hook_def fun_eq_iff)
  then show ?thesis by (simp add: sr_poll_one_def)
qed

lemma sr_poll_one_exact:
  assumes rep: "sr_rep r hist" and n: "n = length hist" and seamless: "sr_seamless (sr_capacity r) n"
    and c: "cursor_at c (sc_last_seq con)" "c < n" "n - c < SPAN"
    and start: "sr_start (sr_capacity r) c n = j" and U: "SPAN \<le> U"
  shows "sr_poll_one U con r (sr_pure_hook f) h
    = Some (True, con\<lparr>sc_last_seq := seq_at (Suc j),
          sc_dropped_accum := sat_add U (sc_dropped_accum con) (j - c)\<rparr>,
        r, f (seq_at (Suc j)) (hist ! j) h)"
proof -
  have "0 < sr_capacity r" using rep by (simp add: sr_rep_def)
  then have "j < n" using sr_start_bounds(2) c(2) start by blast
  then have "min 1 (n - j) = 1" by simp
  then show ?thesis
    unfolding sr_poll_one_pure sr_poll_exact [OF rep n seamless c start zero_less_one U]
    by simp
qed

text \<open>With nothing new, nothing changes.\<close>

lemma sr_poll_nothing_new:
  assumes "sr_newest_seq r = 0 \<or> sr_newest_seq r = sc_last_seq con"
  shows "sr_poll_up_to U con r limit hook h
    = Some (\<lparr>ps_read = 0, ps_dropped = 0, ps_newest = sr_newest_seq r\<rparr>, con, r, h)"
  using assms by (simp add: sr_poll_up_to_def Let_def)

lemma sr_poll_one_value_pure:
  fixes r :: "'a seq_ring"
  shows "sr_poll_one_value U con r = do {
     (delivered, con', r', result) \<leftarrow> sr_poll_one U con r (sr_pure_hook (\<lambda>s v _. Some (s, v))) None;
     Some (result, con', r')
   }"
proof -
  have "(\<lambda>seq v (r :: 'a seq_ring, result). Some (r, Some (seq, v))) = sr_pure_hook (\<lambda>s v _. Some (s, v))"
    by (auto simp: sr_pure_hook_def fun_eq_iff)
  then show ?thesis unfolding sr_poll_one_value_def by (simp only:)
qed

lemma sr_poll_one_value_exact:
  assumes "sr_rep r hist" and "n = length hist" and "sr_seamless (sr_capacity r) n"
    and "cursor_at c (sc_last_seq con)" "c < n" "n - c < SPAN"
    and "sr_start (sr_capacity r) c n = j" and "SPAN \<le> U"
  shows "sr_poll_one_value U con r
    = Some (Some (seq_at (Suc j), hist ! j),
        con\<lparr>sc_last_seq := seq_at (Suc j),
          sc_dropped_accum := sat_add U (sc_dropped_accum con) (j - c)\<rparr>, r)"
  unfolding sr_poll_one_value_pure sr_poll_one_exact [OF assms] by simp

lemma sr_poll_one_value_nothing:
  assumes "sr_newest_seq r = 0 \<or> sr_newest_seq r = sc_last_seq con"
  shows "sr_poll_one_value U con r = Some (None, con, r)"
  unfolding sr_poll_one_value_pure sr_poll_one_pure sr_poll_nothing_new [OF assms] by simp

section \<open>The newest value\<close>

text \<open>The last push is always live, so \<open>latest\<close> sees it as soon as there is one.\<close>

lemma sr_live_newest: "0 < n \<Longrightarrow> sr_live N n n"
  by (simp add: sr_live_iff)

lemma sr_latest_exact:
  assumes rep: "sr_rep r hist"
  shows "sr_latest r hook h = (if hist = [] then Some (False, r, h) else do {
    (r', h') \<leftarrow> hook (seq_at (length hist)) (last hist) (r, h); Some (True, r', h') })"
proof (cases "hist = []")
  case True
  with rep show ?thesis by (simp add: sr_latest_def sr_rep_newest)
next
  case False
  then have pos: "0 < length hist" by simp
  have "sr_value r (seq_at (length hist))
      = (if sr_live (sr_capacity r) (length hist) (length hist) then Some (hist ! (length hist - 1)) else None)"
    by (rule sr_value_rep [OF rep pos]) simp_all
  then have "sr_value r (seq_at (length hist)) = Some (last hist)"
    using pos False by (simp add: sr_live_newest last_conv_nth)
  then show ?thesis using False rep
    by (simp add: sr_latest_def sr_rep_newest sr_read_value [OF sr_rep_safe] Let_def)
qed

lemma sr_latest_value_exact:
  "sr_rep r hist \<Longrightarrow> sr_latest_value r
     = Some (if hist = [] then None else Some (seq_at (length hist), last hist))"
  by (simp add: sr_latest_value_def sr_latest_exact)

text \<open>
  After \<open>skip_to_latest\<close> the next poll delivers exactly the newest value and reports no drops: the
  cursor is one before the newest, on 0 when the newest number is 1.
\<close>

lemma sr_skip_cursor:
  assumes "sr_newest_seq r = seq_at n" and "0 < n"
  shows "cursor_at (n - 1) (sc_last_seq (sr_skip_to_latest con r))"
proof -
  obtain m where m: "n = Suc m" using assms(2) by (cases n) auto
  have "seq_at (Suc m) - 1 = of_nat (m mod SPAN)" by (simp add: seq_at_def)
  moreover have "cursor_at m (of_nat (m mod SPAN))"
  proof (cases "m mod SPAN = 0")
    case False
    then obtain k where k: "m = Suc k" by (cases m) auto
    have "Suc k mod SPAN = Suc (k mod SPAN)" using False k by (auto simp: mod_Suc split: if_splits)
    then have "seq_at m = of_nat (m mod SPAN)" by (simp add: k seq_at_def)
    then show ?thesis by (simp add: cursor_at_def)
  qed (simp add: cursor_at_def)
  ultimately show ?thesis using assms by (simp add: sr_skip_to_latest_def m Let_def)
qed

lemma sr_skip_then_poll:
  assumes rep: "sr_rep r hist" and ne: "hist \<noteq> []" and U: "SPAN \<le> U"
  shows "sr_poll_one_value U (sr_skip_to_latest con r) r
    = Some (Some (seq_at (length hist), last hist),
        con\<lparr>sc_last_seq := seq_at (length hist),
          sc_dropped_accum := sat_add U (sc_dropped_accum con) 0\<rparr>, r)"
proof -
  let ?con = "sr_skip_to_latest con r"
  obtain m where m: "length hist = Suc m" using ne by (cases hist) auto
  have newest: "sr_newest_seq r = seq_at (Suc m)" and safe: "sr_safe r"
    using rep m by (simp_all add: sr_rep_newest sr_rep_safe)
  have c: "cursor_at m (sc_last_seq ?con)" using sr_skip_cursor [OF newest] by simp
  have start: "sr_start (sr_capacity r) m (Suc m) = m"
    using safe by (simp add: sr_start_def sr_safe_def)
  have "sr_value r (seq_at (length hist))
      = (if sr_live (sr_capacity r) (length hist) (length hist) then Some (hist ! (length hist - 1)) else None)"
    by (rule sr_value_rep [OF rep]) (use m in simp_all)
  then have v: "sr_value r (seq_at (Suc m)) = Some (last hist)"
    using m ne by (simp add: sr_live_newest last_conv_nth)
  have drain: "sr_drain (\<lambda>m. sr_value r (seq_at m)) 1
      [Suc (sr_start (sr_capacity r) m (Suc m))..<Suc (Suc m)] = ([(Suc m, last hist)], 0, [])"
    using sr_drain_all [of "[Suc m]" "\<lambda>m. sr_value r (seq_at m)" "\<lambda>_. last hist" 1]
    by (simp add: start v)
  have "Suc m - m < SPAN" by (simp add: SPAN_eq)
  note poll = sr_poll_drain [OF safe newest c _ this zero_less_one U drain]
  show ?thesis
    unfolding sr_poll_one_value_pure sr_poll_one_pure poll [OF lessI]
    by (simp add: start m) (simp add: sr_skip_to_latest_def Let_def)
qed

section \<open>The consumer as a source\<close>

text \<open>Where the next poll starts, and the values it and the following ones will deliver.\<close>

definition sr_start_cursor :: "sr_consumer \<Rightarrow> 'a seq_ring \<Rightarrow> u32" where
  "sr_start_cursor con r =
     (if sr_capacity r < unat (sr_seq_distance (sc_last_seq con) (sr_newest_seq r))
      then sr_newest_seq r - of_nat (sr_capacity r - 1) - 1 else sc_last_seq con)"

definition sr_avail :: "sr_consumer \<times> 'a seq_ring \<Rightarrow> 'a list" where
  "sr_avail cr = (case cr of (con, r) \<Rightarrow>
     map (\<lambda>k. the (sr_value r ((sr_next_after ^^ Suc k) (sr_start_cursor con r))))
       [0..<unat (sr_seq_distance (sr_start_cursor con r) (sr_newest_seq r))])"

text \<open>The consumer is at ordinal \<open>c\<close> of a ring with history \<open>hist\<close>, less than a span behind.\<close>

definition sr_at :: "'a list \<Rightarrow> nat \<Rightarrow> sr_consumer \<times> 'a seq_ring \<Rightarrow> bool" where
  "sr_at hist c cr \<longleftrightarrow> sr_rep (snd cr) hist \<and> cursor_at c (sc_last_seq (fst cr)) \<and> c \<le> length hist \<and>
     length hist - c < SPAN \<and> sr_seamless (sr_capacity (snd cr)) (length hist) \<and>
     (c = length hist \<longrightarrow> sc_last_seq (fst cr) = seq_at c)"

lemma nxt_pow_cursor: "cursor_at c s \<Longrightarrow> (sr_next_after ^^ Suc k) s = seq_at (Suc (c + k))"
  by (induction k) (auto simp: sr_seq.nxt_cursor sr_seq.nxt_seq_at)

lemma sr_start_cursor_at:
  assumes "sr_at hist c (con, r)" and "c < length hist"
  shows "cursor_at (sr_start (sr_capacity r) c (length hist)) (sr_start_cursor con r)"
proof -
  have newest: "sr_newest_seq r = seq_at (length hist)" and N: "0 < sr_capacity r"
    and c: "cursor_at c (sc_last_seq con)" "length hist - c < SPAN"
    using assms(1) by (simp_all add: sr_at_def sr_rep_newest sr_rep_def)
  have lag: "unat (sr_seq_distance (sc_last_seq con) (seq_at (length hist))) = length hist - c"
    by (rule sr_seq.dist_cursor [OF c(1) assms(2) c(2)])
  show ?thesis
  proof (cases "sr_capacity r < length hist - c")
    case True
    then have "cursor_at (sr_resume (sr_capacity r) (length hist))
        (seq_at (length hist) - of_nat (sr_capacity r - 1) - 1)"
      using resume_cursor [OF N] c(2) by simp
    with True show ?thesis by (simp add: sr_start_cursor_def sr_start_def newest lag)
  qed (use c in \<open>simp add: sr_start_cursor_def sr_start_def newest lag\<close>)
qed

lemma sr_avail_eq:
  assumes at: "sr_at hist c (con, r)"
  shows "sr_avail (con, r) = (if c = length hist then []
    else drop (sr_start (sr_capacity r) c (length hist)) hist)"
proof (cases "c = length hist")
  case True
  moreover have "sr_newest_seq r = seq_at (length hist)" "sc_last_seq con = seq_at c"
    using at True by (auto simp: sr_at_def sr_rep_newest)
  ultimately show ?thesis by (simp add: sr_avail_def sr_start_cursor_def)
next
  case False
  let ?n = "length hist" let ?N = "sr_capacity r" let ?j = "sr_start ?N c ?n"
  have lt: "c < ?n" and rep: "sr_rep r hist" and near: "?n - c < SPAN" and sl: "sr_seamless ?N ?n"
    using at False by (auto simp: sr_at_def)
  have N: "0 < ?N" using rep by (simp add: sr_rep_def)
  note j = sr_start_bounds [OF N lt]
  note cur = sr_start_cursor_at [OF at lt]
  have "unat (sr_seq_distance (sr_start_cursor con r) (sr_newest_seq r)) = ?n - ?j"
    unfolding sr_rep_newest [OF rep] by (rule sr_seq.dist_cursor [OF cur j(2)]) (use j near in linarith)
  moreover have "the (sr_value r (seq_at (Suc (?j + k)))) = hist ! (?j + k)" if "k < ?n - ?j" for k
  proof -
    have m: "0 < Suc (?j + k)" "Suc (?j + k) \<le> ?n" "?n < Suc (?j + k) + ?N" "?n - Suc (?j + k) < SPAN"
      using that j near by auto
    then show ?thesis
      using sr_value_rep [OF rep m(1,2,4)] sr_live_window [OF sl m(1-3)] by simp
  qed
  ultimately show ?thesis using False j
    by (intro nth_equalityI) (simp_all add: sr_avail_def nxt_pow_cursor [OF cur] del: funpow.simps)
qed

definition sr_source_ok :: "usize \<Rightarrow> sr_consumer \<times> 'a seq_ring \<Rightarrow> bool" where
  "sr_source_ok U cr \<longleftrightarrow> SPAN \<le> U \<and> (\<exists>hist c. sr_at hist c cr)"

lemma sr_at_pop:
  assumes at: "sr_at hist c (con, r)" and lt: "c < length hist" and U: "SPAN \<le> U"
  shows "\<exists>con'. sr_try_pop U (con, r) = Some (Some (hist ! sr_start (sr_capacity r) c (length hist)), con', r)
    \<and> sr_at hist (Suc (sr_start (sr_capacity r) c (length hist))) (con', r)
    \<and> sr_avail (con', r) = drop (Suc (sr_start (sr_capacity r) c (length hist))) hist"
proof -
  let ?n = "length hist" let ?N = "sr_capacity r" let ?j = "sr_start ?N c ?n"
  have rep: "sr_rep r hist" and near: "?n - c < SPAN" and sl: "sr_seamless ?N ?n"
    and cur: "cursor_at c (sc_last_seq con)" using at by (auto simp: sr_at_def)
  have N: "0 < ?N" using rep by (simp add: sr_rep_def)
  note j = sr_start_bounds [OF N lt]
  define con' where "con' = con\<lparr>sc_last_seq := seq_at (Suc ?j),
    sc_dropped_accum := sat_add U (sc_dropped_accum con) (?j - c)\<rparr>"
  have pop: "sr_try_pop U (con, r) = Some (Some (hist ! ?j), con', r)"
    using sr_poll_one_value_exact [OF rep refl sl cur lt near refl U]
    by (simp add: sr_try_pop_def con'_def)
  have at': "sr_at hist (Suc ?j) (con', r)"
    using rep sl j near by (auto simp: sr_at_def con'_def)
  have "\<not> ?N < ?n - Suc ?j" using j by linarith
  then have "sr_start ?N (Suc ?j) ?n = Suc ?j" by (simp only: sr_start_def if_False)
  with sr_avail_eq [OF at'] have "sr_avail (con', r) = drop (Suc ?j) hist" using j by auto
  with pop at' show ?thesis by blast
qed

interpretation sr_source: source "sr_try_pop U" sr_avail "sr_source_ok U" for U
proof
  fix s :: "sr_consumer \<times> 'a seq_ring"
  assume "sr_source_ok U s" and empty: "sr_avail s = []"
  then obtain hist c con r where s: "s = (con, r)" and at: "sr_at hist c (con, r)" and U: "SPAN \<le> U"
    by (cases s) (auto simp: sr_source_ok_def)
  have "c = length hist"
  proof (rule ccontr)
    assume "c \<noteq> length hist"
    moreover from this at have "sr_start (sr_capacity r) c (length hist) < length hist"
      by (intro sr_start_bounds) (auto simp: sr_at_def sr_rep_def)
    ultimately show False using empty sr_avail_eq [OF at] by (simp add: s)
  qed
  with at have "sr_poll_one_value U con r = Some (None, con, r)"
    by (intro sr_poll_one_value_nothing) (simp add: sr_at_def sr_rep_newest)
  then show "\<exists>s'. sr_try_pop U s = Some (None, s') \<and> sr_source_ok U s' \<and> sr_avail s' = []"
    using \<open>sr_source_ok U s\<close> empty by (auto simp: s sr_try_pop_def)
next
  fix s :: "sr_consumer \<times> 'a seq_ring" and x xs
  assume "sr_source_ok U s" and some: "sr_avail s = x # xs"
  then obtain hist c con r where s: "s = (con, r)" and at: "sr_at hist c (con, r)" and U: "SPAN \<le> U"
    by (cases s) (auto simp: sr_source_ok_def)
  let ?j = "sr_start (sr_capacity r) c (length hist)"
  have lt: "c < length hist" using at some sr_avail_eq [OF at] by (auto simp: s sr_at_def split: if_splits)
  then have "?j < length hist" using at by (intro sr_start_bounds) (auto simp: sr_at_def sr_rep_def)
  then have "x = hist ! ?j" and "xs = drop (Suc ?j) hist"
    using some sr_avail_eq [OF at] lt by (auto simp: s Cons_nth_drop_Suc [symmetric])
  with sr_at_pop [OF at lt U] U
  show "\<exists>s'. sr_try_pop U s = Some (Some x, s') \<and> sr_source_ok U s' \<and> sr_avail s' = xs"
    unfolding s sr_source_ok_def by blast
qed

section \<open>The producer as a sink\<close>

text \<open>
  The published slots, oldest first: the slot the next push takes holds the oldest value. When \<open>N\<close>
  divides the span this is the window of the last \<open>N\<close> values for ever, across every wrap of the numbers.
\<close>

definition sr_window :: "'a seq_ring \<Rightarrow> 'a list" where
  "sr_window r = map (\<lambda>i. the (sr_slots r ! i)) (filter (\<lambda>i. sr_slot_seq r ! i \<noteq> 0)
     (rotate (sr_idx_for (sr_capacity r) (sr_next_after (sr_newest_seq r))) [0..<sr_capacity r]))"

definition sr_sink_ok :: "'a seq_ring \<Rightarrow> bool" where
  "sr_sink_ok r \<longleftrightarrow> sr_capacity r dvd SPAN \<and> (\<exists>hist. sr_rep r hist)"

lemma sr_slot_of_dvd: "N dvd SPAN \<Longrightarrow> sr_slot_of N (Suc m) = m mod N"
  by (simp add: sr_slot_of_Suc mod_mod_cancel)

lemma sr_rep_slot:
  assumes rep: "sr_rep r hist" and dvd: "sr_capacity r dvd SPAN"
    and m: "m < length hist" "length hist \<le> m + sr_capacity r"
  shows "sr_slot_seq r ! (m mod sr_capacity r) \<noteq> 0 \<and> sr_slots r ! (m mod sr_capacity r) = Some (hist ! m)"
proof -
  have sl: "sr_seamless (sr_capacity r) (length hist)" using dvd by (simp add: sr_seamless_def)
  have N: "0 < sr_capacity r" using rep by (simp add: sr_rep_def)
  have "sr_live (sr_capacity r) (length hist) (Suc m)"
    by (rule sr_live_window [OF sl]) (use m in auto)
  then have "last_writer (sr_capacity r) (length hist) (m mod sr_capacity r) = Some (Suc m)"
    by (simp add: sr_live_def sr_slot_of_dvd [OF dvd])
  moreover have "m mod sr_capacity r < sr_capacity r" using N by simp
  ultimately show ?thesis using rep by (auto simp: sr_rep_def split: option.splits)
qed

lemma sr_window_eq:
  assumes rep: "sr_rep r hist" and dvd: "sr_capacity r dvd SPAN"
  shows "sr_window r = keep_last (sr_capacity r) hist"
proof -
  let ?N = "sr_capacity r" and ?n = "length hist"
  have N: "0 < ?N" using rep by (simp add: sr_rep_def)
  have idx: "sr_idx_for ?N (sr_next_after (sr_newest_seq r)) = ?n mod ?N"
    using sr_slot_of_dvd [OF dvd, of ?n]
    by (simp add: sr_rep_newest [OF rep] sr_seq.nxt_seq_at sr_slot_of_def)
  show ?thesis
  proof (cases "?N \<le> ?n")
    case True
    have slot: "sr_slot_seq r ! ((k + ?n) mod ?N) \<noteq> 0"
      "sr_slots r ! ((k + ?n) mod ?N) = Some (hist ! (?n - ?N + k))" if "k < ?N" for k
    proof -
      have "(?n - ?N + k) mod ?N = (?n - ?N + k + ?N) mod ?N" by simp
      also have "?n - ?N + k + ?N = k + ?n" using True by simp
      finally show "sr_slot_seq r ! ((k + ?n) mod ?N) \<noteq> 0"
        "sr_slots r ! ((k + ?n) mod ?N) = Some (hist ! (?n - ?N + k))"
        using sr_rep_slot [OF rep dvd, of "?n - ?N + k"] that True by auto
    qed
    have "filter (\<lambda>i. sr_slot_seq r ! i \<noteq> 0) (rotate (?n mod ?N) [0..<?N]) = rotate (?n mod ?N) [0..<?N]"
      by (rule filter_True) (auto simp: in_set_conv_nth nth_rotate mod_add_right_eq slot add.commute simp del: set_rotate)
    then show ?thesis using True
      by (intro nth_equalityI)
        (auto simp: sr_window_def idx keep_last_def nth_rotate mod_add_right_eq slot add.commute)
  next
    case False
    have "last_writer ?N m i = None" if "m \<le> i" "i < ?N" for m i
      using that by (induction m) (auto simp: sr_slot_of_dvd [OF dvd])
    then have free: "sr_slot_seq r ! i = 0" if "?n \<le> i" "i < ?N" for i
      using rep that by (auto simp: sr_rep_def)
    have slot: "sr_slot_seq r ! k \<noteq> 0" "sr_slots r ! k = Some (hist ! k)" if "k < ?n" for k
      using sr_rep_slot [OF rep dvd that] that False by auto
    have "rotate ?n [0..<?N] = [?n..<?N] @ [0..<?n]"
      using False by (simp add: rotate_drop_take)
    moreover have "filter (\<lambda>i. sr_slot_seq r ! i \<noteq> 0) [?n..<?N] = []"
      using free by (auto simp: filter_empty_conv)
    moreover have "filter (\<lambda>i. sr_slot_seq r ! i \<noteq> 0) [0..<?n] = [0..<?n]"
      by (rule filter_True) (auto simp: slot)
    ultimately show ?thesis using False
      by (intro nth_equalityI) (simp_all add: sr_window_def idx keep_last_def slot)
  qed
qed

interpretation sr_sink: infallible_sink sr_try_push "\<lambda>r. (sr_capacity r, sr_window r)"
  "\<lambda>held v. None" window_put sr_sink_ok
proof
  fix r :: "'a seq_ring" and v
  assume "sr_sink_ok r"
  then obtain hist where rep: "sr_rep r hist" and dvd: "sr_capacity r dvd SPAN"
    by (auto simp: sr_sink_ok_def)
  obtain r' where r': "sr_push r v = Some (seq_at (Suc (length hist)), r')" "sr_rep r' (hist @ [v])"
    "sr_capacity r' = sr_capacity r" using sr_push_rep [OF rep] by blast
  then show "\<exists>r'. sr_try_push r v = Some (Inr (), r') \<and> sr_sink_ok r' \<and>
      (sr_capacity r', sr_window r') = window_put (sr_capacity r, sr_window r) v"
    using dvd sr_window_eq [OF rep dvd] sr_window_eq [OF r'(2)]
    by (auto simp: sr_try_push_def sr_sink_ok_def window_put_def keep_last_snoc)
qed auto

end
