(* ===== verification/EventBuf.thy ===== *)
theory EventBuf
  imports Roles Traits
begin

text \<open>
  \<open>EventBuf\<close> (\<open>src/event_buf.rs\<close>): the bounded SPSC queue with backpressure, its operations run one
  at a time. The slot array's length is the const parameter \<open>N\<close>. The queue is shown to refine the
  bounded FIFO of theory \<open>Fifo\<close> exactly when \<open>N\<close> divides \<open>2 ^ 32\<close>: the cursors are \<open>u32\<close> values that
  wrap, and \<open>slot_index\<close> reduces the wrapped value modulo \<open>N\<close>.
\<close>

record 'a event_buf =
  eb_head :: u32
  eb_tail :: u32
  eb_slots :: "'a slots"
  eb_producer_taken :: bool
  eb_consumer_taken :: bool

definition eb_slot_array :: "nat \<Rightarrow> 'a slots" where
  "eb_slot_array N = uninit_slots N"

definition eb_new :: "nat \<Rightarrow> 'a event_buf" where
  "eb_new N = \<lparr>eb_head = 0, eb_tail = 0, eb_slots = eb_slot_array N,
     eb_producer_taken = False, eb_consumer_taken = False\<rparr>"

definition eb_default :: "nat \<Rightarrow> 'a event_buf" where
  "eb_default N = eb_new N"

lemma length_eb_slot_array [simp]: "length (eb_slot_array N) = N"
  by (simp add: eb_slot_array_def)

definition eb_slot_index :: "nat \<Rightarrow> u32 \<Rightarrow> usize" where
  "eb_slot_index N pos = unat pos mod N"

definition eb_capacity :: "'a event_buf \<Rightarrow> usize" where
  "eb_capacity b = length (eb_slots b)"

section \<open>Observers\<close>

text \<open>
  \<open>len\<close> samples \<open>tail\<close>, \<open>head\<close>, \<open>tail\<close> at most \<open>RETRY_LIMIT\<close> times and accepts the first sample whose
  two tails agree; otherwise it clamps a last sample \<open>(tail, head)\<close>. The samples are arguments of
  \<open>eb_len_samples\<close>, since other contexts may run between the loads; \<open>eb_len\<close> is the call with nothing
  running in between.
\<close>

definition RETRY_LIMIT :: nat where
  "RETRY_LIMIT = 2"

fun eb_len_samples :: "nat \<Rightarrow> (u32 \<times> u32 \<times> u32) list \<Rightarrow> u32 \<times> u32 \<Rightarrow> usize" where
  "eb_len_samples N ((t1, h, t2) # samples) fallback =
     (if t1 = t2 then unat (h - t1) else eb_len_samples N samples fallback)"
| "eb_len_samples N [] (t, h) = min (unat (h - t)) N"

definition eb_len :: "'a event_buf \<Rightarrow> usize" where
  "eb_len b = eb_len_samples (eb_capacity b)
     (replicate RETRY_LIMIT (eb_tail b, eb_head b, eb_tail b)) (eb_tail b, eb_head b)"

definition eb_is_empty :: "'a event_buf \<Rightarrow> bool" where
  "eb_is_empty b \<longleftrightarrow> eb_len b = 0"

definition eb_is_full :: "'a event_buf \<Rightarrow> bool" where
  "eb_is_full b \<longleftrightarrow> eb_capacity b \<le> eb_len b"

section \<open>Role handles\<close>

text \<open>The handles of \<open>EventBuf\<close> carry no state of their own; acquiring one is a \<open>swap(true)\<close>.\<close>

datatype eb_producer = EbProducer
datatype eb_consumer = EbConsumer

definition eb_try_producer :: "'a event_buf \<Rightarrow> eb_producer option \<times> 'a event_buf" where
  "eb_try_producer b =
     (let was_taken = eb_producer_taken b; b' = b\<lparr>eb_producer_taken := True\<rparr>
      in if was_taken then (None, b') else (Some EbProducer, b'))"

definition eb_try_consumer :: "'a event_buf \<Rightarrow> eb_consumer option \<times> 'a event_buf" where
  "eb_try_consumer b =
     (let was_taken = eb_consumer_taken b; b' = b\<lparr>eb_consumer_taken := True\<rparr>
      in if was_taken then (None, b') else (Some EbConsumer, b'))"

definition eb_drop_producer :: "'a event_buf \<Rightarrow> 'a event_buf" where
  "eb_drop_producer b = b\<lparr>eb_producer_taken := False\<rparr>"

definition eb_drop_consumer :: "'a event_buf \<Rightarrow> 'a event_buf" where
  "eb_drop_consumer b = b\<lparr>eb_consumer_taken := False\<rparr>"

section \<open>Producer and consumer operations\<close>

definition eb_push :: "'a event_buf \<Rightarrow> 'a \<Rightarrow> (('a + unit) \<times> 'a event_buf) exec" where
  "eb_push b val =
     (let head = eb_head b; tail = eb_tail b
      in if eb_capacity b \<le> unat (head - tail) then Some (Inl val, b)
         else do {
           slots' \<leftarrow> slot_write (eb_slots b) (eb_slot_index (eb_capacity b) head) val;
           Some (Inr (), b\<lparr>eb_slots := slots', eb_head := head + 1\<rparr>)
         })"

definition eb_pop :: "'a event_buf \<Rightarrow> ('a option \<times> 'a event_buf) exec" where
  "eb_pop b =
     (let tail = eb_tail b; head = eb_head b
      in if tail = head then Some (None, b)
         else do {
           val \<leftarrow> slot_read (eb_slots b) (eb_slot_index (eb_capacity b) tail);
           Some (Some val, b\<lparr>eb_tail := tail + 1\<rparr>)
         })"

definition eb_peek :: "'a event_buf \<Rightarrow> 'a option exec" where
  "eb_peek b =
     (let tail = eb_tail b; head = eb_head b
      in if tail = head then Some None
         else do {
           val \<leftarrow> slot_read (eb_slots b) (eb_slot_index (eb_capacity b) tail);
           Some (Some val)
         })"

text \<open>
  \<open>drain\<close> hands each popped value to a hook. The hook may use the buffer through the producer
  handle, so it is a function of the buffer and of its own state.
\<close>

function eb_drain_loop ::
  "('a \<Rightarrow> 'a event_buf \<times> 'h \<Rightarrow> ('a event_buf \<times> 'h) exec) \<Rightarrow> usize \<Rightarrow> usize \<Rightarrow>
   'a event_buf \<Rightarrow> 'h \<Rightarrow> (usize \<times> 'a event_buf \<times> 'h) exec" where
  "eb_drain_loop hook limit count b h =
     (if count < limit then do {
        (got, b1) \<leftarrow> eb_pop b;
        (case got of
           Some val \<Rightarrow> do {
             (b2, h2) \<leftarrow> hook val (b1, h);
             eb_drain_loop hook limit (count + 1) b2 h2
           }
         | None \<Rightarrow> Some (count, b1, h))
      }
      else Some (count, b, h))"
  by pat_completeness auto
termination
  by (relation "measure (\<lambda>(hook, limit, count, b, h). limit - count)") auto

declare eb_drain_loop.simps [simp del]

definition eb_drain ::
  "'a event_buf \<Rightarrow> usize \<Rightarrow> ('a \<Rightarrow> 'a event_buf \<times> 'h \<Rightarrow> ('a event_buf \<times> 'h) exec) \<Rightarrow> 'h \<Rightarrow>
   (usize \<times> 'a event_buf \<times> 'h) exec" where
  "eb_drain b limit hook h = eb_drain_loop hook limit 0 b h"

text \<open>The \<open>Sink\<close> and \<open>Source\<close> implementations of the handles forward to \<open>push\<close> and \<open>pop\<close>.\<close>

definition eb_try_push :: "'a event_buf \<Rightarrow> 'a \<Rightarrow> (('a + unit) \<times> 'a event_buf) exec" where
  "eb_try_push b val = eb_push b val"

definition eb_try_pop :: "'a event_buf \<Rightarrow> ('a option \<times> 'a event_buf) exec" where
  "eb_try_pop b = eb_pop b"

section \<open>Invariant and contents\<close>

definition eb_count :: "'a event_buf \<Rightarrow> nat" where
  "eb_count b = unat (eb_head b - eb_tail b)"

text \<open>The slot of the \<open>k\<close>-th queued value, oldest first.\<close>

definition eb_slot :: "'a event_buf \<Rightarrow> nat \<Rightarrow> usize" where
  "eb_slot b k = eb_slot_index (eb_capacity b) (eb_tail b + of_nat k)"

definition eb_wf :: "'a event_buf \<Rightarrow> bool" where
  "eb_wf b \<longleftrightarrow> 0 < eb_capacity b \<and> eb_capacity b < 2 ^ 32 \<and> eb_count b \<le> eb_capacity b \<and>
     (\<forall>k < eb_count b. eb_slots b ! eb_slot b k \<noteq> None)"

definition eb_contents :: "'a event_buf \<Rightarrow> 'a list" where
  "eb_contents b = map (\<lambda>k. the (eb_slots b ! eb_slot b k)) [0..<eb_count b]"

text \<open>
  The window of the next \<open>N\<close> positions maps to \<open>N\<close> different slots: because \<open>N\<close> divides the cursor
  range, or because the window does not reach the wrap.
\<close>

definition eb_aligned :: "'a event_buf \<Rightarrow> bool" where
  "eb_aligned b \<longleftrightarrow> eb_capacity b dvd 2 ^ 32 \<or> unat (eb_tail b) + eb_capacity b \<le> 2 ^ 32"

lemma eb_slot_aligned:
  assumes "eb_aligned b" and "k < eb_capacity b"
  shows "eb_slot b k = (unat (eb_tail b) + k) mod eb_capacity b"
proof -
  have "unat (eb_tail b + of_nat k) = (unat (eb_tail b) + k) mod 2 ^ 32"
    by (metis unat_u32_add unat_of_nat_u32 mod_add_right_eq)
  with assms show ?thesis
    by (auto simp: eb_slot_def eb_slot_index_def eb_aligned_def mod_mod_cancel)
qed

lemma eb_slot_inj:
  assumes "eb_aligned b" and "eb_slot b j = eb_slot b k" and "j \<le> k" and "k < eb_capacity b"
  shows "j = k"
proof -
  have "unat (eb_tail b) + j = unat (eb_tail b) + k"
    by (rule ring_index_inj [of _ "eb_capacity b"]) (use assms in \<open>auto simp: eb_slot_aligned\<close>)
  then show ?thesis by simp
qed

lemma eb_slot_less: "eb_wf b \<Longrightarrow> eb_slot b k < length (eb_slots b)"
  by (simp add: eb_wf_def eb_slot_def eb_slot_index_def eb_capacity_def)

lemma eb_head_pos: "eb_head b = eb_tail b + of_nat (eb_count b)"
  by (simp add: eb_count_def)

lemma eb_head_slot: "eb_slot_index (eb_capacity b) (eb_head b) = eb_slot b (eb_count b)"
  by (simp add: eb_slot_def eb_count_def)

lemma eb_tail_slot: "eb_slot_index (eb_capacity b) (eb_tail b) = eb_slot b 0"
  by (simp add: eb_slot_def)

lemma eb_empty_iff: "eb_tail b = eb_head b \<longleftrightarrow> eb_count b = 0"
  by (auto simp: eb_count_def unat_eq_0)

lemma length_eb_contents [simp]: "length (eb_contents b) = eb_count b"
  by (simp add: eb_contents_def)

lemma eb_contents_nth: "k < eb_count b \<Longrightarrow> eb_contents b ! k = the (eb_slots b ! eb_slot b k)"
  by (simp add: eb_contents_def)

lemma eb_slot_stored:
  "eb_wf b \<Longrightarrow> k < eb_count b \<Longrightarrow> eb_slots b ! eb_slot b k = Some (eb_contents b ! k)"
  by (auto simp: eb_contents_nth eb_wf_def)

lemma eb_wf_new: "0 < N \<Longrightarrow> N < 2 ^ 32 \<Longrightarrow> eb_wf (eb_new N)"
  by (simp add: eb_wf_def eb_new_def eb_capacity_def eb_count_def)

lemma eb_contents_new [simp]: "eb_contents (eb_new N) = []"
  by (simp add: eb_contents_def eb_new_def eb_count_def)

lemma eb_capacity_new [simp]: "eb_capacity (eb_new N) = N"
  by (simp add: eb_new_def eb_capacity_def)

section \<open>Effect of the operations\<close>

lemma eb_push_full:
  assumes "eb_wf b" and "eb_count b = eb_capacity b"
  shows "eb_push b v = Some (Inl v, b)"
  using assms by (simp add: eb_push_def eb_count_def Let_def)

lemma eb_push_result:
  assumes "eb_wf b" and "eb_count b < eb_capacity b"
  shows "eb_push b v = Some (Inr (), b\<lparr>eb_slots := (eb_slots b)[eb_slot b (eb_count b) := Some v],
     eb_head := eb_head b + 1\<rparr>)"
  using assms eb_slot_less [OF assms(1), of "eb_count b"]
  by (simp add: eb_push_def eb_count_def Let_def eb_head_slot [unfolded eb_count_def])

lemma eb_pop_empty: "eb_count b = 0 \<Longrightarrow> eb_pop b = Some (None, b)"
  by (simp add: eb_pop_def eb_empty_iff)

lemma eb_pop_result:
  assumes "eb_wf b" and "0 < eb_count b"
  shows "eb_pop b = Some (Some (eb_contents b ! 0), b\<lparr>eb_tail := eb_tail b + 1\<rparr>)"
  using assms eb_slot_less [OF assms(1), of 0] eb_slot_stored [OF assms]
  by (simp add: eb_pop_def Let_def eb_empty_iff eb_tail_slot)

lemma eb_peek_eq:
  assumes "eb_wf b"
  shows "eb_peek b = Some (if eb_count b = 0 then None else Some (eb_contents b ! 0))"
  using assms eb_slot_less [OF assms, of 0] eb_slot_stored [OF assms, of 0]
  by (simp add: eb_peek_def Let_def eb_empty_iff eb_tail_slot)

lemma eb_count_push:
  assumes "eb_count b < eb_capacity b" and "eb_capacity b < 2 ^ 32"
  shows "unat (eb_head b + 1 - eb_tail b) = Suc (eb_count b)"
proof -
  have "unat (eb_head b - eb_tail b + 1) = Suc (unat (eb_head b - eb_tail b))"
    using assms by (simp add: unat_u32_add eb_count_def)
  then show ?thesis by (simp add: eb_count_def algebra_simps)
qed

lemma eb_push_effect:
  assumes wf: "eb_wf b" and al: "eb_aligned b" and room: "eb_count b < eb_capacity b"
    and b': "b' = b\<lparr>eb_slots := (eb_slots b)[eb_slot b (eb_count b) := Some v],
      eb_head := eb_head b + 1\<rparr>"
  shows "eb_wf b' \<and> eb_contents b' = eb_contents b @ [v]"
proof -
  have cap: "eb_capacity b' = eb_capacity b" and tail: "eb_tail b' = eb_tail b"
    by (simp_all add: b' eb_capacity_def)
  have slot: "eb_slot b' k = eb_slot b k" for k by (simp add: eb_slot_def cap tail)
  have count: "eb_count b' = Suc (eb_count b)"
    using eb_count_push [OF room] wf by (simp add: eb_count_def b' eb_wf_def)
  have old: "eb_slots b' ! eb_slot b k = eb_slots b ! eb_slot b k" if "k < eb_count b" for k
  proof -
    have "eb_slot b k \<noteq> eb_slot b (eb_count b)"
      using eb_slot_inj [OF al, of k "eb_count b"] that room by auto
    then show ?thesis by (simp add: b')
  qed
  have new: "eb_slots b' ! eb_slot b (eb_count b) = Some v"
    using eb_slot_less [OF wf] by (simp add: b')
  have "eb_wf b'"
    using wf room old new by (auto simp: eb_wf_def cap count slot less_Suc_eq)
  moreover have "eb_contents b' = eb_contents b @ [v]"
    using old new by (simp add: eb_contents_def count slot)
  ultimately show ?thesis by simp
qed

lemma eb_pop_effect:
  assumes wf: "eb_wf b" and some: "0 < eb_count b" and b': "b' = b\<lparr>eb_tail := eb_tail b + 1\<rparr>"
  shows "eb_wf b' \<and> eb_contents b' = tl (eb_contents b)"
proof -
  have cap: "eb_capacity b' = eb_capacity b" by (simp add: b' eb_capacity_def)
  have tail: "eb_tail b' = eb_tail b + 1" and slots: "eb_slots b' = eb_slots b" by (simp_all add: b')
  have slot: "eb_slot b' k = eb_slot b (Suc k)" for k
    by (simp add: eb_slot_def cap tail algebra_simps)
  have "eb_head b - eb_tail b \<noteq> 0" using some by (auto simp: eb_count_def)
  then have "unat (eb_head b - eb_tail b - 1) = eb_count b - 1"
    by (simp add: unat_minus_one eb_count_def)
  then have count: "eb_count b' = eb_count b - 1"
    by (simp add: eb_count_def b' algebra_simps)
  have "eb_wf b'" using wf by (auto simp: eb_wf_def cap count slot slots)
  moreover have "eb_contents b' = tl (eb_contents b)"
    using some by (simp add: eb_contents_def count slot slots map_upt_Cons [OF some])
  ultimately show ?thesis by simp
qed

text \<open>\<open>len\<close> with nothing running in between is the number of queued values.\<close>

lemma eb_len_count: "eb_len b = eb_count b"
  by (simp add: eb_len_def RETRY_LIMIT_def eb_count_def numeral_2_eq_2)

section \<open>The role contract\<close>

interpretation eb_prod: role eb_try_producer eb_drop_producer eb_producer_taken
  "\<lambda>b. b\<lparr>eb_producer_taken := False\<rparr>"
  by unfold_locales (auto simp: eb_try_producer_def eb_drop_producer_def)

interpretation eb_cons: role eb_try_consumer eb_drop_consumer eb_consumer_taken
  "\<lambda>b. b\<lparr>eb_consumer_taken := False\<rparr>"
  by unfold_locales (auto simp: eb_try_consumer_def eb_drop_consumer_def)

section \<open>The FIFO contract\<close>

definition eb_fifo_ok :: "'a event_buf \<Rightarrow> bool" where
  "eb_fifo_ok b \<longleftrightarrow> eb_wf b \<and> eb_capacity b dvd 2 ^ 32"

interpretation eb_fifo: fifo eb_push eb_pop eb_peek eb_contents eb_capacity eb_fifo_ok
proof
  fix b :: "'a event_buf" and v x :: 'a and q
  assume ok: "eb_fifo_ok b"
  then have wf: "eb_wf b" and al: "eb_aligned b" and dv: "eb_capacity b dvd 2 ^ 32"
    by (auto simp: eb_fifo_ok_def eb_aligned_def)
  show "length (eb_contents b) \<le> eb_capacity b" using wf by (simp add: eb_wf_def)
  show "eb_peek b = Some (case eb_contents b of [] \<Rightarrow> None | x # q \<Rightarrow> Some x)"
    using eb_peek_eq [OF wf] length_eb_contents [of b] by (cases "eb_contents b") auto
  show "eb_pop b = Some (None, b)" if "eb_contents b = []"
    using that length_eb_contents [of b] by (simp add: eb_pop_empty)
  show "eb_push b v = Some (Inl v, b)" if "eb_capacity b \<le> length (eb_contents b)"
    using that wf by (intro eb_push_full) (auto simp: eb_wf_def)
  show "\<exists>b'. eb_push b v = Some (Inr (), b') \<and> eb_fifo_ok b' \<and> eb_capacity b' = eb_capacity b \<and>
      eb_contents b' = eb_contents b @ [v]" if "length (eb_contents b) < eb_capacity b"
    using that eb_push_result [OF wf, of v] eb_push_effect [OF wf al _ refl, of v] dv
    by (auto simp: eb_fifo_ok_def eb_capacity_def)
  show "\<exists>b'. eb_pop b = Some (Some x, b') \<and> eb_fifo_ok b' \<and> eb_capacity b' = eb_capacity b \<and>
      eb_contents b' = q" if c: "eb_contents b = x # q"
  proof -
    have "0 < eb_count b" using c length_eb_contents [of b] by simp
    with c eb_pop_result [OF wf] eb_pop_effect [OF wf _ refl] dv show ?thesis
      by (auto simp: eb_fifo_ok_def eb_capacity_def)
  qed
qed

section \<open>The Source and Sink contracts\<close>

text \<open>The trait methods are the inherent ones, so the contracts are those every bounded queue has.\<close>

lemma eb_trait_methods: "eb_try_pop = eb_pop" "eb_try_push = eb_push"
  by (simp_all add: fun_eq_iff eb_try_pop_def eb_try_push_def)

interpretation eb_source: source eb_try_pop eb_contents eb_fifo_ok
  unfolding eb_trait_methods by (rule eb_fifo.as_source.source_axioms)

interpretation eb_sink: sink eb_try_push "\<lambda>b. (eb_capacity b, eb_contents b)" queue_refuse queue_put eb_fifo_ok
  unfolding eb_trait_methods by (rule eb_fifo.as_sink.sink_axioms)

interpretation eb_bridge: bridge eb_try_pop eb_contents eb_fifo_ok
  eb_try_push "\<lambda>b. (eb_capacity b, eb_contents b)" queue_refuse queue_put eb_fifo_ok
  by unfold_locales

section \<open>Draining\<close>

text \<open>A hook that only updates its own state.\<close>

definition eb_pure_hook :: "('a \<Rightarrow> 'h \<Rightarrow> 'h) \<Rightarrow> 'a \<Rightarrow> 'a event_buf \<times> 'h \<Rightarrow> ('a event_buf \<times> 'h) exec" where
  "eb_pure_hook f v bh = Some (fst bh, f v (snd bh))"

lemma eb_drain_loop_pure:
  assumes "eb_wf b" and "n = min (limit - count) (eb_count b)"
  shows "\<exists>b'. eb_drain_loop (eb_pure_hook f) limit count b h
      = Some (count + n, b', fold f (take n (eb_contents b)) h)
    \<and> eb_wf b' \<and> eb_contents b' = drop n (eb_contents b)"
  using assms
proof (induction n arbitrary: b count h)
  case 0
  then have "limit \<le> count \<or> eb_count b = 0" by auto
  then show ?case using "0.prems"
    by (subst eb_drain_loop.simps) (auto simp: eb_pop_empty)
next
  case (Suc n)
  define b1 where "b1 = b\<lparr>eb_tail := eb_tail b + 1\<rparr>"
  have some: "0 < eb_count b" and lt: "count < limit" using Suc.prems by auto
  have b1: "eb_wf b1" "eb_contents b1 = tl (eb_contents b)"
    using eb_pop_effect [OF Suc.prems(1) some b1_def] by auto
  have "eb_count b1 = eb_count b - 1" using b1(2) by (metis length_eb_contents length_tl)
  then have n: "n = min (limit - (count + 1)) (eb_count b1)" using Suc.prems(2) by auto
  obtain x q where xq: "eb_contents b = x # q"
    using some length_eb_contents [of b] by (cases "eb_contents b") auto
  have "eb_pop b = Some (Some x, b1)"
    using eb_pop_result [OF Suc.prems(1) some] by (simp add: b1_def xq)
  then have "eb_drain_loop (eb_pure_hook f) limit count b h
      = eb_drain_loop (eb_pure_hook f) limit (count + 1) b1 (f x h)"
    using lt by (subst eb_drain_loop.simps) (simp add: eb_pure_hook_def)
  with Suc.IH [OF b1(1) n, of "f x h"] show ?case by (simp add: b1(2) xq)
qed

section \<open>Runs of an unaligned queue\<close>

text \<open>
  Without the divisibility the queue is still a FIFO as long as its window stays below the wrap:
  each pop moves the tail by one, so \<open>2 ^ 32 - N\<close> pops are safe from a new buffer.
\<close>

lemma eb_step_aligned:
  assumes wf: "eb_wf b" and near: "unat (eb_tail b) + eb_capacity b < 2 ^ 32"
  shows "\<exists>b'. chan_step eb_push eb_pop eb_peek b op
      = Some (fst (fifo_step (eb_capacity b) (eb_contents b) op), b')
    \<and> eb_wf b' \<and> eb_capacity b' = eb_capacity b
    \<and> eb_contents b' = snd (fifo_step (eb_capacity b) (eb_contents b) op)
    \<and> unat (eb_tail b') \<le> Suc (unat (eb_tail b))"
proof (cases op)
  case (Put v)
  have al: "eb_aligned b" using near by (simp add: eb_aligned_def)
  show ?thesis
  proof (cases "eb_count b < eb_capacity b")
    case True
    with Put eb_push_result [OF wf True, of v] eb_push_effect [OF wf al True refl, of v]
    show ?thesis by (simp add: eb_capacity_def)
  next
    case False
    with wf have "eb_count b = eb_capacity b" by (simp add: eb_wf_def)
    with Put show ?thesis using wf by (simp add: eb_push_full)
  qed
next
  case Take
  show ?thesis
  proof (cases "eb_count b = 0")
    case True
    then have "eb_contents b = []" by (metis length_eb_contents length_0_conv)
    with Take True wf show ?thesis by (simp add: eb_pop_empty)
  next
    case False
    then obtain x q where xq: "eb_contents b = x # q"
      using length_eb_contents [of b] by (cases "eb_contents b") auto
    have "0 < eb_capacity b" using wf by (simp add: eb_wf_def)
    then have "unat (eb_tail b + 1) = Suc (unat (eb_tail b))"
      using near by (simp add: unat_u32_add)
    with Take False xq eb_pop_result [OF wf] eb_pop_effect [OF wf _ refl] show ?thesis
      by (simp add: eb_capacity_def)
  qed
next
  case Look
  show ?thesis using Look wf length_eb_contents [of b]
    by (cases "eb_contents b") (auto simp: eb_peek_eq)
qed

lemma eb_run_aligned:
  "eb_wf b \<Longrightarrow> unat (eb_tail b) + eb_capacity b + length ops \<le> 2 ^ 32 \<Longrightarrow>
   \<exists>b'. chan_run eb_push eb_pop eb_peek b ops
      = Some (fst (fifo_run (eb_capacity b) (eb_contents b) ops), b')
    \<and> eb_contents b' = snd (fifo_run (eb_capacity b) (eb_contents b) ops)"
proof (induction ops arbitrary: b)
  case (Cons op ops)
  then have "unat (eb_tail b) + eb_capacity b < 2 ^ 32" by simp
  from eb_step_aligned [OF Cons.prems(1) this, of op] obtain b1 where
    b1: "chan_step eb_push eb_pop eb_peek b op
        = Some (fst (fifo_step (eb_capacity b) (eb_contents b) op), b1)"
      "eb_wf b1" "eb_capacity b1 = eb_capacity b"
      "eb_contents b1 = snd (fifo_step (eb_capacity b) (eb_contents b) op)"
      "unat (eb_tail b1) \<le> Suc (unat (eb_tail b))" by blast
  then have "unat (eb_tail b1) + eb_capacity b1 + length ops \<le> 2 ^ 32" using Cons.prems(2) by simp
  from Cons.IH [OF b1(2) this] b1 show ?case by (auto simp: split_beta Let_def)
qed simp

section \<open>What the wrap does to an unaligned queue\<close>

text \<open>
  With \<open>r = 2 ^ 32 mod N\<close> and \<open>r \<noteq> 0\<close>, positions \<open>2 ^ 32 - r\<close> and \<open>2 ^ 32\<close> are \<open>r < N\<close> apart, so both
  can be queued, and both live in slot 0: the push at the second overwrites the value at the first.
  The run that shows it: push and pop \<open>2 ^ 32 - r\<close> times, push \<open>r + 1\<close> values, pop one.
\<close>

definition eb_wrap_run :: "nat \<Rightarrow> 'a \<Rightarrow> 'a \<Rightarrow> 'a chan_op list" where
  "eb_wrap_run N x y = (let r = 2 ^ 32 mod N
     in concat (replicate (2 ^ 32 - r) [Put x, Take]) @ replicate r (Put x) @ [Put y, Take])"

lemma eb_push_any:
  assumes "0 < eb_capacity b" and "eb_count b < eb_capacity b"
  shows "eb_push b v = Some (Inr (), b\<lparr>eb_slots :=
     (eb_slots b)[eb_slot_index (eb_capacity b) (eb_head b) := Some v], eb_head := eb_head b + 1\<rparr>)"
  using assms by (simp add: eb_push_def eb_count_def Let_def eb_slot_index_def eb_capacity_def)

lemma eb_push_pop_pairs:
  "eb_head b = eb_tail b \<Longrightarrow> 0 < eb_capacity b \<Longrightarrow>
   \<exists>rs b'. chan_run eb_push eb_pop eb_peek b (concat (replicate m [Put x, Take])) = Some (rs, b')
     \<and> eb_head b' = eb_head b + of_nat m \<and> eb_tail b' = eb_head b' \<and> eb_capacity b' = eb_capacity b"
proof (induction m arbitrary: b)
  case (Suc m)
  define s where "s = (eb_slots b)[eb_slot_index (eb_capacity b) (eb_head b) := Some x]"
  define b1 where "b1 = b\<lparr>eb_slots := s, eb_head := eb_head b + 1\<rparr>"
  define b2 where "b2 = b1\<lparr>eb_tail := eb_tail b1 + 1\<rparr>"
  have len: "length s = eb_capacity b" by (simp add: s_def eb_capacity_def)
  have push: "eb_push b x = Some (Inr (), b1)"
    using Suc.prems eb_push_any [of b x] by (simp add: eb_count_def b1_def s_def)
  have cap: "eb_capacity b1 = eb_capacity b" "eb_capacity b2 = eb_capacity b"
    by (simp_all add: b1_def b2_def eb_capacity_def [of "_\<lparr>eb_slots := s, eb_head := _\<rparr>"] len
        eb_capacity_def [of "_\<lparr>eb_tail := _\<rparr>"])
  have "s ! eb_slot_index (eb_capacity b) (eb_head b) = Some x"
    using Suc.prems by (simp add: s_def eb_slot_index_def eb_capacity_def)
  then have pop: "eb_pop b1 = Some (Some x, b2)"
    using Suc.prems len unfolding eb_pop_def cap(1)
    by (simp add: b1_def b2_def Let_def eb_slot_index_def)
  have b2: "eb_head b2 = eb_head b + 1" "eb_tail b2 = eb_head b2"
    using Suc.prems by (simp_all add: b1_def b2_def)
  from Suc.IH [of b2] b2 cap Suc.prems push pop show ?case
    by (auto simp: algebra_simps)
qed simp

lemma eb_put_many:
  "eb_count b + m \<le> eb_capacity b \<Longrightarrow> eb_capacity b < 2 ^ 32 \<Longrightarrow>
   \<exists>b'. chan_run eb_push eb_pop eb_peek b (replicate m (Put x)) = Some (replicate m Accepted, b')
     \<and> eb_head b' = eb_head b + of_nat m \<and> eb_tail b' = eb_tail b
     \<and> eb_capacity b' = eb_capacity b \<and> eb_count b' = eb_count b + m"
proof (induction m arbitrary: b)
  case (Suc m)
  define b1 where "b1 = b\<lparr>eb_slots :=
     (eb_slots b)[eb_slot_index (eb_capacity b) (eb_head b) := Some x], eb_head := eb_head b + 1\<rparr>"
  have push: "eb_push b x = Some (Inr (), b1)"
    using Suc.prems by (subst eb_push_any) (auto simp: b1_def)
  have cap: "eb_capacity b1 = eb_capacity b" by (simp add: b1_def eb_capacity_def)
  have count: "eb_count b1 = Suc (eb_count b)"
    using eb_count_push [of b] Suc.prems by (simp add: b1_def eb_count_def)
  have hd: "eb_head b1 = eb_head b + 1" "eb_tail b1 = eb_tail b" by (simp_all add: b1_def)
  from Suc.IH [of b1] count cap hd Suc.prems push show ?case by (auto simp: algebra_simps)
qed simp

lemma fifo_push_pop_pairs:
  "0 < cap \<Longrightarrow> snd (fifo_run cap [] (concat (replicate m [Put x, Take]))) = []"
  by (induction m) (auto simp: split_beta Let_def)

lemma fifo_put_many:
  "length q + m \<le> cap \<Longrightarrow> fifo_run cap q (replicate m (Put x)) = (replicate m Accepted, q @ replicate m x)"
  by (induction m arbitrary: q) (auto simp: replicate_app_Cons_same)

lemma eb_wrap_run_response:
  assumes N: "0 < N" "N < 2 ^ 32" and r: "0 < 2 ^ 32 mod N"
  shows "\<exists>rs b'. chan_run eb_push eb_pop eb_peek (eb_new N) (eb_wrap_run N x y)
      = Some (rs @ [Accepted, Got (Some y)], b')"
proof -
  define r where "r = 2 ^ 32 mod N"
  have r0: "0 < r" "r < N" and rN: "r \<le> 2 ^ 32" using r N by (simp_all add: r_def)
  have slot0: "(2 ^ 32 - r) mod N = 0" by (simp add: r_def minus_mod_eq_mult_div)
  obtain rs1 b1 where b1: "chan_run eb_push eb_pop eb_peek (eb_new N :: 'a event_buf)
      (concat (replicate (2 ^ 32 - r) [Put x, Take])) = Some (rs1, b1)"
      "eb_head b1 = of_nat (2 ^ 32 - r)" "eb_tail b1 = eb_head b1" "eb_capacity b1 = N"
    using eb_push_pop_pairs [of "eb_new N" "2 ^ 32 - r" x] N(1) by (auto simp: eb_new_def eb_capacity_def)
  obtain b2 where b2: "chan_run eb_push eb_pop eb_peek b1 (replicate r (Put x))
      = Some (replicate r Accepted, b2)"
      "eb_head b2 = eb_head b1 + of_nat r" "eb_tail b2 = eb_tail b1" "eb_capacity b2 = N" "eb_count b2 = r"
    using eb_put_many [of b1 r x] b1 r0 N by (auto simp: eb_count_def)
  have head: "eb_head b2 = 0"
    using rN by (simp only: b2(2) b1(2) of_nat_add [symmetric]) (simp add: of_nat_u32_eq_iff [of _ 0, simplified])
  have tail: "unat (eb_tail b2) = 2 ^ 32 - r" using r0 by (simp add: b2(3) b1(2,3))
  define b3 where "b3 = b2\<lparr>eb_slots := (eb_slots b2)[0 := Some y], eb_head := 1\<rparr>"
  have push: "eb_push b2 y = Some (Inr (), b3)"
    using eb_push_any [of b2 y] N b2 r0 by (simp add: head b3_def eb_slot_index_def)
  have cap: "eb_capacity b3 = N" using b2(4) by (simp add: b3_def eb_capacity_def)
  have "eb_count b3 = Suc r"
    using eb_count_push [of b2] b2 r0 N by (simp add: b3_def eb_count_def head)
  then have ne: "eb_tail b3 \<noteq> eb_head b3" by (simp add: eb_empty_iff)
  have idx: "eb_slot_index N (eb_tail b3) = 0"
    by (simp only: eb_slot_index_def b3_def) (simp add: tail slot0 del: power_numeral)
  have "slot_read (eb_slots b3) 0 = Some y"
    using b2(4) N(1) by (simp add: b3_def eb_capacity_def)
  then have pop: "eb_pop b3 = Some (Some y, b3\<lparr>eb_tail := eb_tail b3 + 1\<rparr>)"
    using ne by (simp add: eb_pop_def Let_def cap idx)
  have "chan_run eb_push eb_pop eb_peek (eb_new N) (eb_wrap_run N x y)
      = Some ((rs1 @ replicate r Accepted) @ [Accepted, Got (Some y)], b3\<lparr>eb_tail := eb_tail b3 + 1\<rparr>)"
    by (simp add: eb_wrap_run_def Let_def r_def [symmetric] chan_run_append b1(1) b2(1) push pop
        del: power_numeral)
  then show ?thesis by blast
qed

lemma fifo_wrap_run_response:
  assumes N: "0 < N" and r: "0 < 2 ^ 32 mod N"
  shows "\<exists>rs q. fifo_run N [] (eb_wrap_run N x y) = (rs @ [Accepted, Got (Some x)], q)"
proof -
  define r where "r = 2 ^ 32 mod N"
  have r0: "0 < r" "r < N" using r N by (simp_all add: r_def)
  obtain rs1 where pairs: "fifo_run N [] (concat (replicate (2 ^ 32 - r) [Put x, Take])) = (rs1, [])"
    using fifo_push_pop_pairs [OF N, of "2 ^ 32 - r" x] by (metis prod.collapse)
  have puts: "fifo_run N [] (replicate r (Put x)) = (replicate r Accepted, replicate r x)"
    using fifo_put_many [of "[]" r N x] r0 by simp
  then obtain k where k: "replicate r x = x # replicate k x" "Suc k = r"
    using r0 by (cases r) auto
  have "fifo_run N [] (eb_wrap_run N x y)
      = ((rs1 @ replicate r Accepted) @ [Accepted, Got (Some x)], replicate k x @ [y])"
    using r0 by (simp add: eb_wrap_run_def Let_def r_def [symmetric] fifo_run_append pairs puts k
        del: power_numeral replicate.simps)
  then show ?thesis by blast
qed

text \<open>The operations, for symbolic execution on concrete states.\<close>

lemmas eb_op_defs [op_defs] = eb_new_def eb_slot_array_def eb_push_def eb_pop_def eb_peek_def
  eb_slot_index_def eb_capacity_def eb_try_producer_def eb_try_consumer_def eb_drop_producer_def
  eb_drop_consumer_def eb_len_count eb_count_def eb_is_empty_def eb_is_full_def eb_drain_def

end
