(* ===== verification/Ring.thy ===== *)
theory Ring
  imports Traits
begin

text \<open>
  \<open>RingBuf\<close> (\<open>src/ring.rs\<close>): the single-owner ring that overwrites its oldest entry. The array
  length is the const parameter \<open>N\<close>. \<open>U\<close> is \<open>usize::MAX\<close>: the cursor arithmetic is checked, so an
  overflow would be a failure of the operation, and the lemmas show there is none for any \<open>N \<le> U\<close>.
\<close>

record 'a ring_buf =
  rb_buf :: "'a slots"
  rb_head :: usize
  rb_len :: usize

definition ring_capacity :: "'a ring_buf \<Rightarrow> usize" where
  "ring_capacity r = length (rb_buf r)"

definition ring_new :: "nat \<Rightarrow> 'a ring_buf" where
  "ring_new N = \<lparr>rb_buf = uninit_slots N, rb_head = 0, rb_len = 0\<rparr>"

definition ring_push :: "usize \<Rightarrow> 'a ring_buf \<Rightarrow> 'a \<Rightarrow> 'a ring_buf exec" where
  "ring_push U r val = do {
     buf' \<leftarrow> slot_write (rb_buf r) (rb_head r) val;
     next_head \<leftarrow> usize_add U (rb_head r) 1;
     len' \<leftarrow> (if rb_len r < ring_capacity r then usize_add U (rb_len r) 1 else Some (rb_len r));
     Some \<lparr>rb_buf = buf', rb_head = next_head mod ring_capacity r, rb_len = len'\<rparr>
   }"

definition ring_len :: "'a ring_buf \<Rightarrow> usize" where
  "ring_len r = rb_len r"

definition ring_is_empty :: "'a ring_buf \<Rightarrow> bool" where
  "ring_is_empty r \<longleftrightarrow> rb_len r = 0"

definition ring_is_full :: "'a ring_buf \<Rightarrow> bool" where
  "ring_is_full r \<longleftrightarrow> rb_len r = ring_capacity r"

definition ring_clear :: "'a ring_buf \<Rightarrow> 'a ring_buf" where
  "ring_clear r = r\<lparr>rb_head := 0, rb_len := 0\<rparr>"

definition ring_index :: "'a ring_buf \<Rightarrow> usize \<Rightarrow> usize exec" where
  "ring_index r i = do {
     back \<leftarrow> usize_sub (rb_len r) i;
     if back \<le> rb_head r then usize_sub (rb_head r) back
     else do {
       d \<leftarrow> usize_sub back (rb_head r);
       usize_sub (ring_capacity r) d
     }
   }"

definition ring_get :: "'a ring_buf \<Rightarrow> usize \<Rightarrow> 'a option exec" where
  "ring_get r i =
     (if rb_len r \<le> i then Some None
      else do {
        idx \<leftarrow> ring_index r i;
        v \<leftarrow> slot_read (rb_buf r) idx;
        Some (Some v)
      })"

definition ring_latest :: "'a ring_buf \<Rightarrow> 'a option exec" where
  "ring_latest r =
     (if rb_len r = 0 then Some None
      else do {
        last \<leftarrow> usize_sub (rb_len r) 1;
        idx \<leftarrow> ring_index r last;
        v \<leftarrow> slot_read (rb_buf r) idx;
        Some (Some v)
      })"

text \<open>\<open>RingIter\<close>: a borrowed ring and a position.\<close>

record 'a ring_iter =
  ri_ring :: "'a ring_buf"
  ri_pos :: usize

definition ring_iter_of :: "'a ring_buf \<Rightarrow> 'a ring_iter" where
  "ring_iter_of r = \<lparr>ri_ring = r, ri_pos = 0\<rparr>"

definition ring_iter_next :: "usize \<Rightarrow> 'a ring_iter \<Rightarrow> ('a option \<times> 'a ring_iter) exec" where
  "ring_iter_next U it = do {
     got \<leftarrow> ring_get (ri_ring it) (ri_pos it);
     (case got of
        None \<Rightarrow> Some (None, it)
      | Some val \<Rightarrow> do {
          pos' \<leftarrow> usize_add U (ri_pos it) 1;
          Some (Some val, it\<lparr>ri_pos := pos'\<rparr>)
        })
   }"

definition ring_iter_size_hint :: "'a ring_iter \<Rightarrow> usize \<times> usize option" where
  "ring_iter_size_hint it =
     (let remaining = rb_len (ri_ring it) - ri_pos it in (remaining, Some remaining))"

text \<open>A \<open>for\<close> loop over the iterator (or \<open>collect\<close>): \<open>next\<close> until it returns \<open>None\<close>.\<close>

partial_function (option) ring_collect :: "usize \<Rightarrow> 'a ring_iter \<Rightarrow> 'a list exec" where
  "ring_collect U it = do {
     (got, it') \<leftarrow> ring_iter_next U it;
     (case got of
        None \<Rightarrow> Some []
      | Some val \<Rightarrow> do {
          rest \<leftarrow> ring_collect U it';
          Some (val # rest)
        })
   }"

text \<open>
  \<open>Sink::try_push\<close>: the error type is \<open>Infallible\<close>, an empty type, so no \<open>Inl\<close> is ever built; the
  model leaves the error type open.
\<close>

definition ring_into_iter :: "'a ring_buf \<Rightarrow> 'a ring_iter" where
  "ring_into_iter r = ring_iter_of r"

definition ring_default :: "nat \<Rightarrow> 'a ring_buf" where
  "ring_default N = ring_new N"

definition ring_try_push :: "usize \<Rightarrow> 'a ring_buf \<Rightarrow> 'a \<Rightarrow> (('e + unit) \<times> 'a ring_buf) exec" where
  "ring_try_push U r val = do {
     r' \<leftarrow> ring_push U r val;
     Some (Inr (), r')
   }"

section \<open>Invariant and contents\<close>

text \<open>The slot of the \<open>k\<close>-th live entry, oldest first.\<close>

definition ring_slot :: "'a ring_buf \<Rightarrow> nat \<Rightarrow> nat" where
  "ring_slot r k = (rb_head r + (ring_capacity r - rb_len r) + k) mod ring_capacity r"

text \<open>
  The invariant the code's safety note states: the \<open>len\<close> entries ending at \<open>head\<close> have been written.
\<close>

definition ring_wf :: "usize \<Rightarrow> 'a ring_buf \<Rightarrow> bool" where
  "ring_wf U r \<longleftrightarrow> 0 < ring_capacity r \<and> ring_capacity r \<le> U \<and> rb_head r < ring_capacity r \<and>
     rb_len r \<le> ring_capacity r \<and> (\<forall>k < rb_len r. rb_buf r ! ring_slot r k \<noteq> None)"

definition ring_contents :: "'a ring_buf \<Rightarrow> 'a list" where
  "ring_contents r = map (\<lambda>k. the (rb_buf r ! ring_slot r k)) [0..<rb_len r]"

lemmas ring_op_defs = ring_push_def ring_get_def ring_latest_def ring_index_def

lemma length_ring_contents [simp]: "length (ring_contents r) = rb_len r"
  by (simp add: ring_contents_def)

lemma ring_contents_nth: "k < rb_len r \<Longrightarrow> ring_contents r ! k = the (rb_buf r ! ring_slot r k)"
  by (simp add: ring_contents_def)

lemma ring_slot_less: "ring_wf U r \<Longrightarrow> ring_slot r k < length (rb_buf r)"
  by (simp add: ring_wf_def ring_slot_def ring_capacity_def)

lemma ring_slot_stored:
  assumes "ring_wf U r" and "k < rb_len r"
  shows "rb_buf r ! ring_slot r k = Some (ring_contents r ! k)"
  using assms by (auto simp: ring_contents_nth ring_wf_def)

text \<open>The write cursor is the slot after the newest entry.\<close>

lemma ring_head_slot: "ring_wf U r \<Longrightarrow> rb_head r = ring_slot r (rb_len r)"
  by (simp add: ring_wf_def ring_slot_def)

lemma ring_slot_neq_head:
  assumes "ring_wf U r" and "k < rb_len r" and "rb_len r < ring_capacity r \<or> 0 < k"
  shows "ring_slot r k \<noteq> rb_head r"
proof
  assume "ring_slot r k = rb_head r"
  with assms(1) have "ring_slot r k = ring_slot r (rb_len r)" by (simp add: ring_head_slot)
  then have "rb_head r + (ring_capacity r - rb_len r) + k
      = rb_head r + (ring_capacity r - rb_len r) + rb_len r"
    unfolding ring_slot_def
    by (rule ring_index_inj) (use assms in \<open>auto simp: ring_wf_def\<close>)
  with assms(2) show False by simp
qed

lemma ring_index_slot:
  assumes "ring_wf U r" and "i < rb_len r"
  shows "ring_index r i = Some (ring_slot r i)"
proof (cases "rb_len r - i \<le> rb_head r")
  case True
  then have "rb_head r + (ring_capacity r - rb_len r) + i
      = (rb_head r - (rb_len r - i)) + ring_capacity r"
    using assms by (simp add: ring_wf_def)
  then have "ring_slot r i = (rb_head r - (rb_len r - i)) mod ring_capacity r"
    unfolding ring_slot_def by (metis mod_add_self2)
  moreover have "rb_head r - (rb_len r - i) < ring_capacity r"
    using assms unfolding ring_wf_def by linarith
  ultimately show ?thesis using True assms(2) by (simp add: ring_index_def)
next
  case False
  then have "rb_head r + (ring_capacity r - rb_len r) + i
      = ring_capacity r - (rb_len r - i - rb_head r)"
    using assms by (simp add: ring_wf_def)
  moreover have "ring_capacity r - (rb_len r - i - rb_head r) < ring_capacity r"
    using False assms unfolding ring_wf_def by linarith
  ultimately have "ring_slot r i = ring_capacity r - (rb_len r - i - rb_head r)"
    unfolding ring_slot_def by simp
  moreover have "rb_len r - i - rb_head r \<le> ring_capacity r"
    using assms(1) unfolding ring_wf_def by linarith
  ultimately show ?thesis using False assms(2) by (simp add: ring_index_def)
qed

lemma ring_wf_new: "0 < N \<Longrightarrow> N \<le> U \<Longrightarrow> ring_wf U (ring_new N)"
  by (simp add: ring_wf_def ring_new_def ring_capacity_def)

lemma ring_contents_new [simp]: "ring_contents (ring_new N) = []"
  by (simp add: ring_contents_def ring_new_def)

lemma ring_get_contents:
  assumes "ring_wf U r"
  shows "ring_get r i = Some (if i < rb_len r then Some (ring_contents r ! i) else None)"
  using assms by (auto simp: ring_get_def ring_index_slot ring_slot_less ring_slot_stored)

lemma ring_latest_contents:
  assumes "ring_wf U r"
  shows "ring_latest r = Some (if ring_contents r = [] then None else Some (last (ring_contents r)))"
proof (cases "rb_len r = 0")
  case True
  then show ?thesis by (simp add: ring_latest_def ring_contents_def)
next
  case False
  then have "ring_latest r = Some (Some (ring_contents r ! (rb_len r - 1)))"
    using assms by (simp add: ring_latest_def ring_index_slot ring_slot_less ring_slot_stored)
  moreover have "ring_contents r \<noteq> []" using False by (metis length_ring_contents list.size(3))
  ultimately show ?thesis by (simp add: last_conv_nth)
qed

section \<open>Effect of the mutators\<close>

text \<open>The state a push leaves: no step of it can fail on a well-formed ring.\<close>

lemma ring_push_result:
  assumes "ring_wf U r"
  shows "ring_push U r v = Some \<lparr>rb_buf = (rb_buf r)[rb_head r := Some v],
     rb_head = Suc (rb_head r) mod ring_capacity r,
     rb_len = (if rb_len r < ring_capacity r then Suc (rb_len r) else rb_len r)\<rparr>"
  using assms by (simp add: ring_push_def ring_wf_def ring_capacity_def)

text \<open>Slots move with the cursors: by none while the ring fills, by one when it is full.\<close>

lemma ring_slot_after_push:
  assumes wf: "ring_wf U r" and r': "ring_push U r v = Some r'"
  shows "ring_slot r' k = ring_slot r (if rb_len r < ring_capacity r then k else Suc k)"
proof -
  let ?N = "ring_capacity r"
  have cap: "ring_capacity r' = ?N" and head: "rb_head r' = Suc (rb_head r) mod ?N"
    and len: "rb_len r' = (if rb_len r < ?N then Suc (rb_len r) else rb_len r)"
    using r' by (auto simp: ring_push_result [OF wf] ring_capacity_def)
  have le: "rb_len r' \<le> ?N" "rb_len r \<le> ?N" using wf len by (auto simp: ring_wf_def)
  have "ring_slot r' k = (Suc (rb_head r) + (?N - rb_len r') + k) mod ?N"
    by (simp add: ring_slot_def cap head) (metis add_Suc mod_add_left_eq)
  also have "\<dots> = ring_slot r (if rb_len r < ?N then k else Suc k)"
    using le by (auto simp: ring_slot_def len intro!: arg_cong [where f = "\<lambda>x. x mod ?N"])
  finally show ?thesis .
qed

lemma ring_push_wf:
  assumes wf: "ring_wf U r" and r': "ring_push U r v = Some r'"
  shows "ring_wf U r'"
proof -
  have "rb_buf r' ! ring_slot r' k \<noteq> None" if "k < rb_len r'" for k
  proof -
    let ?j = "if rb_len r < ring_capacity r then k else Suc k"
    have slot: "ring_slot r' k = ring_slot r ?j" by (rule ring_slot_after_push [OF wf r'])
    have buf: "rb_buf r' = (rb_buf r)[rb_head r := Some v]" and "?j \<le> rb_len r"
      using r' that by (auto simp: ring_push_result [OF wf] split: if_splits)
    moreover have "rb_buf r ! ring_slot r j \<noteq> None" if "j < rb_len r" for j
      using wf that by (auto simp: ring_wf_def)
    ultimately show ?thesis
      using ring_head_slot [OF wf] ring_slot_less [OF wf, of ?j]
      by (cases "ring_slot r ?j = rb_head r") (auto simp: slot nth_list_update le_less)
  qed
  then show ?thesis using wf r'
    by (auto simp: ring_push_result [OF wf] ring_wf_def ring_capacity_def)
qed

text \<open>A push appends, and drops the oldest entry when the ring was full.\<close>

lemma ring_push_contents:
  assumes wf: "ring_wf U r" and r': "ring_push U r v = Some r'"
  shows "ring_contents r' =
    (if rb_len r < ring_capacity r then ring_contents r else tl (ring_contents r)) @ [v]"
proof (rule nth_equalityI)
  have len': "rb_len r' = (if rb_len r < ring_capacity r then Suc (rb_len r) else rb_len r)"
    and buf: "rb_buf r' = (rb_buf r)[rb_head r := Some v]"
    using r' by (auto simp: ring_push_result [OF wf])
  have len_le: "rb_len r \<le> ring_capacity r" "0 < ring_capacity r"
    using wf by (auto simp: ring_wf_def)
  then show "length (ring_contents r') =
      length ((if rb_len r < ring_capacity r then ring_contents r else tl (ring_contents r)) @ [v])"
    using len' by simp
  fix k assume k: "k < length (ring_contents r')"
  let ?j = "if rb_len r < ring_capacity r then k else Suc k"
  have slot: "ring_slot r' k = ring_slot r ?j" by (rule ring_slot_after_push [OF wf r'])
  have at: "ring_contents r' ! k = the (rb_buf r' ! ring_slot r ?j)"
    using k slot by (simp add: ring_contents_nth)
  show "ring_contents r' ! k =
      ((if rb_len r < ring_capacity r then ring_contents r else tl (ring_contents r)) @ [v]) ! k"
  proof (cases "?j = rb_len r")
    case True
    then have "ring_contents r' ! k = v"
      using at ring_head_slot [OF wf] ring_slot_less [OF wf, of "rb_len r"] by (simp add: buf)
    with True len_le show ?thesis by (auto simp: nth_append split: if_splits)
  next
    case False
    with k len' len_le have j: "?j < rb_len r" by (auto split: if_splits)
    moreover have "ring_slot r ?j \<noteq> rb_head r"
      using ring_slot_neq_head [OF wf j] by (auto split: if_splits)
    ultimately have "ring_contents r' ! k = ring_contents r ! ?j"
      using at ring_slot_less [OF wf] by (simp add: buf ring_contents_nth)
    with j show ?thesis by (auto simp: nth_append nth_tl split: if_splits)
  qed
qed

lemma ring_clear_wf: "ring_wf U r \<Longrightarrow> ring_wf U (ring_clear r)"
  by (simp add: ring_wf_def ring_clear_def ring_capacity_def)

lemma ring_clear_contents [simp]: "ring_contents (ring_clear r) = []"
  by (simp add: ring_contents_def ring_clear_def)

section \<open>Iteration\<close>

text \<open>
  From position \<open>p\<close> the iterator yields the entries from \<open>p\<close> on and then stops; the position never
  overflows.
\<close>

lemma ring_collect_from:
  assumes wf: "ring_wf U r"
  shows "ring_collect U \<lparr>ri_ring = r, ri_pos = p\<rparr> = Some (drop p (ring_contents r))"
proof (induction "rb_len r - p" arbitrary: p)
  case 0
  then have "rb_len r \<le> p" by simp
  then show ?case
    by (simp add: ring_collect.simps ring_iter_next_def ring_get_contents [OF wf])
next
  case (Suc n)
  then have p: "p < rb_len r" and n: "n = rb_len r - Suc p" by simp_all
  have "p + 1 \<le> U" using p wf by (simp add: ring_wf_def)
  moreover have "drop p (ring_contents r) = ring_contents r ! p # drop (Suc p) (ring_contents r)"
    using p by (simp add: Cons_nth_drop_Suc)
  ultimately show ?case using p Suc.hyps(1) [OF n]
    by (simp add: ring_collect.simps [of U "\<lparr>ri_ring = r, ri_pos = p\<rparr>"] ring_iter_next_def
        ring_get_contents [OF wf])
qed

section \<open>Runs and the window they implement\<close>

datatype 'a ring_op = RingPush 'a | RingClear

fun ring_run :: "usize \<Rightarrow> 'a ring_buf \<Rightarrow> 'a ring_op list \<Rightarrow> 'a ring_buf exec" where
  "ring_run U r [] = Some r"
| "ring_run U r (RingPush v # ops) = do { r' \<leftarrow> ring_push U r v; ring_run U r' ops }"
| "ring_run U r (RingClear # ops) = ring_run U (ring_clear r) ops"

text \<open>The specification: a list that keeps its last \<open>N\<close> elements.\<close>

fun window_run :: "nat \<Rightarrow> 'a list \<Rightarrow> 'a ring_op list \<Rightarrow> 'a list" where
  "window_run N xs [] = xs"
| "window_run N xs (RingPush v # ops) = window_run N (keep_last N (xs @ [v])) ops"
| "window_run N xs (RingClear # ops) = window_run N [] ops"

lemma ring_push_keep_last:
  assumes wf: "ring_wf U r" and r': "ring_push U r v = Some r'"
  shows "ring_contents r' = keep_last (ring_capacity r) (ring_contents r @ [v])"
  using wf by (auto simp: ring_push_contents [OF wf r'] keep_last_def ring_wf_def tl_drop drop_Suc
      Suc_diff_le)

lemma ring_push_capacity:
  assumes "ring_wf U r" and "ring_push U r v = Some r'"
  shows "ring_capacity r' = ring_capacity r"
  using assms(2) by (auto simp: ring_push_result [OF assms(1)] ring_capacity_def)

lemma ring_run_refines:
  "ring_wf U r \<Longrightarrow> \<exists>r'. ring_run U r ops = Some r' \<and> ring_wf U r' \<and>
     ring_capacity r' = ring_capacity r \<and>
     ring_contents r' = window_run (ring_capacity r) (ring_contents r) ops"
proof (induction ops arbitrary: r)
  case (Cons op ops)
  show ?case
  proof (cases op)
    case (RingPush v)
    obtain r1 where r1: "ring_push U r v = Some r1" by (simp add: ring_push_result [OF Cons.prems])
    from Cons.IH [OF ring_push_wf [OF Cons.prems r1]] show ?thesis
      by (simp add: RingPush r1 ring_push_keep_last [OF Cons.prems r1]
          ring_push_capacity [OF Cons.prems r1])
  next
    case RingClear
    have "ring_capacity (ring_clear r) = ring_capacity r"
      by (simp add: ring_clear_def ring_capacity_def)
    with Cons.IH [OF ring_clear_wf [OF Cons.prems]] show ?thesis by (simp add: RingClear)
  qed
qed simp

section \<open>The Sink contract\<close>

text \<open>
  The window as a sink: it holds the capacity and the contents, accepts everything and keeps the
  last \<open>N\<close>.
\<close>

interpretation ring_sink: infallible_sink "ring_try_push U" "\<lambda>r. (ring_capacity r, ring_contents r)"
  "\<lambda>held v. None" window_put "ring_wf U" for U
proof
  fix r :: "'a ring_buf" and v
  assume wf: "ring_wf U r"
  obtain r' where r': "ring_push U r v = Some r'" by (simp add: ring_push_result [OF wf])
  then show "\<exists>r'. ring_try_push U r v = Some (Inr (), r') \<and> ring_wf U r' \<and>
      (ring_capacity r', ring_contents r') = window_put (ring_capacity r, ring_contents r) v"
    using ring_push_wf [OF wf r'] ring_push_keep_last [OF wf r'] ring_push_capacity [OF wf r']
    by (simp add: ring_try_push_def window_put_def)
qed auto

text \<open>The operations, for symbolic execution on concrete states.\<close>

lemmas ring_exec_defs [op_defs] = ring_new_def ring_push_def ring_capacity_def ring_get_def
  ring_index_def ring_latest_def ring_len_def ring_is_empty_def ring_is_full_def ring_clear_def
  ring_iter_of_def ring_into_iter_def ring_iter_size_hint_def ring_iter_next_def

end
