(* ===== verification/Block.thy ===== *)
theory Block
  imports Sequence
begin

text \<open>
  Sample blocks (\<open>src/block.rs\<close>): \<open>Block\<close>, the complete contiguous window, and \<open>BlockBuilder\<close>, which
  fills one privately. The builder refines a list of numbered samples that only grows by the next number
  and is handed out as a block exactly when it is full. The sample array of \<open>N\<close> cells is a slot array:
  the type parameter \<open>N\<close> is its length.
\<close>

section \<open>Data\<close>

record 'a block =
  blk_first_sequence :: u32
  blk_last_sequence :: u32
  blk_samples :: "'a list"

datatype 'a fill_error =
    ReservedSequence (fe_sample: 'a)
  | Discontinuous (fe_expected: u32) (fe_received: u32) (fe_sample: 'a)

record 'a block_builder =
  bb_samples :: "'a slots"
  bb_length :: usize
  bb_first_sequence :: u32
  bb_last_sequence :: u32

definition block_first_sequence :: "'a block \<Rightarrow> u32" where
  "block_first_sequence b = blk_first_sequence b"

definition block_last_sequence :: "'a block \<Rightarrow> u32" where
  "block_last_sequence b = blk_last_sequence b"

definition block_samples :: "'a block \<Rightarrow> 'a list" where
  "block_samples b = blk_samples b"

definition block_into_samples :: "'a block \<Rightarrow> 'a list" where
  "block_into_samples b = blk_samples b"

section \<open>Operations\<close>

definition bb_new :: "nat \<Rightarrow> 'a block_builder" where
  "bb_new N = \<lparr>bb_samples = uninit_slots N, bb_length = 0, bb_first_sequence = 0, bb_last_sequence = 0\<rparr>"

definition bb_default :: "nat \<Rightarrow> 'a block_builder" where
  "bb_default N = bb_new N"

definition bb_capacity :: "'a block_builder \<Rightarrow> usize" where
  "bb_capacity b = length (bb_samples b)"

definition bb_len :: "'a block_builder \<Rightarrow> usize" where
  "bb_len b = bb_length b"

definition bb_is_empty :: "'a block_builder \<Rightarrow> bool" where
  "bb_is_empty b \<longleftrightarrow> bb_length b = 0"

definition bb_next_sequence :: "u32 \<Rightarrow> u32" where
  "bb_next_sequence sequence = (if sequence = u32_MAX then 1 else sequence + 1)"

definition bb_expected_sequence :: "'a block_builder \<Rightarrow> u32 option" where
  "bb_expected_sequence b =
     (if bb_length b = 0 then None else Some (bb_next_sequence (bb_last_sequence b)))"

definition bb_clear :: "'a block_builder \<Rightarrow> 'a block_builder" where
  "bb_clear b = b\<lparr>bb_length := 0, bb_first_sequence := 0, bb_last_sequence := 0\<rparr>"

text \<open>
  \<open>push\<close>: the guards, the bookkeeping and, when the block is full, the copy of all \<open>N\<close> cells, which
  fails if one of them was never written (\<open>those\<close>).
\<close>

definition bb_push ::
  "'a block_builder \<Rightarrow> u32 \<Rightarrow> 'a \<Rightarrow> (('a fill_error + 'a block option) \<times> 'a block_builder) exec" where
  "bb_push b sequence sample =
     (if sequence = 0 then Some (Inl (ReservedSequence sample), b)
      else if bb_length b \<noteq> 0 \<and> sequence \<noteq> bb_next_sequence (bb_last_sequence b) then
        Some (Inl (Discontinuous (bb_next_sequence (bb_last_sequence b)) sequence sample), b)
      else do {
        let b1 = (if bb_length b \<noteq> 0 then b else b\<lparr>bb_first_sequence := sequence\<rparr>);
        cells \<leftarrow> slot_write (bb_samples b1) (bb_length b1) sample;
        let b2 = b1\<lparr>bb_samples := cells, bb_length := bb_length b1 + 1, bb_last_sequence := sequence\<rparr>;
        if bb_length b2 \<noteq> bb_capacity b2 then Some (Inr None, b2)
        else do {
          samples \<leftarrow> those (bb_samples b2);
          let block = \<lparr>blk_first_sequence = bb_first_sequence b2,
            blk_last_sequence = bb_last_sequence b2, blk_samples = samples\<rparr>;
          Some (Inr (Some block), bb_clear b2)
        }
      })"

interpretation bb_seq: seq_next bb_next_sequence
  by unfold_locales (simp add: bb_next_sequence_def)

section \<open>The specification: a growing list of numbered samples\<close>

definition block_of :: "(u32 \<times> 'a) list \<Rightarrow> 'a block" where
  "block_of w = \<lparr>blk_first_sequence = fst (hd w), blk_last_sequence = fst (last w),
     blk_samples = map snd w\<rparr>"

definition fill_spec ::
  "nat \<Rightarrow> (u32 \<times> 'a) list \<Rightarrow> u32 \<Rightarrow> 'a \<Rightarrow> ('a fill_error + 'a block option) \<times> (u32 \<times> 'a) list" where
  "fill_spec N w s x =
     (if s = 0 then (Inl (ReservedSequence x), w)
      else if w \<noteq> [] \<and> s \<noteq> number_after (fst (last w)) then
        (Inl (Discontinuous (number_after (fst (last w))) s x), w)
      else if length w + 1 = N then (Inr (Some (block_of (w @ [(s, x)]))), [])
      else (Inr None, w @ [(s, x)]))"

text \<open>The code's successor is that of the numbering, so the specification can be read with either.\<close>

lemma fill_spec_code:
  "fill_spec N w s x =
     (if s = 0 then (Inl (ReservedSequence x), w)
      else if w \<noteq> [] \<and> s \<noteq> bb_next_sequence (fst (last w)) then
        (Inl (Discontinuous (bb_next_sequence (fst (last w))) s x), w)
      else if length w + 1 = N then (Inr (Some (block_of (w @ [(s, x)]))), [])
      else (Inr None, w @ [(s, x)]))"
  by (simp add: fill_spec_def bb_seq.nxt_number_after)

text \<open>The builder \<open>b\<close> holds the partial window \<open>w\<close>.\<close>

definition bb_holds :: "'a block_builder \<Rightarrow> (u32 \<times> 'a) list \<Rightarrow> bool" where
  "bb_holds b w \<longleftrightarrow> bb_length b = length w \<and> length w < bb_capacity b \<and>
     (\<forall>i < length w. bb_samples b ! i = Some (snd (w ! i))) \<and>
     (w \<noteq> [] \<longrightarrow> bb_first_sequence b = fst (hd w) \<and> bb_last_sequence b = fst (last w))"

lemma bb_holds_new [wf_intros]: "0 < N \<Longrightarrow> bb_holds (bb_new N) []"
  by (simp add: bb_holds_def bb_new_def bb_capacity_def)

lemma bb_holds_clear [wf_intros]: "bb_holds b w \<Longrightarrow> bb_holds (bb_clear b) []"
  by (auto simp: bb_holds_def bb_clear_def bb_capacity_def)

lemma those_map_Some: "those (map Some xs) = Some xs"
  by (induction xs) auto

lemma bb_holds_prefix:
  assumes "bb_holds b w"
  shows "take (length w) (bb_samples b) = map (Some \<circ> snd) w"
  using assms by (intro nth_equalityI) (auto simp: bb_holds_def bb_capacity_def)

text \<open>One push does what the specification says, whatever the number.\<close>

lemma bb_push_refines:
  assumes b: "bb_holds b w"
  shows "\<exists>b'. bb_push b s x = Some (fst (fill_spec (bb_capacity b) w s x), b') \<and>
    bb_holds b' (snd (fill_spec (bb_capacity b) w s x)) \<and> bb_capacity b' = bb_capacity b"
proof (cases "s = 0 \<or> (w \<noteq> [] \<and> s \<noteq> bb_next_sequence (fst (last w)))")
  case True
  with b show ?thesis by (cases "s = 0") (auto simp: bb_push_def fill_spec_code bb_holds_def)
next
  case False
  let ?N = "bb_capacity b" and ?w = "w @ [(s, x)]"
  have len: "bb_length b = length w" and room: "length w < length (bb_samples b)"
    using b by (simp_all add: bb_holds_def bb_capacity_def)
  have ok: "s \<noteq> 0" "bb_length b = 0 \<or> s = bb_next_sequence (bb_last_sequence b)"
    using False b by (auto simp: bb_holds_def)
  define cells where "cells = (bb_samples b)[length w := Some x]"
  define b1 where "b1 = (if bb_length b \<noteq> 0 then b else b\<lparr>bb_first_sequence := s\<rparr>)"
  define b2 where "b2 = b1\<lparr>bb_samples := cells, bb_length := length w + 1, bb_last_sequence := s\<rparr>"
  have b1: "bb_samples b1 = bb_samples b" "bb_length b1 = length w" by (simp_all add: b1_def len)
  have cap: "bb_capacity b2 = ?N" by (simp add: b2_def cells_def bb_capacity_def)
  have first: "bb_first_sequence b2 = fst (hd ?w)"
    using b by (cases w) (auto simp: b2_def b1_def bb_holds_def)
  have cells_w: "cells ! i = Some (snd (?w ! i))" if "i \<le> length w" for i
    using that b room by (cases "i = length w") (auto simp: cells_def bb_holds_def nth_append)
  have push: "bb_push b s x = (if bb_length b2 \<noteq> bb_capacity b2 then Some (Inr None, b2)
      else do { samples \<leftarrow> those (bb_samples b2); Some (Inr (Some \<lparr>blk_first_sequence = bb_first_sequence b2,
        blk_last_sequence = bb_last_sequence b2, blk_samples = samples\<rparr>), bb_clear b2) })"
    using ok room unfolding bb_push_def b1_def [symmetric]
    by (auto simp: b1 cells_def [symmetric] b2_def Let_def)
  have b2: "bb_length b2 = length w + 1" "bb_samples b2 = cells" "bb_last_sequence b2 = s"
    by (simp_all add: b2_def)
  show ?thesis
  proof (cases "length w + 1 = ?N")
    case True
    have "cells = map Some (map snd ?w)"
      using True room cells_w
      by (intro nth_equalityI) (auto simp: cells_def bb_capacity_def nth_append)
    then have samples: "those cells = Some (map snd ?w)" using those_map_Some by metis
    have "bb_push b s x = Some (Inr (Some (block_of ?w)), bb_clear b2)"
      using True first cap by (simp add: push b2 samples block_of_def)
    moreover have "bb_holds (bb_clear b2) []"
      using room cap by (auto simp: bb_holds_def bb_clear_def bb_capacity_def)
    moreover have "bb_capacity (bb_clear b2) = ?N" using cap by (simp add: bb_clear_def bb_capacity_def)
    ultimately show ?thesis using False True by (auto simp: fill_spec_code)
  next
    case False': False
    have "bb_push b s x = Some (Inr None, b2)"
      using False' cap by (simp add: push b2)
    moreover have "bb_holds b2 ?w"
      using room False' cap first cells_w
      by (auto simp: bb_holds_def bb_capacity_def b2_def nth_append)
    ultimately show ?thesis using False False' cap by (auto simp: fill_spec_code)
  qed
qed

section \<open>Runs\<close>

datatype 'a fill_op = Fill u32 'a | ClearWindow

fun bb_step :: "'a block_builder \<Rightarrow> 'a fill_op \<Rightarrow> (('a fill_error + 'a block option) \<times> 'a block_builder) exec" where
  "bb_step b (Fill s x) = bb_push b s x"
| "bb_step b ClearWindow = Some (Inr None, bb_clear b)"

fun bb_run :: "'a block_builder \<Rightarrow> 'a fill_op list \<Rightarrow>
    (('a fill_error + 'a block option) list \<times> 'a block_builder) exec" where
  "bb_run b [] = Some ([], b)"
| "bb_run b (op # ops) = do {
     (r, b') \<leftarrow> bb_step b op;
     (rs, b'') \<leftarrow> bb_run b' ops;
     Some (r # rs, b'')
   }"

fun fill_step :: "nat \<Rightarrow> (u32 \<times> 'a) list \<Rightarrow> 'a fill_op \<Rightarrow> ('a fill_error + 'a block option) \<times> (u32 \<times> 'a) list" where
  "fill_step N w (Fill s x) = fill_spec N w s x"
| "fill_step N w ClearWindow = (Inr None, [])"

fun fill_run :: "nat \<Rightarrow> (u32 \<times> 'a) list \<Rightarrow> 'a fill_op list \<Rightarrow>
    ('a fill_error + 'a block option) list \<times> (u32 \<times> 'a) list" where
  "fill_run N w [] = ([], w)"
| "fill_run N w (op # ops) =
     (let (r, w') = fill_step N w op; (rs, w'') = fill_run N w' ops in (r # rs, w''))"

lemma bb_step_refines:
  assumes "bb_holds b w"
  shows "\<exists>b'. bb_step b op = Some (fst (fill_step (bb_capacity b) w op), b') \<and>
    bb_holds b' (snd (fill_step (bb_capacity b) w op)) \<and> bb_capacity b' = bb_capacity b"
proof (cases op)
  case ClearWindow
  have "bb_capacity (bb_clear b) = bb_capacity b" by (simp add: bb_clear_def bb_capacity_def)
  with bb_holds_clear [OF assms] show ?thesis by (simp add: ClearWindow)
qed (use bb_push_refines [OF assms] in simp)

lemma bb_run_refines:
  "bb_holds b w \<Longrightarrow> \<exists>b'. bb_run b ops = Some (fst (fill_run (bb_capacity b) w ops), b') \<and>
     bb_holds b' (snd (fill_run (bb_capacity b) w ops)) \<and> bb_capacity b' = bb_capacity b"
proof (induction ops arbitrary: b w)
  case (Cons op ops)
  from bb_step_refines [OF Cons.prems, of op] obtain b1 where
    b1: "bb_step b op = Some (fst (fill_step (bb_capacity b) w op), b1)"
      "bb_holds b1 (snd (fill_step (bb_capacity b) w op))" "bb_capacity b1 = bb_capacity b" by blast
  from Cons.IH [OF b1(2)] b1 show ?case by (auto simp: split_beta Let_def)
qed simp

section \<open>Every block is contiguous\<close>

text \<open>
  A stream of samples, some of which the upstream may have omitted: the builder is fed the ordinals
  \<open>ms\<close> it did get, each under its 32-bit number, with clears (\<open>None\<close>) in between.
\<close>

definition feed :: "(nat \<Rightarrow> 'a) \<Rightarrow> nat option list \<Rightarrow> 'a fill_op list" where
  "feed vals ms = map (case_option ClearWindow (\<lambda>m. Fill (seq_at m) (vals m))) ms"

definition ordinals :: "nat option list \<Rightarrow> nat list" where
  "ordinals ms = map the (filter (\<lambda>m. m \<noteq> None) ms)"

definition numbered :: "(nat \<Rightarrow> 'a) \<Rightarrow> nat list \<Rightarrow> (u32 \<times> 'a) list" where
  "numbered vals ms = map (\<lambda>m. (seq_at m, vals m)) ms"

lemma ordinals_simps [simp]:
  "ordinals [] = []" "ordinals (None # ms) = ordinals ms" "ordinals (Some m # ms) = m # ordinals ms"
  by (simp_all add: ordinals_def)

lemma feed_simps [simp]:
  "feed vals [] = []" "feed vals (None # ms) = ClearWindow # feed vals ms"
  "feed vals (Some m # ms) = Fill (seq_at m) (vals m) # feed vals ms"
  by (simp_all add: feed_def)

lemma length_numbered [simp]: "length (numbered vals ms) = length ms"
  by (simp add: numbered_def)

text \<open>Below one span, the expected number identifies the next ordinal.\<close>

lemma next_ordinal:
  assumes "a < m" and "m - a < SPAN"
  shows "seq_at m = bb_next_sequence (seq_at a) \<longleftrightarrow> m = Suc a"
proof
  assume "seq_at m = bb_next_sequence (seq_at a)"
  then have "seq_at (Suc a) = seq_at m" by (simp add: bb_seq.nxt_seq_at)
  from seq_at_inj_near [OF this] assms have "Suc a = m" by simp
  then show "m = Suc a" ..
qed (simp add: bb_seq.nxt_seq_at)

text \<open>
  One sample offered to the window of the ordinals from \<open>a\<close>: it is refused after a gap, and otherwise extends
  the window, which an empty builder starts at the sample itself.
\<close>

lemma fill_step_numbered:
  assumes m: "0 < m" "0 < k \<longrightarrow> a + k \<le> m \<and> m - a < SPAN" and a': "a' = (if k = 0 then m else a)"
  shows "fill_step N (numbered vals [a..<a + k]) (Fill (seq_at m) (vals m)) =
    (if 0 < k \<and> m \<noteq> a + k
     then (Inl (Discontinuous (bb_next_sequence (seq_at (a + k - 1))) (seq_at m) (vals m)), numbered vals [a..<a + k])
     else if Suc k = N then (Inr (Some (block_of (numbered vals [a'..<a' + Suc k]))), [])
     else (Inr None, numbered vals [a'..<a' + Suc k]))"
proof -
  let ?w = "numbered vals [a..<a + k]"
  have last: "0 < k \<Longrightarrow> fst (last ?w) = seq_at (a + k - 1)" by (cases k) (simp_all add: numbered_def)
  have ne: "?w \<noteq> [] \<longleftrightarrow> 0 < k" by (cases k) (simp_all add: numbered_def)
  show ?thesis
  proof (cases "0 < k \<and> m \<noteq> a + k")
    case True
    then have "seq_at m \<noteq> bb_next_sequence (seq_at (a + k - 1))" using next_ordinal [of "a + k - 1" m] m by fastforce
    with True m(1) ne last show ?thesis by (simp add: fill_spec_code)
  next
    case False
    then have "a' + k = m" "[a'..<a' + k] = [a..<a + k]" by (auto simp: a')
    then have w': "?w @ [(seq_at m, vals m)] = numbered vals [a'..<a' + Suc k]" by (simp add: numbered_def)
    have "\<not> (?w \<noteq> [] \<and> seq_at m \<noteq> bb_next_sequence (fst (last ?w)))"
      using False last ne by (cases k) (auto simp: bb_seq.nxt_seq_at)
    with False m(1) show ?thesis unfolding fill_step.simps fill_spec_code w' by (simp del: upt_Suc)
  qed
qed

lemma fill_run_contiguous:
  assumes "sorted_wrt (<) (ordinals ms)" and "k < N"
    and "\<forall>m \<in> set (ordinals ms). 0 < m \<and> (0 < k \<longrightarrow> a + k \<le> m \<and> m - a < SPAN)"
    and "\<forall>m \<in> set (ordinals ms). \<forall>m' \<in> set (ordinals ms). m' - m < SPAN"
    and "Inr (Some blk) \<in> set (fst (fill_run N (numbered vals [a..<a + k]) (feed vals ms)))"
  shows "\<exists>c. blk = block_of (numbered vals [c..<c + N]) \<and>
    set [c..<c + N] \<subseteq> set [a..<a + k] \<union> set (ordinals ms)"
  using assms
proof (induction ms arbitrary: a k)
  case (Cons opt ms)
  have later: "\<forall>m \<in> set (ordinals ms). 0 < m \<and> (0 < k \<longrightarrow> a + k \<le> m \<and> m - a < SPAN)"
    and pairs: "\<forall>m \<in> set (ordinals ms). \<forall>m' \<in> set (ordinals ms). m' - m < SPAN"
    and sorted: "sorted_wrt (<) (ordinals ms)" using Cons.prems(1,3,4) by (cases opt; simp)+
  have emptied: ?case if "Inr (Some blk) \<in> set (fst (fill_run N [] (feed vals ms)))"
  proof -
    from that have "\<exists>c. blk = block_of (numbered vals [c..<c + N]) \<and>
        set [c..<c + N] \<subseteq> set [a..<a + 0] \<union> set (ordinals ms)"
      using sorted Cons.prems(2) later pairs by (intro Cons.IH [of 0 a]) (simp_all add: numbered_def)
    then show ?thesis by (cases opt) auto
  qed
  show ?case
  proof (cases opt)
    case None
    with Cons.prems(5) show ?thesis by (intro emptied) (simp add: split_beta Let_def)
  next
    case (Some m)
    define a' where "a' = (if k = 0 then m else a)"
    have m: "0 < m" "0 < k \<longrightarrow> a + k \<le> m \<and> m - a < SPAN" using Cons.prems(3) by (auto simp: Some)
    note step = fill_step_numbered [OF m a'_def, of N vals]
    have after: "m < m'" "m' - m < SPAN" if "m' \<in> set (ordinals ms)" for m'
      using Cons.prems(1,4) that by (simp_all add: Some)
    have window: "set [a'..<a' + Suc k] \<subseteq> set [a..<a + k] \<union> set (ordinals (opt # ms))" if "\<not> (0 < k \<and> m \<noteq> a + k)"
      using that by (auto simp: Some a'_def)
    consider (gap) "0 < k \<and> m \<noteq> a + k" | (full) "\<not> (0 < k \<and> m \<noteq> a + k)" "Suc k = N"
      | (grow) "\<not> (0 < k \<and> m \<noteq> a + k)" "Suc k \<noteq> N" by blast
    then show ?thesis
    proof cases
      case gap
      then have "Inr (Some blk) \<in> set (fst (fill_run N (numbered vals [a..<a + k]) (feed vals ms)))"
        using Cons.prems(5) step by (simp add: Some split_beta Let_def del: fill_step.simps)
      from Cons.IH [OF sorted Cons.prems(2) later pairs this] show ?thesis by (auto simp: Some)
    next
      case full
      then consider "blk = block_of (numbered vals [a'..<a' + N])" | "Inr (Some blk) \<in> set (fst (fill_run N [] (feed vals ms)))"
        using Cons.prems(5) step by (auto simp: Some split_beta Let_def simp del: fill_step.simps upt_Suc)
      then show ?thesis using window [OF full(1)] full(2) emptied by cases blast+
    next
      case grow
      then have "fill_step N (numbered vals [a..<a + k]) (Fill (seq_at m) (vals m)) = (Inr None, numbered vals [a'..<a' + Suc k])"
        unfolding step by (simp only: if_False)
      then have "Inr (Some blk) \<in> set (fst (fill_run N (numbered vals [a'..<a' + Suc k]) (feed vals ms)))"
        using Cons.prems(5) by (simp add: Some split_beta Let_def del: fill_step.simps upt_Suc)
      moreover have "0 < m' \<and> a' + Suc k \<le> m' \<and> m' - a' < SPAN" if "m' \<in> set (ordinals ms)" for m'
        using later after [OF that] grow that by (auto simp: a'_def Suc_le_eq split: if_splits)
      ultimately have "\<exists>c. blk = block_of (numbered vals [c..<c + N]) \<and>
          set [c..<c + N] \<subseteq> set [a'..<a' + Suc k] \<union> set (ordinals ms)"
        using Cons.prems(2) grow by (intro Cons.IH sorted pairs) simp_all
      with window [OF grow(1)] show ?thesis by (auto simp: Some simp del: upt_Suc)
    qed
  qed
qed simp

text \<open>One whole span after the partial window the recurring number is accepted: the check is modular.\<close>

lemma fill_spec_alias:
  assumes "w \<noteq> []" and "fst (last w) = seq_at a" and "length w + 1 < N"
  shows "fill_spec N w (seq_at (Suc a + j * SPAN)) x
    = (Inr None, w @ [(seq_at (Suc a), x)])"
proof -
  have "seq_at (Suc a + j * SPAN) = seq_at (Suc a)" by (simp add: seq_at_Suc_eq_iff)
  with assms show ?thesis by (simp add: fill_spec_code bb_seq.nxt_seq_at)
qed

text \<open>The operations, for symbolic execution on concrete states.\<close>

lemmas bb_op_defs [op_defs] = bb_new_def bb_default_def bb_push_def bb_capacity_def
  bb_next_sequence_def bb_clear_def bb_len_def bb_is_empty_def bb_expected_sequence_def
  block_first_sequence_def block_last_sequence_def block_samples_def block_into_samples_def

end
