(* ===== verification/LatestBuf.thy ===== *)
theory LatestBuf
  imports Sequence Roles Traits
begin

unbundle bit_operations_syntax

text \<open>
  \<open>LatestBuf\<close> (\<open>src/latest_buf.rs\<close>): the channel that keeps the newest unread publication. Three
  slots, each owned by the producer, by the consumer or by the exchange word; ownership moves with one
  swap of that word. The operations here run one at a time and refine the history of publications; the
  interleaving of their accesses is in \<open>LatestBuf_Conc\<close>.
\<close>

section \<open>State\<close>

record 'a lb_entry =
  ent_generation :: u32
  ent_value :: 'a

record lb_producer_state =
  back_encoded :: u32
  next_generation :: u32

record lb_consumer_state =
  front_encoded :: u32
  last_generation :: u32

record publish_report =
  pr_generation :: u32
  pr_replaced_unread :: bool

record 'a latest_item =
  li_value :: 'a
  li_generation :: u32
  li_skipped :: u32

record 'a latest_buf =
  lb_exchange :: u32
  lb_slots :: "'a lb_entry slots"
  lb_producer :: lb_producer_state
  lb_consumer :: lb_consumer_state
  lb_producer_taken :: bool
  lb_consumer_taken :: bool

datatype lb_producer_handle = LbProducer
datatype lb_consumer_handle = LbConsumer

definition SLOT_MASK :: u32 where "SLOT_MASK = 0b11"
definition READY_BIT :: u32 where "READY_BIT = 0b100"
definition PRODUCER_SLOT_XOR :: u32 where "PRODUCER_SLOT_XOR = 1"
definition CONSUMER_SLOT_XOR :: u32 where "CONSUMER_SLOT_XOR = 2"

definition lb_slot_array :: "'a lb_entry slots" where
  "lb_slot_array = uninit_slots 3"

definition lb_new :: "'a latest_buf" where
  "lb_new = \<lparr>lb_exchange = 0, lb_slots = lb_slot_array,
     lb_producer = \<lparr>back_encoded = 0, next_generation = 0\<rparr>,
     lb_consumer = \<lparr>front_encoded = 0, last_generation = 0\<rparr>,
     lb_producer_taken = False, lb_consumer_taken = False\<rparr>"

definition lb_default :: "'a latest_buf" where
  "lb_default = lb_new"

definition lb_try_producer :: "'a latest_buf \<Rightarrow> lb_producer_handle option \<times> 'a latest_buf" where
  "lb_try_producer b =
     (let was_taken = lb_producer_taken b; b' = b\<lparr>lb_producer_taken := True\<rparr>
      in if was_taken then (None, b') else (Some LbProducer, b'))"

definition lb_try_consumer :: "'a latest_buf \<Rightarrow> lb_consumer_handle option \<times> 'a latest_buf" where
  "lb_try_consumer b =
     (let was_taken = lb_consumer_taken b; b' = b\<lparr>lb_consumer_taken := True\<rparr>
      in if was_taken then (None, b') else (Some LbConsumer, b'))"

definition lb_drop_producer :: "'a latest_buf \<Rightarrow> 'a latest_buf" where
  "lb_drop_producer b = b\<lparr>lb_producer_taken := False\<rparr>"

definition lb_drop_consumer :: "'a latest_buf \<Rightarrow> 'a latest_buf" where
  "lb_drop_consumer b = b\<lparr>lb_consumer_taken := False\<rparr>"

section \<open>The exchange word and the role-owned slot indices\<close>

definition lb_encode :: "u32 \<Rightarrow> bool \<Rightarrow> u32" where
  "lb_encode slot ready = slot OR (if ready then READY_BIT else 0)"

definition lb_slot :: "u32 \<Rightarrow> usize" where
  "lb_slot state = unat (state AND SLOT_MASK)"

definition lb_ready :: "u32 \<Rightarrow> bool" where
  "lb_ready state \<longleftrightarrow> state AND READY_BIT \<noteq> 0"

definition lb_producer_slot :: "u32 \<Rightarrow> u32" where
  "lb_producer_slot encoded = encoded XOR PRODUCER_SLOT_XOR"

definition lb_encode_producer_slot :: "u32 \<Rightarrow> u32" where
  "lb_encode_producer_slot slot = slot XOR PRODUCER_SLOT_XOR"

definition lb_consumer_slot :: "u32 \<Rightarrow> u32" where
  "lb_consumer_slot encoded = encoded XOR CONSUMER_SLOT_XOR"

definition lb_encode_consumer_slot :: "u32 \<Rightarrow> u32" where
  "lb_encode_consumer_slot slot = slot XOR CONSUMER_SLOT_XOR"

definition lb_next_generation :: "u32 \<Rightarrow> u32" where
  "lb_next_generation current = (let generation = current + 1 in if generation = 0 then 1 else generation)"

definition lb_generation_distance :: "u32 \<Rightarrow> u32 \<Rightarrow> u32" where
  "lb_generation_distance from to' = (let raw = to' - from in if to' < from then raw - 1 else raw)"

definition u32_saturating_sub :: "u32 \<Rightarrow> u32 \<Rightarrow> u32" where
  "u32_saturating_sub a b = (if a < b then 0 else a - b)"

section \<open>publish and take_latest\<close>

definition lb_publish :: "'a latest_buf \<Rightarrow> 'a \<Rightarrow> (publish_report \<times> 'a latest_buf) exec" where
  "lb_publish b value = do {
     let generation = lb_next_generation (next_generation (lb_producer b));
     let back = lb_producer_slot (back_encoded (lb_producer b));
     let b1 = b\<lparr>lb_producer := (lb_producer b)\<lparr>next_generation := generation\<rparr>\<rparr>;
     slots' \<leftarrow> slot_write (lb_slots b1) (unat back) \<lparr>ent_generation = generation, ent_value = value\<rparr>;
     let previous = lb_exchange b1;
     let b2 = b1\<lparr>lb_slots := slots', lb_exchange := lb_encode back True\<rparr>;
     let b3 = b2\<lparr>lb_producer := (lb_producer b2)
                   \<lparr>back_encoded := lb_encode_producer_slot (previous AND SLOT_MASK)\<rparr>\<rparr>;
     Some (\<lparr>pr_generation = generation, pr_replaced_unread = lb_ready previous\<rparr>, b3)
   }"

definition lb_take_latest :: "'a latest_buf \<Rightarrow> ('a latest_item option \<times> 'a latest_buf) exec" where
  "lb_take_latest b =
     (if \<not> lb_ready (lb_exchange b) then Some (None, b)
      else do {
        let front = lb_consumer_slot (front_encoded (lb_consumer b));
        let previous = lb_exchange b;
        let claimed = previous AND SLOT_MASK;
        let b1 = b\<lparr>lb_exchange := lb_encode front False,
                   lb_consumer := (lb_consumer b)\<lparr>front_encoded := lb_encode_consumer_slot claimed\<rparr>\<rparr>;
        if \<not> lb_ready previous then Some (None, b1)
        else do {
          entry \<leftarrow> slot_read (lb_slots b1) (lb_slot previous);
          let distance = lb_generation_distance (last_generation (lb_consumer b1)) (ent_generation entry);
          let b2 = b1\<lparr>lb_consumer := (lb_consumer b1)\<lparr>last_generation := ent_generation entry\<rparr>\<rparr>;
          Some (Some \<lparr>li_value = ent_value entry, li_generation = ent_generation entry,
            li_skipped = u32_saturating_sub distance 1\<rparr>, b2)
        }
      })"

text \<open>The \<open>LatestSink\<close> and \<open>LatestSource\<close> trait methods.\<close>

definition lb_publish_latest :: "'a latest_buf \<Rightarrow> 'a \<Rightarrow> (publish_report \<times> 'a latest_buf) exec" where
  "lb_publish_latest b value = lb_publish b value"

definition lb_try_take_latest :: "'a latest_buf \<Rightarrow> ('a latest_item option \<times> 'a latest_buf) exec" where
  "lb_try_take_latest b = lb_take_latest b"

interpretation lb_gen: seq_cycle lb_next_generation lb_generation_distance
  by unfold_locales
    (auto simp: lb_next_generation_def lb_generation_distance_def Let_def eq_neg_iff_add_eq_0)

interpretation lb_prod: role lb_try_producer lb_drop_producer lb_producer_taken
  "\<lambda>b. b\<lparr>lb_producer_taken := False\<rparr>"
  by unfold_locales (auto simp: lb_try_producer_def lb_drop_producer_def)

interpretation lb_cons: role lb_try_consumer lb_drop_consumer lb_consumer_taken
  "\<lambda>b. b\<lparr>lb_consumer_taken := False\<rparr>"
  by unfold_locales (auto simp: lb_try_consumer_def lb_drop_consumer_def)

section \<open>Encodings\<close>

lemma u32_less_3: "(s :: u32) < 3 \<longleftrightarrow> s = 0 \<or> s = 1 \<or> s = 2"
proof -
  have "s < 3 \<longleftrightarrow> unat s < 3" by (simp add: word_less_nat_alt)
  also have "\<dots> \<longleftrightarrow> unat s = unat (0::u32) \<or> unat s = unat (1::u32) \<or> unat s = unat (2::u32)" by auto
  finally show ?thesis by (simp only: word_unat_eq_iff)
qed

lemma lb_ready_encode [simp]: "s < 3 \<Longrightarrow> lb_ready (lb_encode s r) = r"
  by (auto simp: lb_ready_def lb_encode_def READY_BIT_def u32_less_3)

lemma lb_mask_encode [simp]: "s < 3 \<Longrightarrow> lb_encode s r AND SLOT_MASK = s"
  by (auto simp: lb_encode_def READY_BIT_def SLOT_MASK_def u32_less_3)

lemma lb_slot_encode [simp]: "s < 3 \<Longrightarrow> lb_slot (lb_encode s r) = unat s"
  by (simp add: lb_slot_def)

text \<open>Conversely, the exchange word is the encoding of what is read from it.\<close>

lemma lb_encode_decode: "w < 8 \<Longrightarrow> lb_encode (w AND SLOT_MASK) (lb_ready w) = w"
proof -
  assume "w < 8"
  then have "unat w \<in> {0, 1, 2, 3, 4, 5, 6, 7}" by (auto simp: word_less_nat_alt)
  then have "w \<in> of_nat ` {0, 1, 2, 3, 4, 5, 6, 7}" using u32_of_unat by blast
  then show ?thesis by (auto simp: lb_encode_def lb_ready_def SLOT_MASK_def READY_BIT_def)
qed

lemma lb_producer_slot_inverse [simp]: "lb_producer_slot (lb_encode_producer_slot s) = s"
  by (simp add: lb_producer_slot_def lb_encode_producer_slot_def xor.assoc)

lemma lb_consumer_slot_inverse [simp]: "lb_consumer_slot (lb_encode_consumer_slot s) = s"
  by (simp add: lb_consumer_slot_def lb_encode_consumer_slot_def xor.assoc)

text \<open>In the zero image the three roles hold the three slots.\<close>

lemma lb_new_roles:
  "lb_producer_slot (back_encoded (lb_producer lb_new)) = 1" "lb_consumer_slot (front_encoded (lb_consumer lb_new)) = 2"
  "lb_slot (lb_exchange lb_new) = 0" "\<not> lb_ready (lb_exchange lb_new)"
  by (simp_all add: lb_new_def lb_producer_slot_def lb_consumer_slot_def lb_slot_def lb_ready_def
      PRODUCER_SLOT_XOR_def CONSUMER_SLOT_XOR_def)

text \<open>
  Three disjoint roles, in every state: the producer's slot, the consumer's and the exchange's are the
  three slots of the array.
\<close>

definition lb_roles :: "'a latest_buf \<Rightarrow> u32 \<Rightarrow> u32 \<Rightarrow> u32 \<Rightarrow> bool" where
  "lb_roles b back front mid \<longleftrightarrow>
     lb_producer_slot (back_encoded (lb_producer b)) = back \<and>
     lb_consumer_slot (front_encoded (lb_consumer b)) = front \<and>
     lb_exchange b = lb_encode mid (lb_ready (lb_exchange b)) \<and>
     back < 3 \<and> front < 3 \<and> mid < 3 \<and> back \<noteq> front \<and> front \<noteq> mid \<and> mid \<noteq> back"

text \<open>The channel has seen the publications \<open>hist\<close>, of which the first \<open>c\<close> are taken or skipped.\<close>

definition lb_rep :: "'a latest_buf \<Rightarrow> 'a list \<Rightarrow> nat \<Rightarrow> bool" where
  "lb_rep b hist c \<longleftrightarrow> length (lb_slots b) = 3 \<and> c \<le> length hist \<and>
     next_generation (lb_producer b) = seq_at (length hist) \<and>
     last_generation (lb_consumer b) = seq_at c \<and>
     lb_ready (lb_exchange b) = (c < length hist) \<and>
     (\<exists>back front mid. lb_roles b back front mid \<and>
        (c < length hist \<longrightarrow> lb_slots b ! unat mid =
           Some \<lparr>ent_generation = seq_at (length hist), ent_value = last hist\<rparr>))"

lemma lb_rep_new: "lb_rep lb_new [] 0"
  by (auto simp: lb_rep_def lb_new_def lb_slot_array_def lb_roles_def lb_producer_slot_def
      lb_consumer_slot_def PRODUCER_SLOT_XOR_def CONSUMER_SLOT_XOR_def lb_ready_def lb_encode_def u32_less_3)

text \<open>How many publications a take reports as skipped: exact below one span, modular beyond.\<close>

definition lb_skips :: "nat \<Rightarrow> nat \<Rightarrow> nat" where
  "lb_skips c n = (if c = 0 then (n - 1) mod SPAN else (n - c) mod SPAN - 1)"

lemma lb_skips_exact: "c < n \<Longrightarrow> n - c < SPAN \<Longrightarrow> lb_skips c n = n - c - 1"
  by (auto simp: lb_skips_def)

lemma lb_skips_alias: "0 < c \<Longrightarrow> lb_skips c (c + k * SPAN) = 0"
  by (simp add: lb_skips_def)

lemma lb_skipped_eq:
  assumes "c < n"
  shows "u32_saturating_sub (lb_generation_distance (seq_at c) (seq_at n)) 1 = of_nat (lb_skips c n)"
proof -
  let ?d = "lb_generation_distance (seq_at c) (seq_at n)"
  have d: "unat ?d = (if c = 0 then (n - 1) mod SPAN + 1 else (n - c) mod SPAN)"
    using assms lb_gen.dist_seq_at_mod [of c n] by (simp add: lb_gen.unat_dist unat_seq_at)
  then have eq: "lb_skips c n = unat ?d - 1" by (simp add: lb_skips_def)
  show ?thesis
  proof (cases "?d = 0")
    case True
    then show ?thesis by (simp add: eq u32_saturating_sub_def)
  next
    case False
    then have "\<not> ?d < 1" by (simp add: word_less_nat_alt unat_eq_0)
    moreover have "unat ?d - 1 = unat (?d - 1)" using False by (simp add: unat_minus_one)
    ultimately show ?thesis by (simp add: eq u32_saturating_sub_def)
  qed
qed

lemma lb_publish_rep:
  assumes rep: "lb_rep b hist c"
  shows "\<exists>b'. lb_publish b v = Some (\<lparr>pr_generation = seq_at (Suc (length hist)),
      pr_replaced_unread = (c < length hist)\<rparr>, b') \<and> lb_rep b' (hist @ [v]) c"
proof -
  obtain bk front mid where roles: "lb_roles b bk front mid"
    using rep by (auto simp: lb_rep_def)
  let ?g = "seq_at (Suc (length hist))"
  have gen: "lb_next_generation (next_generation (lb_producer b)) = ?g"
    using rep by (simp add: lb_rep_def lb_gen.nxt_seq_at)
  have bk: "lb_producer_slot (back_encoded (lb_producer b)) = bk" "unat bk < length (lb_slots b)"
    and mid: "lb_exchange b AND SLOT_MASK = mid"
    using roles rep lb_mask_encode [of mid "lb_ready (lb_exchange b)"]
    by (simp_all add: lb_roles_def lb_rep_def word_less_nat_alt)
  define b' where "b' = b\<lparr>lb_slots := (lb_slots b)[unat bk := Some \<lparr>ent_generation = ?g, ent_value = v\<rparr>],
    lb_exchange := lb_encode bk True,
    lb_producer := \<lparr>back_encoded = lb_encode_producer_slot mid, next_generation = ?g\<rparr>\<rparr>"
  have "lb_publish b v = Some (\<lparr>pr_generation = ?g, pr_replaced_unread = lb_ready (lb_exchange b)\<rparr>, b')"
    using bk(2) by (simp add: lb_publish_def gen bk(1) mid Let_def b'_def)
  moreover have "lb_roles b' mid front bk" using roles by (auto simp: lb_roles_def b'_def)
  then have "lb_rep b' (hist @ [v]) c"
    using rep bk(2) roles by (auto simp: lb_rep_def b'_def lb_roles_def intro!: exI)
  ultimately show ?thesis using rep by (auto simp: lb_rep_def)
qed

lemma lb_take_rep:
  assumes rep: "lb_rep b hist c"
  shows "if c < length hist
    then \<exists>b'. lb_take_latest b = Some (Some \<lparr>li_value = last hist, li_generation = seq_at (length hist),
        li_skipped = of_nat (lb_skips c (length hist))\<rparr>, b') \<and> lb_rep b' hist (length hist)
    else lb_take_latest b = Some (None, b)"
proof (cases "c < length hist")
  case False
  with rep show ?thesis by (simp add: lb_rep_def lb_take_latest_def)
next
  case True
  obtain bk front mid where roles: "lb_roles b bk front mid"
    and entry: "lb_slots b ! unat mid = Some \<lparr>ent_generation = seq_at (length hist), ent_value = last hist\<rparr>"
    using rep True by (auto simp: lb_rep_def)
  have ready: "lb_ready (lb_exchange b)" using rep True by (simp add: lb_rep_def)
  have front: "lb_consumer_slot (front_encoded (lb_consumer b)) = front"
    and mid: "lb_exchange b AND SLOT_MASK = mid" "lb_slot (lb_exchange b) = unat mid"
      "unat mid < length (lb_slots b)"
    using roles rep lb_mask_encode [of mid "lb_ready (lb_exchange b)"]
      lb_slot_encode [of mid "lb_ready (lb_exchange b)"]
    by (simp_all add: lb_roles_def lb_rep_def word_less_nat_alt)
  have last: "last_generation (lb_consumer b) = seq_at c" using rep by (simp add: lb_rep_def)
  define b' where "b' = b\<lparr>lb_exchange := lb_encode front False,
    lb_consumer := \<lparr>front_encoded = lb_encode_consumer_slot mid,
      last_generation = seq_at (length hist)\<rparr>\<rparr>"
  have "lb_take_latest b = Some (Some \<lparr>li_value = last hist, li_generation = seq_at (length hist),
      li_skipped = of_nat (lb_skips c (length hist))\<rparr>, b')"
    using ready mid(3) by (simp add: lb_take_latest_def front mid entry last lb_skipped_eq [OF True] Let_def b'_def)
  moreover have "lb_roles b' bk mid front" using roles by (auto simp: lb_roles_def b'_def)
  then have "lb_rep b' hist (length hist)"
    using rep roles by (auto simp: lb_rep_def b'_def lb_roles_def intro!: exI)
  ultimately show ?thesis using True by auto
qed

text \<open>The trait contract of the two handles.\<close>

interpretation lb_latest: latest_channel lb_publish_latest lb_try_take_latest lb_rep
  "\<lambda>n replaced. \<lparr>pr_generation = seq_at n, pr_replaced_unread = replaced\<rparr>"
  "\<lambda>v c n. \<lparr>li_value = v, li_generation = seq_at n, li_skipped = of_nat (lb_skips c n)\<rparr>"
proof
  fix b :: "'a latest_buf" and hist c v
  assume rep: "lb_rep b hist c"
  then show "c \<le> length hist" by (simp add: lb_rep_def)
  show "\<exists>b'. lb_publish_latest b v = Some (\<lparr>pr_generation = seq_at (Suc (length hist)),
      pr_replaced_unread = c < length hist\<rparr>, b') \<and> lb_rep b' (hist @ [v]) c"
    using lb_publish_rep [OF rep, of v] by (simp add: lb_publish_latest_def)
  show "\<exists>b'. lb_try_take_latest b = Some (Some \<lparr>li_value = last hist, li_generation = seq_at (length hist),
      li_skipped = of_nat (lb_skips c (length hist))\<rparr>, b') \<and> lb_rep b' hist (length hist)" if "c < length hist"
    using lb_take_rep [OF rep] that by (simp add: lb_try_take_latest_def)
  show "lb_try_take_latest b = Some (None, b)" if "\<not> c < length hist"
    using lb_take_rep [OF rep] that by (simp add: lb_try_take_latest_def)
qed

section \<open>Runs\<close>

text \<open>
  Operations of both endpoints in any order, including handles that are dropped and acquired again: the
  endpoint state lives in the channel, so a new handle continues where the old one stopped.
\<close>

datatype 'a lb_op = Publish 'a | TakeLatest | ReopenProducer | ReopenConsumer

datatype 'a lb_resp = Published publish_report | Taken "'a latest_item option" | Reopened bool

fun lb_step :: "'a latest_buf \<Rightarrow> 'a lb_op \<Rightarrow> ('a lb_resp \<times> 'a latest_buf) exec" where
  "lb_step b (Publish v) = do { (r, b') \<leftarrow> lb_publish b v; Some (Published r, b') }"
| "lb_step b TakeLatest = do { (i, b') \<leftarrow> lb_take_latest b; Some (Taken i, b') }"
| "lb_step b ReopenProducer =
     (let (h, b') = lb_try_producer (lb_drop_producer b) in Some (Reopened (h \<noteq> None), b'))"
| "lb_step b ReopenConsumer =
     (let (h, b') = lb_try_consumer (lb_drop_consumer b) in Some (Reopened (h \<noteq> None), b'))"

fun lb_run :: "'a latest_buf \<Rightarrow> 'a lb_op list \<Rightarrow> ('a lb_resp list \<times> 'a latest_buf) exec" where
  "lb_run b [] = Some ([], b)"
| "lb_run b (op # ops) = do {
     (r, b') \<leftarrow> lb_step b op;
     (rs, b'') \<leftarrow> lb_run b' ops;
     Some (r # rs, b'')
   }"

text \<open>The specification: the publications so far and how many of them the consumer is past.\<close>

fun lb_spec_step :: "'a list \<times> nat \<Rightarrow> 'a lb_op \<Rightarrow> 'a lb_resp \<times> 'a list \<times> nat" where
  "lb_spec_step (hist, c) (Publish v) =
     (Published \<lparr>pr_generation = seq_at (Suc (length hist)), pr_replaced_unread = (c < length hist)\<rparr>,
      hist @ [v], c)"
| "lb_spec_step (hist, c) TakeLatest =
     (if c < length hist
      then (Taken (Some \<lparr>li_value = last hist, li_generation = seq_at (length hist),
              li_skipped = of_nat (lb_skips c (length hist))\<rparr>), hist, length hist)
      else (Taken None, hist, c))"
| "lb_spec_step (hist, c) ReopenProducer = (Reopened True, hist, c)"
| "lb_spec_step (hist, c) ReopenConsumer = (Reopened True, hist, c)"

fun lb_spec_run :: "'a list \<times> nat \<Rightarrow> 'a lb_op list \<Rightarrow> 'a lb_resp list \<times> 'a list \<times> nat" where
  "lb_spec_run hc [] = ([], hc)"
| "lb_spec_run hc (op # ops) =
     (let (r, hc') = lb_spec_step hc op; (rs, hc'') = lb_spec_run hc' ops in (r # rs, hc''))"

lemma lb_rep_handles:
  "lb_rep (snd (lb_try_producer (lb_drop_producer b))) hist c = lb_rep b hist c"
  "lb_rep (snd (lb_try_consumer (lb_drop_consumer b))) hist c = lb_rep b hist c"
  by (simp_all add: lb_rep_def lb_roles_def lb_try_producer_def lb_drop_producer_def
      lb_try_consumer_def lb_drop_consumer_def Let_def)

lemma lb_step_refines:
  assumes rep: "lb_rep b hist c"
  shows "\<exists>b'. lb_step b op = Some (fst (lb_spec_step (hist, c) op), b') \<and>
    lb_rep b' (fst (snd (lb_spec_step (hist, c) op))) (snd (snd (lb_spec_step (hist, c) op)))"
proof (cases op)
  case (Publish v)
  then show ?thesis using lb_publish_rep [OF rep, of v] by auto
next
  case TakeLatest
  then show ?thesis using lb_take_rep [OF rep] rep by (cases "c < length hist") auto
next
  case ReopenProducer
  then show ?thesis using rep lb_rep_handles(1) [of b hist c] lb_prod.reacquire [of b]
    by (simp add: split_beta)
next
  case ReopenConsumer
  then show ?thesis using rep lb_rep_handles(2) [of b hist c] lb_cons.reacquire [of b]
    by (simp add: split_beta)
qed

lemma lb_run_refines:
  "lb_rep b hist c \<Longrightarrow> \<exists>b'. lb_run b ops = Some (fst (lb_spec_run (hist, c) ops), b') \<and>
     lb_rep b' (fst (snd (lb_spec_run (hist, c) ops))) (snd (snd (lb_spec_run (hist, c) ops)))"
proof (induction ops arbitrary: b hist c)
  case (Cons op ops)
  obtain r h c' where spec: "lb_spec_step (hist, c) op = (r, h, c')" by (cases "lb_spec_step (hist, c) op") auto
  from lb_step_refines [OF Cons.prems, of op] obtain b1 where
    b1: "lb_step b op = Some (r, b1)" "lb_rep b1 h c'" by (auto simp: spec)
  from Cons.IH [OF b1(2)] b1 spec show ?case by (auto simp: split_beta Let_def)
qed auto

text \<open>
  Loss accounting: while fewer than one span of values was ever published, the values taken plus those
  reported as skipped are exactly the publications the consumer is past.
\<close>

fun lb_accounted :: "'a lb_resp list \<Rightarrow> nat" where
  "lb_accounted [] = 0"
| "lb_accounted (Taken (Some i) # rs) = Suc (unat (li_skipped i)) + lb_accounted rs"
| "lb_accounted (r # rs) = lb_accounted rs"

fun lb_publications :: "'a lb_op list \<Rightarrow> 'a list" where
  "lb_publications [] = []"
| "lb_publications (Publish v # ops) = v # lb_publications ops"
| "lb_publications (op # ops) = lb_publications ops"

lemma lb_spec_accounts:
  assumes "c \<le> length hist" and "length hist + length (lb_publications ops) < SPAN"
  shows "c + lb_accounted (fst (lb_spec_run (hist, c) ops)) = snd (snd (lb_spec_run (hist, c) ops)) \<and>
    fst (snd (lb_spec_run (hist, c) ops)) = hist @ lb_publications ops"
  using assms
proof (induction ops arbitrary: hist c)
  case (Cons op ops)
  show ?case
  proof (cases op)
    case (Publish v)
    then show ?thesis using Cons.IH [of c "hist @ [v]"] Cons.prems by (simp add: split_beta Let_def)
  next
    case TakeLatest
    show ?thesis
    proof (cases "c < length hist")
      case True
      then have "lb_skips c (length hist) = length hist - c - 1"
        using Cons.prems by (intro lb_skips_exact) auto
      moreover have "length hist - c - 1 < 2 ^ 32" using Cons.prems(2) unfolding SPAN_def by linarith
      ultimately have skip: "unat (of_nat (lb_skips c (length hist)) :: u32) = length hist - c - 1"
        by (metis unat_of_nat_u32_small)
      show ?thesis using True Cons.IH [of "length hist" hist] Cons.prems
        by (simp add: TakeLatest skip split_beta Let_def)
    next
      case False
      then show ?thesis using Cons.IH [of c hist] Cons.prems
        by (simp add: TakeLatest split_beta Let_def)
    qed
  next
    case ReopenProducer
    then show ?thesis using Cons.IH [of c hist] Cons.prems by (simp add: split_beta Let_def)
  next
    case ReopenConsumer
    then show ?thesis using Cons.IH [of c hist] Cons.prems by (simp add: split_beta Let_def)
  qed
qed simp

text \<open>The operations, for symbolic execution on concrete states.\<close>

lemmas lb_op_defs [op_defs] = lb_new_def lb_slot_array_def lb_try_producer_def lb_try_consumer_def
  lb_drop_producer_def lb_drop_consumer_def lb_publish_def lb_take_latest_def
  lb_next_generation_def lb_generation_distance_def u32_saturating_sub_def lb_encode_def
  lb_slot_def lb_ready_def lb_producer_slot_def lb_consumer_slot_def lb_encode_producer_slot_def
  lb_encode_consumer_slot_def SLOT_MASK_def READY_BIT_def PRODUCER_SLOT_XOR_def
  CONSUMER_SLOT_XOR_def

end
