(* ===== verification/Pipeline.thy ===== *)
theory Pipeline
  imports SeqRing_Api EventBuf Ring Block LatestBuf
begin

text \<open>
  The components put together: \<open>forward\<close> between every pair of a source and a sink of the crate, and the
  two compositions of a block builder with a transport.
\<close>

section \<open>Bridges\<close>

interpretation sr_eb: bridge "sr_try_pop U" sr_avail "sr_source_ok U"
  eb_try_push "\<lambda>b. (eb_capacity b, eb_contents b)" queue_refuse queue_put eb_fifo_ok for U
  by unfold_locales

interpretation sr_ring: bridge "sr_try_pop U" sr_avail "sr_source_ok U"
  "ring_try_push V" "\<lambda>r. (ring_capacity r, ring_contents r)" "\<lambda>held v. None" window_put "ring_wf V" for U V
  by unfold_locales

interpretation eb_ring: bridge eb_try_pop eb_contents eb_fifo_ok
  "ring_try_push V" "\<lambda>r. (ring_capacity r, ring_contents r)" "\<lambda>held v. None" window_put "ring_wf V" for V
  by unfold_locales

interpretation eb_sr: bridge eb_try_pop eb_contents eb_fifo_ok
  sr_try_push "\<lambda>r. (sr_capacity r, sr_window r)" "\<lambda>held v. None" window_put sr_sink_ok
  by unfold_locales

text \<open>
  From a sequence ring to an event buffer: as many items move as the buffer has room for and the limit
  allows; the item that is refused, if any, is the next one, and it is the only one that is in neither
  place afterwards.
\<close>

lemma forward_sr_eb:
  assumes src: "sr_source_ok U s" and snk: "eb_fifo_ok b"
  shows "\<exists>n err s' b'. forward (sr_try_pop U) eb_try_push s b limit = Some ((n, err), s', b')
    \<and> eb_contents b' = eb_contents b @ take n (sr_avail s)
    \<and> (case err of
         None \<Rightarrow> n = min limit (length (sr_avail s)) \<and> sr_avail s' = drop n (sr_avail s)
       | Some v \<Rightarrow> length (eb_contents b') = eb_capacity b \<and> sr_avail s = take n (sr_avail s) @ v # sr_avail s')"
proof -
  let ?xs = "sr_avail s" and ?held = "(eb_capacity b, eb_contents b)"
  obtain n err xs' held' where spec: "forward_spec queue_refuse queue_put limit ?xs ?held = ((n, err), xs', held')"
    by (metis prod.collapse)
  obtain s' b' where run: "forward (sr_try_pop U) eb_try_push s b limit = Some ((n, err), s', b')"
    "sr_avail s' = xs'" "(eb_capacity b', eb_contents b') = held'" "eb_fifo_ok b'"
    using sr_eb.forward_refines [OF src snk, of limit] by (auto simp: spec)
  note pre = forward_spec_prefix [OF spec]
  then have held': "held' = (eb_capacity b, eb_contents b @ take n ?xs)" by (simp add: foldl_queue_put)
  with run(3) have b': "eb_contents b' = eb_contents b @ take n ?xs" "eb_capacity b' = eb_capacity b" by simp_all
  have "length (eb_contents b') \<le> eb_capacity b" using run(4) b'(2) by (metis eb_fifo.ok_bounded)
  moreover have "?xs = take n ?xs @ v # sr_avail s' \<and> \<not> length (eb_contents b') < eb_capacity b" if "err = Some v" for v
  proof -
    have v: "n < length ?xs" "queue_refuse held' (?xs ! n) = Some v" "xs' = drop (Suc n) ?xs"
      using pre that by auto
    then have "v = ?xs ! n" "\<not> length (eb_contents b') < eb_capacity b"
      by (auto simp: queue_refuse_def held' b' split: if_splits)
    then show ?thesis using id_take_nth_drop [OF v(1)] v(3) run(2) by simp
  qed
  ultimately show ?thesis using run b' pre by (cases err) auto
qed

text \<open>
  From an event buffer to a ring that overwrites: the sink never refuses, so the transfer ends at the limit
  or when the source is empty, and the ring keeps the newest of what it held and what arrived.
\<close>

lemma forward_eb_ring:
  assumes src: "eb_fifo_ok b" and snk: "ring_wf V r"
  shows "\<exists>b' r'. forward eb_try_pop (ring_try_push V) b r limit
      = Some ((min limit (length (eb_contents b)), None :: 'e option), b', r')
    \<and> eb_contents b' = drop limit (eb_contents b)
    \<and> ring_contents r' = keep_last (ring_capacity r) (ring_contents r @ take limit (eb_contents b))"
proof -
  let ?xs = "eb_contents b" and ?held = "(ring_capacity r, ring_contents r)"
  have refines: "\<exists>b' r'. forward eb_try_pop (ring_try_push V) b r limit
      = Some (fst (forward_spec (\<lambda>held v. None :: 'e option) window_put limit ?xs ?held), b', r')
    \<and> eb_fifo_ok b' \<and> ring_wf V r'
    \<and> (eb_contents b', ring_capacity r', ring_contents r')
      = snd (forward_spec (\<lambda>held v. None :: 'e option) window_put limit ?xs ?held)"
    by (rule eb_ring.forward_refines [OF src snk])
  obtain n err xs' held' where spec: "forward_spec (\<lambda>held v. None :: 'e option) window_put limit ?xs ?held = ((n, err), xs', held')"
    by (metis prod.collapse)
  obtain b' r' where run: "forward eb_try_pop (ring_try_push V) b r limit = Some ((n, err), b', r')"
    "eb_contents b' = xs'" "(ring_capacity r', ring_contents r') = held'"
    using refines by (auto simp: spec)
  note pre = forward_spec_prefix [OF spec]
  then have err: "err = None" by (cases err) auto
  with pre have n: "n = min limit (length ?xs)" "xs' = drop limit ?xs" "take n ?xs = take limit ?xs"
    by (auto simp: min_def)
  have len: "length (ring_contents r) \<le> ring_capacity r" using snk by (simp add: ring_wf_def)
  have "held' = (ring_capacity r, keep_last (ring_capacity r) (ring_contents r @ take n ?xs))"
    using pre foldl_window_put [OF len] by simp
  with run n err show ?thesis by auto
qed

section \<open>Blocks as payloads\<close>

text \<open>
  Samples go through a builder; every completed block is handed to a transport. Publishing to a
  \<open>LatestBuf\<close> always succeeds, so the consumer's next take is the last block completed.
\<close>

fun blocks_of :: "('a fill_error + 'a block option) list \<Rightarrow> 'a block list" where
  "blocks_of [] = []"
| "blocks_of (Inr (Some blk) # rs) = blk # blocks_of rs"
| "blocks_of (r # rs) = blocks_of rs"

lemma blocks_of_set: "blk \<in> set (blocks_of rs) \<longleftrightarrow> Inr (Some blk) \<in> set rs"
  by (induction rs rule: blocks_of.induct) auto

lemma builder_into_latest:
  assumes b: "bb_holds b w" and rep: "lb_rep ch hist c"
    and ne: "blocks_of (fst (fill_run (bb_capacity b) w ops)) \<noteq> []"
  shows "\<exists>rs b' pr ch1 ch2. bb_run b ops = Some (rs, b') \<and>
    lb_latest.publish_all ch (blocks_of rs) = Some (pr, ch1) \<and>
    lb_try_take_latest ch1 = Some (Some \<lparr>li_value = last (blocks_of rs),
      li_generation = seq_at (length hist + length (blocks_of rs)),
      li_skipped = of_nat (lb_skips c (length hist + length (blocks_of rs)))\<rparr>, ch2)"
  using bb_run_refines [OF b, of ops] lb_latest.burst_then_take [OF rep ne] by auto

text \<open>
  Queued: what an event buffer of blocks gives back are the completed blocks in order, each whole, and a
  block that did not fit is handed back whole.
\<close>

lemma blocks_through_queue:
  assumes ok: "eb_fifo_ok q"
  shows "\<exists>q'. chan_run eb_push eb_pop eb_peek q (map Put (blks :: 'a block list)) =
      Some (map (\<lambda>k. if length (eb_contents q) + k < eb_capacity q then Accepted else Rejected (blks ! k))
        [0..<length blks], q')
    \<and> eb_contents q' = eb_contents q @ take (eb_capacity q - length (eb_contents q)) blks"
proof -
  have spec: "fifo_run cap held (map Put xs) =
      (map (\<lambda>k. if length held + k < cap then Accepted else Rejected (xs ! k)) [0..<length xs],
       held @ take (cap - length held) xs)" for cap and held xs :: "'b list"
  proof (induction xs arbitrary: held)
    case (Cons x xs)
    show ?case
    proof (cases "length held < cap")
      case True
      then obtain d where d: "cap - length held = Suc d" by (cases "cap - length held") auto
      then have "cap - Suc (length held) = d" by simp
      with d True show ?thesis using Cons.IH [of "held @ [x]"]
        by (simp add: map_upt_Cons Let_def del: upt_Suc)
    next
      case False
      then show ?thesis using Cons.IH [of held]
        by (simp add: map_upt_Cons Let_def del: upt_Suc)
    qed
  qed simp
  from eb_fifo.run_refines [OF ok, of "map Put blks"] show ?thesis by (auto simp: spec)
qed

end
