(* ===== verification/EventBuf_Safety.thy ===== *)
theory EventBuf_Safety
  imports EventBuf
begin

text \<open>
  Memory safety of \<open>EventBuf\<close> at every capacity below \<open>2 ^ 32\<close>, also at those where it is no FIFO across the
  wrap: no operation indexes out of range or reads a slot that was never written. The reason is that before
  the cursors first wrap a position is its own slot number or comes after \<open>N\<close> writes, and afterwards all
  slots have been written. \<open>drain\<close> is included, under every hook that keeps this invariant.
\<close>

definition eb_safe :: "'a event_buf \<Rightarrow> bool" where
  "eb_safe b \<longleftrightarrow> 0 < eb_capacity b \<and> eb_capacity b < 2 ^ 32 \<and>
     (\<exists>m n. eb_tail b = of_nat m \<and> eb_head b = of_nat n \<and> m \<le> n \<and> n - m \<le> eb_capacity b \<and>
        (\<forall>i < min n (eb_capacity b). eb_slots b ! i \<noteq> None))"

lemma eb_safeI:
  assumes "eb_capacity b' = N" "0 < N" "N < 2 ^ 32" "eb_tail b' = of_nat m" "eb_head b' = of_nat n" "m \<le> n"
    "n - m \<le> N" "\<forall>i < min n N. eb_slots b' ! i \<noteq> None"
  shows "eb_safe b'"
  using assms by (auto simp: eb_safe_def)

lemma eb_safe_new [wf_intros]: "0 < N \<Longrightarrow> N < 2 ^ 32 \<Longrightarrow> eb_safe (eb_new N)"
  by (auto simp: eb_safe_def eb_new_def eb_capacity_def intro!: exI [where x = 0])

lemma eb_safe_slot:
  assumes "k < n" and "0 < N" and "N < 2 ^ 32"
  shows "eb_slot_index N (of_nat k) < min n N"
proof (cases "n < N")
  case True
  with assms have "k mod 2 ^ 32 = k" "k mod N = k" by simp_all
  with True assms(1) show ?thesis by (simp add: eb_slot_index_def unat_of_nat_u32)
next
  case False
  with assms(2) show ?thesis by (simp add: eb_slot_index_def)
qed

lemma eb_safe_len: "eb_safe b \<Longrightarrow> eb_len b \<le> eb_capacity b"
  unfolding eb_len_count eb_count_def by (auto simp: eb_safe_def unat_cursor_diff)

lemma eb_push_safe:
  assumes "eb_safe b"
  shows "\<exists>r b'. eb_push b v = Some (r, b') \<and> eb_safe b' \<and> eb_capacity b' = eb_capacity b"
proof -
  let ?N = "eb_capacity b"
  from assms obtain m n where
    N: "0 < ?N" "?N < 2 ^ 32" and cur: "eb_tail b = of_nat m" "eb_head b = of_nat n" "m \<le> n" "n - m \<le> ?N"
    and init: "\<forall>i < min n ?N. eb_slots b ! i \<noteq> None" by (auto simp: eb_safe_def)
  have count: "unat (eb_head b - eb_tail b) = n - m" unfolding cur using cur(3,4) N(2) by (simp add: unat_cursor_diff)
  show ?thesis
  proof (cases "?N \<le> n - m")
    case True
    then show ?thesis using assms by (simp add: eb_push_def count)
  next
    case False
    let ?i = "eb_slot_index ?N (of_nat n)"
    have i: "?i < ?N" "n < ?N \<Longrightarrow> ?i = n" using N by (simp_all add: eb_slot_index_def unat_of_nat_u32)
    define b' where "b' = b\<lparr>eb_slots := (eb_slots b)[?i := Some v], eb_head := eb_head b + 1\<rparr>"
    have push: "eb_push b v = Some (Inr (), b')"
      using False i(1) unfolding eb_push_def Let_def count by (simp add: cur(2) b'_def eb_capacity_def)
    have cap: "eb_capacity b' = ?N" by (simp add: b'_def eb_capacity_def)
    have "\<forall>i < min (Suc n) ?N. eb_slots b' ! i \<noteq> None"
      using init i N(1) by (auto simp: b'_def eb_capacity_def nth_list_update less_Suc_eq)
    moreover have "eb_tail b' = of_nat m" "eb_head b' = of_nat (Suc n)" "m \<le> Suc n" "Suc n - m \<le> ?N"
      using cur False by (simp_all add: b'_def)
    ultimately have "eb_safe b'" using N by (intro eb_safeI [OF cap])
    with push cap show ?thesis by blast
  qed
qed

lemma eb_tail_read_safe:
  assumes "eb_safe b" and "eb_tail b \<noteq> eb_head b"
  shows "\<exists>v. slot_read (eb_slots b) (eb_slot_index (eb_capacity b) (eb_tail b)) = Some v"
proof -
  from assms(1) obtain m n where N: "0 < eb_capacity b" "eb_capacity b < 2 ^ 32"
    and cur: "eb_tail b = of_nat m" "eb_head b = of_nat n" "m \<le> n"
    and init: "\<forall>i < min n (eb_capacity b). eb_slots b ! i \<noteq> None" by (auto simp: eb_safe_def)
  have "m < n" using assms(2) cur by (cases "m = n") auto
  from eb_safe_slot [OF this N] init show ?thesis by (simp add: cur(1) eb_capacity_def)
qed

lemma eb_pop_safe:
  assumes "eb_safe b"
  shows "\<exists>r b'. eb_pop b = Some (r, b') \<and> eb_safe b' \<and> eb_capacity b' = eb_capacity b"
proof (cases "eb_tail b = eb_head b")
  case True
  with assms show ?thesis by (simp add: eb_pop_def)
next
  case False
  define b' where "b' = b\<lparr>eb_tail := eb_tail b + 1\<rparr>"
  from eb_tail_read_safe [OF assms False] have "\<exists>v. eb_pop b = Some (Some v, b')"
    using False by (auto simp: eb_pop_def Let_def b'_def)
  moreover from assms obtain m n where N: "0 < eb_capacity b" "eb_capacity b < 2 ^ 32"
    and cur: "eb_tail b = of_nat m" "eb_head b = of_nat n" "m \<le> n" "n - m \<le> eb_capacity b"
    and init: "\<forall>i < min n (eb_capacity b). eb_slots b ! i \<noteq> None" by (auto simp: eb_safe_def)
  have cap: "eb_capacity b' = eb_capacity b" by (simp add: b'_def eb_capacity_def)
  have "eb_safe b'"
  proof (rule eb_safeI [OF cap N])
    show "eb_tail b' = of_nat (Suc m)" "eb_head b' = of_nat n" by (simp_all add: b'_def cur)
    show "Suc m \<le> n" using False cur by (cases "m = n") auto
    show "n - Suc m \<le> eb_capacity b" using cur(4) by simp
    show "\<forall>i < min n (eb_capacity b). eb_slots b' ! i \<noteq> None" using init by (simp add: b'_def)
  qed
  ultimately show ?thesis using cap by blast
qed

lemma eb_peek_safe: "eb_safe b \<Longrightarrow> \<exists>r. eb_peek b = Some r"
  using eb_tail_read_safe [of b] by (auto simp: eb_peek_def Let_def)

lemma eb_step_safe:
  assumes "eb_safe b"
  shows "\<exists>r b'. chan_step eb_push eb_pop eb_peek b op = Some (r, b') \<and> eb_safe b' \<and> eb_capacity b' = eb_capacity b"
proof (cases op)
  case (Put v)
  with eb_push_safe [OF assms, of v] show ?thesis by auto
next
  case Take
  with eb_pop_safe [OF assms] show ?thesis by auto
next
  case Look
  with eb_peek_safe [OF assms] assms show ?thesis by auto
qed

lemma eb_run_safe:
  "eb_safe b \<Longrightarrow> \<exists>rs b'. chan_run eb_push eb_pop eb_peek b ops = Some (rs, b') \<and> length rs = length ops \<and>
     eb_safe b' \<and> eb_capacity b' = eb_capacity b"
proof (induction ops arbitrary: b)
  case (Cons op ops)
  from eb_step_safe [OF Cons.prems, of op] obtain r b1 where
    b1: "chan_step eb_push eb_pop eb_peek b op = Some (r, b1)" "eb_safe b1" "eb_capacity b1 = eb_capacity b" by blast
  from Cons.IH [OF b1(2)] b1 show ?case by fastforce
qed simp

text \<open>A hook may push into the buffer it drains, or do anything else that keeps it safe.\<close>

definition eb_hook_ok :: "('a \<Rightarrow> 'a event_buf \<times> 'h \<Rightarrow> ('a event_buf \<times> 'h) exec) \<Rightarrow> bool" where
  "eb_hook_ok hook \<longleftrightarrow> (\<forall>v b h. eb_safe b \<longrightarrow> (\<exists>b' h'. hook v (b, h) = Some (b', h') \<and> eb_safe b'))"

lemma eb_drain_loop_safe:
  assumes "eb_hook_ok hook"
  shows "eb_safe b \<Longrightarrow> count \<le> limit \<Longrightarrow> \<exists>n b' h'. eb_drain_loop hook limit count b h = Some (n, b', h') \<and>
    count \<le> n \<and> n \<le> limit \<and> eb_safe b' \<and> (n < limit \<longrightarrow> eb_tail b' = eb_head b')"
proof (induction "limit - count" arbitrary: count b h)
  case 0
  then show ?case by (subst eb_drain_loop.simps) auto
next
  case (Suc k)
  then have lt: "count < limit" by simp
  show ?case
  proof (cases "eb_tail b = eb_head b")
    case True
    then show ?thesis using Suc.prems lt by (subst eb_drain_loop.simps) (simp add: eb_pop_def)
  next
    case False
    from eb_pop_safe [OF Suc.prems(1)] eb_tail_read_safe [OF Suc.prems(1) False] False obtain v b1 where
      b1: "eb_pop b = Some (Some v, b1)" "eb_safe b1" by (auto simp: eb_pop_def Let_def)
    from assms b1(2) obtain b2 h2 where b2: "hook v (b1, h) = Some (b2, h2)" "eb_safe b2"
      by (fastforce simp: eb_hook_ok_def)
    have "k = limit - (count + 1)" "count + 1 \<le> limit" using Suc.hyps(2) lt by simp_all
    from Suc.hyps(1) [OF this(1) b2(2) this(2), of h2] b1(1) b2(1) lt show ?thesis
      by (subst eb_drain_loop.simps) auto
  qed
qed

text \<open>A hook that pushes back what it is handed, doubled up: the queue never runs dry.\<close>

definition eb_repush :: "'a \<Rightarrow> 'a event_buf \<times> unit \<Rightarrow> ('a event_buf \<times> unit) exec" where
  "eb_repush v bh = do { (r, b) \<leftarrow> eb_push (fst bh) v; Some (b, ()) }"

lemma eb_repush_ok: "eb_hook_ok eb_repush"
  unfolding eb_hook_ok_def
proof (intro allI impI)
  fix v :: 'a and b :: "'a event_buf" and h :: unit
  assume "eb_safe b"
  from eb_push_safe [OF this, of v] show "\<exists>b' h'. eb_repush v (b, h) = Some (b', h') \<and> eb_safe b'"
    by (auto simp: eb_repush_def)
qed

end
