(* ===== verification/Transition.thy ===== *)
theory Transition
  imports Prelude
begin

text \<open>
  Step relations. The lock-free components are also modelled access by access, as a relation between
  states; their correctness is an invariant of the reachable states, and where the component has an
  abstract specification, a forward simulation. Both arguments are done once here, as locales.
\<close>

inductive reach :: "('s \<Rightarrow> bool) \<Rightarrow> ('s \<Rightarrow> 's \<Rightarrow> bool) \<Rightarrow> 's \<Rightarrow> bool"
  for init :: "'s \<Rightarrow> bool" and step :: "'s \<Rightarrow> 's \<Rightarrow> bool" where
  start: "init s \<Longrightarrow> reach init step s"
| move: "reach init step s \<Longrightarrow> step s s' \<Longrightarrow> reach init step s'"

lemmas reach_intros = reach.start reach.move

lemma reach_rtranclp: "step\<^sup>*\<^sup>* s s' \<Longrightarrow> reach init step s \<Longrightarrow> reach init step s'"
  by (induction rule: rtranclp_induct) (auto intro: reach.move)

text \<open>A concrete execution is a list of states, each a step from the one before.\<close>

lemma reach_extend:
  "reach init step s \<Longrightarrow> successively step (s # path) \<Longrightarrow> reach init step (last (s # path))"
proof (induction path rule: rev_induct)
  case (snoc t path)
  have "reach init step (last (s # path))" and "step (last (s # path)) t"
    using snoc by (auto simp: successively_append_iff simp flip: append_Cons)
  then show ?case by (auto intro: reach.move)
qed simp

lemma reach_path:
  "init s \<Longrightarrow> successively step (s # path) \<Longrightarrow> reach init step (last (s # path))"
  by (rule reach_extend [OF reach.start])

locale inductive_invariant =
  fixes init :: "'s \<Rightarrow> bool" and step :: "'s \<Rightarrow> 's \<Rightarrow> bool" and inv :: "'s \<Rightarrow> bool"
  assumes inv_init: "init s \<Longrightarrow> inv s"
    and inv_step: "inv s \<Longrightarrow> step s s' \<Longrightarrow> inv s'"
begin

lemma reach_inv: "reach init step s \<Longrightarrow> inv s"
  by (induction rule: reach.induct) (auto intro: inv_init inv_step)

end

locale forward_simulation = inductive_invariant +
  fixes ainit :: "'a \<Rightarrow> bool" and astep :: "'a \<Rightarrow> 'a \<Rightarrow> bool" and abs :: "'s \<Rightarrow> 'a"
  assumes sim_init: "init s \<Longrightarrow> ainit (abs s)"
    and sim_step: "inv s \<Longrightarrow> step s s' \<Longrightarrow> abs s' = abs s \<or> astep (abs s) (abs s')"
begin

lemma reach_sim: "reach init step s \<Longrightarrow> reach ainit astep (abs s)"
proof (induction rule: reach.induct)
  case (start s)
  then show ?case by (intro reach.start sim_init)
next
  case (move s s')
  from sim_step [OF reach_inv [OF move.hyps(1)] move.hyps(2)] move.IH
  show ?case by (auto intro: reach.move)
qed

end

text \<open>
  Wait-freedom. One side's operation is \<open>running\<close>; its own steps are those of \<open>own\<close>, all others belong to the
  other side. If its own steps use up a bounded amount of \<open>work\<close>, which the other side cannot add to, and
  one of them is always possible, then it ends after at most \<open>bound\<close> and one own steps, whatever the other
  side does in between, and it can end by itself.
\<close>

definition own_steps :: "('s \<Rightarrow> 's \<Rightarrow> bool) \<Rightarrow> 's list \<Rightarrow> nat" where
  "own_steps own ss = length (filter (\<lambda>(s, s'). own s s') (zip ss (tl ss)))"

lemma own_steps_simps [simp]:
  "own_steps own [s] = 0"
  "own_steps own (s # s' # ss) = (if own s s' then 1 else 0) + own_steps own (s' # ss)"
  by (simp_all add: own_steps_def)

locale bounded_operation = inductive_invariant init step inv
  for init :: "'s \<Rightarrow> bool" and step :: "'s \<Rightarrow> 's \<Rightarrow> bool" and inv :: "'s \<Rightarrow> bool" +
  fixes running :: "'s \<Rightarrow> bool" and own :: "'s \<Rightarrow> 's \<Rightarrow> bool" and work :: "'s \<Rightarrow> nat" and bound :: nat
  assumes work_bound: "inv s \<Longrightarrow> running s \<Longrightarrow> work s \<le> bound"
    and work_other: "inv s \<Longrightarrow> running s \<Longrightarrow> running s' \<Longrightarrow> step s s' \<Longrightarrow> \<not> own s s' \<Longrightarrow> work s' \<le> work s"
    and work_own: "inv s \<Longrightarrow> running s \<Longrightarrow> running s' \<Longrightarrow> step s s' \<Longrightarrow> own s s' \<Longrightarrow> work s' < work s"
    and own_enabled: "inv s \<Longrightarrow> running s \<Longrightarrow> \<exists>s'. step s s' \<and> own s s'"
begin

lemma own_steps_bounded:
  assumes "inv s" and "successively step (s # ss)" and "\<forall>t \<in> set (s # ss). running t"
  shows "own_steps own (s # ss) \<le> bound"
proof -
  have "own_steps own (s # ss) + work (last (s # ss)) \<le> work s"
    using assms
  proof (induction ss arbitrary: s)
    case (Cons t ss)
    have t: "inv t" using Cons.prems(1,2) by (auto intro: inv_step)
    have "work t + (if own s t then 1 else 0) \<le> work s"
      using work_other [OF Cons.prems(1), of t] work_own [OF Cons.prems(1), of t] Cons.prems(2,3)
      by (auto simp: Suc_le_eq)
    with Cons.IH [OF t] Cons.prems(2,3) show ?case by auto
  qed simp
  moreover have "work s \<le> bound" using assms(1,3) by (intro work_bound) simp_all
  ultimately show ?thesis by linarith
qed

lemma can_finish:
  assumes "inv s"
  shows "\<exists>ss. successively (\<lambda>s s'. step s s' \<and> own s s') (s # ss) \<and> \<not> running (last (s # ss)) \<and>
    (\<forall>t \<in> set (butlast (s # ss)). running t) \<and> length ss \<le> Suc bound"
proof -
  have "\<exists>ss. successively (\<lambda>s s'. step s s' \<and> own s s') (s # ss) \<and> \<not> running (last (s # ss)) \<and>
      (\<forall>t \<in> set (butlast (s # ss)). running t) \<and> length ss \<le> (if running s then Suc (work s) else 0)"
    using assms
  proof (induction "work s" arbitrary: s rule: less_induct)
    case less
    show ?case
    proof (cases "running s")
      case False
      then show ?thesis by (intro exI [of _ "[]"]) simp
    next
      case True
      from own_enabled [OF less.prems True] obtain t where t: "step s t" "own s t" by blast
      show ?thesis
      proof (cases "running t")
        case False
        with t True show ?thesis by (intro exI [of _ "[t]"]) simp
      next
        case running: True
        have lt: "work t < work s" by (rule work_own [OF less.prems True running t])
        from less.hyps [OF lt inv_step [OF less.prems t(1)]] running obtain ss where
          "successively (\<lambda>s s'. step s s' \<and> own s s') (t # ss)" "\<not> running (last (t # ss))"
          "\<forall>t' \<in> set (butlast (t # ss)). running t'" "length ss \<le> Suc (work t)" by auto
        with t True lt show ?thesis by (intro exI [of _ "t # ss"]) auto
      qed
    qed
  qed
  then show ?thesis using work_bound [OF assms] by (auto split: if_splits intro: order_trans)
qed

end

end
