(* ===== verification/EventBuf_Conc.thy ===== *)
theory EventBuf_Conc
  imports EventBuf Transition
begin

text \<open>
  \<open>EventBuf\<close> with its two endpoints running at the same time, one shared access per step. A cursor is
  written by one endpoint only, so its modification order is the sequence of its increments; the other
  endpoint's Acquire load returns any of them that is not older than the last one it saw, and makes the
  slot accesses sequenced before that increment visible. \<open>pushes\<close> and \<open>pops\<close> count the Release
  stores so far, \<open>tail_view\<close> and \<open>head_view\<close> the ones the other endpoint has acquired.
  \<open>pub_tail\<close> and \<open>pop_head\<close> log the view each of these Release stores carries.

  Slots are plain memory: a step on a slot with an earlier conflicting access to the same slot that is
  not in the endpoint's view is a data race, and reading an unwritten cell is undefined too. Both are
  the state \<open>Undefined\<close>, which the theorems show unreachable as long as the cursors have not wrapped, and for
  ever at the capacities that divide \<open>2 ^ 32\<close>.
\<close>

datatype 'a prod_pc = ProdIdle | ProdWrite 'a u32 | ProdPublish 'a u32

datatype 'a cons_pc = ConsIdle | ConsRead u32 bool | ConsRelease u32 'a

record 'a ebc =
  c_buf :: "'a event_buf"
  pushes :: nat
  pops :: nat
  tail_view :: nat
  head_view :: nat
  prod :: "'a prod_pc"
  cons :: "'a cons_pc"
  reads :: nat
  sent :: "'a list"
  received :: "'a list"
  refused :: "'a list"
  pub_tail :: "nat list"
  pop_head :: "nat list"

datatype 'a ebc_state = Running "'a ebc" | Undefined

text \<open>
  A slot access at position \<open>p\<close> conflicts with the accesses to the same slot at the positions below
  \<open>done\<close>, and is ordered after those below \<open>view\<close>.
\<close>

definition races :: "nat \<Rightarrow> nat \<Rightarrow> nat \<Rightarrow> nat \<Rightarrow> bool" where
  "races N p view performed \<longleftrightarrow> (\<exists>q. view \<le> q \<and> q < performed \<and>
     eb_slot_index N (of_nat q) = eb_slot_index N (of_nat p))"

text \<open>How many slot writes the producer has performed: one more than it published while in between.\<close>

definition writes :: "'a ebc \<Rightarrow> nat" where
  "writes s = pushes s + (case prod s of ProdPublish v h \<Rightarrow> 1 | _ \<Rightarrow> 0)"

text \<open>
  The accesses of the two calls. The result is \<open>None\<close> while the call runs, and then \<open>Some\<close> of what it
  returns: \<open>push v\<close> the refused value or nothing, \<open>pop\<close> and \<open>peek\<close> (\<open>keep\<close>) the oldest value if there is one.
\<close>

inductive ebc_push :: "'a \<Rightarrow> ('a + unit) option \<Rightarrow> 'a ebc \<Rightarrow> 'a ebc_state \<Rightarrow> bool" for v where
  push_full: "prod s = ProdIdle \<Longrightarrow> tail_view s \<le> t \<Longrightarrow> t \<le> pops s \<Longrightarrow>
    eb_capacity (c_buf s) \<le> unat (eb_head (c_buf s) - of_nat t) \<Longrightarrow>
    ebc_push v (Some (Inl v)) s (Running (s\<lparr>tail_view := t, refused := refused s @ [v]\<rparr>))"
| push_check: "prod s = ProdIdle \<Longrightarrow> tail_view s \<le> t \<Longrightarrow> t \<le> pops s \<Longrightarrow>
    unat (eb_head (c_buf s) - of_nat t) < eb_capacity (c_buf s) \<Longrightarrow>
    ebc_push v None s (Running (s\<lparr>tail_view := t, prod := ProdWrite v (eb_head (c_buf s))\<rparr>))"
| push_write: "prod s = ProdWrite v h \<Longrightarrow> i = eb_slot_index (eb_capacity (c_buf s)) h \<Longrightarrow>
    \<not> races (eb_capacity (c_buf s)) (pushes s) (tail_view s) (reads s) \<Longrightarrow>
    slot_write (eb_slots (c_buf s)) i v = Some slots' \<Longrightarrow>
    ebc_push v None s (Running (s\<lparr>c_buf := (c_buf s)\<lparr>eb_slots := slots'\<rparr>, prod := ProdPublish v h\<rparr>))"
| push_race: "prod s = ProdWrite v h \<Longrightarrow> i = eb_slot_index (eb_capacity (c_buf s)) h \<Longrightarrow>
    races (eb_capacity (c_buf s)) (pushes s) (tail_view s) (reads s) \<or> slot_write (eb_slots (c_buf s)) i v = None \<Longrightarrow>
    ebc_push v None s Undefined"
| push_publish: "prod s = ProdPublish v h \<Longrightarrow>
    ebc_push v (Some (Inr ())) s (Running (s\<lparr>c_buf := (c_buf s)\<lparr>eb_head := h + 1\<rparr>, pushes := Suc (pushes s),
      prod := ProdIdle, sent := sent s @ [v], pub_tail := pub_tail s @ [tail_view s]\<rparr>))"

inductive ebc_pop :: "bool \<Rightarrow> 'a option option \<Rightarrow> 'a ebc \<Rightarrow> 'a ebc_state \<Rightarrow> bool" for keep where
  pop_empty: "cons s = ConsIdle \<Longrightarrow> head_view s \<le> h \<Longrightarrow> h \<le> pushes s \<Longrightarrow>
    eb_tail (c_buf s) = of_nat h \<Longrightarrow>
    ebc_pop keep (Some None) s (Running (s\<lparr>head_view := h\<rparr>))"
| pop_check: "cons s = ConsIdle \<Longrightarrow> head_view s \<le> h \<Longrightarrow> h \<le> pushes s \<Longrightarrow>
    eb_tail (c_buf s) \<noteq> of_nat h \<Longrightarrow>
    ebc_pop keep None s (Running (s\<lparr>head_view := h, cons := ConsRead (eb_tail (c_buf s)) keep\<rparr>))"
| pop_read: "cons s = ConsRead t keep \<Longrightarrow>
    \<not> races (eb_capacity (c_buf s)) (pops s) (head_view s) (writes s) \<Longrightarrow>
    slot_read (eb_slots (c_buf s)) (eb_slot_index (eb_capacity (c_buf s)) t) = Some v \<Longrightarrow>
    ebc_pop keep (if keep then Some (Some v) else None) s (Running (s\<lparr>reads := max (reads s) (Suc (pops s)),
      cons := (if keep then ConsIdle else ConsRelease t v)\<rparr>))"
| pop_race: "cons s = ConsRead t keep \<Longrightarrow>
    races (eb_capacity (c_buf s)) (pops s) (head_view s) (writes s) \<or>
    slot_read (eb_slots (c_buf s)) (eb_slot_index (eb_capacity (c_buf s)) t) = None \<Longrightarrow>
    ebc_pop keep None s Undefined"
| pop_release: "cons s = ConsRelease t v \<Longrightarrow> \<not> keep \<Longrightarrow>
    ebc_pop keep (Some (Some v)) s (Running (s\<lparr>c_buf := (c_buf s)\<lparr>eb_tail := t + 1\<rparr>, pops := Suc (pops s),
      cons := ConsIdle, received := received s @ [v], pop_head := pop_head s @ [head_view s]\<rparr>))"

text \<open>One access of either endpoint.\<close>

inductive ebc_step :: "'a ebc_state \<Rightarrow> 'a ebc_state \<Rightarrow> bool" where
  produce: "ebc_push v r s s' \<Longrightarrow> ebc_step (Running s) s'"
| consume: "ebc_pop keep r s s' \<Longrightarrow> ebc_step (Running s) s'"

inductive_cases ebc_stepE: "ebc_step (Running s) s'"
inductive_cases ebc_pushE: "ebc_push v r s s'"
inductive_cases ebc_popE: "ebc_pop keep r s s'"

definition ebc_init :: "nat \<Rightarrow> 'a ebc_state \<Rightarrow> bool" where
  "ebc_init N s0 \<longleftrightarrow> s0 = Running \<lparr>c_buf = eb_new N, pushes = 0, pops = 0, tail_view = 0, head_view = 0,
     prod = ProdIdle, cons = ConsIdle, reads = 0, sent = [], received = [], refused = [], pub_tail = [], pop_head = []\<rparr>"

section \<open>The invariant\<close>

text \<open>
  Two groups of facts. \<open>ebc_cursors\<close> holds at every capacity and for ever: the cursors are the wrapped counts, a
  view is not ahead of the count it observes, and a pending access is covered by the endpoint's view. \<open>ebc_contents\<close>
  says that every published and not yet popped value is in its slot; it needs that positions in flight have
  slots of their own, which holds while no cursor has wrapped, and across the wrap only if \<open>N\<close> divides \<open>2 ^ 32\<close>.
\<close>

fun prod_ok :: "nat \<Rightarrow> nat \<Rightarrow> nat \<Rightarrow> 'a prod_pc \<Rightarrow> bool" where
  "prod_ok N n tv ProdIdle = True"
| "prod_ok N n tv (ProdWrite v h) = (h = of_nat n \<and> n < tv + N)"
| "prod_ok N n tv (ProdPublish v h) = (h = of_nat n \<and> n < tv + N)"

fun cons_ok :: "nat \<Rightarrow> nat \<Rightarrow> nat \<Rightarrow> 'a cons_pc \<Rightarrow> bool" where
  "cons_ok m hv rd ConsIdle = True"
| "cons_ok m hv rd (ConsRead t keep) = (t = of_nat m \<and> m < hv)"
| "cons_ok m hv rd (ConsRelease t v) = (t = of_nat m \<and> m < hv \<and> rd = Suc m)"

definition ebc_cursors :: "nat \<Rightarrow> 'a ebc \<Rightarrow> bool" where
  "ebc_cursors N s \<longleftrightarrow> 0 < N \<and> eb_capacity (c_buf s) = N \<and>
     eb_head (c_buf s) = of_nat (pushes s) \<and> eb_tail (c_buf s) = of_nat (pops s) \<and>
     tail_view s \<le> pops s \<and> head_view s \<le> pushes s \<and> pops s \<le> head_view s \<and>
     pushes s \<le> tail_view s + N \<and> pops s \<le> reads s \<and> reads s \<le> Suc (pops s) \<and>
     (reads s = Suc (pops s) \<longrightarrow> pops s < head_view s) \<and>
     prod_ok N (pushes s) (tail_view s) (prod s) \<and> cons_ok (pops s) (head_view s) (reads s) (cons s) \<and>
     length (sent s) = pushes s \<and> length (received s) = pops s \<and>
     length (pub_tail s) = pushes s \<and> (\<forall>k < pushes s. k < pub_tail s ! k + N) \<and>
     length (pop_head s) = pops s \<and> (\<forall>k < pops s. k < pop_head s ! k)"

fun prod_holds :: "nat \<Rightarrow> 'a slots \<Rightarrow> 'a prod_pc \<Rightarrow> bool" where
  "prod_holds i slots (ProdPublish v h) = (slots ! i = Some v)"
| "prod_holds i slots pc = True"

fun cons_holds :: "nat \<Rightarrow> 'a list \<Rightarrow> 'a cons_pc \<Rightarrow> bool" where
  "cons_holds m vs (ConsRelease t v) = (v = vs ! m)"
| "cons_holds m vs pc = True"

definition ebc_contents :: "nat \<Rightarrow> 'a ebc \<Rightarrow> bool" where
  "ebc_contents N s \<longleftrightarrow> prod_holds (pushes s mod N) (eb_slots (c_buf s)) (prod s) \<and> cons_holds (pops s) (sent s) (cons s) \<and>
     received s = take (pops s) (sent s) \<and>
     (\<forall>q. pops s \<le> q \<and> q < pushes s \<longrightarrow> eb_slots (c_buf s) ! (q mod N) = Some (sent s ! q))"

definition ebc_inv :: "nat \<Rightarrow> 'a ebc \<Rightarrow> bool" where
  "ebc_inv N s \<longleftrightarrow> ebc_cursors N s \<and> ebc_contents N s"

lemmas ebc_inv_defs = ebc_inv_def ebc_cursors_def ebc_contents_def

text \<open>The executions up to the wrap of the cursors, and all of them where it is harmless.\<close>

definition unwrapped :: "nat \<Rightarrow> 'a ebc \<Rightarrow> bool" where
  "unwrapped N s \<longleftrightarrow> N dvd 2 ^ 32 \<or> pushes s < 2 ^ 32"

definition ebc_ok :: "nat \<Rightarrow> 'a ebc_state \<Rightarrow> bool" where
  "ebc_ok N s \<longleftrightarrow> N < 2 ^ 32 \<and> (case s of Running r \<Rightarrow> unwrapped N r \<and> ebc_inv N r | Undefined \<Rightarrow> False)"

lemma slot_of_position: "N dvd 2 ^ 32 \<or> q < 2 ^ 32 \<Longrightarrow> eb_slot_index N (of_nat q) = q mod N"
  by (elim disjE) (simp_all add: eb_slot_index_def unat_of_nat_u32 mod_mod_u32 del: power_numeral)

text \<open>Positions that share a slot are at least \<open>N\<close> apart.\<close>

lemma same_slot_apart: "p mod N = q mod N \<Longrightarrow> p \<noteq> q \<Longrightarrow> p + N \<le> q \<or> q + N \<le> (p::nat)"
  using ring_index_inj [of p N q] ring_index_inj [of q N p] by (metis add.commute le_diff_conv2 nat_le_linear not_le)

lemma ebc_no_write_race:
  assumes ok: "unwrapped N s" and inv: "ebc_cursors N s" and p: "prod s = ProdWrite v h"
  shows "\<not> races N (pushes s) (tail_view s) (reads s)"
proof
  assume "races N (pushes s) (tail_view s) (reads s)"
  then obtain q where q: "tail_view s \<le> q" "q < reads s" "eb_slot_index N (of_nat q) = eb_slot_index N (of_nat (pushes s))"
    unfolding races_def by blast
  have lt: "q < pushes s" using q(2) inv by (auto simp: ebc_cursors_def le_Suc_eq)
  have "q mod N = pushes s mod N"
    using q(3) ok lt slot_of_position [of N q] slot_of_position [of N "pushes s"] by (auto simp: unwrapped_def)
  moreover have "pushes s < tail_view s + N" using inv p by (simp add: ebc_cursors_def)
  ultimately show False using same_slot_apart [of q N "pushes s"] q(1) lt by linarith
qed

lemma ebc_no_read_race:
  assumes ok: "unwrapped N s" and inv: "ebc_cursors N s" and c: "cons s = ConsRead t keep"
  shows "\<not> races N (pops s) (head_view s) (writes s)"
proof
  assume "races N (pops s) (head_view s) (writes s)"
  then obtain q where q: "head_view s \<le> q" "q < writes s" "eb_slot_index N (of_nat q) = eb_slot_index N (of_nat (pops s))"
    unfolding races_def by blast
  have le: "q \<le> pushes s" "pops s \<le> pushes s"
    using q(2) inv by (cases "prod s"; auto simp: writes_def ebc_cursors_def)+
  have "q mod N = pops s mod N"
    using q(3) ok le slot_of_position [of N q] slot_of_position [of N "pops s"] by (auto simp: unwrapped_def)
  moreover have "pops s < head_view s" using inv c by (simp add: ebc_cursors_def)
  moreover have "writes s \<le> tail_view s + N" "tail_view s \<le> pops s"
    using inv by (cases "prod s"; auto simp: ebc_cursors_def writes_def)+
  ultimately show False using same_slot_apart [of q N "pops s"] q(1,2) by linarith
qed

text \<open>The two fullness tests, on the wrapped words, are the tests on the counts.\<close>

lemma ebc_fullness:
  assumes inv: "ebc_cursors N s" and N: "N < 2 ^ 32" and t: "tail_view s \<le> t" "t \<le> pops s"
  shows "unat (eb_head (c_buf s) - of_nat t) = pushes s - t"
proof -
  have "t \<le> pushes s" and "pushes s - t < 2 ^ 32" and "eb_head (c_buf s) = of_nat (pushes s)"
    using inv t N by (auto simp: ebc_cursors_def)
  then show ?thesis using unat_cursor_diff by metis
qed

lemma ebc_emptiness:
  assumes inv: "ebc_cursors N s" and N: "N < 2 ^ 32" and h: "head_view s \<le> h" "h \<le> pushes s"
  shows "eb_tail (c_buf s) = of_nat h \<longleftrightarrow> pops s = h"
proof -
  have le: "pops s \<le> h" "h - pops s < 2 ^ 32" and tail: "eb_tail (c_buf s) = of_nat (pops s)"
    using inv h N by (auto simp: ebc_cursors_def)
  have "unat ((of_nat h :: u32) - of_nat (pops s)) = h - pops s" by (rule unat_cursor_diff [OF le])
  then show ?thesis using le(1) tail by (metis diff_is_0_eq diff_self le_antisym unat_0)
qed

text \<open>The cursors, at every capacity.\<close>

lemma ebc_cursors_push:
  assumes inv: "ebc_cursors N s" and N: "N < 2 ^ 32" and step: "ebc_push v r s (Running s')"
  shows "ebc_cursors N s'"
  using step
proof cases
  case (push_check t)
  with ebc_fullness [OF inv N, of t] inv show ?thesis by (auto simp: ebc_cursors_def)
next
  case (push_write h i slots')
  then have "length slots' = length (eb_slots (c_buf s))" by (auto simp: slot_write_def split: if_splits)
  with push_write inv show ?thesis by (auto simp: ebc_cursors_def eb_capacity_def)
next
  case (push_publish h)
  with inv show ?thesis by (cases "cons s") (auto simp: ebc_cursors_def eb_capacity_def nth_append less_Suc_eq)
qed (use inv in \<open>auto simp: ebc_cursors_def\<close>)

lemma ebc_cursors_pop:
  assumes inv: "ebc_cursors N s" and N: "N < 2 ^ 32" and step: "ebc_pop keep r s (Running s')"
  shows "ebc_cursors N s'"
  using step
proof cases
  case (pop_check h)
  with ebc_emptiness [OF inv N, of h] inv show ?thesis by (auto simp: ebc_cursors_def)
next
  case (pop_read t v)
  with inv show ?thesis by (auto simp: ebc_cursors_def max_def)
next
  case (pop_release t v)
  with inv show ?thesis by (cases "prod s") (auto simp: ebc_cursors_def eb_capacity_def nth_append less_Suc_eq)
qed (use inv in \<open>auto simp: ebc_cursors_def\<close>)

text \<open>The contents: a write leaves the slots of the positions in flight alone.\<close>

lemma ebc_other_slot:
  assumes inv: "ebc_cursors N s" and p: "prod s = ProdWrite v h" and q: "pops s \<le> q" "q < pushes s"
  shows "q mod N \<noteq> pushes s mod N"
proof
  assume eq: "q mod N = pushes s mod N"
  have "pushes s < q + N" using inv p q(1) by (auto simp: ebc_cursors_def)
  then show False using same_slot_apart [OF eq] q(2) by linarith
qed

lemma ebc_write_index:
  assumes ok: "unwrapped N s" and inv: "ebc_cursors N s" and p: "prod s = ProdWrite v h"
  shows "eb_slot_index (eb_capacity (c_buf s)) h = pushes s mod N" and "pushes s mod N < length (eb_slots (c_buf s))"
  using slot_of_position [of N "pushes s"] assms by (auto simp: ebc_cursors_def unwrapped_def eb_capacity_def)

lemma ebc_inv_push:
  assumes ok: "unwrapped N s" and inv: "ebc_inv N s" and N: "N < 2 ^ 32" and step: "ebc_push v r s s1"
  shows "\<exists>s'. s1 = Running s' \<and> ebc_inv N s'"
proof -
  have cur: "ebc_cursors N s" and con: "ebc_contents N s" using inv by (simp_all add: ebc_inv_def)
  have cap: "eb_capacity (c_buf s) = N" using cur by (simp add: ebc_cursors_def)
  from step have "\<exists>s'. s1 = Running s' \<and> ebc_contents N s'"
  proof cases
    case (push_write h i slots')
    from ebc_write_index [OF ok cur push_write(3)] push_write
    have "slots' = (eb_slots (c_buf s))[pushes s mod N := Some v]" by (auto simp: slot_write_def split: if_splits)
    moreover have "(eb_slots (c_buf s))[pushes s mod N := Some v] ! (q mod N) = Some (sent s ! q)"
      if "pops s \<le> q" "q < pushes s" for q
      using con that ebc_other_slot [OF cur push_write(3) that] by (metis ebc_contents_def nth_list_update_neq)
    ultimately show ?thesis
      using push_write con ebc_write_index(2) [OF ok cur push_write(3)] by (auto simp: ebc_contents_def)
  next
    case (push_race h i)
    with ebc_no_write_race [OF ok cur] ebc_write_index [OF ok cur] cap show ?thesis by auto
  next
    case (push_publish h)
    have len: "length (sent s) = pushes s" "pops s \<le> pushes s" using cur by (simp_all add: ebc_cursors_def)
    have "cons_holds (pops s) (sent s @ [v]) (cons s)"
      using con cur by (cases "cons s") (auto simp: ebc_contents_def ebc_cursors_def nth_append)
    with push_publish con len show ?thesis by (auto simp: ebc_contents_def nth_append less_Suc_eq)
  qed (use con in \<open>auto simp: ebc_contents_def\<close>)
  then obtain s' where s': "s1 = Running s'" "ebc_contents N s'" by blast
  with ebc_cursors_push [OF cur N] step show ?thesis by (auto simp: ebc_inv_def)
qed

text \<open>The value the consumer reads is the oldest one it has not popped.\<close>

lemma ebc_read_value:
  assumes ok: "unwrapped N s" and inv: "ebc_inv N s" and c: "cons s = ConsRead t keep"
  shows "slot_read (eb_slots (c_buf s)) (eb_slot_index (eb_capacity (c_buf s)) t) = Some (sent s ! pops s)"
proof -
  have "t = of_nat (pops s)" "pops s < pushes s" "eb_capacity (c_buf s) = N"
    using inv c by (auto simp: ebc_inv_defs)
  moreover from this have "eb_slot_index N (of_nat (pops s)) = pops s mod N"
    using ok by (intro slot_of_position) (auto simp: unwrapped_def)
  moreover have "pops s mod N < length (eb_slots (c_buf s))"
    using inv by (auto simp: ebc_inv_defs eb_capacity_def)
  ultimately show ?thesis using inv by (simp add: ebc_inv_defs)
qed

lemma ebc_inv_pop:
  assumes ok: "unwrapped N s" and inv: "ebc_inv N s" and N: "N < 2 ^ 32" and step: "ebc_pop keep r s s1"
  shows "\<exists>s'. s1 = Running s' \<and> ebc_inv N s'"
proof -
  have cur: "ebc_cursors N s" and con: "ebc_contents N s" using inv by (simp_all add: ebc_inv_def)
  have cap: "eb_capacity (c_buf s) = N" using cur by (simp add: ebc_cursors_def)
  from step have "\<exists>s'. s1 = Running s' \<and> ebc_contents N s'"
  proof cases
    case (pop_read t v)
    with ebc_read_value [OF ok inv pop_read(3)] con show ?thesis by (auto simp: ebc_contents_def)
  next
    case (pop_race t)
    with ebc_no_read_race [OF ok cur] ebc_read_value [OF ok inv] cap show ?thesis by auto
  next
    case (pop_release t v)
    then have "pops s < length (sent s)" using cur by (auto simp: ebc_cursors_def)
    with pop_release con show ?thesis by (auto simp: ebc_contents_def take_Suc_conv_app_nth)
  qed (use con in \<open>auto simp: ebc_contents_def\<close>)
  then obtain s' where s': "s1 = Running s'" "ebc_contents N s'" by blast
  with ebc_cursors_pop [OF cur N] step show ?thesis by (auto simp: ebc_inv_def)
qed

section \<open>Reachable states\<close>

lemma ebc_ok_Running: "ebc_ok N (Running s) \<longleftrightarrow> N < 2 ^ 32 \<and> unwrapped N s \<and> ebc_inv N s"
  by (simp add: ebc_ok_def)

lemma ebc_ok_init: "0 < N \<Longrightarrow> N < 2 ^ 32 \<Longrightarrow> ebc_init N x \<Longrightarrow> ebc_ok N x"
  by (auto simp: ebc_ok_Running ebc_init_def ebc_inv_defs unwrapped_def eb_new_def eb_capacity_def)

lemma ebc_push_counts: "ebc_push v r s (Running s') \<Longrightarrow> pushes s \<le> pushes s'"
  by (erule ebc_push.cases) auto

lemma ebc_pop_counts: "ebc_pop keep r s (Running s') \<Longrightarrow> pushes s' = pushes s"
  by (erule ebc_pop.cases) auto

lemma ebc_ok_push:
  assumes "ebc_ok N (Running s)" and "ebc_push v r s s1" and "\<And>s'. s1 = Running s' \<Longrightarrow> unwrapped N s'"
  shows "ebc_ok N s1"
  using ebc_inv_push [of N s v r s1] assms by (auto simp: ebc_ok_Running)

lemma ebc_ok_pop:
  assumes "ebc_ok N (Running s)" and "ebc_pop keep r s s1"
  shows "ebc_ok N s1"
proof -
  from ebc_inv_pop [of N s keep r s1] assms obtain s' where "s1 = Running s'" "ebc_inv N s'"
    by (auto simp: ebc_ok_Running)
  with assms ebc_pop_counts [of keep r s s'] show ?thesis by (simp add: ebc_ok_Running unwrapped_def)
qed

lemma ebc_ok_step:
  assumes "ebc_ok N s0" and "ebc_step s0 s1" and "\<And>s'. s1 = Running s' \<Longrightarrow> unwrapped N s'"
  shows "ebc_ok N s1"
  using assms(2,1,3) by cases (auto intro: ebc_ok_push ebc_ok_pop)

text \<open>Every reachable state has sound cursors, and sound contents while it is unwrapped.\<close>

definition ebc_sound :: "nat \<Rightarrow> 'a ebc_state \<Rightarrow> bool" where
  "ebc_sound N x \<longleftrightarrow> 0 < N \<and> N < 2 ^ 32 \<and>
     (case x of Running s \<Rightarrow> ebc_cursors N s \<and> (unwrapped N s \<longrightarrow> ebc_inv N s) | Undefined \<Rightarrow> \<not> N dvd 2 ^ 32)"

lemma unwrapped_before:
  assumes "ebc_step (Running s) (Running s')" and "unwrapped N s'"
  shows "unwrapped N s"
  using assms(1) by cases (use assms(2) in \<open>auto simp: unwrapped_def dest: ebc_push_counts ebc_pop_counts\<close>)

lemma ebc_sound_step:
  assumes sound: "ebc_sound N x" and step: "ebc_step x y"
  shows "ebc_sound N y"
proof -
  obtain s where x: "x = Running s" using step by cases auto
  have N: "0 < N" "N < 2 ^ 32" and cur: "ebc_cursors N s" and inv: "unwrapped N s \<Longrightarrow> ebc_ok N (Running s)"
    using sound by (auto simp: ebc_sound_def x ebc_ok_Running)
  show ?thesis
  proof (cases y)
    case (Running s')
    with step x have "ebc_cursors N s'"
      by (auto elim!: ebc_stepE dest: ebc_cursors_push [OF cur N(2)] ebc_cursors_pop [OF cur N(2)])
    moreover have "ebc_inv N s'" if "unwrapped N s'"
      using ebc_ok_step [OF inv step [unfolded x]] unwrapped_before [of s s' N] that step
      by (simp add: x Running ebc_ok_Running)
    ultimately show ?thesis using N by (simp add: ebc_sound_def Running)
  next
    case Undefined
    with ebc_ok_step [OF inv step [unfolded x]] have "\<not> unwrapped N s" by (auto simp: ebc_ok_def)
    with N show ?thesis by (simp add: ebc_sound_def Undefined unwrapped_def)
  qed
qed

interpretation sound: inductive_invariant "\<lambda>x. 0 < N \<and> N < 2 ^ 32 \<and> ebc_init N x" ebc_step "ebc_sound N" for N
proof
  show "ebc_sound N x" if "0 < N \<and> N < 2 ^ 32 \<and> ebc_init N x" for x :: "'a ebc_state"
    using that by (auto simp: ebc_sound_def ebc_init_def ebc_inv_defs eb_new_def eb_capacity_def)
qed (rule ebc_sound_step)

lemma ebc_reach_sound:
  assumes "reach (ebc_init N) ebc_step x" and "0 < N" "N < 2 ^ 32"
  shows "ebc_sound N x"
proof -
  from assms have "reach (\<lambda>x. 0 < N \<and> N < 2 ^ 32 \<and> ebc_init N x) ebc_step x" by simp
  then show ?thesis by (rule sound.reach_inv)
qed

lemma ebc_reach_cursors: "reach (ebc_init N) ebc_step (Running s) \<Longrightarrow> 0 < N \<Longrightarrow> N < 2 ^ 32 \<Longrightarrow> ebc_cursors N s"
  using ebc_reach_sound [of N "Running s"] by (simp add: ebc_sound_def)

lemma ebc_reach_ok:
  "reach (ebc_init N) ebc_step (Running s) \<Longrightarrow> 0 < N \<Longrightarrow> N < 2 ^ 32 \<Longrightarrow> N dvd 2 ^ 32 \<or> pushes s < 2 ^ 32 \<Longrightarrow>
    ebc_ok N (Running s)"
  using ebc_reach_sound [of N "Running s"] by (simp add: ebc_sound_def ebc_ok_Running unwrapped_def)

section \<open>What every execution satisfies\<close>

text \<open>The abstract queue: what was published and not yet released.\<close>

fun ebc_queue :: "'a ebc_state \<Rightarrow> 'a list" where
  "ebc_queue (Running s) = drop (pops s) (sent s)"
| "ebc_queue Undefined = []"

inductive queue_step :: "nat \<Rightarrow> 'a list \<Rightarrow> 'a list \<Rightarrow> bool" for N where
  enqueue: "length q < N \<Longrightarrow> queue_step N q (q @ [v])"
| dequeue: "queue_step N (v # q) q"

inductive_simps queue_step_iff: "queue_step N q q'"

text \<open>The simulation covers the executions that stay unwrapped.\<close>

definition unwrapped_step :: "nat \<Rightarrow> 'a ebc_state \<Rightarrow> 'a ebc_state \<Rightarrow> bool" where
  "unwrapped_step N x y \<longleftrightarrow> ebc_step x y \<and> (\<forall>s. y = Running s \<longrightarrow> unwrapped N s)"

lemma ebc_queue_step:
  assumes ok: "ebc_ok N s0" and step: "unwrapped_step N s0 s1"
  shows "ebc_queue s1 = ebc_queue s0 \<or> queue_step N (ebc_queue s0) (ebc_queue s1)"
proof (cases s0)
  case Undefined
  with ok show ?thesis by (simp add: ebc_ok_def)
next
  case (Running s)
  then have inv: "ebc_inv N s" using ok by (simp add: ebc_ok_def)
  then have len: "pops s \<le> pushes s" "length (sent s) = pushes s" by (simp_all add: ebc_inv_defs)
  have "ebc_step (Running s) s1" using step Running by (simp add: unwrapped_step_def)
  moreover have s1: "s1 \<noteq> Undefined" using ebc_ok_step [OF ok, of s1] step by (auto simp: unwrapped_step_def ebc_ok_def)
  ultimately show ?thesis
  proof cases
    case (produce v r)
    from this show ?thesis
    proof cases
      case (push_publish h)
      then have "pushes s < pops s + N" using inv by (simp add: ebc_inv_defs)
      then have "length (drop (pops s) (sent s)) < N" using len by simp
      from queue_step.enqueue [OF this, of v] show ?thesis using push_publish len Running by simp
    qed (use s1 Running in simp_all)
  next
    case (consume keep r)
    from this show ?thesis
    proof cases
      case (pop_release t v)
      then have "pops s < length (sent s)" using inv len by (simp add: ebc_inv_defs)
      from Cons_nth_drop_Suc [OF this, symmetric] show ?thesis
        using pop_release Running by (simp add: queue_step.dequeue)
    qed (use s1 Running in simp_all)
  qed
qed

interpretation ebc: forward_simulation "\<lambda>x. 0 < N \<and> N < 2 ^ 32 \<and> ebc_init N x" "unwrapped_step N" "ebc_ok N"
  "\<lambda>q. q = []" "queue_step N" ebc_queue for N
proof
  show "ebc_ok N x" if "0 < N \<and> N < 2 ^ 32 \<and> ebc_init N x" for x :: "'a ebc_state"
    using that by (simp add: ebc_ok_init)
  show "ebc_ok N s'" if "ebc_ok N s" "unwrapped_step N s s'" for s s' :: "'a ebc_state"
    by (rule ebc_ok_step [OF that(1)]) (use that(2) in \<open>auto simp: unwrapped_step_def\<close>)
  show "ebc_queue s' = ebc_queue s \<or> queue_step N (ebc_queue s) (ebc_queue s')"
    if "ebc_ok N s" "unwrapped_step N s s'" for s s' :: "'a ebc_state"
    by (rule ebc_queue_step [OF that])
qed (auto simp: ebc_init_def)

lemma reach_unwrapped:
  assumes "reach (ebc_init N) ebc_step x" and "0 < N" "N < 2 ^ 32"
  shows "\<forall>s. x = Running s \<longrightarrow> unwrapped N s \<longrightarrow> reach (\<lambda>x. 0 < N \<and> N < 2 ^ 32 \<and> ebc_init N x) (unwrapped_step N) x"
  using assms(1)
proof (induction rule: reach.induct)
  case (start x)
  then show ?case using assms(2,3) by (auto intro: reach.start)
next
  case (move x y)
  obtain s where "x = Running s" using move(2) by cases auto
  with move show ?case by (auto intro: reach.move simp: unwrapped_step_def dest: unwrapped_before)
qed

lemma ebc_is_queue:
  assumes "reach (ebc_init N) ebc_step (Running s)" and "0 < N" "N < 2 ^ 32" and "N dvd 2 ^ 32 \<or> pushes s < 2 ^ 32"
  shows "reach (\<lambda>q. q = []) (queue_step N) (ebc_queue (Running s))"
proof -
  have "unwrapped N s" using assms(4) by (simp add: unwrapped_def)
  then show ?thesis using reach_unwrapped [OF assms(1-3)] by (intro ebc.reach_sim [of N]) simp
qed

text \<open>No data race and no read of an unwritten cell before the wrap, nor after it if \<open>N\<close> divides \<open>2 ^ 32\<close>.\<close>

lemma ebc_never_undefined:
  assumes "0 < N" "N < 2 ^ 32"
  shows "N dvd 2 ^ 32 \<Longrightarrow> \<not> reach (ebc_init N) ebc_step Undefined"
    and "reach (ebc_init N) ebc_step (Running s) \<Longrightarrow> pushes s < 2 ^ 32 \<Longrightarrow> \<not> ebc_step (Running s) Undefined"
proof -
  show "\<not> reach (ebc_init N) ebc_step Undefined" if "N dvd 2 ^ 32"
    using ebc_reach_sound [of N Undefined] assms that by (auto simp: ebc_sound_def)
  show "\<not> ebc_step (Running s) Undefined" if "reach (ebc_init N) ebc_step (Running s)" "pushes s < 2 ^ 32"
    using ebc_ok_step [OF ebc_reach_ok [OF that(1) assms], of Undefined] that(2) by (auto simp: ebc_ok_def)
qed

text \<open>What was received is what was sent, in order; at most \<open>N\<close> values are in flight, at every capacity.\<close>

lemma ebc_in_order:
  assumes "reach (ebc_init N) ebc_step (Running s)" and "0 < N" "N < 2 ^ 32"
  shows "length (sent s) \<le> length (received s) + N"
    and "unat (eb_head (c_buf s) - eb_tail (c_buf s)) = length (sent s) - length (received s)"
    and "N dvd 2 ^ 32 \<or> pushes s < 2 ^ 32 \<Longrightarrow> received s @ drop (pops s) (sent s) = sent s"
proof -
  have inv: "ebc_cursors N s" by (rule ebc_reach_cursors [OF assms])
  have len: "length (sent s) = pushes s" "length (received s) = pops s" "pops s \<le> pushes s"
    using inv by (auto simp: ebc_cursors_def)
  have room: "pushes s \<le> pops s + N" using inv by (simp add: ebc_cursors_def)
  have "unat ((of_nat (pushes s) :: u32) - of_nat (pops s)) = pushes s - pops s"
    by (rule unat_cursor_diff) (use len room assms(3) in linarith)+
  then show "length (sent s) \<le> length (received s) + N"
    "unat (eb_head (c_buf s) - eb_tail (c_buf s)) = length (sent s) - length (received s)"
    using inv len room by (simp_all add: ebc_cursors_def)
  show "received s @ drop (pops s) (sent s) = sent s" if "N dvd 2 ^ 32 \<or> pushes s < 2 ^ 32"
    using ebc_reach_ok [OF assms that] by (simp add: ebc_ok_Running ebc_inv_defs)
qed

text \<open>
  A value is refused only when the endpoint has acquired a tail \<open>t\<close> behind which exactly \<open>N\<close> values
  were published.
\<close>

lemma ebc_refusal:
  assumes "reach (ebc_init N) ebc_step (Running s)" and "0 < N" "N < 2 ^ 32" and "tail_view s \<le> t" and "t \<le> pops s"
    and "eb_capacity (c_buf s) \<le> unat (eb_head (c_buf s) - of_nat t)"
  shows "length (sent s) = t + N"
proof -
  have inv: "ebc_cursors N s" by (rule ebc_reach_cursors [OF assms(1-3)])
  have "N \<le> pushes s - t" and "pushes s \<le> t + N"
    using ebc_fullness [OF inv assms(3-5)] assms(4,6) inv by (auto simp: ebc_cursors_def)
  moreover have "0 < N" "length (sent s) = pushes s" using inv by (simp_all add: ebc_cursors_def)
  ultimately show ?thesis by linarith
qed

section \<open>The length observer\<close>

text \<open>
  A sample of \<open>len\<close> at a state of the execution, by any context: an Acquire load of \<open>tail\<close>, a Relaxed
  load of \<open>head\<close> no older than the view the tail's store carries, and after the Acquire fence a second
  load of \<open>tail\<close> no older than the first nor than the view the head's store carries.
\<close>

definition len_sample :: "'a ebc \<Rightarrow> nat \<Rightarrow> nat \<Rightarrow> nat \<Rightarrow> bool" where
  "len_sample s t1 h t2 \<longleftrightarrow> t1 \<le> t2 \<and> t2 \<le> pops s \<and> h \<le> pushes s \<and>
     (0 < t1 \<longrightarrow> pop_head s ! (t1 - 1) \<le> h) \<and> (0 < h \<longrightarrow> pub_tail s ! (h - 1) \<le> t2)"

lemma len_sample_bound:
  assumes inv: "ebc_cursors N s" and sample: "len_sample s t h t"
  shows "t \<le> h \<and> h \<le> t + N"
proof -
  have t: "t \<le> pops s" "0 < t \<longrightarrow> pop_head s ! (t - 1) \<le> h" and h: "h \<le> pushes s" "0 < h \<longrightarrow> pub_tail s ! (h - 1) \<le> t"
    using sample by (simp_all add: len_sample_def)
  have "t \<le> h"
  proof (cases t)
    case (Suc k)
    then have "k < pop_head s ! k" using inv t(1) by (simp add: ebc_cursors_def)
    with t(2) Suc show ?thesis by simp
  qed simp
  moreover have "h \<le> t + N"
  proof (cases h)
    case (Suc k)
    then have "k < pub_tail s ! k + N" using inv h(1) by (simp add: ebc_cursors_def)
    with h(2) Suc show ?thesis by simp
  qed simp
  ultimately show ?thesis by simp
qed

text \<open>
  Whatever the loads return, the length never exceeds any capacity, if fewer than \<open>2 ^ 32\<close> pops happen
  between the two tail loads of one sample (a tail that went once around would compare equal).
\<close>

lemma ebc_len_bound:
  assumes "reach (ebc_init N) ebc_step (Running s)" and "0 < N" and N: "N < 2 ^ 32"
    and samples: "\<forall>(t1, h, t2) \<in> set samples. len_sample s t1 h t2 \<and> t2 - t1 < 2 ^ 32"
  shows "eb_len_samples N (map (\<lambda>(t1, h, t2). (of_nat t1, of_nat h, of_nat t2)) samples) fallback \<le> N"
proof -
  have inv: "ebc_cursors N s" by (rule ebc_reach_cursors [OF assms(1-3)])
  show ?thesis
    using samples
  proof (induction samples)
    case Nil
    then show ?case by (cases fallback) simp
  next
    case (Cons smp samples)
    obtain t1 h t2 where smp: "smp = (t1, h, t2)" by (cases smp)
    then have sample: "len_sample s t1 h t2" and near: "t2 - t1 < 2 ^ 32" using Cons.prems by simp_all
    show ?case
    proof (cases "(of_nat t1 :: u32) = of_nat t2")
      case True
      have "t1 \<le> t2" using sample by (simp add: len_sample_def)
      moreover have "unat ((of_nat t2 :: u32) - of_nat t1) = t2 - t1"
        by (rule unat_cursor_diff) (use near calculation in simp_all)
      ultimately have "t2 = t1" using True by simp
      then have bound: "t1 \<le> h" "h \<le> t1 + N" using len_sample_bound [OF inv] sample by auto
      then have "unat ((of_nat h :: u32) - of_nat t1) = h - t1"
        by (intro unat_cursor_diff) (use N in linarith)+
      with bound show ?thesis by (simp add: smp True)
    next
      case False
      with Cons show ?thesis by (simp add: smp)
    qed
  qed
qed

section \<open>An execution\<close>

text \<open>A push of one item by the producer alone, as an execution of the concurrent model.\<close>

lemma ebc_one_push:
  "reach (ebc_init 1) ebc_step (Running
    \<lparr>c_buf = (eb_new 1)\<lparr>eb_slots := [Some True], eb_head := 1\<rparr>, pushes = 1, pops = 0,
     tail_view = 0, head_view = 0, prod = ProdIdle, cons = ConsIdle, reads = 0, sent = [True],
     received = [], refused = [], pub_tail = [0], pop_head = []\<rparr>)"
    (is "reach ?i ?st (Running ?s3)")
proof -
  let ?s0 = "\<lparr>c_buf = eb_new 1, pushes = 0, pops = 0, tail_view = 0, head_view = 0, prod = ProdIdle,
     cons = ConsIdle, reads = 0, sent = [] :: bool list, received = [], refused = [], pub_tail = [], pop_head = []\<rparr>"
  let ?s1 = "?s0\<lparr>prod := ProdWrite True 0\<rparr>"
  let ?s2 = "?s1\<lparr>c_buf := (eb_new 1)\<lparr>eb_slots := [Some True]\<rparr>, prod := ProdPublish True 0\<rparr>"
  have slots: "slot_write (eb_slots (eb_new (Suc 0))) 0 True = Some [Some True]"
    by (simp add: eb_new_def eb_slot_array_def uninit_slots_def slot_write_def)
  have "reach ?i ?st (Running ?s0)"
    by (rule start) (simp add: ebc_init_def)
  moreover have "?st (Running ?s0) (Running ?s1)"
    using ebc_step.produce [OF ebc_push.push_check [of ?s0 0 True]] by (simp add: eb_new_def eb_capacity_def)
  moreover have "?st (Running ?s1) (Running ?s2)"
    using ebc_step.produce [OF ebc_push.push_write [of ?s1 True 0 0 "[Some True]"]]
    by (simp add: races_def eb_slot_index_def slots)
  moreover have "?st (Running ?s2) (Running ?s3)"
    using ebc_step.produce [OF ebc_push.push_publish [of ?s2 True 0]] by simp
  ultimately show ?thesis by (blast intro: move)
qed

end
