(* ===== verification/Threads.thy ===== *)
theory Threads
  imports Transition
begin

text \<open>
  Programs of two threads over a component that is modelled access by access. A thread is in a local state,
  which determines the call it is making, if any, and what it becomes when the call returns; an access of
  the call is one step. Nothing else orders the two threads, so the reachable states are those of every
  schedule. The concurrency tests of the crate (\<open>src/loom_tests.rs\<close> and the threaded unit tests) are such
  programs: a failed assertion is a local state, and their claim is that it is unreachable.
\<close>

datatype ('c, 'r, 'p) thread = Thread (next_call: "'p \<Rightarrow> 'c option") (on_return: "'p \<Rightarrow> 'r \<Rightarrow> 'p")

definition after_access :: "('c, 'r, 'p) thread \<Rightarrow> 'p \<Rightarrow> 'r option \<Rightarrow> 'p" where
  "after_access t p r = (case r of None \<Rightarrow> p | Some x \<Rightarrow> on_return t p x)"

lemma after_access_simps [simp]:
  "after_access t p None = p" "after_access t p (Some x) = on_return t p x"
  by (simp_all add: after_access_def)

inductive duo_step :: "('c \<Rightarrow> 'r option \<Rightarrow> 's \<Rightarrow> 's \<Rightarrow> bool) \<Rightarrow> ('d \<Rightarrow> 'u option \<Rightarrow> 's \<Rightarrow> 's \<Rightarrow> bool) \<Rightarrow>
    ('c, 'r, 'p) thread \<Rightarrow> ('d, 'u, 'q) thread \<Rightarrow> 's \<times> 'p \<times> 'q \<Rightarrow> 's \<times> 'p \<times> 'q \<Rightarrow> bool"
  for left_acc right_acc T U where
  left: "next_call T p = Some c \<Longrightarrow> left_acc c r s s' \<Longrightarrow> duo_step left_acc right_acc T U (s, p, q) (s', after_access T p r, q)"
| right: "next_call U q = Some d \<Longrightarrow> right_acc d r s s' \<Longrightarrow> duo_step left_acc right_acc T U (s, p, q) (s', p, after_access U q r)"

inductive_cases duo_stepE: "duo_step left_acc right_acc T U x y"

text \<open>An invariant over both threads is kept if each access keeps it.\<close>

locale duo_invariant =
  fixes init :: "'s \<times> 'p \<times> 'q \<Rightarrow> bool" and left_acc :: "'c \<Rightarrow> 'r option \<Rightarrow> 's \<Rightarrow> 's \<Rightarrow> bool"
    and right_acc :: "'d \<Rightarrow> 'u option \<Rightarrow> 's \<Rightarrow> 's \<Rightarrow> bool" and T :: "('c, 'r, 'p) thread" and U :: "('d, 'u, 'q) thread"
    and inv :: "'s \<Rightarrow> 'p \<Rightarrow> 'q \<Rightarrow> bool"
  assumes duo_init: "init (s, p, q) \<Longrightarrow> inv s p q"
    and duo_left: "inv s p q \<Longrightarrow> next_call T p = Some c \<Longrightarrow> left_acc c r s s' \<Longrightarrow> inv s' (after_access T p r) q"
    and duo_right: "inv s p q \<Longrightarrow> next_call U q = Some d \<Longrightarrow> right_acc d r' s s' \<Longrightarrow> inv s' p (after_access U q r')"
begin

sublocale inductive_invariant init "duo_step left_acc right_acc T U" "\<lambda>x. case x of (s, p, q) \<Rightarrow> inv s p q"
proof
  show "case x of (s, p, q) \<Rightarrow> inv s p q" if "init x" for x
    using that by (cases x) (auto intro: duo_init)
  show "case y of (s, p, q) \<Rightarrow> inv s p q"
    if "case x of (s, p, q) \<Rightarrow> inv s p q" "duo_step left_acc right_acc T U x y" for x y
    using that(2,1) by cases (auto intro: duo_left duo_right)
qed

lemma duo_reach_inv: "reach init (duo_step left_acc right_acc T U) (s, p, q) \<Longrightarrow> inv s p q"
  using reach_inv by fastforce

end

text \<open>What the component goes through in a program is an execution of the component.\<close>

lemma duo_reach_core:
  assumes "\<And>c r s s'. left_acc c r s s' \<Longrightarrow> core s' = core s \<or> step (core s) (core s')"
    and "\<And>d r s s'. right_acc d r s s' \<Longrightarrow> core s' = core s \<or> step (core s) (core s')"
    and "\<And>s p q. init (s, p, q) \<Longrightarrow> cinit (core s)"
    and "reach init (duo_step left_acc right_acc T U) x"
  shows "reach cinit step (core (fst x))"
  using assms(4)
proof (induction rule: reach.induct)
  case (start x)
  then show ?case using assms(3) by (cases x) (auto intro: reach.start)
next
  case (move x y)
  from move(2) have "core (fst y) = core (fst x) \<or> step (core (fst x)) (core (fst y))"
    by cases (use assms(1,2) in auto)
  with move.IH show ?case by (auto intro: reach.move)
qed

text \<open>A call that runs on its own to its end, and what the calling thread then does.\<close>

inductive runs :: "('r option \<Rightarrow> 's \<Rightarrow> 's \<Rightarrow> bool) \<Rightarrow> 's \<Rightarrow> 'r \<Rightarrow> 's \<Rightarrow> bool" for acc where
  returns: "acc (Some r) s s' \<Longrightarrow> runs acc s r s'"
| access: "acc None s s' \<Longrightarrow> runs acc s' r s'' \<Longrightarrow> runs acc s r s''"

lemma runs_left:
  assumes "runs (left_acc c) s r s'" and "next_call T p = Some c"
  shows "(duo_step left_acc right_acc T U)\<^sup>*\<^sup>* (s, p, q) (s', on_return T p r, q)"
  using assms
proof (induction rule: runs.induct)
  case (returns r s s')
  from duo_step.left [of T p c left_acc "Some r" s s' right_acc U q] returns show ?case by auto
next
  case (access s s' r s'')
  from duo_step.left [of T p c left_acc None s s' right_acc U q] access
  show ?case by (auto intro: converse_rtranclp_into_rtranclp)
qed

lemma runs_right:
  assumes "runs (right_acc d) s r s'" and "next_call U q = Some d"
  shows "(duo_step left_acc right_acc T U)\<^sup>*\<^sup>* (s, p, q) (s', p, on_return U q r)"
  using assms
proof (induction rule: runs.induct)
  case (returns r s s')
  from duo_step.right [of U q d right_acc "Some r" s s' left_acc T p] returns show ?case by auto
next
  case (access s s' r s'')
  from duo_step.right [of U q d right_acc None s s' left_acc T p] access
  show ?case by (auto intro: converse_rtranclp_into_rtranclp)
qed

lemma runs_steps:
  assumes "runs acc s r s'" and "\<And>x s s'. acc x s s' \<Longrightarrow> step s s'"
  shows "step\<^sup>*\<^sup>* s s'"
  using assms(1) by (induction rule: runs.induct) (auto intro: assms(2) converse_rtranclp_into_rtranclp)

text \<open>
  A program can end when from each state that satisfies the invariant and is not final, some steps lead to one
  with a smaller measure.
\<close>

lemma can_end:
  assumes "I x" and "\<And>x y. I x \<Longrightarrow> step x y \<Longrightarrow> I y"
    and "\<And>x. I x \<Longrightarrow> \<not> final x \<Longrightarrow> \<exists>y. step\<^sup>*\<^sup>* x y \<and> (final y \<or> (left y :: nat) < left x)"
  shows "\<exists>y. step\<^sup>*\<^sup>* x y \<and> final y"
proof -
  have keep: "step\<^sup>*\<^sup>* x y \<Longrightarrow> I x \<Longrightarrow> I y" for x y
    by (induction rule: rtranclp_induct) (auto intro: assms(2))
  show ?thesis
    using assms(1)
  proof (induction "left x" arbitrary: x rule: less_induct)
    case less
    show ?case
    proof (cases "final x")
      case False
      then obtain y where y: "step\<^sup>*\<^sup>* x y" "final y \<or> left y < left x" using assms(3) less.prems by blast
      then show ?thesis using less.hyps [of y] keep [OF y(1) less.prems] by (auto intro: rtranclp_trans)
    qed blast
  qed
qed

section \<open>A flag beside the component\<close>

text \<open>
  A test that must know when the other thread has finished stores \<open>true\<close> with Release into an \<open>AtomicBool\<close>
  and loads it with Acquire. A load may return \<open>false\<close> at any time and \<open>true\<close> only after the store; in that case
  it acquires what the storing thread did, which is the argument \<open>acquire\<close>: its effect on the component's views.
\<close>

datatype 'c flag_call = Work 'c | Store_True | Load_Flag

datatype 'r flag_result = Worked 'r | Stored | Loaded bool

inductive flagged :: "('c \<Rightarrow> 'r option \<Rightarrow> 's \<Rightarrow> 's \<Rightarrow> bool) \<Rightarrow> ('s \<Rightarrow> 's) \<Rightarrow>
    'c flag_call \<Rightarrow> 'r flag_result option \<Rightarrow> 's \<times> bool \<Rightarrow> 's \<times> bool \<Rightarrow> bool"
  for acc acquire where
  work: "acc c r s s' \<Longrightarrow> flagged acc acquire (Work c) (map_option Worked r) (s, f) (s', f)"
| store_true: "flagged acc acquire Store_True (Some Stored) (s, f) (s, True)"
| load_stale: "flagged acc acquire Load_Flag (Some (Loaded False)) (s, f) (s, f)"
| load_true: "flagged acc acquire Load_Flag (Some (Loaded True)) (s, True) (acquire s, True)"

inductive_cases flaggedE: "flagged acc acquire c r x y"

inductive_simps flagged_simps:
  "flagged acc acquire (Work c) r x y"
  "flagged acc acquire Store_True r x y"
  "flagged acc acquire Load_Flag r x y"

lemma runs_flagged:
  "runs (acc c) s r s' \<Longrightarrow> runs (flagged acc acquire (Work c)) (s, f) (Worked r) (s', f)"
proof (induction rule: runs.induct)
  case (returns r s s')
  from flagged.work [of acc c "Some r" s s' acquire f] returns show ?case by (auto intro: runs.returns)
next
  case (access s s' r s'')
  then have "flagged acc acquire (Work c) None (s, f) (s', f)" by (auto simp: flagged_simps)
  then show ?case using access.IH by (rule runs.access)
qed

end
