(* ===== verification/EventBuf_Progress.thy ===== *)
theory EventBuf_Progress
  imports EventBuf_Conc Threads
begin

text \<open>
  Progress of the concurrent queue. In every reachable state, wherever the other endpoint stopped, each
  endpoint gets on by its own accesses: the consumer obtains everything that was published, and the
  producer places values until \<open>N\<close> are in flight, at every capacity while no cursor has wrapped and for ever
  at those that divide \<open>2 ^ 32\<close>. Neither ever waits for the other inside a call.
\<close>

definition push_acc :: "'a \<Rightarrow> ('a + unit) option \<Rightarrow> 'a ebc_state \<Rightarrow> 'a ebc_state \<Rightarrow> bool" where
  "push_acc v r x y \<longleftrightarrow> (\<exists>s. x = Running s \<and> ebc_push v r s y)"

definition pop_acc :: "bool \<Rightarrow> 'a option option \<Rightarrow> 'a ebc_state \<Rightarrow> 'a ebc_state \<Rightarrow> bool" where
  "pop_acc keep r x y \<longleftrightarrow> (\<exists>s. x = Running s \<and> ebc_pop keep r s y)"

lemma acc_Running [simp]:
  "push_acc v r (Running s) y \<longleftrightarrow> ebc_push v r s y" "pop_acc keep r' (Running s) y \<longleftrightarrow> ebc_pop keep r' s y"
  by (simp_all add: push_acc_def pop_acc_def)

lemma acc_steps: "push_acc v r x y \<Longrightarrow> ebc_step x y" "pop_acc keep r' x y \<Longrightarrow> ebc_step x y"
  by (auto simp: push_acc_def pop_acc_def intro: ebc_step.intros)

lemma ebc_runs:
  "ebc_push v (Some r) s y \<Longrightarrow> runs (push_acc v) (Running s) r y"
  "ebc_push v None s y \<Longrightarrow> runs (push_acc v) y r z \<Longrightarrow> runs (push_acc v) (Running s) r z"
  "ebc_pop keep (Some r') s y \<Longrightarrow> runs (pop_acc keep) (Running s) r' y"
  "ebc_pop keep None s y \<Longrightarrow> runs (pop_acc keep) y r' z \<Longrightarrow> runs (pop_acc keep) (Running s) r' z"
  by (auto intro: runs.intros)

definition consumer_alone :: "'a ebc_state \<Rightarrow> 'a ebc_state \<Rightarrow> bool" where
  "consumer_alone x y \<longleftrightarrow> (\<exists>keep r. pop_acc keep r x y)"

definition producer_alone :: "'a ebc_state \<Rightarrow> 'a ebc_state \<Rightarrow> bool" where
  "producer_alone x y \<longleftrightarrow> (\<exists>v r. push_acc v r x y)"

text \<open>What an endpoint's accesses leave alone.\<close>

lemma ebc_pop_frame:
  assumes "ebc_pop keep r s (Running s')"
  shows "prod s' = prod s \<and> pushes s' = pushes s \<and> sent s' = sent s \<and> refused s' = refused s \<and> tail_view s' = tail_view s"
  using assms by cases auto

lemma ebc_push_frame:
  assumes "ebc_push v r s (Running s')"
  shows "cons s' = cons s \<and> pops s' = pops s \<and> received s' = received s \<and> head_view s' = head_view s \<and> reads s' = reads s"
  using assms by cases auto

lemma no_run_undefined:
  "\<not> runs (push_acc v) Undefined r y" "\<not> runs (pop_acc keep) Undefined r' y"
  by (auto simp: push_acc_def pop_acc_def elim: runs.cases)

lemma runs_push_frame:
  assumes "runs (push_acc v) x r y" and "x = Running s" and "y = Running s'"
  shows "pops s' = pops s \<and> cons s' = cons s"
  using assms
proof (induction arbitrary: s rule: runs.induct)
  case (access x x' r y)
  then obtain s1 where x': "x' = Running s1"
    by (cases x') (auto simp: no_run_undefined)
  with access.hyps(1) access.prems(1) have "pops s1 = pops s \<and> cons s1 = cons s" by (auto dest: ebc_push_frame)
  with access.IH [OF x' access.prems(2)] show ?case by simp
qed (auto dest: ebc_push_frame)

lemma runs_pop_frame:
  assumes "runs (pop_acc keep) x r y" and "x = Running s" and "y = Running s'"
  shows "pushes s' = pushes s \<and> prod s' = prod s"
  using assms
proof (induction arbitrary: s rule: runs.induct)
  case (access x x' r y)
  then obtain s1 where x': "x' = Running s1"
    by (cases x') (auto simp: no_run_undefined)
  with access.hyps(1) access.prems(1) have "pushes s1 = pushes s \<and> prod s1 = prod s" by (auto dest: ebc_pop_frame)
  with access.IH [OF x' access.prems(2)] show ?case by simp
qed (auto dest: ebc_pop_frame)

lemma consumer_alone_ok: "consumer_alone\<^sup>*\<^sup>* x y \<Longrightarrow> ebc_ok N x \<Longrightarrow> ebc_ok N y"
  by (induction rule: rtranclp_induct) (auto simp: consumer_alone_def pop_acc_def intro: ebc_ok_pop)

text \<open>No access of a state that keeps the invariant ends undefined.\<close>

lemma alone_Running:
  assumes "consumer_alone\<^sup>*\<^sup>* x y" and "ebc_ok N x"
  obtains s where "y = Running s"
  using consumer_alone_ok [OF assms] that by (cases y) (auto simp: ebc_ok_def)

lemma consumer_alone_sent:
  assumes "consumer_alone\<^sup>*\<^sup>* (Running s) (Running s')" and ok: "ebc_ok N (Running s)"
  shows "sent s' = sent s \<and> prod s' = prod s \<and> pushes s' = pushes s"
  using assms(1)
proof (induction "Running s'" arbitrary: s' rule: rtranclp_induct)
  case (step y)
  obtain t where y: "y = Running t" by (rule alone_Running [OF step(1) ok])
  with step(2) have "\<exists>keep r. ebc_pop keep r t (Running s')" by (auto simp: consumer_alone_def)
  with step(3) [OF y] show ?case using ebc_pop_frame by metis
qed simp

section \<open>The consumer\<close>

lemma pop_release_runs:
  assumes "cons s = ConsRelease t v"
  shows "\<exists>s'. runs (pop_acc False) (Running s) (Some v) (Running s') \<and> cons s' = ConsIdle \<and> pops s' = Suc (pops s)"
  using ebc_runs(3) [OF ebc_pop.pop_release [OF assms, of False]] by fastforce

lemma pop_read_access:
  assumes ok: "ebc_ok N (Running s)" and c: "cons s = ConsRead t keep"
  shows "\<exists>s'. ebc_pop keep (if keep then Some (Some (sent s ! pops s)) else None) s (Running s') \<and> pops s' = pops s \<and>
    cons s' = (if keep then ConsIdle else ConsRelease t (sent s ! pops s))"
proof -
  have un: "unwrapped N s" and inv: "ebc_inv N s" and cur: "ebc_cursors N s" using ok by (auto simp: ebc_ok_Running ebc_inv_def)
  then have N: "eb_capacity (c_buf s) = N" by (simp add: ebc_inv_defs)
  have "\<not> races (eb_capacity (c_buf s)) (pops s) (head_view s) (writes s)"
    using ebc_no_read_race [OF un cur c] N by simp
  from ebc_pop.pop_read [OF c this ebc_read_value [OF un inv c]] show ?thesis by fastforce
qed

text \<open>A pop in progress ends by returning a value.\<close>

lemma pop_in_progress_runs:
  assumes ok: "ebc_ok N (Running s)" and c: "cons s \<noteq> ConsIdle" and pop: "\<And>t. cons s \<noteq> ConsRead t True"
  shows "\<exists>v s'. runs (pop_acc False) (Running s) (Some v) (Running s') \<and> cons s' = ConsIdle \<and> pops s' = Suc (pops s)"
proof (cases "cons s")
  case (ConsRead t keep)
  with pop have c: "cons s = ConsRead t False" by (cases keep) auto
  obtain s1 where s1: "ebc_pop False None s (Running s1)" "pops s1 = pops s"
    "cons s1 = ConsRelease t (sent s ! pops s)" using pop_read_access [OF ok c] by auto
  with pop_release_runs [OF s1(3)] show ?thesis using ebc_runs(4) by metis
next
  case (ConsRelease t v)
  from pop_release_runs [OF this] show ?thesis by blast
qed (use c in auto)

lemma pop_runs:
  assumes ok: "ebc_ok N (Running s)" and idle: "cons s = ConsIdle" and more: "pops s < pushes s"
  shows "\<exists>v s'. runs (pop_acc False) (Running s) (Some v) (Running s') \<and> cons s' = ConsIdle \<and> pops s' = Suc (pops s)"
proof -
  have N: "N < 2 ^ 32" and inv: "ebc_cursors N s" using ok by (auto simp: ebc_ok_Running ebc_inv_defs)
  then have h: "head_view s \<le> pushes s" by (simp add: ebc_cursors_def)
  let ?t = "eb_tail (c_buf s)" and ?s1 = "s\<lparr>head_view := pushes s, cons := ConsRead (eb_tail (c_buf s)) False\<rparr>"
  have "?t \<noteq> of_nat (pushes s)" using ebc_emptiness [OF inv N h order_refl] more by simp
  from ebc_pop.pop_check [OF idle h order_refl this, of False]
  have s1: "pop_acc False None (Running s) (Running ?s1)" by simp
  have "ebc_ok N (Running ?s1)" by (rule ebc_ok_pop [OF ok]) (use s1 in simp)
  from pop_in_progress_runs [OF this] obtain v s' where
    "runs (pop_acc False) (Running ?s1) (Some v) (Running s')" "cons s' = ConsIdle" "pops s' = Suc (pops s)" by auto
  with runs.access [where acc = "pop_acc False", OF s1] show ?thesis by blast
qed

lemma pop_runs_alone: "runs (pop_acc keep) x r y \<Longrightarrow> consumer_alone\<^sup>*\<^sup>* x y"
  by (erule runs_steps) (auto simp: consumer_alone_def)

text \<open>Wherever it stands, the consumer can end its call.\<close>

lemma consumer_ends_call:
  assumes ok: "ebc_ok N (Running s)"
  shows "\<exists>s'. consumer_alone\<^sup>*\<^sup>* (Running s) (Running s') \<and> cons s' = ConsIdle"
proof (cases "cons s = ConsIdle")
  case busy: False
  show ?thesis
  proof (cases "\<exists>t. cons s = ConsRead t True")
    case True
    with pop_read_access [OF ok] obtain v s' where "pop_acc True (Some v) (Running s) (Running s')" "cons s' = ConsIdle"
      by fastforce
    then show ?thesis using consumer_alone_def r_into_rtranclp by metis
  next
    case False
    then have "\<And>t. cons s \<noteq> ConsRead t True" by simp
    from pop_in_progress_runs [OF ok busy this] show ?thesis by (auto intro: pop_runs_alone)
  qed
qed blast

text \<open>From an idle state the consumer pops until nothing published is left.\<close>

lemma consumer_drains:
  assumes "ebc_ok N (Running s)" and "cons s = ConsIdle"
  shows "\<exists>s'. consumer_alone\<^sup>*\<^sup>* (Running s) (Running s') \<and> cons s' = ConsIdle \<and> pops s' = pushes s'"
  using assms
proof (induction "pushes s - pops s" arbitrary: s)
  case 0
  then have "pops s = pushes s" by (simp add: ebc_ok_Running ebc_inv_defs)
  with 0 show ?case by auto
next
  case (Suc d)
  from Suc.hyps(2) have "pops s < pushes s" by simp
  from pop_runs [OF Suc.prems this] obtain s1 where
    s1: "consumer_alone\<^sup>*\<^sup>* (Running s) (Running s1)" "cons s1 = ConsIdle" "pops s1 = Suc (pops s)"
    by (auto dest: pop_runs_alone)
  then have "pushes s1 = pushes s" using consumer_alone_sent Suc.prems(1) by blast
  with Suc.hyps(2) s1(3) have "d = pushes s1 - pops s1" by simp
  from Suc.hyps(1) [OF this consumer_alone_ok [OF s1(1) Suc.prems(1)] s1(2)] obtain s2 where
    "consumer_alone\<^sup>*\<^sup>* (Running s1) (Running s2)" "cons s2 = ConsIdle" "pops s2 = pushes s2" by blast
  with s1(1) show ?case by (auto intro: rtranclp_trans)
qed

lemma consumer_gets_everything:
  assumes "reach (ebc_init N) ebc_step (Running s)" and "0 < N" "N < 2 ^ 32" and "N dvd 2 ^ 32 \<or> pushes s < 2 ^ 32"
  shows "\<exists>s'. consumer_alone\<^sup>*\<^sup>* (Running s) (Running s') \<and> cons s' = ConsIdle \<and> received s' = sent s"
proof -
  have ok: "ebc_ok N (Running s)" by (rule ebc_reach_ok [OF assms])
  obtain s1 where s1: "consumer_alone\<^sup>*\<^sup>* (Running s) (Running s1)" "cons s1 = ConsIdle"
    using consumer_ends_call [OF ok] by blast
  with consumer_drains [OF consumer_alone_ok [OF s1(1) ok] s1(2)] obtain s2 where
    s2: "consumer_alone\<^sup>*\<^sup>* (Running s) (Running s2)" "cons s2 = ConsIdle" "pops s2 = pushes s2"
    by (auto intro: rtranclp_trans)
  have "received s2 = sent s2"
    using consumer_alone_ok [OF s2(1) ok] s2(3) by (simp add: ebc_ok_Running ebc_inv_defs)
  then show ?thesis using s2 consumer_alone_sent [OF s2(1) ok] by auto
qed

section \<open>The producer\<close>

text \<open>
  A push that looks at the current tail is accepted whenever fewer than \<open>N\<close> values are in flight,
  whatever the consumer was doing when it stopped; a push that has passed its check is accepted anyway.
\<close>

lemma push_publish_runs:
  assumes "prod s = ProdPublish v h"
  shows "\<exists>s'. runs (push_acc v) (Running s) (Inr ()) (Running s') \<and> prod s' = ProdIdle \<and>
    sent s' = sent s @ [v] \<and> pushes s' = Suc (pushes s)"
  using ebc_runs(1) [OF ebc_push.push_publish [OF assms]] by fastforce

lemma push_write_runs:
  assumes ok: "ebc_ok N (Running s)" and pc: "prod s = ProdWrite v h"
  shows "\<exists>s'. runs (push_acc v) (Running s) (Inr ()) (Running s') \<and> prod s' = ProdIdle \<and>
    sent s' = sent s @ [v] \<and> pushes s' = Suc (pushes s)"
proof -
  have un: "unwrapped N s" and inv: "ebc_inv N s" and cur: "ebc_cursors N s" using ok by (auto simp: ebc_ok_Running ebc_inv_defs)
  then have cap: "eb_capacity (c_buf s) = N" and "0 < N" by (auto simp: ebc_inv_defs)
  let ?i = "eb_slot_index (eb_capacity (c_buf s)) h"
  let ?s1 = "s\<lparr>c_buf := (c_buf s)\<lparr>eb_slots := (eb_slots (c_buf s))[?i := Some v]\<rparr>, prod := ProdPublish v h\<rparr>"
  have "?i < length (eb_slots (c_buf s))"
    using \<open>0 < N\<close> cap by (simp add: eb_slot_index_def eb_capacity_def)
  then have wr: "slot_write (eb_slots (c_buf s)) ?i v = Some ((eb_slots (c_buf s))[?i := Some v])" by simp
  have "\<not> races (eb_capacity (c_buf s)) (pushes s) (tail_view s) (reads s)"
    using ebc_no_write_race [OF un cur pc] cap by simp
  from ebc_push.push_write [OF pc refl this wr] have s1: "push_acc v None (Running s) (Running ?s1)" by simp
  have "prod ?s1 = ProdPublish v h" by simp
  from push_publish_runs [OF this] obtain s' where "runs (push_acc v) (Running ?s1) (Inr ()) (Running s')"
    "prod s' = ProdIdle" "sent s' = sent s @ [v]" "pushes s' = Suc (pushes s)" by auto
  with runs.access [where acc = "push_acc v", OF s1] show ?thesis by blast
qed

lemma push_runs:
  assumes ok: "ebc_ok N (Running s)" and idle: "prod s = ProdIdle" and room: "pushes s < pops s + N"
  shows "\<exists>s'. runs (push_acc v) (Running s) (Inr ()) (Running s') \<and> prod s' = ProdIdle \<and>
    sent s' = sent s @ [v] \<and> pushes s' = Suc (pushes s)"
proof -
  have N: "N < 2 ^ 32" and inv: "ebc_cursors N s" using ok by (auto simp: ebc_ok_Running ebc_inv_defs)
  have t: "tail_view s \<le> pops s" and cap: "eb_capacity (c_buf s) = N" and "0 < N" using inv by (auto simp: ebc_cursors_def)
  let ?s1 = "s\<lparr>tail_view := pops s, prod := ProdWrite v (eb_head (c_buf s))\<rparr>"
  have "unat (eb_head (c_buf s) - of_nat (pops s)) < eb_capacity (c_buf s)"
    using ebc_fullness [OF inv N t order_refl] room cap \<open>0 < N\<close> by simp
  from ebc_push.push_check [OF idle t order_refl this]
  have s1: "push_acc v None (Running s) (Running ?s1)" by simp
  have "ebc_ok N (Running ?s1)"
    by (rule ebc_ok_push [OF ok]) (use s1 ok in \<open>auto simp: ebc_ok_Running unwrapped_def\<close>)
  from push_write_runs [OF this, of v] obtain s' where "runs (push_acc v) (Running ?s1) (Inr ()) (Running s')"
    "prod s' = ProdIdle" "sent s' = sent s @ [v]" "pushes s' = Suc (pushes s)" by auto
  with runs.access [where acc = "push_acc v", OF s1] show ?thesis by blast
qed

lemma producer_pushes_one:
  assumes reach: "reach (ebc_init N) ebc_step (Running s)" "0 < N" "N < 2 ^ 32" "N dvd 2 ^ 32 \<or> pushes s < 2 ^ 32"
    and idle: "prod s = ProdIdle" and room: "length (sent s) < length (received s) + N"
  shows "\<exists>s'. producer_alone\<^sup>*\<^sup>* (Running s) (Running s') \<and> prod s' = ProdIdle \<and> sent s' = sent s @ [v]"
proof -
  have ok: "ebc_ok N (Running s)" by (rule ebc_reach_ok [OF reach])
  then have "length (sent s) = pushes s" "length (received s) = pops s" by (auto simp: ebc_ok_Running ebc_inv_defs)
  with room have "pushes s < pops s + N" by simp
  from push_runs [OF ok idle this, of v] obtain s' where s': "runs (push_acc v) (Running s) (Inr ()) (Running s')"
    "prod s' = ProdIdle" "sent s' = sent s @ [v]" by blast
  have "producer_alone\<^sup>*\<^sup>* (Running s) (Running s')"
    by (rule runs_steps [OF s'(1)]) (auto simp: producer_alone_def)
  with s'(2,3) show ?thesis by blast
qed

end
