(* ===== verification/EventBuf_Wrap_Race.thy ===== *)
theory EventBuf_Wrap_Race
  imports EventBuf_Progress
begin

text \<open>
  What happens to the concurrent queue when its cursors wrap at a capacity \<open>N\<close> that does not divide \<open>2 ^ 32\<close>.
  The slot of a position is its 32-bit cursor modulo \<open>N\<close>, so with \<open>2 ^ 32 = m * N + r\<close> and \<open>0 < r < N\<close> the positions
  \<open>m * N\<close> and \<open>2 ^ 32\<close> both use slot \<open>0\<close> although only \<open>r\<close> values lie between them. An execution with at most \<open>r\<close>
  values in flight therefore reaches a write of a slot that the other endpoint is still reading.
\<close>

definition idle_at :: "nat \<Rightarrow> nat \<Rightarrow> nat \<Rightarrow> 'a ebc \<Rightarrow> bool" where
  "idle_at N n m s \<longleftrightarrow> reach (ebc_init N) ebc_step (Running s) \<and> prod s = ProdIdle \<and> cons s = ConsIdle \<and>
     pushes s = n \<and> pops s = m"

lemma reach_runs:
  "reach i ebc_step x \<Longrightarrow> runs (push_acc v) x r y \<Longrightarrow> reach i ebc_step y"
  "reach i ebc_step x \<Longrightarrow> runs (pop_acc keep) x r' y \<Longrightarrow> reach i ebc_step y"
  by (metis reach_rtranclp runs_steps acc_steps)+

lemma idle_start: "\<exists>s. idle_at N 0 0 s"
  unfolding idle_at_def by (rule exI, rule conjI, rule reach.start, unfold ebc_init_def, rule refl) simp

lemma idle_push:
  assumes s: "idle_at N n m (s :: 'a ebc)" and N: "0 < N" "N < 2 ^ 32" and room: "n < m + N" and n: "n < 2 ^ 32"
  shows "\<exists>s' :: 'a ebc. idle_at N (Suc n) m s'"
proof -
  have st: "reach (ebc_init N) ebc_step (Running s)" "prod s = ProdIdle" "cons s = ConsIdle" "pushes s = n" "pops s = m"
    using s by (simp_all add: idle_at_def)
  have ok: "ebc_ok N (Running s)" by (rule ebc_reach_ok [OF st(1) N]) (use n in \<open>simp add: st\<close>)
  from push_runs [OF ok st(2), of undefined] room st obtain s' where
    run: "runs (push_acc undefined) (Running s) (Inr ()) (Running s')" and s': "prod s' = ProdIdle" "pushes s' = Suc n" by auto
  with st runs_push_frame [OF run refl refl] reach_runs(1) [OF st(1) run] show ?thesis by (auto simp: idle_at_def)
qed

lemma idle_pop:
  assumes s: "idle_at N n m (s :: 'a ebc)" and N: "0 < N" "N < 2 ^ 32" and more: "m < n" and n: "n < 2 ^ 32"
  shows "\<exists>s' :: 'a ebc. idle_at N n (Suc m) s'"
proof -
  have st: "reach (ebc_init N) ebc_step (Running s)" "prod s = ProdIdle" "cons s = ConsIdle" "pushes s = n" "pops s = m"
    using s by (simp_all add: idle_at_def)
  have ok: "ebc_ok N (Running s)" by (rule ebc_reach_ok [OF st(1) N]) (use n in \<open>simp add: st\<close>)
  from pop_runs [OF ok st(3)] more st obtain v s' where
    run: "runs (pop_acc False) (Running s) (Some v) (Running s')" and s': "cons s' = ConsIdle" "pops s' = Suc m" by auto
  with st runs_pop_frame [OF run refl refl] reach_runs(2) [OF st(1) run] show ?thesis by (auto simp: idle_at_def)
qed

text \<open>Pushing and popping in turn, and then only pushing.\<close>

lemma idle_lockstep:
  assumes N: "0 < N" "N < 2 ^ 32"
  shows "k < 2 ^ 32 \<Longrightarrow> \<exists>s :: 'a ebc. idle_at N k k s"
proof (induction k)
  case 0
  show ?case by (rule idle_start)
next
  case (Suc k)
  then obtain s :: "'a ebc" where "idle_at N k k s" by auto
  from idle_push [OF this N] Suc.prems N(1) obtain t :: "'a ebc" where "idle_at N (Suc k) k t" by auto
  from idle_pop [OF this N] Suc.prems show ?case by simp
qed

lemma idle_ahead:
  assumes N: "0 < N" "N < 2 ^ 32" and s: "idle_at N k k (s :: 'a ebc)"
  shows "j \<le> N \<Longrightarrow> k + j \<le> 2 ^ 32 \<Longrightarrow> \<exists>s' :: 'a ebc. idle_at N (k + j) k s'"
proof (induction j)
  case 0
  show ?case using s by auto
next
  case (Suc j)
  then obtain s :: "'a ebc" where "idle_at N (k + j) k s" by auto
  from idle_push [OF this N] Suc.prems show ?case by simp
qed

text \<open>The consumer reads position \<open>m\<close>, and before it releases it the producer writes position \<open>2 ^ 32\<close>.\<close>

lemma race_at_wrap:
  assumes s: "idle_at N (2 ^ 32) m (s :: 'a ebc)" and N: "0 < N" "N < 2 ^ 32" and m: "m < 2 ^ 32" "2 ^ 32 < m + N" "m mod N = 0"
  shows "reach (ebc_init N) ebc_step (Undefined :: 'a ebc_state)"
proof -
  have st: "reach (ebc_init N) ebc_step (Running s)" "prod s = ProdIdle" "cons s = ConsIdle" "pushes s = 2 ^ 32" "pops s = m"
    using s by (simp_all add: idle_at_def)
  have cur: "ebc_cursors N s" by (rule ebc_reach_cursors [OF st(1) N])
  let ?s1 = "s\<lparr>head_view := pushes s, cons := ConsRead (eb_tail (c_buf s)) False\<rparr>"
  have h: "head_view s \<le> pushes s" using cur by (simp add: ebc_cursors_def)
  have "eb_tail (c_buf s) \<noteq> of_nat (pushes s)"
    using ebc_emptiness [OF cur N(2) h order_refl] st m by simp
  from ebc_pop.pop_check [OF st(3) h order_refl this, of False]
  have s1: "reach (ebc_init N) ebc_step (Running ?s1)" using st(1) by (blast intro: reach.move consume)
  have clean: "\<not> races (eb_capacity (c_buf ?s1)) (pops ?s1) (head_view ?s1) (writes ?s1)"
    by (simp add: races_def writes_def st)
  show ?thesis
  proof (cases "slot_read (eb_slots (c_buf ?s1)) (eb_slot_index (eb_capacity (c_buf ?s1)) (eb_tail (c_buf s)))")
    case None
    have "ebc_pop False None ?s1 Undefined" by (rule ebc_pop.pop_race [where t = "eb_tail (c_buf s)"]) (use None in simp_all)
    with s1 show ?thesis by (blast intro: reach.move consume)
  next
    case (Some v)
    let ?s2 = "?s1\<lparr>reads := max (reads ?s1) (Suc (pops ?s1)), cons := ConsRelease (eb_tail (c_buf s)) v\<rparr>"
    have "ebc_pop False None ?s1 (Running ?s2)"
      using ebc_pop.pop_read [OF _ clean Some, of False] by simp
    with s1 have s2: "reach (ebc_init N) ebc_step (Running ?s2)" by (blast intro: reach.move consume)
    have cur2: "ebc_cursors N ?s2" by (rule ebc_reach_cursors [OF s2 N])
    have t: "tail_view ?s2 \<le> m" using cur st by (simp add: ebc_cursors_def)
    have cap: "eb_capacity (c_buf s) = N" using cur by (simp add: ebc_cursors_def)
    let ?s3 = "?s2\<lparr>tail_view := m, prod := ProdWrite undefined (eb_head (c_buf s))\<rparr>"
    have "unat (eb_head (c_buf ?s2) - of_nat m) < eb_capacity (c_buf ?s2)"
      using ebc_fullness [OF cur2 N(2) t] st m cap by simp
    then have "ebc_push undefined None ?s2 (Running ?s3)"
      using ebc_push.push_check [of ?s2 m undefined] t st by simp
    with s2 have s3: "reach (ebc_init N) ebc_step (Running ?s3)" by (blast intro: reach.move produce)
    have "eb_slot_index N (of_nat m) = eb_slot_index N (of_nat (2 ^ 32))"
      using m(1,3) by (simp add: eb_slot_index_def unat_of_nat_u32)
    then have "races (eb_capacity (c_buf ?s3)) (pushes ?s3) (tail_view ?s3) (reads ?s3)"
      unfolding races_def using st cap by (intro exI [of _ m]) simp
    then have "ebc_push undefined None ?s3 Undefined"
      by (intro ebc_push.push_race [where i = "eb_slot_index (eb_capacity (c_buf ?s3)) (eb_head (c_buf s))"]) simp_all
    with s3 show ?thesis by (blast intro: reach.move produce)
  qed
qed

theorem ebc_wrap_race:
  assumes N: "0 < N" "N < 2 ^ 32" and nodiv: "\<not> N dvd 2 ^ 32"
  shows "reach (ebc_init N) ebc_step (Undefined :: 'a ebc_state)"
proof -
  define r m where "r = 2 ^ 32 mod N" and "m = 2 ^ 32 - 2 ^ 32 mod N"
  have r: "0 < r" "r < N" using N(1) nodiv by (auto simp: r_def dvd_eq_mod_eq_0 simp del: power_numeral)
  have le: "r \<le> 2 ^ 32" unfolding r_def by (rule mod_less_eq_dividend)
  have m: "m + r = 2 ^ 32" "m < 2 ^ 32" using r le by (simp_all add: m_def r_def)
  have "m mod N = 0" unfolding m_def by (metis minus_mod_eq_mult_div mod_mult_self1_is_0)
  moreover obtain s :: "'a ebc" where "idle_at N m m s" using idle_lockstep [OF N m(2)] by blast
  then obtain t :: "'a ebc" where "idle_at N (2 ^ 32) m t"
    using idle_ahead [OF N, of m s r] r m by auto
  ultimately show ?thesis using race_at_wrap [OF _ N m(2)] r m by simp
qed

end
