(* ===== verification/EventBuf_Threads.thy ===== *)
theory EventBuf_Threads
  imports EventBuf_Progress
begin

text \<open>
  The threaded tests of the queue as programs: a thread that pushes \<open>0, 1, ..., goal - 1\<close> and retries each
  rejected value, against one that pops until it has seen \<open>goal\<close> values and panics when a value is not the
  next one; and a thread that pushes a list of values, whatever the answers, against one that pops until the
  queue is empty and panics on a value it does not expect. \<open>yield_now\<close> has no effect on the shared state.
\<close>

datatype retry_pc = Pushing u32 u32 | Pushed

definition enter_pushing :: "u32 \<Rightarrow> u32 \<Rightarrow> retry_pc" where
  "enter_pushing goal i = (if i < goal then Pushing i i else Pushed)"

definition retrying_producer :: "u32 \<Rightarrow> (u32, u32 + unit, retry_pc) thread" where
  "retrying_producer goal = Thread
     (\<lambda>p. case p of Pushing i val \<Rightarrow> Some val | Pushed \<Rightarrow> None)
     (\<lambda>p result. case p of
        Pushing i val \<Rightarrow> (case result of Inl rejected \<Rightarrow> Pushing i rejected | Inr _ \<Rightarrow> enter_pushing goal (i + 1))
      | Pushed \<Rightarrow> Pushed)"

datatype count_pc = Popping u32 | Popped u32 | OutOfOrder

definition enter_popping :: "u32 \<Rightarrow> u32 \<Rightarrow> count_pc" where
  "enter_popping goal seen = (if seen < goal then Popping seen else Popped seen)"

definition counting_consumer :: "u32 \<Rightarrow> (bool, u32 option, count_pc) thread" where
  "counting_consumer goal = Thread
     (\<lambda>q. case q of Popping seen \<Rightarrow> Some False | _ \<Rightarrow> None)
     (\<lambda>q result. case q of
        Popping seen \<Rightarrow> (case result of
            None \<Rightarrow> q
          | Some val \<Rightarrow> if val = seen then enter_popping goal (seen + 1) else OutOfOrder)
      | _ \<Rightarrow> q)"

type_synonym fifo_state = "u32 ebc_state \<times> retry_pc \<times> count_pc"

definition fifo_init :: "nat \<Rightarrow> u32 \<Rightarrow> fifo_state \<Rightarrow> bool" where
  "fifo_init N goal x \<longleftrightarrow> ebc_init N (fst x) \<and> snd x = (enter_pushing goal 0, enter_popping goal 0)"

definition fifo_step :: "u32 \<Rightarrow> fifo_state \<Rightarrow> fifo_state \<Rightarrow> bool" where
  "fifo_step goal = duo_step push_acc pop_acc (retrying_producer goal) (counting_consumer goal)"

lemma thread_simps [simp]:
  "next_call (retrying_producer goal) (Pushing i val) = Some val"
  "next_call (retrying_producer goal) Pushed = None"
  "on_return (retrying_producer goal) (Pushing i val) (Inl rejected) = Pushing i rejected"
  "on_return (retrying_producer goal) (Pushing i val) (Inr u) = enter_pushing goal (i + 1)"
  "next_call (counting_consumer goal) (Popping seen) = Some False"
  "next_call (counting_consumer goal) (Popped seen) = None"
  "next_call (counting_consumer goal) OutOfOrder = None"
  "on_return (counting_consumer goal) (Popping seen) None = Popping seen"
  "on_return (counting_consumer goal) (Popping seen) (Some val) =
     (if val = seen then enter_popping goal (seen + 1) else OutOfOrder)"
  by (simp_all add: retrying_producer_def counting_consumer_def)

section \<open>The invariant of the two threads\<close>

text \<open>A push in progress is of the value the thread pushes; everything published is the numbers so far.\<close>

definition push_of :: "'a prod_pc \<Rightarrow> 'a \<Rightarrow> bool" where
  "push_of pc v \<longleftrightarrow> (\<forall>w h. pc = ProdWrite w h \<or> pc = ProdPublish w h \<longrightarrow> w = v)"

fun producer_at :: "u32 \<Rightarrow> u32 ebc \<Rightarrow> retry_pc \<Rightarrow> bool" where
  "producer_at goal s (Pushing i val) \<longleftrightarrow> i = of_nat (pushes s) \<and> val = i \<and> pushes s < unat goal \<and> push_of (prod s) val"
| "producer_at goal s Pushed \<longleftrightarrow> pushes s = unat goal \<and> prod s = ProdIdle"

fun consumer_at :: "u32 \<Rightarrow> u32 ebc \<Rightarrow> count_pc \<Rightarrow> bool" where
  "consumer_at goal s (Popping seen) \<longleftrightarrow> seen = of_nat (pops s) \<and> pops s < unat goal \<and> (\<forall>t. cons s \<noteq> ConsRead t True)"
| "consumer_at goal s (Popped seen) \<longleftrightarrow> seen = goal \<and> pops s = unat goal \<and> cons s = ConsIdle"
| "consumer_at goal s OutOfOrder \<longleftrightarrow> False"

definition fifo_inv :: "nat \<Rightarrow> u32 \<Rightarrow> u32 ebc_state \<Rightarrow> retry_pc \<Rightarrow> count_pc \<Rightarrow> bool" where
  "fifo_inv N goal x p q \<longleftrightarrow> (\<exists>s. x = Running s \<and> ebc_ok N x \<and> sent s = map of_nat [0..<pushes s] \<and>
     producer_at goal s p \<and> consumer_at goal s q)"

lemma below_goal:
  fixes goal :: u32
  assumes "k < unat goal"
  shows "of_nat (Suc k) < goal \<longleftrightarrow> Suc k < unat goal" and "of_nat (Suc k) = goal \<longleftrightarrow> Suc k = unat goal"
proof -
  have "Suc k < 2 ^ 32" using assms unsigned_less [of goal, where ?'a = nat] by simp
  then have "unat (of_nat (Suc k) :: u32) = Suc k" by (simp add: unat_of_nat_u32 del: of_nat_Suc power_numeral)
  then show "of_nat (Suc k) < goal \<longleftrightarrow> Suc k < unat goal" "of_nat (Suc k) = goal \<longleftrightarrow> Suc k = unat goal"
    by (auto simp: word_less_nat_alt word_unat_eq_iff simp del: of_nat_Suc)
qed

lemma producer_at_next:
  assumes "pushes s = Suc k" and "k < unat goal" and "prod s = ProdIdle"
  shows "producer_at goal s (enter_pushing goal (of_nat k + 1))"
proof -
  have "(of_nat k :: u32) + 1 = of_nat (Suc k)" by simp
  with assms below_goal [OF assms(2)] show ?thesis by (auto simp: enter_pushing_def push_of_def simp del: of_nat_Suc)
qed

lemma consumer_at_next:
  assumes "pops s = Suc k" and "k < unat goal" and "cons s = ConsIdle"
  shows "consumer_at goal s (enter_popping goal (of_nat k + 1))"
proof -
  have "(of_nat k :: u32) + 1 = of_nat (Suc k)" by simp
  with assms below_goal [OF assms(2)] show ?thesis by (auto simp: enter_popping_def simp del: of_nat_Suc)
qed

text \<open>What one access does to the counts, the values and the calls in progress.\<close>

lemma ebc_push_result:
  assumes "ebc_push v r s (Running s')" and "push_of (prod s) v"
  shows "r = None \<and> sent s' = sent s \<and> pushes s' = pushes s \<and> push_of (prod s') v \<or>
    r = Some (Inl v) \<and> sent s' = sent s \<and> pushes s' = pushes s \<and> prod s' = ProdIdle \<or>
    r = Some (Inr ()) \<and> sent s' = sent s @ [v] \<and> pushes s' = Suc (pushes s) \<and> prod s' = ProdIdle"
  using assms by cases (auto simp: push_of_def)

lemma ebc_pop_result:
  assumes inv: "ebc_inv N s" and "ebc_pop False r s (Running s')" and "\<And>t. cons s \<noteq> ConsRead t True"
  shows "r = None \<and> pops s' = pops s \<and> (\<forall>t. cons s' \<noteq> ConsRead t True) \<or>
    r = Some None \<and> pops s' = pops s \<and> cons s' = ConsIdle \<or>
    r = Some (Some (sent s ! pops s)) \<and> pops s' = Suc (pops s) \<and> pops s < length (sent s) \<and> cons s' = ConsIdle"
  using assms(2) by cases (use inv assms(3) in \<open>auto simp: ebc_inv_defs\<close>)

lemma producer_at_other:
  "prod s' = prod s \<Longrightarrow> pushes s' = pushes s \<Longrightarrow> producer_at goal s' p = producer_at goal s p"
  by (cases p) auto

lemma consumer_at_other:
  "cons s' = cons s \<Longrightarrow> pops s' = pops s \<Longrightarrow> consumer_at goal s' q = consumer_at goal s q"
  by (cases q) auto

lemma calls:
  "next_call (retrying_producer goal) p = Some v \<longleftrightarrow> (\<exists>i. p = Pushing i v)"
  "next_call (counting_consumer goal) q = Some keep \<longleftrightarrow> (\<exists>seen. q = Popping seen \<and> \<not> keep)"
  by (cases p; simp) (cases q; auto)

lemma fifo_inv_push:
  assumes inv: "fifo_inv N goal x p q" and call: "next_call (retrying_producer goal) p = Some v" and acc: "push_acc v r x y"
  shows "fifo_inv N goal y (after_access (retrying_producer goal) p r) q"
proof -
  from inv obtain s where s: "x = Running s" "ebc_ok N x" "sent s = map of_nat [0..<pushes s]"
    "producer_at goal s p" "consumer_at goal s q" by (auto simp: fifo_inv_def)
  from call obtain i where "p = Pushing i v" by (auto simp: calls)
  with s(4) have p: "p = Pushing v v" "v = of_nat (pushes s)" "pushes s < unat goal" "push_of (prod s) v"
    by auto
  have "unwrapped N s'" if "ebc_push v r s (Running s')" for s'
    using ebc_push_result [OF that p(4)] p(3) unsigned_less [of goal, where ?'a = nat] by (auto simp: unwrapped_def)
  then have ok: "ebc_ok N y" using acc s(1,2) by (auto intro: ebc_ok_push [of N s v r y])
  then obtain s' where y: "y = Running s'" by (cases y) (auto simp: ebc_ok_def)
  with acc s(1) have push: "ebc_push v r s (Running s')" by simp
  from ebc_push_frame [OF push] s(5) have cons: "consumer_at goal s' q" by (simp add: consumer_at_other [of s' s])
  from ebc_push_result [OF push p(4)] p s(3) have "sent s' = map of_nat [0..<pushes s'] \<and>
    producer_at goal s' (after_access (retrying_producer goal) p r)"
    by (elim disjE) (auto simp: push_of_def producer_at_next)
  with ok y cons show ?thesis by (auto simp: fifo_inv_def)
qed

lemma fifo_inv_pop:
  assumes inv: "fifo_inv N goal x p q" and call: "next_call (counting_consumer goal) q = Some keep" and acc: "pop_acc keep r x y"
  shows "fifo_inv N goal y p (after_access (counting_consumer goal) q r)"
proof -
  from inv obtain s where s: "x = Running s" "ebc_ok N x" "sent s = map of_nat [0..<pushes s]"
    "producer_at goal s p" "consumer_at goal s q" by (auto simp: fifo_inv_def)
  then have core: "ebc_inv N s" by (simp add: ebc_ok_Running)
  have ok: "ebc_ok N y" using acc s(1,2) by (auto intro: ebc_ok_pop)
  then obtain s' where y: "y = Running s'" by (cases y) (auto simp: ebc_ok_def)
  from call obtain seen where "q = Popping seen" "\<not> keep" by (auto simp: calls)
  with s(5) have q: "keep = False" "q = Popping (of_nat (pops s))" "pops s < unat goal" "\<forall>t. cons s \<noteq> ConsRead t True"
    by simp_all
  with acc s(1) y have pop: "ebc_pop False r s (Running s')" by simp
  from ebc_pop_frame [OF pop] s(3,4) have prod: "producer_at goal s' p" "sent s' = map of_nat [0..<pushes s']"
    by (simp_all add: producer_at_other [of s' s])
  from q(4) have "cons s \<noteq> ConsRead t True" for t by simp
  from ebc_pop_result [OF core pop this] q s(3) have "consumer_at goal s' (after_access (counting_consumer goal) q r)"
    by (elim disjE) (auto simp: consumer_at_next)
  with ok y prod show ?thesis by (auto simp: fifo_inv_def)
qed

lemma fifo_inv_init:
  assumes "0 < N" "N < 2 ^ 32" and "fifo_init N goal (x, p, q)"
  shows "fifo_inv N goal x p q"
proof -
  have "0 < goal \<or> goal = 0" by (cases "goal = 0") (auto simp: word_neq_0_conv)
  with assms ebc_ok_init [of N x] show ?thesis
    by (auto simp: fifo_inv_def fifo_init_def ebc_init_def enter_pushing_def enter_popping_def push_of_def unat_gt_0)
qed

text \<open>At any capacity: fewer than \<open>2 ^ 32\<close> values are pushed, so no cursor wraps.\<close>

interpretation fifo: duo_invariant "\<lambda>x. 0 < N \<and> N < 2 ^ 32 \<and> fifo_init N goal x" push_acc pop_acc
  "retrying_producer goal" "counting_consumer goal" "fifo_inv N goal" for N goal
  by unfold_locales (auto intro: fifo_inv_init fifo_inv_push fifo_inv_pop)

section \<open>What the test asserts\<close>

text \<open>
  At the end of the test every number was received once and in order, and the queue is empty. No schedule
  panics or races.
\<close>

lemma fifo_result:
  assumes "reach (fifo_init N goal) (fifo_step goal) (x, p, q)" and "0 < N" "N < 2 ^ 32"
  shows "\<exists>s. x = Running s \<and> q \<noteq> OutOfOrder \<and> received s = map of_nat [0..<pops s] \<and>
    (p = Pushed \<and> next_call (counting_consumer goal) q = None \<longrightarrow>
      q = Popped goal \<and> received s = map of_nat [0..<unat goal] \<and> eb_len (c_buf s) = 0)"
proof -
  from fifo.duo_reach_inv [of N goal x p q] assms obtain s where
    s: "x = Running s" "ebc_inv N s" "sent s = map of_nat [0..<pushes s]" "producer_at goal s p" "consumer_at goal s q"
    by (auto simp: fifo_inv_def ebc_ok_Running fifo_step_def)
  then have rec: "received s = map of_nat [0..<pops s]" "pops s \<le> pushes s"
    by (auto simp: ebc_inv_defs take_map min_def)
  moreover have "q = Popped goal \<and> pops s = unat goal \<and> eb_len (c_buf s) = 0"
    if "p = Pushed" "next_call (counting_consumer goal) q = None"
    using that s by (cases q) (auto simp: eb_len_count eb_count_def ebc_inv_defs)
  moreover have "q \<noteq> OutOfOrder" using s(5) by auto
  ultimately show ?thesis using s(1) by auto
qed

text \<open>From every reachable state some schedule ends both threads.\<close>

definition fifo_left :: "u32 \<Rightarrow> fifo_state \<Rightarrow> nat" where
  "fifo_left goal st = (case fst st of Running s \<Rightarrow> (unat goal - pushes s) + (unat goal - pops s) | Undefined \<Rightarrow> 0)"

definition fifo_final :: "u32 \<Rightarrow> fifo_state \<Rightarrow> bool" where
  "fifo_final goal st \<longleftrightarrow> snd st = (Pushed, Popped goal)"

lemma fifo_consumer_gains:
  assumes q: "q = Popping seen" and below: "pops s < unat goal" "pops s' = Suc (pops s)"
    and run: "runs (pop_acc False) (Running s) (Some v) (Running s')"
  shows "\<exists>st. (fifo_step goal)\<^sup>*\<^sup>* (Running s, p, q) st \<and> fifo_left goal st < fifo_left goal (Running s, p, q)"
proof -
  have "next_call (counting_consumer goal) q = Some False" using q by simp
  from runs_right [where right_acc = pop_acc, OF run this] below runs_pop_frame [OF run refl refl] show ?thesis
    by (force simp: fifo_step_def fifo_left_def)
qed

lemma fifo_producer_gains:
  assumes p: "p = Pushing i v" and below: "pushes s < unat goal" "pushes s' = Suc (pushes s)"
    and run: "runs (push_acc v) (Running s) (Inr ()) (Running s')"
  shows "\<exists>st. (fifo_step goal)\<^sup>*\<^sup>* (Running s, p, q) st \<and> fifo_left goal st < fifo_left goal (Running s, p, q)"
proof -
  have "next_call (retrying_producer goal) p = Some v" using p by simp
  from runs_left [where left_acc = push_acc, OF run this] below runs_push_frame [OF run refl refl] show ?thesis
    by (force simp: fifo_step_def fifo_left_def)
qed

lemma fifo_gains:
  assumes inv: "fifo_inv N goal x p q" and unfinished: "\<not> fifo_final goal (x, p, q)"
  shows "\<exists>st. (fifo_step goal)\<^sup>*\<^sup>* (x, p, q) st \<and> fifo_left goal st < fifo_left goal (x, p, q)"
proof -
  from inv obtain s where s: "x = Running s" "ebc_ok N (Running s)" "producer_at goal s p" "consumer_at goal s q"
    by (auto simp: fifo_inv_def)
  then have core: "0 < N" "pops s \<le> pushes s" "pushes s \<le> unat goal"
    by (cases p; auto simp: ebc_ok_Running ebc_inv_defs)+
  show ?thesis
  proof (cases "cons s = ConsIdle \<and> pops s = pushes s")
    case False
    then have "\<exists>seen. q = Popping seen"
      using s(3,4) core by (cases q) auto
    then obtain seen where q: "q = Popping seen" "pops s < unat goal" "\<And>t. cons s \<noteq> ConsRead t True"
      using s(4) by auto
    have "\<exists>v s'. runs (pop_acc False) (Running s) (Some v) (Running s') \<and> cons s' = ConsIdle \<and> pops s' = Suc (pops s)"
    proof (cases "cons s = ConsIdle")
      case True
      with False core have "pops s < pushes s" by simp
      then show ?thesis by (rule pop_runs [OF s(2) True])
    next
      case busy: False
      show ?thesis by (rule pop_in_progress_runs [OF s(2) busy q(3)])
    qed
    then show ?thesis using fifo_consumer_gains [OF q(1,2)] s(1) by blast
  next
    case True
    then have "p \<noteq> Pushed" using s(1,3,4) unfinished by (cases q) (auto simp: fifo_final_def)
    then obtain i v where p: "p = Pushing i v" "pushes s < unat goal" "push_of (prod s) v"
      using s(3) by (cases p) auto
    have "\<exists>s'. runs (push_acc v) (Running s) (Inr ()) (Running s') \<and> prod s' = ProdIdle \<and>
        sent s' = sent s @ [v] \<and> pushes s' = Suc (pushes s)"
    proof (cases "prod s")
      case ProdIdle
      with True core show ?thesis by (intro push_runs [OF s(2)]) auto
    next
      case (ProdWrite w h)
      with p(3) have "prod s = ProdWrite v h" by (auto simp: push_of_def)
      then show ?thesis by (rule push_write_runs [OF s(2)])
    next
      case (ProdPublish w h)
      with p(3) have "prod s = ProdPublish v h" by (auto simp: push_of_def)
      then show ?thesis by (rule push_publish_runs)
    qed
    then show ?thesis using fifo_producer_gains [OF p(1,2)] s(1) by blast
  qed
qed

lemma fifo_can_end:
  assumes "reach (fifo_init N goal) (fifo_step goal) st" and "0 < N" "N < 2 ^ 32"
  shows "\<exists>y. (fifo_step goal)\<^sup>*\<^sup>* st y \<and> fifo_final goal y"
proof (rule can_end [where I = "\<lambda>st. fifo_inv N goal (fst st) (fst (snd st)) (snd (snd st))" and left = "fifo_left goal"])
  show "fifo_inv N goal (fst st) (fst (snd st)) (snd (snd st))"
    using fifo.duo_reach_inv [of N goal] assms by (cases st) (simp add: fifo_step_def)
  show "fifo_inv N goal (fst y) (fst (snd y)) (snd (snd y))"
    if "fifo_inv N goal (fst x) (fst (snd x)) (snd (snd x))" "fifo_step goal x y" for x y
    using fifo.inv_step [of N goal x y] that by (cases x; cases y) (simp add: fifo_step_def)
  show "\<exists>y. (fifo_step goal)\<^sup>*\<^sup>* x y \<and> (fifo_final goal y \<or> fifo_left goal y < fifo_left goal x)"
    if "fifo_inv N goal (fst x) (fst (snd x)) (snd (snd x))" "\<not> fifo_final goal x" for x
    using fifo_gains [of N goal "fst x" "fst (snd x)" "snd (snd x)"] that by auto
qed

section \<open>Pushing a list, popping until empty\<close>

definition listing_producer :: "('a, 'a + unit, 'a list) thread" where
  "listing_producer = Thread (\<lambda>p. case p of [] \<Rightarrow> None | v # vs \<Rightarrow> Some v) (\<lambda>p result. tl p)"

datatype empty_pc = Emptying | Emptied | Unexpected

definition emptying_consumer :: "('a \<Rightarrow> bool) \<Rightarrow> (bool, 'a option, empty_pc) thread" where
  "emptying_consumer expected = Thread
     (\<lambda>q. if q = Emptying then Some False else None)
     (\<lambda>q result. case result of None \<Rightarrow> Emptied | Some val \<Rightarrow> if expected val then q else Unexpected)"

definition empty_init :: "nat \<Rightarrow> 'a list \<Rightarrow> 'a ebc_state \<times> 'a list \<times> empty_pc \<Rightarrow> bool" where
  "empty_init N vs x \<longleftrightarrow> ebc_init N (fst x) \<and> snd x = (vs, Emptying)"

definition empty_step :: "('a \<Rightarrow> bool) \<Rightarrow> 'a ebc_state \<times> 'a list \<times> empty_pc \<Rightarrow> 'a ebc_state \<times> 'a list \<times> empty_pc \<Rightarrow> bool" where
  "empty_step expected = duo_step push_acc pop_acc listing_producer (emptying_consumer expected)"

text \<open>Only values of the list are ever published, each at most once, so a list shorter than \<open>2 ^ 32\<close> wraps no cursor.\<close>

definition empty_inv :: "nat \<Rightarrow> 'a list \<Rightarrow> 'a ebc_state \<Rightarrow> 'a list \<Rightarrow> empty_pc \<Rightarrow> bool" where
  "empty_inv N vs x p q \<longleftrightarrow> (\<exists>s. x = Running s \<and> ebc_ok N x \<and> set (sent s) \<union> set p \<subseteq> set vs \<and> q \<noteq> Unexpected \<and>
     pushes s + length p \<le> length vs \<and> length vs < 2 ^ 32 \<and> (\<forall>t. cons s \<noteq> ConsRead t True))"

lemma ebc_push_sends: "ebc_push v r s (Running s') \<Longrightarrow> set (sent s') \<subseteq> insert v (set (sent s)) \<and>
    pushes s' = pushes s + (if r = Some (Inr ()) then 1 else 0)"
  by (erule ebc_push.cases) auto

lemma empty_inv_push:
  assumes inv: "empty_inv N vs x p q" and call: "next_call listing_producer p = Some v" and acc: "push_acc v r x y"
  shows "empty_inv N vs y (after_access listing_producer p r) q"
proof -
  from inv obtain s where s: "x = Running s" "ebc_ok N x" "set (sent s) \<union> set p \<subseteq> set vs" "q \<noteq> Unexpected"
    "\<And>t. cons s \<noteq> ConsRead t True" and few: "pushes s + length p \<le> length vs" "length vs < 2 ^ 32" by (auto simp: empty_inv_def)
  from call obtain ps where p: "p = v # ps" by (cases p) (auto simp: listing_producer_def)
  have rest: "after_access listing_producer p r = (if r = None then p else ps)"
    by (cases r) (auto simp: p listing_producer_def)
  have "unwrapped N s'" if "ebc_push v r s (Running s')" for s'
    using ebc_push_sends [OF that] few by (auto simp: p unwrapped_def)
  then have ok: "ebc_ok N y" using acc s(1,2) by (auto intro: ebc_ok_push [of N s v r y])
  then obtain s' where y: "y = Running s'" by (cases y) (auto simp: ebc_ok_def)
  with acc s(1) have push: "ebc_push v r s (Running s')" by simp
  have "pushes s' + length (if r = None then p else ps) \<le> length vs"
    using ebc_push_sends [OF push] few by (auto simp: p)
  then show ?thesis unfolding rest
    using ok y s(3-5) p few ebc_push_sends [OF push] ebc_push_frame [OF push] by (auto simp: empty_inv_def)
qed

lemma empty_inv_pop:
  assumes inv: "empty_inv N vs x p q" and call: "next_call (emptying_consumer expected) q = Some keep"
    and acc: "pop_acc keep r x y" and all: "\<And>v. v \<in> set vs \<Longrightarrow> expected v"
  shows "empty_inv N vs y p (after_access (emptying_consumer expected) q r)"
proof -
  from inv obtain s where s: "x = Running s" "ebc_ok N x" "set (sent s) \<union> set p \<subseteq> set vs" "q \<noteq> Unexpected"
    "\<And>t. cons s \<noteq> ConsRead t True" and few: "pushes s + length p \<le> length vs" "length vs < 2 ^ 32" by (auto simp: empty_inv_def)
  then have core: "ebc_inv N s" by (simp add: ebc_ok_Running)
  have ok: "ebc_ok N y" using acc s(1,2) by (auto intro: ebc_ok_pop)
  then obtain s' where y: "y = Running s'" by (cases y) (auto simp: ebc_ok_def)
  from call have "\<not> keep" by (auto simp: emptying_consumer_def split: if_splits)
  with acc s(1) y have pop: "ebc_pop False r s (Running s')" by simp
  have "expected (sent s ! pops s)" if "pops s < length (sent s)"
    by (rule all) (use s(3) nth_mem [OF that] in blast)
  with ebc_pop_result [OF core pop s(5)] have
    "after_access (emptying_consumer expected) q r \<noteq> Unexpected \<and> (\<forall>t. cons s' \<noteq> ConsRead t True)"
    using s(4) by (elim disjE) (auto simp: emptying_consumer_def)
  then show ?thesis using ok y s(3) few ebc_pop_frame [OF pop] by (auto simp: empty_inv_def)
qed

interpretation emptying: duo_invariant "\<lambda>x. 0 < N \<and> N < 2 ^ 32 \<and> length vs < 2 ^ 32 \<and> empty_init N vs x" push_acc pop_acc listing_producer
  "emptying_consumer (\<lambda>v. v \<in> set vs \<or> more v)" "empty_inv N vs" for N vs more
proof
  show "empty_inv N vs x p q" if "0 < N \<and> N < 2 ^ 32 \<and> length vs < 2 ^ 32 \<and> empty_init N vs (x, p, q)" for x :: "'a ebc_state" and p q
    using that ebc_ok_init [of N x] by (auto simp: empty_inv_def empty_init_def ebc_init_def)
qed (auto intro: empty_inv_push empty_inv_pop)

lemma only_pushed_values:
  assumes "reach (empty_init N vs) (empty_step expected) (x, p, q)" and "\<And>v. v \<in> set vs \<Longrightarrow> expected v"
    and "0 < N" "N < 2 ^ 32" and "length vs < 2 ^ 32"
  shows "q \<noteq> Unexpected \<and> x \<noteq> Undefined"
proof -
  have "(\<lambda>v. v \<in> set vs \<or> expected v) = expected" using assms(2) by auto
  with emptying.duo_reach_inv [of N vs expected x p q] assms(1,3-5) show ?thesis
    by (auto simp: empty_step_def empty_inv_def)
qed

section \<open>Any two threads, and the length test\<close>

text \<open>Whatever two threads push and pop, the buffer goes through an execution of the concurrent model.\<close>

lemma threads_reach_core:
  assumes "\<And>s p q. init (s, p, q) \<Longrightarrow> ebc_init N s"
    and "reach init (duo_step push_acc pop_acc T U) (x, p, q)"
  shows "reach (ebc_init N) ebc_step x"
  using duo_reach_core [where core = id and step = ebc_step and cinit = "ebc_init N", OF _ _ _ assms(2)] assms(1)
  by (auto dest: acc_steps)

datatype flood_pc = FloodPush u32 | FloodStore | Flooded

definition enter_flood :: "u32 \<Rightarrow> u32 \<Rightarrow> flood_pc" where
  "enter_flood goal i = (if i < goal then FloodPush i else FloodStore)"

definition flooding_producer :: "u32 \<Rightarrow> (u32 flag_call, (u32 + unit) flag_result, flood_pc) thread" where
  "flooding_producer goal = Thread
     (\<lambda>p. case p of FloodPush i \<Rightarrow> Some (Work i) | FloodStore \<Rightarrow> Some Store_True | Flooded \<Rightarrow> None)
     (\<lambda>p result. case p of FloodPush i \<Rightarrow> enter_flood goal (i + 1) | _ \<Rightarrow> Flooded)"

datatype drain_pc = DrainLook | DrainPop | Drained

definition draining_consumer :: "(bool flag_call, u32 option flag_result, drain_pc) thread" where
  "draining_consumer = Thread
     (\<lambda>q. case q of DrainLook \<Rightarrow> Some Load_Flag | DrainPop \<Rightarrow> Some (Work False) | Drained \<Rightarrow> None)
     (\<lambda>q result. case q of
        DrainLook \<Rightarrow> (if result = Loaded True then Drained else DrainPop)
      | _ \<Rightarrow> DrainLook)"

type_synonym len_test_state = "(u32 ebc_state \<times> bool) \<times> flood_pc \<times> drain_pc"

definition len_test_init :: "nat \<Rightarrow> u32 \<Rightarrow> len_test_state \<Rightarrow> bool" where
  "len_test_init N goal x \<longleftrightarrow> ebc_init N (fst (fst x)) \<and> \<not> snd (fst x) \<and> snd x = (enter_flood goal 0, DrainLook)"

definition len_test_step :: "u32 \<Rightarrow> len_test_state \<Rightarrow> len_test_state \<Rightarrow> bool" where
  "len_test_step goal = duo_step (flagged push_acc id) (flagged pop_acc id) (flooding_producer goal) draining_consumer"

lemma len_test_core:
  assumes "reach (len_test_init N goal) (len_test_step goal) ((x, f), p, q)"
  shows "reach (ebc_init N) ebc_step x"
proof -
  have left: "flagged push_acc id c r s s' \<Longrightarrow> fst s' = fst s \<or> ebc_step (fst s) (fst s')"
    for c :: "u32 flag_call" and r s s' by (cases c) (auto simp: flagged_simps dest: acc_steps)
  have right: "flagged pop_acc id c r s s' \<Longrightarrow> fst s' = fst s \<or> ebc_step (fst s) (fst s')"
    for c and r :: "u32 option flag_result option" and s s' by (cases c) (auto simp: flagged_simps dest: acc_steps)
  have init: "len_test_init N goal (s, p, q) \<Longrightarrow> ebc_init N (fst s)" for s p q by (simp add: len_test_init_def)
  from duo_reach_core [where core = fst and step = ebc_step and cinit = "ebc_init N", OF left right init assms [unfolded len_test_step_def]]
  show ?thesis by simp
qed

text \<open>Every length the third thread can compute while the other two run is within the capacity.\<close>

lemma len_test_holds:
  assumes "reach (len_test_init N goal) (len_test_step goal) ((Running s, f), p, q)" and "0 < N" "N < 2 ^ 32"
    and "\<forall>(t1, h, t2) \<in> set samples. len_sample s t1 h t2 \<and> t2 - t1 < 2 ^ 32"
  shows "eb_len_samples N (map (\<lambda>(t1, h, t2). (of_nat t1, of_nat h, of_nat t2)) samples) fallback \<le> N"
  using ebc_len_bound [OF len_test_core [OF assms(1)] assms(2-4)] .

end
