(* ===== verification/SeqRing_Conc.thy ===== *)
theory SeqRing_Conc
  imports SeqRing_History Transition
begin

text \<open>
  The seqlock of \<open>SeqRing\<close>: \<open>read_seq_inner\<close> running against \<open>push_inner\<close>, one memory access per
  step. A payload is \<open>W\<close> machine words that are written and copied one at a time, so a copy can be torn.

  Push \<open>m\<close> (from 1) stores to its slot's number twice: 0 at time \<open>2 * m\<close>, and \<open>seq_at m\<close> at time
  \<open>2 * m + 1\<close>; the slot's number is 0 at time 0. A load may return any store to the slot that is not
  older than what the reader must have seen:
  \<^item> the Acquire load of \<open>seq_at m\<close> makes the payload words of push \<open>m\<close> visible, so the copy reads
    words of push \<open>m\<close> or of a later push to the slot, each word on its own;
  \<^item> the producer's Release fence puts the store of 0 at time \<open>2 * q\<close> before the words of push \<open>q\<close>, so
    a reader that saw one of them and passes its Acquire fence reads a number no older than that 0.
  \<^item> the Acquire load of \<open>published_seq\<close> that returned the number of push \<open>p\<close> makes everything up to
    that push visible, so a later load of a slot's number returns no store older than its last push up to \<open>p\<close>.

  What the reader saw in earlier reads of the same slot only narrows these choices and is left out.
\<close>

datatype push_pc = PushIdle | PushInvalidate | PushWrite nat | PushAnnounce

text \<open>The reader: number wanted, the push \<open>m\<close> it loaded the number of, the words and their pushes so far.\<close>

datatype 'w read_pc = ReadIdle | ReadCopy u32 nat "(nat \<times> 'w) list"

text \<open>\<open>n_done\<close> pushes have stored their slot's number, \<open>n_pub\<close> have also stored \<open>published_seq\<close>.\<close>

record 'w sqc =
  vals :: "'w list list"
  n_done :: nat
  n_pub :: nat
  ppc :: push_pc
  rpc :: "'w read_pc"
  delivered :: "(u32 \<times> 'w list \<times> nat \<times> nat) list"

text \<open>The number stored at a time, and the stores there have been.\<close>

definition number_at :: "nat \<Rightarrow> u32" where
  "number_at t = (if odd t then seq_at (t div 2) else 0)"

definition stored :: "'w sqc \<Rightarrow> nat \<Rightarrow> bool" where
  "stored s t \<longleftrightarrow> t = 0 \<or> 2 \<le> t \<and> (t \<le> 2 * n_done s + 1 \<or>
     t = 2 * n_done s + 2 \<and> (\<exists>j. ppc s = PushWrite j))"

definition written :: "'w sqc \<Rightarrow> nat \<Rightarrow> nat \<Rightarrow> bool" where
  "written s q j \<longleftrightarrow> 0 < q \<and> (q \<le> n_done s \<or> q = Suc (n_done s) \<and> (\<exists>k. ppc s = PushWrite k \<and> j < k))"

text \<open>The store of time \<open>t\<close> to slot \<open>i\<close> may be loaded by a reader that has seen the first \<open>p\<close> pushes.\<close>

definition loadable :: "nat \<Rightarrow> 'w sqc \<Rightarrow> nat \<Rightarrow> usize \<Rightarrow> nat \<Rightarrow> bool" where
  "loadable N s p i t \<longleftrightarrow> stored s t \<and> (t = 0 \<or> sr_slot_of N (t div 2) = i) \<and>
     (\<forall>q. 0 < q \<and> q \<le> p \<and> sr_slot_of N q = i \<longrightarrow> 2 * q + 1 \<le> t)"

text \<open>The producer: the accesses of \<open>push_inner\<close>.\<close>

inductive push_step :: "nat \<Rightarrow> 'w sqc \<Rightarrow> 'w sqc \<Rightarrow> bool" for W where
  push_begin: "ppc s = PushIdle \<Longrightarrow> length v = W \<Longrightarrow>
    push_step W s (s\<lparr>vals := vals s @ [v], ppc := PushInvalidate\<rparr>)"
| push_invalidate: "ppc s = PushInvalidate \<Longrightarrow> push_step W s (s\<lparr>ppc := PushWrite 0\<rparr>)"
| push_word: "ppc s = PushWrite j \<Longrightarrow> j < W \<Longrightarrow> push_step W s (s\<lparr>ppc := PushWrite (Suc j)\<rparr>)"
| push_number: "ppc s = PushWrite W \<Longrightarrow>
    push_step W s (s\<lparr>n_done := Suc (n_done s), ppc := PushAnnounce\<rparr>)"
| push_publish: "ppc s = PushAnnounce \<Longrightarrow> push_step W s (s\<lparr>n_pub := n_done s, ppc := PushIdle\<rparr>)"

text \<open>
  The reader: the accesses of \<open>read_seq_inner w\<close> by a consumer that has seen the first \<open>p\<close> pushes.
  The result is \<open>None\<close> while the call runs, and then \<open>Some\<close> of what it returns.
\<close>

inductive read_step :: "nat \<Rightarrow> nat \<Rightarrow> nat \<Rightarrow> u32 \<Rightarrow> 'w list option option \<Rightarrow> 'w sqc \<Rightarrow> 'w sqc \<Rightarrow> bool"
  for N W p w where
  read_other: "rpc s = ReadIdle \<Longrightarrow> loadable N s p (sr_idx_for N w) t \<Longrightarrow> number_at t \<noteq> w \<Longrightarrow>
    read_step N W p w (Some None) s s"
| read_first: "rpc s = ReadIdle \<Longrightarrow> w \<noteq> 0 \<Longrightarrow> loadable N s p (sr_idx_for N w) t \<Longrightarrow> number_at t = w \<Longrightarrow>
    read_step N W p w None s (s\<lparr>rpc := ReadCopy w (t div 2) []\<rparr>)"
| read_word: "rpc s = ReadCopy w m cs \<Longrightarrow> length cs < W \<Longrightarrow> written s q (length cs) \<Longrightarrow>
    m \<le> q \<Longrightarrow> sr_slot_of N q = sr_idx_for N w \<Longrightarrow>
    read_step N W p w None s (s\<lparr>rpc := ReadCopy w m (cs @ [(q, vals s ! (q - 1) ! length cs)])\<rparr>)"
| read_reject: "rpc s = ReadCopy w m cs \<Longrightarrow> length cs = W \<Longrightarrow> loadable N s p (sr_idx_for N w) t \<Longrightarrow>
    2 * m + 1 \<le> t \<Longrightarrow> \<forall>(q, x) \<in> set cs. 2 * q \<le> t \<Longrightarrow>
    number_at t \<noteq> w \<Longrightarrow> read_step N W p w (Some None) s (s\<lparr>rpc := ReadIdle\<rparr>)"
| read_accept: "rpc s = ReadCopy w m cs \<Longrightarrow> length cs = W \<Longrightarrow> loadable N s p (sr_idx_for N w) t \<Longrightarrow>
    2 * m + 1 \<le> t \<Longrightarrow> \<forall>(q, x) \<in> set cs. 2 * q \<le> t \<Longrightarrow>
    number_at t = w \<Longrightarrow>
    read_step N W p w (Some (Some (map snd cs))) s
      (s\<lparr>rpc := ReadIdle, delivered := delivered s @ [(w, map snd cs, m, length (vals s))]\<rparr>)"

text \<open>One access of either side; the reader may ask for any number, having seen any published push.\<close>

inductive sqc_step :: "nat \<Rightarrow> nat \<Rightarrow> 'w sqc \<Rightarrow> 'w sqc \<Rightarrow> bool" for N W where
  produce: "push_step W s s' \<Longrightarrow> sqc_step N W s s'"
| consume: "p \<le> n_pub s \<Longrightarrow> read_step N W p w r s s' \<Longrightarrow> sqc_step N W s s'"

inductive_cases push_stepE: "push_step W s s'"
inductive_cases read_stepE: "read_step N W p w r s s'"

definition sqc_init :: "'w sqc \<Rightarrow> bool" where
  "sqc_init s \<longleftrightarrow> s = \<lparr>vals = [], n_done = 0, n_pub = 0, ppc = PushIdle, rpc = ReadIdle, delivered = []\<rparr>"

section \<open>The invariant\<close>

definition delivered_ok :: "'w list list \<Rightarrow> u32 \<times> 'w list \<times> nat \<times> nat \<Rightarrow> bool" where
  "delivered_ok vs d \<longleftrightarrow> (case d of (w, v, m, k) \<Rightarrow> 0 < m \<and> m \<le> k \<and> k \<le> length vs \<and> seq_at m = w \<and>
     (k - m < SPAN \<longrightarrow> v = vs ! (m - 1)))"

fun read_ok :: "'w sqc \<Rightarrow> 'w read_pc \<Rightarrow> bool" where
  "read_ok s ReadIdle = True"
| "read_ok s (ReadCopy w m cs) = (w = seq_at m \<and> 0 < m \<and> m \<le> n_done s \<and>
     (\<forall>j < length cs. m \<le> fst (cs ! j) \<and> fst (cs ! j) \<le> length (vals s) \<and>
        snd (cs ! j) = vals s ! (fst (cs ! j) - 1) ! j))"

definition sqc_inv :: "nat \<Rightarrow> 'w sqc \<Rightarrow> bool" where
  "sqc_inv W s \<longleftrightarrow> length (vals s) = n_done s + (if ppc s = PushIdle \<or> ppc s = PushAnnounce then 0 else 1) \<and>
     n_pub s \<le> n_done s \<and>
     (\<forall>v \<in> set (vals s). length v = W) \<and>
     read_ok s (rpc s) \<and> (\<forall>d \<in> set (delivered s). delivered_ok (vals s) d)"

lemma delivered_ok_append: "delivered_ok vs d \<Longrightarrow> delivered_ok (vs @ [v]) d"
  by (auto simp: delivered_ok_def nth_append split: prod.splits)

lemma number_at_nonzero:
  assumes "stored s t" and "number_at t = w" and "w \<noteq> 0"
  shows "odd t \<and> w = seq_at (t div 2) \<and> 0 < t div 2 \<and> t div 2 \<le> n_done s"
proof -
  have odd: "odd t" and w: "w = seq_at (t div 2)" using assms(2,3) by (auto simp: number_at_def split: if_splits)
  moreover have "t div 2 \<noteq> 0" using w assms(3) by auto
  moreover have "t \<le> 2 * n_done s + 1" using assms(1) odd by (auto simp: stored_def)
  then have "t div 2 \<le> n_done s" by linarith
  ultimately show ?thesis by simp
qed

text \<open>
  The heart of the seqlock: if the re-check passes, every word copied belongs to the push whose number
  the first load returned, unless a whole span of pushes went by.
\<close>

lemma recheck_untorn:
  assumes read: "read_ok s (ReadCopy w m cs)" and le: "n_done s \<le> length (vals s)"
    and t: "stored s t" "2 * m + 1 \<le> t" "\<forall>(q, x) \<in> set cs. 2 * q \<le> t" "number_at t = w"
    and near: "length (vals s) - m < SPAN" and j: "j < length cs"
  shows "fst (cs ! j) = m"
proof -
  have w: "w = seq_at m" "0 < m" and q: "m \<le> fst (cs ! j)" using read j by simp_all
  then have w0: "w \<noteq> 0" by simp
  define r where "r = t div 2"
  have r: "odd t" "w = seq_at r" "r \<le> n_done s"
    using number_at_nonzero [OF t(1,4) w0] by (simp_all add: r_def)
  have "m \<le> r" using t(2) r(1) by (auto simp: r_def elim!: oddE)
  moreover have "r - m < SPAN" using near r(3) le by linarith
  ultimately have "m = r" using seq_at_inj_near [of m r] w r(2) by simp
  moreover have "2 * fst (cs ! j) \<le> t" using t(3) nth_mem [OF j] by (metis (mono_tags, lifting) case_prod_unfold)
  then have "fst (cs ! j) \<le> r" by (simp add: r_def)
  ultimately show ?thesis using q by simp
qed

lemma sqc_inv_push:
  assumes inv: "sqc_inv W s" and step: "push_step W s s'"
  shows "sqc_inv W s'"
  using step
proof cases
  case (push_begin v)
  have "read_ok (s\<lparr>vals := vals s @ [v], ppc := PushInvalidate\<rparr>) (rpc s)"
    using inv by (cases "rpc s") (force simp: sqc_inv_def nth_append)+
  then show ?thesis using inv push_begin by (auto simp: sqc_inv_def delivered_ok_append)
next
  case push_invalidate
  have "read_ok (s\<lparr>ppc := PushWrite 0\<rparr>) (rpc s)" using inv by (cases "rpc s") (auto simp: sqc_inv_def)
  then show ?thesis using inv push_invalidate by (auto simp: sqc_inv_def)
next
  case (push_word j)
  have "read_ok (s\<lparr>ppc := PushWrite (Suc j)\<rparr>) (rpc s)" using inv by (cases "rpc s") (auto simp: sqc_inv_def)
  then show ?thesis using inv push_word by (auto simp: sqc_inv_def)
next
  case push_number
  have "read_ok (s\<lparr>n_done := Suc (n_done s), ppc := PushAnnounce\<rparr>) (rpc s)"
    using inv by (cases "rpc s") (auto simp: sqc_inv_def)
  then show ?thesis using inv push_number by (auto simp: sqc_inv_def)
next
  case push_publish
  have "read_ok (s\<lparr>n_pub := n_done s, ppc := PushIdle\<rparr>) (rpc s)"
    using inv by (cases "rpc s") (auto simp: sqc_inv_def)
  then show ?thesis using inv push_publish by (auto simp: sqc_inv_def)
qed

lemma sqc_inv_read:
  assumes inv: "sqc_inv W s" and step: "read_step N W p w r s s'"
  shows "sqc_inv W s'"
proof -
  have le: "n_done s \<le> length (vals s)" using inv by (simp add: sqc_inv_def)
  from step show ?thesis
  proof cases
    case (read_other t)
    then show ?thesis using inv by simp
  next
    case (read_first t)
    then show ?thesis using inv number_at_nonzero [of s t w] by (simp add: sqc_inv_def loadable_def)
  next
    case (read_word m cs q)
    have "q \<le> length (vals s)" using inv read_word(5) by (auto simp: written_def sqc_inv_def)
    then have "read_ok (s\<lparr>rpc := ReadCopy w m (cs @ [(q, vals s ! (q - 1) ! length cs)])\<rparr>)
        (ReadCopy w m (cs @ [(q, vals s ! (q - 1) ! length cs)]))"
      using inv read_word by (auto simp: sqc_inv_def nth_append less_Suc_eq)
    then show ?thesis using inv read_word by (simp add: sqc_inv_def)
  next
    case (read_reject m cs t)
    then show ?thesis using inv by (simp add: sqc_inv_def)
  next
    case (read_accept m cs t)
    have read: "read_ok s (ReadCopy w m cs)" using inv read_accept(3) unfolding sqc_inv_def by metis
    have t: "stored s t" using read_accept(5) by (simp add: loadable_def)
    have "map snd cs = vals s ! (m - 1)" if "length (vals s) - m < SPAN"
    proof (rule nth_equalityI)
      have "m - 1 < length (vals s)" using read le by (simp, linarith)
      then show len: "length (map snd cs) = length (vals s ! (m - 1))"
        using inv read_accept(4) by (auto simp: sqc_inv_def)
      fix j assume "j < length (map snd cs)"
      then have j: "j < length cs" by simp
      have "fst (cs ! j) = m" by (rule recheck_untorn [OF read le t read_accept(6,7,8) that j])
      then show "map snd cs ! j = vals s ! (m - 1) ! j" using read j by simp
    qed
    then have "delivered_ok (vals s) (w, map snd cs, m, length (vals s))"
      using read le by (simp add: delivered_ok_def)
    then show ?thesis using inv read_accept by (auto simp: sqc_inv_def)
  qed
qed

interpretation sqc: inductive_invariant sqc_init "sqc_step N W" "sqc_inv W" for N W
proof
  show "sqc_inv W s" if "sqc_init s" for s :: "'w sqc" using that by (simp add: sqc_init_def sqc_inv_def)
  show "sqc_inv W s'" if "sqc_inv W s" "sqc_step N W s s'" for s s' :: "'w sqc"
    using that(2) by cases (auto intro: sqc_inv_push [OF that(1)] sqc_inv_read [OF that(1)])
qed

text \<open>
  A value that \<open>read_seq_inner\<close> returns under number \<open>w\<close> is the whole value of one push numbered \<open>w\<close>,
  if fewer than one span of pushes began between that push and the re-check.
\<close>

lemma sqc_reads_whole:
  assumes "reach sqc_init (sqc_step N W) s" and "(w, v, m, k) \<in> set (delivered s)" and "k - m < SPAN"
  shows "0 < m \<and> m \<le> k \<and> k \<le> length (vals s) \<and> seq_at m = w \<and> v = vals s ! (m - 1)"
  using sqc.reach_inv [OF assms(1)] assms(2,3) by (auto simp: sqc_inv_def delivered_ok_def)

section \<open>An execution\<close>

text \<open>The producer pushes one value of one word, and the consumer then reads it.\<close>

definition pushed_core :: "nat \<Rightarrow> nat \<Rightarrow> push_pc \<Rightarrow> bool sqc" where
  "pushed_core d p pc = \<lparr>vals = [[True]], n_done = d, n_pub = p, ppc = pc, rpc = ReadIdle, delivered = []\<rparr>"

definition fresh_core :: "'w sqc" where
  "fresh_core = \<lparr>vals = [], n_done = 0, n_pub = 0, ppc = PushIdle, rpc = ReadIdle, delivered = []\<rparr>"

definition one_push :: "bool sqc list" where
  "one_push = [fresh_core, pushed_core 0 0 PushInvalidate, pushed_core 0 0 (PushWrite 0),
     pushed_core 0 0 (PushWrite 1), pushed_core 1 0 PushAnnounce, pushed_core 1 1 PushIdle]"

abbreviation read_core :: "(nat \<times> bool) list \<Rightarrow> bool sqc" where
  "read_core cs \<equiv> (pushed_core 1 1 PushIdle)\<lparr>rpc := ReadCopy 1 1 cs\<rparr>"

abbreviation done_core :: "bool sqc" where
  "done_core \<equiv> (pushed_core 1 1 PushIdle)\<lparr>delivered := [(1, [True], 1, 1)]\<rparr>"

lemma one_push_steps: "successively (push_step 1) one_push"
  using push_step.push_begin [of fresh_core "[True]" 1] push_step.push_invalidate [of "pushed_core 0 0 PushInvalidate" 1]
    push_step.push_word [of "pushed_core 0 0 (PushWrite 0)" 0 1]
    push_step.push_number [of "pushed_core 0 0 (PushWrite 1)" 1]
    push_step.push_publish [of "pushed_core 1 0 PushAnnounce" 1]
  by (simp add: one_push_def fresh_core_def pushed_core_def)

lemma one_read_steps:
  assumes "p \<le> 1"
  shows "read_step 2 1 p 1 None (pushed_core 1 1 PushIdle) (read_core [])"
    and "read_step 2 1 p 1 None (read_core []) (read_core [(1, True)])"
    and "read_step 2 1 p 1 (Some (Some [True])) (read_core [(1, True)]) done_core"
proof -
  have slot: "sr_slot_of 2 1 = sr_idx_for 2 1" and seq: "seq_at 1 = 1"
    by (simp_all add: sr_slot_of_def seq_at_small SPAN_eq)
  have can: "loadable 2 s p (sr_idx_for 2 1) 3" if "n_done s = 1" for s :: "bool sqc"
    using slot that assms by (auto simp: loadable_def stored_def)
  show "read_step 2 1 p 1 None (pushed_core 1 1 PushIdle) (read_core [])"
    using read_step.read_first [of "pushed_core 1 1 PushIdle" 1 2 p 3 1] can [of "pushed_core 1 1 PushIdle"] seq
    by (simp add: number_at_def pushed_core_def)
  show "read_step 2 1 p 1 None (read_core []) (read_core [(1, True)])"
    using read_step.read_word [of "read_core []" 1 1 "[]" 1 1 2 p] slot
    by (simp add: written_def pushed_core_def)
  show "read_step 2 1 p 1 (Some (Some [True])) (read_core [(1, True)]) done_core"
    using read_step.read_accept [of "read_core [(1, True)]" 1 1 "[(1, True)]" 1 2 p 3] seq
      can [of "read_core [(1, True)]"] by (simp add: number_at_def pushed_core_def)
qed

lemma sqc_one_read: "reach sqc_init (sqc_step 2 1) done_core"
proof -
  have pushes: "successively (sqc_step 2 1) one_push"
    by (rule successively_mono [OF one_push_steps]) (rule sqc_step.produce)
  note reads = one_read_steps [of 0, simplified, THEN sqc_step.consume [rotated]]
  have "reach sqc_init (sqc_step 2 1) (last (fresh_core # tl one_push @
      [read_core [], read_core [(1, True)], done_core]))"
    by (rule reach_path) (use pushes reads in \<open>simp_all add: one_push_def sqc_init_def fresh_core_def\<close>)
  then show ?thesis by simp
qed

end
