(* ===== verification/SeqRing_Conc_Poll.thy ===== *)
theory SeqRing_Conc_Poll
  imports SeqRing_Conc SeqRing_Poll
begin

text \<open>
  \<open>poll_up_to\<close> and \<open>latest\<close> while the producer pushes, one memory access per step: the model of theory
  \<open>SeqRing_Conc\<close> with the consumer's handle and its loops around \<open>read_seq_inner\<close>. The load of
  \<open>published_seq\<close> may return any number not older than the one the consumer saw last.

  Ghost state: \<open>sp_seen\<close>, the push that load returned the number of; \<open>sp_at\<close>, how many numbers the cursor
  has passed; the totals \<open>sp_read\<close> and \<open>sp_dropped\<close> of what the polls returned; what was delivered, with
  its ordinal and the pushes begun by then; and \<open>sp_lapped\<close>, set when a poll finds the consumer a whole span
  or more behind, the limit that the documentation of the module states.
\<close>

datatype poll_pc =
    PollIdle
  | PollRun usize u32 usize usize
  | LatestRun u32

record 'w spc =
  sp_core :: "'w sqc"
  sp_con :: sr_consumer
  sp_pc :: poll_pc
  sp_seen :: nat
  sp_at :: nat
  sp_read :: nat
  sp_dropped :: nat
  sp_log :: "(nat \<times> 'w list \<times> nat) list"
  sp_latest :: "(nat \<times> 'w list \<times> nat) list"
  sp_lapped :: bool

text \<open>The lag-recovery jump: what it counts as dropped, and where the cursor resumes.\<close>

definition poll_jump :: "usize \<Rightarrow> nat \<Rightarrow> u32 \<Rightarrow> u32 \<Rightarrow> usize \<times> u32" where
  "poll_jump U N last_seq newest =
     (let lag = unat (sr_seq_distance last_seq newest) in
      if N < lag then
        let keep_from = newest - of_nat (N - 1);
            resume_after = keep_from - 1;
            jumped = unat (sr_seq_distance last_seq resume_after)
        in (sat_add U 0 jumped, resume_after)
      else (0, last_seq))"

text \<open>
  One access of \<open>poll_up_to limit\<close>: \<open>None\<close> while the call runs, \<open>Hooked\<close> when it calls its closure, and \<open>Polled\<close>
  of what it returns.
\<close>

datatype 'w poll_event = Hooked u32 "'w list" | Polled poll_stats

inductive spc_poll :: "usize \<Rightarrow> nat \<Rightarrow> nat \<Rightarrow> usize \<Rightarrow> 'w poll_event option \<Rightarrow> 'w spc \<Rightarrow> 'w spc \<Rightarrow> bool"
  for U N W limit where
  poll_nothing: "sp_pc s = PollIdle \<Longrightarrow> sp_seen s \<le> p \<Longrightarrow> p \<le> n_pub (sp_core s) \<Longrightarrow>
    limit = 0 \<or> seq_at p = 0 \<or> seq_at p = sc_last_seq (sp_con s) \<Longrightarrow>
    spc_poll U N W limit (Some (Polled \<lparr>ps_read = 0, ps_dropped = 0, ps_newest = seq_at p\<rparr>)) s
      (s\<lparr>sp_seen := p, sp_lapped := sp_lapped s \<or> SPAN \<le> p - sp_at s\<rparr>)"
| poll_begin: "sp_pc s = PollIdle \<Longrightarrow> sp_seen s \<le> p \<Longrightarrow> p \<le> n_pub (sp_core s) \<Longrightarrow>
    0 < limit \<Longrightarrow> seq_at p \<noteq> 0 \<Longrightarrow> seq_at p \<noteq> sc_last_seq (sp_con s) \<Longrightarrow>
    poll_jump U N (sc_last_seq (sp_con s)) (seq_at p) = (dropped, resume_after) \<Longrightarrow>
    spc_poll U N W limit None s (s\<lparr>sp_con := (sp_con s)\<lparr>sc_last_seq := resume_after\<rparr>,
      sp_pc := PollRun limit (seq_at p) 0 dropped, sp_seen := p, sp_at := sp_at s + dropped,
      sp_lapped := sp_lapped s \<or> SPAN \<le> p - sp_at s\<rparr>)"
| poll_access: "sp_pc s = PollRun limit newest read dropped \<Longrightarrow> read < limit \<Longrightarrow>
    sc_last_seq (sp_con s) \<noteq> newest \<Longrightarrow>
    read_step N W (sp_seen s) (sr_next_after (sc_last_seq (sp_con s))) None (sp_core s) c \<Longrightarrow>
    spc_poll U N W limit None s (s\<lparr>sp_core := c\<rparr>)"
| poll_hit: "sp_pc s = PollRun limit newest read dropped \<Longrightarrow> read < limit \<Longrightarrow>
    sc_last_seq (sp_con s) \<noteq> newest \<Longrightarrow>
    read_step N W (sp_seen s) (sr_next_after (sc_last_seq (sp_con s))) (Some (Some v)) (sp_core s) c \<Longrightarrow>
    spc_poll U N W limit (Some (Hooked (sr_next_after (sc_last_seq (sp_con s))) v)) s (s\<lparr>sp_core := c,
      sp_con := (sp_con s)\<lparr>sc_last_seq := sr_next_after (sc_last_seq (sp_con s))\<rparr>,
      sp_pc := PollRun limit newest (read + 1) dropped, sp_at := sp_at s + 1,
      sp_log := sp_log s @ [(sp_at s + 1, v, length (vals c))]\<rparr>)"
| poll_miss: "sp_pc s = PollRun limit newest read dropped \<Longrightarrow> read < limit \<Longrightarrow>
    sc_last_seq (sp_con s) \<noteq> newest \<Longrightarrow>
    read_step N W (sp_seen s) (sr_next_after (sc_last_seq (sp_con s))) (Some None) (sp_core s) c \<Longrightarrow>
    spc_poll U N W limit None s (s\<lparr>sp_core := c,
      sp_con := (sp_con s)\<lparr>sc_last_seq := sr_next_after (sc_last_seq (sp_con s))\<rparr>,
      sp_pc := PollRun limit newest read (sat_add U dropped 1), sp_at := sp_at s + 1\<rparr>)"
| poll_return: "sp_pc s = PollRun limit newest read dropped \<Longrightarrow>
    \<not> (read < limit \<and> sc_last_seq (sp_con s) \<noteq> newest) \<Longrightarrow>
    spc_poll U N W limit (Some (Polled \<lparr>ps_read = read, ps_dropped = dropped, ps_newest = newest\<rparr>)) s (s\<lparr>
      sp_con := (sp_con s)\<lparr>sc_dropped_accum := sat_add U (sc_dropped_accum (sp_con s)) dropped\<rparr>,
      sp_pc := PollIdle, sp_read := sp_read s + read, sp_dropped := sp_dropped s + dropped\<rparr>)"

text \<open>One access of \<open>latest\<close>; it returns the number and the value its closure was called with, if it was.\<close>

inductive spc_latest :: "nat \<Rightarrow> nat \<Rightarrow> (u32 \<times> 'w list) option option \<Rightarrow> 'w spc \<Rightarrow> 'w spc \<Rightarrow> bool" for N W where
  latest_empty: "sp_pc s = PollIdle \<Longrightarrow> sp_seen s \<le> p \<Longrightarrow> p \<le> n_pub (sp_core s) \<Longrightarrow> seq_at p = 0 \<Longrightarrow>
    spc_latest N W (Some None) s (s\<lparr>sp_seen := p\<rparr>)"
| latest_begin: "sp_pc s = PollIdle \<Longrightarrow> sp_seen s \<le> p \<Longrightarrow> p \<le> n_pub (sp_core s) \<Longrightarrow> seq_at p \<noteq> 0 \<Longrightarrow>
    spc_latest N W None s (s\<lparr>sp_pc := LatestRun (seq_at p), sp_seen := p\<rparr>)"
| latest_access: "sp_pc s = LatestRun newest \<Longrightarrow> read_step N W (sp_seen s) newest None (sp_core s) c \<Longrightarrow>
    spc_latest N W None s (s\<lparr>sp_core := c\<rparr>)"
| latest_hit: "sp_pc s = LatestRun newest \<Longrightarrow>
    read_step N W (sp_seen s) newest (Some (Some v)) (sp_core s) c \<Longrightarrow>
    spc_latest N W (Some (Some (newest, v))) s (s\<lparr>sp_core := c, sp_pc := PollIdle,
      sp_latest := sp_latest s @ [(sp_seen s, v, length (vals c))]\<rparr>)"
| latest_miss: "sp_pc s = LatestRun newest \<Longrightarrow> read_step N W (sp_seen s) newest (Some None) (sp_core s) c \<Longrightarrow>
    spc_latest N W (Some None) s (s\<lparr>sp_core := c, sp_pc := PollIdle\<rparr>)"

inductive spc_step :: "usize \<Rightarrow> nat \<Rightarrow> nat \<Rightarrow> 'w spc \<Rightarrow> 'w spc \<Rightarrow> bool" for U N W where
  producer: "push_step W (sp_core s) c \<Longrightarrow> spc_step U N W s (s\<lparr>sp_core := c\<rparr>)"
| poll: "spc_poll U N W limit r s s' \<Longrightarrow> spc_step U N W s s'"
| latest: "spc_latest N W r s s' \<Longrightarrow> spc_step U N W s s'"

inductive_cases spc_pollE: "spc_poll U N W limit r s s'"
inductive_cases spc_latestE: "spc_latest N W r s s'"

definition spc_init :: "usize \<Rightarrow> nat \<Rightarrow> 'w spc \<Rightarrow> bool" where
  "spc_init U N s \<longleftrightarrow> 0 < N \<and> SPAN \<le> U \<and> (\<exists>c. sqc_init c \<and>
     s = \<lparr>sp_core = c, sp_con = \<lparr>sc_last_seq = 0, sc_dropped_accum = 0\<rparr>, sp_pc = PollIdle, sp_seen = 0,
       sp_at = 0, sp_read = 0, sp_dropped = 0, sp_log = [], sp_latest = [], sp_lapped = False\<rparr>)"

section \<open>The invariant\<close>

text \<open>What is delivered: the ordinal, the value and the number of pushes begun by then.\<close>

definition entry_ok :: "'w list list \<Rightarrow> nat \<Rightarrow> nat \<times> 'w list \<times> nat \<Rightarrow> bool" where
  "entry_ok vs n d \<longleftrightarrow> (case d of (m, v, k) \<Rightarrow> 0 < m \<and> m \<le> n \<and> m \<le> k \<and> k \<le> length vs \<and>
     (k - m < SPAN \<longrightarrow> v = vs ! (m - 1)))"

text \<open>A read in progress is for the number \<open>seq_at m\<close> and started from no older push than \<open>m\<close>.\<close>

definition reading :: "'w sqc \<Rightarrow> nat \<Rightarrow> bool" where
  "reading c m \<longleftrightarrow> rpc c = ReadIdle \<or> (\<exists>q cs. rpc c = ReadCopy (seq_at m) q cs \<and> m \<le> q)"

text \<open>The program counter against the read in progress, whatever the lag.\<close>

definition call_ok :: "'w spc \<Rightarrow> bool" where
  "call_ok s \<longleftrightarrow> (case sp_pc s of
       PollIdle \<Rightarrow> rpc (sp_core s) = ReadIdle
     | PollRun limit newest read dropped \<Rightarrow>
         rpc (sp_core s) \<noteq> ReadIdle \<longrightarrow> read < limit \<and> sc_last_seq (sp_con s) \<noteq> newest
     | LatestRun newest \<Rightarrow> newest = seq_at (sp_seen s) \<and> 0 < sp_seen s \<and> reading (sp_core s) (sp_seen s)) \<and>
     (\<forall>d \<in> set (sp_latest s). entry_ok (vals (sp_core s)) (sp_seen s) d)"

text \<open>A poll in progress, of a consumer that was not lapped.\<close>

definition run_ok :: "nat \<Rightarrow> 'w spc \<Rightarrow> usize \<Rightarrow> u32 \<Rightarrow> usize \<Rightarrow> usize \<Rightarrow> bool" where
  "run_ok N s limit newest read dropped \<longleftrightarrow>
     newest = seq_at (sp_seen s) \<and> 0 < sp_seen s \<and> sp_seen s - sp_at s \<le> N \<and>
     dropped + (sp_seen s - sp_at s) < SPAN \<and> read \<le> limit \<and>
     cursor_at (sp_at s) (sc_last_seq (sp_con s)) \<and>
     (sc_last_seq (sp_con s) = seq_at (sp_at s) \<or> sp_at s < sp_seen s \<and> read < limit) \<and>
     sp_read s + read + (sp_dropped s + dropped) = sp_at s \<and> length (sp_log s) = sp_read s + read \<and>
     reading (sp_core s) (Suc (sp_at s))"

definition at_rest :: "'w spc \<Rightarrow> bool" where
  "at_rest s \<longleftrightarrow> sc_last_seq (sp_con s) = seq_at (sp_at s) \<and>
     sp_read s + sp_dropped s = sp_at s \<and> length (sp_log s) = sp_read s"

definition poll_inv :: "usize \<Rightarrow> nat \<Rightarrow> 'w spc \<Rightarrow> bool" where
  "poll_inv U N s \<longleftrightarrow> sp_at s \<le> sp_seen s \<and>
     (case sp_pc s of PollRun limit newest read dropped \<Rightarrow> run_ok N s limit newest read dropped
      | _ \<Rightarrow> at_rest s) \<and>
     sc_dropped_accum (sp_con s) = min (sp_dropped s) U \<and> sorted_wrt (<) (map fst (sp_log s)) \<and>
     (\<forall>d \<in> set (sp_log s). entry_ok (vals (sp_core s)) (sp_at s) d)"

definition spc_inv :: "usize \<Rightarrow> nat \<Rightarrow> nat \<Rightarrow> 'w spc \<Rightarrow> bool" where
  "spc_inv U N W s \<longleftrightarrow> 0 < N \<and> SPAN \<le> U \<and> sqc_inv W (sp_core s) \<and> sp_seen s \<le> n_pub (sp_core s) \<and>
     call_ok s \<and> (\<not> sp_lapped s \<longrightarrow> poll_inv U N s)"

lemma entry_ok_mono:
  assumes "entry_ok vs n d" and "n \<le> n'"
  shows "entry_ok vs n' d"
  using assms by (auto simp: entry_ok_def)

lemma entry_ok_append: "entry_ok vs n d \<Longrightarrow> entry_ok (vs @ [v]) n d"
  by (auto simp: entry_ok_def nth_append split: prod.splits)

section \<open>A read, seen from its caller\<close>

text \<open>A read of the number of an ordinal the consumer has seen never starts from an older push.\<close>

lemma read_step_frame:
  assumes "read_step N W p w r c c'"
  shows "vals c' = vals c" and "n_pub c' = n_pub c" and "n_done c' = n_done c" and "ppc c' = ppc c"
    and "r \<noteq> None \<Longrightarrow> rpc c' = ReadIdle"
  using assms by (auto elim!: read_stepE)

lemma read_step_reading:
  assumes read: "reading c m" and m: "0 < m" "m \<le> p" and step: "read_step N W p (seq_at m) r c c'"
  shows "reading c' m"
  using step
proof cases
  case (read_first t)
  have "2 * m + 1 \<le> t" using read_first(5) m by (auto simp: loadable_def sr_slot_of_def)
  then have "m \<le> t div 2" by linarith
  with read_first show ?thesis by (simp add: reading_def)
qed (use read in \<open>auto simp: reading_def\<close>)

text \<open>What an accepted read returns is the value of its ordinal.\<close>

lemma read_step_value:
  assumes read: "reading c m" and m: "0 < m" and inv: "sqc_inv W c'"
    and step: "read_step N W p (seq_at m) (Some (Some v)) c c'"
  shows "entry_ok (vals c') m (m, v, length (vals c'))"
  using step
proof cases
  case (read_accept q cs t)
  then have mq: "m \<le> q" using read by (auto simp: reading_def)
  have "delivered_ok (vals c') (seq_at m, v, q, length (vals c'))"
    using inv read_accept by (auto simp: sqc_inv_def)
  then have q: "q \<le> length (vals c')" "seq_at q = seq_at m" "0 < q"
    and v: "length (vals c') - q < SPAN \<longrightarrow> v = vals c' ! (q - 1)"
    by (simp_all add: delivered_ok_def)
  have "q = m" if "length (vals c') - m < SPAN"
    using seq_at_inj_near [of m q] q mq m that by (simp, linarith)
  with q v mq m show ?thesis by (auto simp: entry_ok_def)
qed

section \<open>Where a poll starts\<close>

lemma poll_jump_window:
  assumes "0 < N" and "SPAN \<le> U" and "c < n" and "n - c < SPAN"
    and jump: "poll_jump U N (seq_at c) (seq_at n) = (dropped, l)"
  shows "c + dropped = sr_start N c n" and "cursor_at (c + dropped) l" and "c + dropped < n"
    and "n - (c + dropped) \<le> N"
proof -
  have lag: "unat (sr_seq_distance (seq_at c) (seq_at n)) = n - c"
    using assms(3,4) by (intro sr_seq.dist_seq_at) simp_all
  have "c + dropped = sr_start N c n \<and> cursor_at (c + dropped) l"
  proof (cases "N < n - c")
    case True
    have cur: "cursor_at (sr_resume N n) (seq_at n - of_nat (N - 1) - 1)"
      using True assms by (intro resume_cursor) linarith+
    have lt: "c < sr_resume N n" "sr_resume N n < n"
      using sr_resume_bounds [OF assms(1) True] sr_resume_less [OF assms(1), of n] True by simp_all
    have "unat (sr_seq_distance (seq_at c) (seq_at n - of_nat (N - 1) - 1)) = sr_resume N n - c"
      using lt assms(4) by (intro sr_seq.dist_cursors [OF cursor_at_seq_at cur]) linarith+
    moreover have "sr_resume N n - c \<le> U" using lt assms(2,4) by linarith
    ultimately have "dropped = sr_resume N n - c" "l = seq_at n - of_nat (N - 1) - 1"
      using jump True by (auto simp: poll_jump_def lag Let_def sat_add_def)
    with cur lt True show ?thesis by (simp add: sr_start_def)
  next
    case False
    with jump show ?thesis by (auto simp: poll_jump_def lag sr_start_def)
  qed
  with sr_start_bounds [OF assms(1,3)]
  show "c + dropped = sr_start N c n" "cursor_at (c + dropped) l" "c + dropped < n"
    "n - (c + dropped) \<le> N" by auto
qed

section \<open>Every step keeps it\<close>

text \<open>Inside a poll: the cursor is before the goal exactly when the loop goes on.\<close>

lemma run_ok_more:
  assumes run: "run_ok N s limit newest read dropped" and "sp_at s \<le> sp_seen s"
  shows "sc_last_seq (sp_con s) \<noteq> newest \<longleftrightarrow> sp_at s < sp_seen s"
proof -
  have run': "newest = seq_at (sp_seen s)" "0 < sp_seen s" "sp_seen s - sp_at s < SPAN"
    "cursor_at (sp_at s) (sc_last_seq (sp_con s))"
    "sc_last_seq (sp_con s) = seq_at (sp_at s) \<or> sp_at s < sp_seen s"
    using run unfolding run_ok_def by linarith+
  have "sp_at s = sp_seen s" if eq: "sc_last_seq (sp_con s) = newest"
  proof -
    have "sc_last_seq (sp_con s) \<noteq> 0" using eq run'(1,2) by simp
    then have "seq_at (sp_at s) = seq_at (sp_seen s)" using run'(1,4) eq by (simp add: cursor_at_def)
    moreover from this have "0 < sp_at s" using run'(2) by (metis gr0I seq_at_eq_0_iff)
    ultimately show ?thesis using assms(2) run'(3) by (intro seq_at_inj_near)
  qed
  moreover have "sc_last_seq (sp_con s) = newest" if "sp_at s = sp_seen s"
    using run'(1,5) that by simp
  ultimately show ?thesis using assms(2) by (metis le_neq_implies_less less_irrefl)
qed

lemma run_ok_next:
  assumes "run_ok N s limit newest read dropped"
  shows "sr_next_after (sc_last_seq (sp_con s)) = seq_at (Suc (sp_at s))"
  using assms sr_seq.nxt_cursor by (simp add: run_ok_def)

lemma spc_inv_producer:
  assumes inv: "spc_inv U N W s" and step: "push_step W (sp_core s) c"
  shows "spc_inv U N W (s\<lparr>sp_core := c\<rparr>)"
proof -
  have core: "sqc_inv W c" using inv step by (auto simp: spc_inv_def intro: sqc_inv_push)
  have le: "n_pub (sp_core s) \<le> n_done (sp_core s)" using inv by (simp add: spc_inv_def sqc_inv_def)
  have rpc: "rpc c = rpc (sp_core s)" and pub: "n_pub (sp_core s) \<le> n_pub c"
    using step le by (auto elim!: push_stepE)
  have entries: "entry_ok (vals c) n d" if "entry_ok (vals (sp_core s)) n d" for n d
    using step that by cases (simp_all add: entry_ok_append)
  show ?thesis
    using inv core pub entries
    by (auto simp: spc_inv_def call_ok_def poll_inv_def run_ok_def at_rest_def reading_def rpc
        split: poll_pc.splits)
qed

lemma spc_inv_nothing:
  assumes inv: "spc_inv U N W s" and pc: "sp_pc s = PollIdle" and p: "sp_seen s \<le> p" "p \<le> n_pub (sp_core s)"
  shows "spc_inv U N W (s\<lparr>sp_seen := p, sp_lapped := sp_lapped s \<or> SPAN \<le> p - sp_at s\<rparr>)"
  using inv p
  by (auto simp: spc_inv_def call_ok_def poll_inv_def at_rest_def pc intro: entry_ok_mono)

lemma spc_inv_begin:
  assumes inv: "spc_inv U N W s" and pc: "sp_pc s = PollIdle" and p: "sp_seen s \<le> p" "p \<le> n_pub (sp_core s)"
    and limit: "0 < limit" and ne: "seq_at p \<noteq> 0" "seq_at p \<noteq> sc_last_seq (sp_con s)"
    and jump: "poll_jump U N (sc_last_seq (sp_con s)) (seq_at p) = (dropped, l)"
  shows "spc_inv U N W (s\<lparr>sp_con := (sp_con s)\<lparr>sc_last_seq := l\<rparr>,
      sp_pc := PollRun limit (seq_at p) 0 dropped, sp_seen := p, sp_at := sp_at s + dropped,
      sp_lapped := sp_lapped s \<or> SPAN \<le> p - sp_at s\<rparr>)" (is "spc_inv U N W ?s'")
proof -
  have idle: "rpc (sp_core s) = ReadIdle" using inv pc by (simp add: spc_inv_def call_ok_def)
  have call: "call_ok ?s'" using inv p pc by (auto simp: spc_inv_def call_ok_def intro: entry_ok_mono)
  have "poll_inv U N ?s'" if "\<not> sp_lapped s" "p - sp_at s < SPAN"
  proof -
    have poll: "poll_inv U N s" using inv that(1) by (simp add: spc_inv_def)
    then have rest: "at_rest s" and le: "sp_at s \<le> sp_seen s" by (simp_all add: poll_inv_def pc)
    then have last: "sc_last_seq (sp_con s) = seq_at (sp_at s)" by (simp add: at_rest_def)
    have lt: "sp_at s < p" using le p(1) ne(2) last by (cases "sp_at s = p") auto
    have NU: "0 < N" "SPAN \<le> U" using inv by (simp_all add: spc_inv_def)
    note window = poll_jump_window [OF NU lt that(2) jump [unfolded last]]
    have "run_ok N ?s' limit (seq_at p) 0 dropped"
      using window(2-4) lt that(2) limit rest idle by (simp add: run_ok_def at_rest_def reading_def)
    then show ?thesis
      using poll window(3) by (auto simp: poll_inv_def intro: entry_ok_mono)
  qed
  then show ?thesis using inv p call by (auto simp: spc_inv_def not_le)
qed

lemma spc_inv_access:
  assumes inv: "spc_inv U N W s" and pc: "sp_pc s = PollRun limit newest read dropped"
    and more: "read < limit" "sc_last_seq (sp_con s) \<noteq> newest"
    and step: "read_step N W (sp_seen s) (sr_next_after (sc_last_seq (sp_con s))) None (sp_core s) c"
  shows "spc_inv U N W (s\<lparr>sp_core := c\<rparr>)"
proof -
  note frame = read_step_frame [OF step]
  have core: "sqc_inv W c" using inv step by (auto simp: spc_inv_def intro: sqc_inv_read)
  have "poll_inv U N (s\<lparr>sp_core := c\<rparr>)" if "poll_inv U N s"
  proof -
    have run: "run_ok N s limit newest read dropped" and le: "sp_at s \<le> sp_seen s"
      using that by (simp_all add: poll_inv_def pc)
    have lt: "Suc (sp_at s) \<le> sp_seen s" using run_ok_more [OF run le] more(2) by simp
    have "reading c (Suc (sp_at s))"
      using read_step_reading [OF _ _ lt step [unfolded run_ok_next [OF run]]] run by (simp add: run_ok_def)
    with that run show ?thesis by (simp add: poll_inv_def pc run_ok_def frame)
  qed
  with inv core more show ?thesis by (auto simp: spc_inv_def call_ok_def pc frame)
qed

text \<open>The two ways a number is passed: read, or found gone.\<close>

lemma run_ok_advance:
  assumes poll: "poll_inv U N s" and pc: "sp_pc s = PollRun limit newest read dropped"
    and more: "read < limit" "sc_last_seq (sp_con s) \<noteq> newest" and U: "SPAN \<le> U"
  shows "sp_at s < sp_seen s" and "sr_next_after (sc_last_seq (sp_con s)) = seq_at (Suc (sp_at s))"
    and "sat_add U dropped 1 = Suc dropped" and "dropped + (sp_seen s - sp_at s) < SPAN"
    and "reading (sp_core s) (Suc (sp_at s))" and "run_ok N s limit newest read dropped"
proof -
  have run: "run_ok N s limit newest read dropped" and le: "sp_at s \<le> sp_seen s"
    using poll by (simp_all add: poll_inv_def pc)
  show "sp_at s < sp_seen s" using run_ok_more [OF run le] more(2) by simp
  moreover show "dropped + (sp_seen s - sp_at s) < SPAN" "reading (sp_core s) (Suc (sp_at s))"
    using run by (simp_all add: run_ok_def)
  ultimately show "sat_add U dropped 1 = Suc dropped" using U by (simp add: sat_add_def)
  show "sr_next_after (sc_last_seq (sp_con s)) = seq_at (Suc (sp_at s))" by (rule run_ok_next [OF run])
  show "run_ok N s limit newest read dropped" by (fact run)
qed

lemma spc_inv_hit:
  assumes inv: "spc_inv U N W s" and pc: "sp_pc s = PollRun limit newest read dropped"
    and more: "read < limit" "sc_last_seq (sp_con s) \<noteq> newest"
    and step: "read_step N W (sp_seen s) (sr_next_after (sc_last_seq (sp_con s))) (Some (Some v)) (sp_core s) c"
  shows "spc_inv U N W (s\<lparr>sp_core := c,
      sp_con := (sp_con s)\<lparr>sc_last_seq := sr_next_after (sc_last_seq (sp_con s))\<rparr>,
      sp_pc := PollRun limit newest (read + 1) dropped, sp_at := sp_at s + 1,
      sp_log := sp_log s @ [(sp_at s + 1, v, length (vals c))]\<rparr>)" (is "spc_inv U N W ?s'")
proof -
  note frame = read_step_frame [OF step]
  have core: "sqc_inv W c" using inv step by (auto simp: spc_inv_def intro: sqc_inv_read)
  have "poll_inv U N ?s'" if poll: "poll_inv U N s"
  proof -
    have "SPAN \<le> U" using inv by (simp add: spc_inv_def)
    note adv = run_ok_advance [OF poll pc more this]
    have new: "entry_ok (vals c) (Suc (sp_at s)) (Suc (sp_at s), v, length (vals c))"
      by (rule read_step_value [OF adv(5) _ core step [unfolded adv(2)]]) simp
    have below: "m < Suc (sp_at s)" if "m \<in> fst ` set (sp_log s)" for m
      using poll that by (force simp: poll_inv_def entry_ok_def)
    have "run_ok N ?s' limit newest (read + 1) dropped"
      using adv more by (auto simp: run_ok_def reading_def frame)
    moreover have "sorted_wrt (<) (map fst (sp_log ?s'))"
      using poll below by (auto simp: poll_inv_def sorted_wrt_append)
    ultimately show ?thesis
      using poll adv(1) new by (auto simp: poll_inv_def frame intro: entry_ok_mono)
  qed
  with inv core show ?thesis by (auto simp: spc_inv_def call_ok_def pc frame)
qed

lemma spc_inv_miss:
  assumes inv: "spc_inv U N W s" and pc: "sp_pc s = PollRun limit newest read dropped"
    and more: "read < limit" "sc_last_seq (sp_con s) \<noteq> newest"
    and step: "read_step N W (sp_seen s) (sr_next_after (sc_last_seq (sp_con s))) (Some None) (sp_core s) c"
  shows "spc_inv U N W (s\<lparr>sp_core := c,
      sp_con := (sp_con s)\<lparr>sc_last_seq := sr_next_after (sc_last_seq (sp_con s))\<rparr>,
      sp_pc := PollRun limit newest read (sat_add U dropped 1), sp_at := sp_at s + 1\<rparr>)" (is "spc_inv U N W ?s'")
proof -
  note frame = read_step_frame [OF step]
  have core: "sqc_inv W c" using inv step by (auto simp: spc_inv_def intro: sqc_inv_read)
  have "poll_inv U N ?s'" if poll: "poll_inv U N s"
  proof -
    have "SPAN \<le> U" using inv by (simp add: spc_inv_def)
    note adv = run_ok_advance [OF poll pc more this]
    have "run_ok N ?s' limit newest read (Suc dropped)"
      using adv more by (auto simp: run_ok_def reading_def frame)
    then show ?thesis
      using poll adv(1,3) by (auto simp: poll_inv_def frame intro: entry_ok_mono)
  qed
  with inv core show ?thesis by (auto simp: spc_inv_def call_ok_def pc frame)
qed

lemma spc_inv_return:
  assumes inv: "spc_inv U N W s" and pc: "sp_pc s = PollRun limit newest read dropped"
    and stop: "\<not> (read < limit \<and> sc_last_seq (sp_con s) \<noteq> newest)"
  shows "spc_inv U N W (s\<lparr>
      sp_con := (sp_con s)\<lparr>sc_dropped_accum := sat_add U (sc_dropped_accum (sp_con s)) dropped\<rparr>,
      sp_pc := PollIdle, sp_read := sp_read s + read, sp_dropped := sp_dropped s + dropped\<rparr>)"
    (is "spc_inv U N W ?s'")
proof -
  have "rpc (sp_core s) = ReadIdle" using inv stop by (auto simp: spc_inv_def call_ok_def pc)
  then have call: "call_ok ?s'" using inv by (simp add: spc_inv_def call_ok_def)
  have "poll_inv U N ?s'" if poll: "poll_inv U N s"
  proof -
    have run: "run_ok N s limit newest read dropped" and le: "sp_at s \<le> sp_seen s"
      using poll by (simp_all add: poll_inv_def pc)
    have "at_rest ?s'"
      using run run_ok_more [OF run le] stop by (auto simp: run_ok_def at_rest_def)
    moreover have "sat_add U (min (sp_dropped s) U) dropped = min (sp_dropped s + dropped) U"
      by (simp add: sat_add_def min_def)
    ultimately show ?thesis using poll by (auto simp: poll_inv_def)
  qed
  with inv call show ?thesis by (auto simp: spc_inv_def)
qed

lemma spc_inv_latest_begin:
  assumes inv: "spc_inv U N W s" and pc: "sp_pc s = PollIdle" and p: "sp_seen s \<le> p" "p \<le> n_pub (sp_core s)"
    and ne: "seq_at p \<noteq> 0"
  shows "spc_inv U N W (s\<lparr>sp_pc := LatestRun (seq_at p), sp_seen := p\<rparr>)"
  using inv p ne
  by (auto simp: spc_inv_def call_ok_def poll_inv_def at_rest_def reading_def pc intro: entry_ok_mono)

lemma spc_inv_latest:
  assumes inv: "spc_inv U N W s" and pc: "sp_pc s = LatestRun newest"
    and step: "read_step N W (sp_seen s) newest r (sp_core s) c"
  shows "r = None \<Longrightarrow> spc_inv U N W (s\<lparr>sp_core := c\<rparr>)"
    and "r = Some None \<Longrightarrow> spc_inv U N W (s\<lparr>sp_core := c, sp_pc := PollIdle\<rparr>)"
    and "r = Some (Some v) \<Longrightarrow> spc_inv U N W (s\<lparr>sp_core := c, sp_pc := PollIdle,
      sp_latest := sp_latest s @ [(sp_seen s, v, length (vals c))]\<rparr>)"
proof -
  note frame = read_step_frame [OF step]
  have core: "sqc_inv W c" using inv step by (auto simp: spc_inv_def intro: sqc_inv_read)
  have n: "newest = seq_at (sp_seen s)" "0 < sp_seen s" and read: "reading (sp_core s) (sp_seen s)"
    using inv by (simp_all add: spc_inv_def call_ok_def pc)
  have next_read: "reading c (sp_seen s)"
    by (rule read_step_reading [OF read n(2) order_refl step [unfolded n(1)]])
  show "r = None \<Longrightarrow> spc_inv U N W (s\<lparr>sp_core := c\<rparr>)"
    using inv core n next_read by (auto simp: spc_inv_def call_ok_def poll_inv_def at_rest_def pc frame)
  show "r = Some None \<Longrightarrow> spc_inv U N W (s\<lparr>sp_core := c, sp_pc := PollIdle\<rparr>)"
    using inv core by (auto simp: spc_inv_def call_ok_def poll_inv_def at_rest_def pc frame)
  assume r: "r = Some (Some v)"
  have "entry_ok (vals c) (sp_seen s) (sp_seen s, v, length (vals c))"
    by (rule read_step_value [OF read n(2) core step [unfolded n(1) r]])
  then show "spc_inv U N W (s\<lparr>sp_core := c, sp_pc := PollIdle,
      sp_latest := sp_latest s @ [(sp_seen s, v, length (vals c))]\<rparr>)"
    using inv core r by (auto simp: spc_inv_def call_ok_def poll_inv_def at_rest_def pc frame)
qed

lemma spc_inv_poll:
  assumes inv: "spc_inv U N W s" and step: "spc_poll U N W limit r s s'"
  shows "spc_inv U N W s'"
  using step
  by cases (auto intro: spc_inv_nothing [OF inv] spc_inv_begin [OF inv] spc_inv_access [OF inv] spc_inv_hit [OF inv, simplified]
    spc_inv_miss [OF inv, simplified] spc_inv_return [OF inv])

lemma spc_inv_latest_step:
  assumes inv: "spc_inv U N W s" and step: "spc_latest N W r s s'"
  shows "spc_inv U N W s'"
  using step
proof cases
  case (latest_empty p)
  then show ?thesis
    using inv by (auto simp: spc_inv_def call_ok_def poll_inv_def at_rest_def intro: entry_ok_mono)
qed (auto intro: spc_inv_latest_begin [OF inv] spc_inv_latest [OF inv])

lemma spc_inv_step:
  assumes "spc_inv U N W s" and "spc_step U N W s s'"
  shows "spc_inv U N W s'"
  using assms(2) by cases (auto intro: spc_inv_producer spc_inv_poll spc_inv_latest_step assms(1))

lemma spc_inv_init: "spc_init U N s \<Longrightarrow> spc_inv U N W s"
  by (auto simp: spc_init_def sqc_init_def spc_inv_def sqc_inv_def call_ok_def poll_inv_def at_rest_def)

text \<open>
  The polling consumer is a refinement of the single reads: forgetting the handle leaves an execution
  of the seqlock model.
\<close>

interpretation spc: forward_simulation "spc_init U N" "spc_step U N W" "spc_inv U N W"
    sqc_init "sqc_step N W" sp_core for U N W
proof
  show "spc_inv U N W s" if "spc_init U N s" for s :: "'w spc" using that by (rule spc_inv_init)
  show "spc_inv U N W s'" if "spc_inv U N W s" "spc_step U N W s s'" for s s' :: "'w spc"
    using that by (rule spc_inv_step)
  show "sqc_init (sp_core s)" if "spc_init U N s" for s :: "'w spc" using that by (auto simp: spc_init_def)
  show "sp_core s' = sp_core s \<or> sqc_step N W (sp_core s) (sp_core s')"
    if "spc_inv U N W s" "spc_step U N W s s'" for s s' :: "'w spc"
  proof -
    have "sp_seen s \<le> n_pub (sp_core s)" using that(1) by (simp add: spc_inv_def)
    with that(2) show ?thesis
      by cases (auto elim!: spc_pollE spc_latestE intro: sqc_step.intros)
  qed
qed

section \<open>What a consumer that was never lapped gets\<close>

lemma spc_polls_account:
  assumes "reach (spc_init U N) (spc_step U N W) s" and "\<not> sp_lapped s" and "sp_pc s = PollIdle"
  shows "sp_read s + sp_dropped s = sp_at s \<and> sp_at s \<le> n_pub (sp_core s) \<and>
    sc_last_seq (sp_con s) = seq_at (sp_at s) \<and> sr_dropped (sp_con s) = min (sp_dropped s) U"
  using spc.reach_inv [OF assms(1)] assms(2,3)
  by (auto simp: spc_inv_def poll_inv_def at_rest_def sr_dropped_def)

lemma spc_deliveries:
  assumes "reach (spc_init U N) (spc_step U N W) s" and "\<not> sp_lapped s" and "sp_pc s = PollIdle"
  shows "length (sp_log s) = sp_read s \<and> sorted_wrt (<) (map fst (sp_log s)) \<and>
    (\<forall>d \<in> set (sp_log s). entry_ok (vals (sp_core s)) (sp_at s) d)"
  using spc.reach_inv [OF assms(1)] assms(2,3)
  by (auto simp: spc_inv_def poll_inv_def at_rest_def)

lemma spc_latest_whole:
  assumes "reach (spc_init U N) (spc_step U N W) s" and "d \<in> set (sp_latest s)"
  shows "entry_ok (vals (sp_core s)) (n_pub (sp_core s)) d"
  using spc.reach_inv [OF assms(1)] assms(2)
  by (auto simp: spc_inv_def call_ok_def intro: entry_ok_mono)

section \<open>An execution\<close>

text \<open>One push, and a poll that reads it.\<close>

definition poll_state :: "bool sqc \<Rightarrow> sr_consumer \<Rightarrow> poll_pc \<Rightarrow> nat \<Rightarrow> nat \<Rightarrow> nat \<Rightarrow> (nat \<times> bool list \<times> nat) list \<Rightarrow>
    bool spc" where
  "poll_state c con pc seen k rd ds = \<lparr>sp_core = c, sp_con = con, sp_pc = pc, sp_seen = seen, sp_at = k,
     sp_read = rd, sp_dropped = 0, sp_log = ds, sp_latest = [], sp_lapped = False\<rparr>"

abbreviation polled_state :: "bool spc" where
  "polled_state \<equiv> poll_state done_core \<lparr>sc_last_seq = 1, sc_dropped_accum = 0\<rparr> PollIdle 1 1 1 [(1, [True], 1)]"

abbreviation run_state :: "bool sqc \<Rightarrow> bool spc" where
  "run_state c \<equiv> poll_state c \<lparr>sc_last_seq = 0, sc_dropped_accum = 0\<rparr> (PollRun 5 1 0 0) 1 0 0 []"

lemma one_poll_steps:
  "successively (spc_step SPAN 2 1) [poll_state (pushed_core 1 1 PushIdle)
     \<lparr>sc_last_seq = 0, sc_dropped_accum = 0\<rparr> PollIdle 0 0 0 [], run_state (pushed_core 1 1 PushIdle),
     run_state (read_core []), run_state (read_core [(1, True)]),
     poll_state done_core \<lparr>sc_last_seq = 1, sc_dropped_accum = 0\<rparr> (PollRun 5 1 1 0) 1 1 0 [(1, [True], 1)],
     polled_state]"
proof -
  let ?c = "\<lparr>sc_last_seq = 0, sc_dropped_accum = 0\<rparr>"
  let ?s = "poll_state (pushed_core 1 1 PushIdle) ?c PollIdle 0 0 0 []"
  have seq: "seq_at 1 = 1" by (simp add: seq_at_small SPAN_eq)
  have nxt: "sr_next_after 0 = 1" by (simp add: sr_next_after_def)
  have jump: "poll_jump SPAN 2 0 1 = (0, 0)" by (simp add: poll_jump_def sr_seq_distance_def)
  note reads = one_read_steps [of 1, OF order_refl]
  have "spc_step SPAN 2 1 ?s (run_state (pushed_core 1 1 PushIdle))"
    using spc_step.poll [OF spc_poll.poll_begin [of ?s 1 5 SPAN 2 0 0 1]] jump seq
    by (simp add: poll_state_def pushed_core_def SPAN_eq)
  moreover have "spc_step SPAN 2 1 (run_state (pushed_core 1 1 PushIdle)) (run_state (read_core []))"
    using spc_step.poll [OF spc_poll.poll_access [of "run_state (pushed_core 1 1 PushIdle)" 5 1 0 0 2 1 "read_core []" SPAN]]
      reads(1) nxt by (simp add: poll_state_def)
  moreover have "spc_step SPAN 2 1 (run_state (read_core [])) (run_state (read_core [(1, True)]))"
    using spc_step.poll [OF spc_poll.poll_access [of "run_state (read_core [])" 5 1 0 0 2 1 "read_core [(1, True)]" SPAN]]
      reads(2) nxt by (simp add: poll_state_def)
  moreover have "spc_step SPAN 2 1 (run_state (read_core [(1, True)])) (poll_state done_core
      \<lparr>sc_last_seq = 1, sc_dropped_accum = 0\<rparr> (PollRun 5 1 1 0) 1 1 0 [(1, [True], 1)])"
    using spc_step.poll [OF spc_poll.poll_hit [of "run_state (read_core [(1, True)])" 5 1 0 0 2 1 "[True]" done_core SPAN]]
      reads(3) nxt by (simp add: poll_state_def pushed_core_def)
  moreover have "spc_step SPAN 2 1 (poll_state done_core \<lparr>sc_last_seq = 1, sc_dropped_accum = 0\<rparr>
      (PollRun 5 1 1 0) 1 1 0 [(1, [True], 1)]) polled_state"
    using spc_step.poll [OF spc_poll.poll_return [of "poll_state done_core \<lparr>sc_last_seq = 1, sc_dropped_accum = 0\<rparr>
      (PollRun 5 1 1 0) 1 1 0 [(1, [True], 1)]" 5 1 1 0 SPAN 2 1]] by (simp add: poll_state_def sat_add_def)
  ultimately show ?thesis by simp
qed

lemma spc_one_push:
  "reach (spc_init SPAN 2) (spc_step SPAN 2 1)
    (poll_state (pushed_core 1 1 PushIdle) \<lparr>sc_last_seq = 0, sc_dropped_accum = 0\<rparr> PollIdle 0 0 0 [])"
proof -
  let ?p = "\<lambda>c. poll_state c \<lparr>sc_last_seq = 0, sc_dropped_accum = 0\<rparr> PollIdle 0 0 0 []"
  have step: "spc_step SPAN 2 1 (?p c) (?p c')" if "push_step 1 c c'" for c c'
    using spc_step.producer [of 1 "?p c" c' SPAN 2] that by (simp add: poll_state_def)
  have "successively (spc_step SPAN 2 1) (map ?p one_push)"
    by (simp only: successively_map) (rule successively_mono [OF one_push_steps step])
  moreover have "spc_init SPAN 2 (?p fresh_core)"
    by (simp add: spc_init_def sqc_init_def poll_state_def fresh_core_def)
  ultimately have "reach (spc_init SPAN 2) (spc_step SPAN 2 1) (last (?p fresh_core # map ?p (tl one_push)))"
    by (intro reach_path) (simp_all add: one_push_def)
  then show ?thesis by (simp add: one_push_def)
qed

lemma spc_one_poll: "reach (spc_init SPAN 2) (spc_step SPAN 2 1) polled_state"
  using reach_extend [OF spc_one_push one_poll_steps] by simp

lemma spc_one_run: "reach (spc_init SPAN 2) (spc_step SPAN 2 1) (run_state (pushed_core 1 1 PushIdle))"
  using reach.move [OF spc_one_push] one_poll_steps by simp

end
