(* ===== verification/SeqRing_Conc_Progress.thy ===== *)
theory SeqRing_Conc_Progress
  imports SeqRing_Conc_Poll
begin

text \<open>
  A poll returns after a bounded number of its own accesses, however fast the producer publishes: the goal
  is frozen at entry, so every number costs the consumer at most one pass over a slot, and the producer
  can neither extend the walk nor block it.
\<close>

section \<open>A poll is bounded, however fast the producer is\<close>

text \<open>How many accesses of its own a poll can still make.\<close>

fun read_work :: "nat \<Rightarrow> 'w read_pc \<Rightarrow> nat \<Rightarrow> nat" where
  "read_work W ReadIdle k = k * (W + 2)"
| "read_work W (ReadCopy w m cs) k = (k - 1) * (W + 2) + Suc (W - length cs)"

definition poll_work :: "nat \<Rightarrow> 'w spc \<Rightarrow> nat" where
  "poll_work W s = Suc (read_work W (rpc (sp_core s)) (sp_seen s - sp_at s))"

definition polling :: "'w spc \<Rightarrow> bool" where
  "polling s \<longleftrightarrow> (case sp_pc s of PollRun limit newest read dropped \<Rightarrow> True | _ \<Rightarrow> False)"

definition producer_step :: "nat \<Rightarrow> 'w spc \<Rightarrow> 'w spc \<Rightarrow> bool" where
  "producer_step W s s' \<longleftrightarrow> (\<exists>c. push_step W (sp_core s) c \<and> s' = s\<lparr>sp_core := c\<rparr>)"

lemma poll_work_bound:
  assumes "spc_inv U N W s" and "polling s" and "\<not> sp_lapped s"
  shows "poll_work W s \<le> Suc (N * (W + 2))"
proof -
  obtain limit newest read dropped where pc: "sp_pc s = PollRun limit newest read dropped"
    using assms(2) by (auto simp: polling_def split: poll_pc.splits)
  have run: "run_ok N s limit newest read dropped" and le: "sp_at s \<le> sp_seen s"
    using assms by (auto simp: spc_inv_def poll_inv_def pc)
  then have N: "sp_seen s - sp_at s \<le> N" by (simp add: run_ok_def)
  show ?thesis
  proof (cases "rpc (sp_core s)")
    case ReadIdle
    then show ?thesis using mult_le_mono1 [OF N, of "W + 2"] by (simp add: poll_work_def)
  next
    case (ReadCopy w m cs)
    then have "sc_last_seq (sp_con s) \<noteq> newest" using assms(1) by (simp add: spc_inv_def call_ok_def pc)
    then have "sp_at s < sp_seen s" using run_ok_more [OF run le] by simp
    then obtain k where k: "sp_seen s - sp_at s = Suc k" by (metis Suc_diff_Suc)
    have "Suc k * (W + 2) \<le> N * (W + 2)" using N k by (intro mult_le_mono1) simp
    then show ?thesis using ReadCopy k by (simp add: poll_work_def)
  qed
qed

lemma poll_work_producer:
  assumes "producer_step W s s'"
  shows "poll_work W s' = poll_work W s"
  using assms by (auto simp: producer_step_def poll_work_def elim!: push_stepE)

lemma poll_work_read:
  assumes "read_step N W p w r c c'" and "rpc c = ReadIdle \<or> (\<exists>q cs. rpc c = ReadCopy w q cs)"
    and "0 < k"
  shows "read_work W (rpc c') (if r = None then k else k - 1) < read_work W (rpc c) k"
proof -
  obtain j where "k = Suc j" using assms(3) by (cases k) auto
  with assms(1,2) show ?thesis by (cases rule: read_stepE) auto
qed

lemma poll_work_poll:
  assumes inv: "spc_inv U N W s" and lap: "\<not> sp_lapped s" and "polling s" and step: "spc_poll U N W limit r s s'"
    and "polling s'"
  shows "poll_work W s' < poll_work W s"
proof -
  obtain limit' newest read dropped where pc: "sp_pc s = PollRun limit' newest read dropped"
    using assms(3) by (auto simp: polling_def split: poll_pc.splits)
  have poll: "poll_inv U N s" and U: "SPAN \<le> U" using inv lap by (simp_all add: spc_inv_def)
  have read: "poll_work W s' < poll_work W s"
    if r: "read_step N W (sp_seen s) (sr_next_after (sc_last_seq (sp_con s))) r (sp_core s) (sp_core s')"
      and more: "read < limit'" "sc_last_seq (sp_con s) \<noteq> newest"
      and s': "sp_seen s' = sp_seen s" "sp_at s' = (if r = None then sp_at s else Suc (sp_at s))" for r
  proof -
    note adv = run_ok_advance [OF poll pc more U]
    have "rpc (sp_core s) = ReadIdle \<or>
        (\<exists>q cs. rpc (sp_core s) = ReadCopy (sr_next_after (sc_last_seq (sp_con s))) q cs)"
      using adv(2,5) by (auto simp: reading_def)
    from poll_work_read [OF r this, of "sp_seen s - sp_at s"] adv(1)
    show ?thesis by (cases "r = None") (auto simp: poll_work_def s')
  qed
  from step show ?thesis by cases (use pc read \<open>polling s'\<close> in \<open>auto simp: polling_def\<close>)
qed

lemma poll_work_consumer:
  assumes "spc_inv U N W s" and "\<not> sp_lapped s" and "polling s" and "spc_step U N W s s'"
    and not: "\<not> producer_step W s s'" and "polling s'"
  shows "poll_work W s' < poll_work W s"
  using assms(4)
proof cases
  case (producer c)
  with not show ?thesis by (auto simp: producer_step_def)
next
  case (latest r)
  then show ?thesis using assms(3) by (auto simp: polling_def elim!: spc_latestE)
qed (use poll_work_poll assms in blast)

section \<open>A poll is never stuck\<close>

text \<open>The stores a read in progress has relied on are still there.\<close>

definition copies_ok :: "nat \<Rightarrow> nat \<Rightarrow> 'w sqc \<Rightarrow> bool" where
  "copies_ok N W c \<longleftrightarrow> (\<forall>w m cs. rpc c = ReadCopy w m cs \<longrightarrow> length cs \<le> W \<and> stored c (2 * m + 1) \<and>
     sr_slot_of N m = sr_idx_for N w \<and> 0 < m \<and>
     (\<forall>(q, x) \<in> set cs. stored c (2 * q) \<and> sr_slot_of N q = sr_idx_for N w))"

lemma push_step_stored:
  assumes "push_step W c c'" and "stored c t"
  shows "stored c' t"
  using assms by cases (auto simp: stored_def)

lemma push_step_ppc: "push_step W c c' \<Longrightarrow> ppc c' \<noteq> ppc c \<and> rpc c' = rpc c"
  by (auto elim!: push_stepE)

lemma copies_ok_read:
  assumes ok: "copies_ok N W c" and step: "read_step N W p w r c c'"
  shows "copies_ok N W c'"
proof -
  have stored: "stored c' t \<longleftrightarrow> stored c t" for t
    using read_step_frame [OF step] by (simp add: stored_def)
  from step show ?thesis
  proof cases
    case (read_first t)
    then have "odd t" "w = seq_at (t div 2)" by (auto simp: number_at_def split: if_splits)
    moreover from this have "2 * (t div 2) + 1 = t" by simp
    ultimately show ?thesis
      using read_first stored by (auto simp: copies_ok_def sr_slot_of_def loadable_def intro!: gr0I)
  next
    case (read_word m cs q)
    have "stored c (2 * q)" using read_word(5) by (auto simp: written_def stored_def)
    with ok read_word stored show ?thesis by (auto simp: copies_ok_def)
  qed (use ok stored in \<open>auto simp: copies_ok_def\<close>)
qed

lemma copies_ok_push:
  assumes "copies_ok N W c" and "push_step W c c'"
  shows "copies_ok N W c'"
proof -
  have "rpc c' = rpc c" using push_step_ppc [OF assms(2)] by simp
  with assms(1) push_step_stored [OF assms(2)] show ?thesis
    unfolding copies_ok_def by (metis (mono_tags, lifting) case_prod_beta')
qed

interpretation sqc_copies: inductive_invariant sqc_init "sqc_step N W" "copies_ok N W" for N W
proof
  show "copies_ok N W c" if "sqc_init c" for c :: "'w sqc" using that by (simp add: sqc_init_def copies_ok_def)
  show "copies_ok N W c'" if "copies_ok N W c" "sqc_step N W c c'" for c c' :: "'w sqc"
    using that(2) by cases (auto intro: copies_ok_read [OF that(1)] copies_ok_push [OF that(1)])
qed

text \<open>The newest store to a slot can always be loaded.\<close>

lemma newest_store_loadable:
  assumes p: "p \<le> n_done c" and T: "\<forall>t \<in> T. stored c t \<and> sr_slot_of N (t div 2) = i"
  shows "\<exists>t. loadable N c p i t \<and> (\<forall>t' \<in> T. t' \<le> t)"
proof -
  let ?S = "{t. stored c t \<and> (t = 0 \<or> sr_slot_of N (t div 2) = i)}"
  have "?S \<subseteq> {..2 * n_done c + 2}" by (auto simp: stored_def)
  then have fin: "finite ?S" by (rule finite_subset) simp
  have "0 \<in> ?S" by (simp add: stored_def)
  then have max: "Max ?S \<in> ?S" using fin by (intro Max_in) auto
  have ge: "t \<le> Max ?S" if "stored c t" "sr_slot_of N (t div 2) = i" for t
    using fin that by (intro Max_ge) auto
  have "2 * q + 1 \<le> Max ?S" if "0 < q" "q \<le> p" "sr_slot_of N q = i" for q
    using that p by (intro ge) (simp_all add: stored_def)
  then have "loadable N c p i (Max ?S)" using max by (auto simp: loadable_def)
  moreover have "\<forall>t' \<in> T. t' \<le> Max ?S" using T ge by blast
  ultimately show ?thesis by blast
qed

lemma read_step_enabled:
  assumes inv: "sqc_inv W c" and copies: "copies_ok N W c" and p: "p \<le> n_done c" and w: "w \<noteq> 0"
    and idle: "rpc c = ReadIdle \<or> (\<exists>m cs. rpc c = ReadCopy w m cs)"
  shows "\<exists>r c'. read_step N W p w r c c'"
proof (cases "rpc c")
  case ReadIdle
  obtain t where "loadable N c p (sr_idx_for N w) t"
    using newest_store_loadable [OF p, of "{}" N "sr_idx_for N w"] by blast
  with ReadIdle w show ?thesis by (cases "number_at t = w") (blast intro: read_step.intros)+
next
  case (ReadCopy w' m cs)
  with idle have rpc: "rpc c = ReadCopy w m cs" by simp
  have ok: "length cs \<le> W" "stored c (2 * m + 1)" "sr_slot_of N m = sr_idx_for N w" "0 < m"
    "\<forall>(q, x) \<in> set cs. stored c (2 * q) \<and> sr_slot_of N q = sr_idx_for N w"
    using copies rpc by (auto simp: copies_ok_def)
  have "m \<le> n_done c" using inv rpc by (simp add: sqc_inv_def)
  show ?thesis
  proof (cases "length cs = W")
    case False
    then have "written c m (length cs)" using \<open>m \<le> n_done c\<close> ok(4) by (simp add: written_def)
    with False ok(1,3) rpc show ?thesis by (blast intro: read_step.read_word le_neq_implies_less)
  next
    case True
    let ?T = "insert (2 * m + 1) ((\<lambda>(q, x). 2 * q) ` set cs)"
    have "\<forall>t \<in> ?T. stored c t \<and> sr_slot_of N (t div 2) = sr_idx_for N w" using ok by auto
    from newest_store_loadable [OF p this] obtain t where
      t: "loadable N c p (sr_idx_for N w) t" "\<forall>t' \<in> ?T. t' \<le> t" by blast
    then have "2 * m + 1 \<le> t" "\<forall>(q, x) \<in> set cs. 2 * q \<le> t" by auto
    with t(1) True rpc show ?thesis by (cases "number_at t = w") (blast intro: read_step.intros)+
  qed
qed

text \<open>Each access of a read is a step of the poll, and the producer never moves the poll's counter.\<close>

lemma poll_step_of_read:
  assumes pc: "sp_pc s = PollRun limit newest read dropped"
    and more: "read < limit" "sc_last_seq (sp_con s) \<noteq> newest"
    and access: "read_step N W (sp_seen s) (sr_next_after (sc_last_seq (sp_con s))) r (sp_core s) c"
  shows "\<exists>e s'. spc_poll U N W limit e s s' \<and> sp_core s' = c"
proof (cases r)
  case None
  from spc_poll.poll_access [OF pc more access [unfolded None]] show ?thesis by force
next
  case got: (Some got)
  show ?thesis
  proof (cases got)
    case None
    from spc_poll.poll_miss [OF pc more access [unfolded got None]] show ?thesis by force
  next
    case (Some v)
    from spc_poll.poll_hit [OF pc more access [unfolded got Some]] show ?thesis by force
  qed
qed

lemma pc_change_not_producer: "sp_pc s' \<noteq> sp_pc s \<Longrightarrow> \<not> producer_step W s s'"
  by (auto simp: producer_step_def)

lemma poll_can_go_on:
  assumes inv: "spc_inv U N W s" and copies: "copies_ok N W (sp_core s)" and lap: "\<not> sp_lapped s"
    and pc: "sp_pc s = PollRun limit newest read dropped"
  shows "\<exists>e s'. spc_poll U N W limit e s s' \<and> \<not> producer_step W s s'"
proof (cases "read < limit \<and> sc_last_seq (sp_con s) \<noteq> newest")
  case False
  from spc_poll.poll_return [OF pc this] pc show ?thesis by (force intro!: pc_change_not_producer)
next
  case True
  have core: "sqc_inv W (sp_core s)" and poll: "poll_inv U N s" and U: "SPAN \<le> U"
    using inv lap by (simp_all add: spc_inv_def)
  from True have more: "read < limit" "sc_last_seq (sp_con s) \<noteq> newest" by simp_all
  let ?w = "sr_next_after (sc_last_seq (sp_con s))"
  note adv = run_ok_advance [OF poll pc more U]
  have "sp_seen s \<le> n_done (sp_core s)" using inv core by (auto simp: spc_inv_def sqc_inv_def)
  moreover have "?w \<noteq> 0" by (rule sr_seq.nxt_nonzero)
  moreover have "rpc (sp_core s) = ReadIdle \<or> (\<exists>m cs. rpc (sp_core s) = ReadCopy ?w m cs)"
    using adv(2,5) by (auto simp: reading_def)
  ultimately obtain r c where read: "read_step N W (sp_seen s) ?w r (sp_core s) c"
    using read_step_enabled [OF core copies] by blast
  have "\<exists>e s'. spc_poll U N W limit e s s' \<and> sp_core s' = c" by (rule poll_step_of_read [OF pc more read])
  moreover have "\<not> producer_step W s s'" if "sp_core s' = c" for s'
    using that read_step_frame(4) [OF read] push_step_ppc [of W "sp_core s"]
    by (auto simp: producer_step_def)
  ultimately show ?thesis by blast
qed

lemma poll_never_stuck:
  assumes "spc_inv U N W s" and "copies_ok N W (sp_core s)" and "polling s" and "\<not> sp_lapped s"
  shows "\<exists>s'. spc_step U N W s s' \<and> \<not> producer_step W s s'"
proof -
  obtain limit newest read dropped where "sp_pc s = PollRun limit newest read dropped"
    using assms(3) by (auto simp: polling_def split: poll_pc.splits)
  from poll_can_go_on [OF assms(1,2,4) this] show ?thesis by (blast intro: spc_step.poll)
qed

section \<open>Wait-freedom\<close>

definition unlapped_poll :: "'w spc \<Rightarrow> bool" where
  "unlapped_poll s \<longleftrightarrow> polling s \<and> \<not> sp_lapped s"

interpretation poll: bounded_operation "spc_init U N" "spc_step U N W"
    "\<lambda>s. spc_inv U N W s \<and> copies_ok N W (sp_core s)" unlapped_poll
    "\<lambda>s s'. \<not> producer_step W s s'" "poll_work W" "Suc (N * (W + 2))" for U N W
proof
  fix s s' :: "'w spc"
  show "spc_inv U N W s \<and> copies_ok N W (sp_core s)" if "spc_init U N s"
    using that spc_inv_init [of U N s W] by (auto simp: spc_init_def intro: sqc_copies.inv_init)
  show "spc_inv U N W s' \<and> copies_ok N W (sp_core s')"
    if "spc_inv U N W s \<and> copies_ok N W (sp_core s)" "spc_step U N W s s'"
    using that spc.sim_step [of U N W s s'] spc_inv_step [of U N W s s']
    by (metis sqc_copies.inv_step)
  show "poll_work W s \<le> Suc (N * (W + 2))"
    if "spc_inv U N W s \<and> copies_ok N W (sp_core s)" "unlapped_poll s"
    using that poll_work_bound by (auto simp: unlapped_poll_def)
  show "poll_work W s' \<le> poll_work W s" if "\<not> \<not> producer_step W s s'"
    using that poll_work_producer [of W s s'] by simp
  show "poll_work W s' < poll_work W s"
    if "spc_inv U N W s \<and> copies_ok N W (sp_core s)" "unlapped_poll s" "unlapped_poll s'"
      "spc_step U N W s s'" "\<not> producer_step W s s'"
    using that poll_work_consumer by (auto simp: unlapped_poll_def)
  show "\<exists>s'. spc_step U N W s s' \<and> \<not> producer_step W s s'"
    if "spc_inv U N W s \<and> copies_ok N W (sp_core s)" "unlapped_poll s"
    using that poll_never_stuck by (auto simp: unlapped_poll_def)
qed

text \<open>A poll in progress ends by returning.\<close>

lemma polling_step:
  assumes "spc_step U N W s s'" and "polling s"
  shows "sp_lapped s' = sp_lapped s \<and> (polling s' \<or> sp_pc s' = PollIdle)"
  using assms by cases (auto simp: polling_def elim!: spc_pollE spc_latestE)

lemma unlapped_path_returns:
  assumes "successively (\<lambda>s s'. spc_step U N W s s' \<and> P s s') (s # ss)" and "unlapped_poll s"
    and "\<forall>t \<in> set (butlast (s # ss)). unlapped_poll t" and "\<not> unlapped_poll (last (s # ss))"
  shows "sp_pc (last (s # ss)) = PollIdle"
  using assms
proof (induction ss arbitrary: s)
  case (Cons t ss)
  then have t: "sp_lapped t = sp_lapped s" "polling t \<or> sp_pc t = PollIdle"
    using polling_step [of U N W s t] by (auto simp: unlapped_poll_def)
  with Cons show ?case by (cases ss) (auto simp: unlapped_poll_def)
qed simp

lemma poll_is_wait_free:
  assumes "reach (spc_init U N) (spc_step U N W) s" and "unlapped_poll s"
  shows "successively (spc_step U N W) (s # ss) \<Longrightarrow> \<forall>t \<in> set ss. unlapped_poll t \<Longrightarrow>
      own_steps (\<lambda>s s'. \<not> producer_step W s s') (s # ss) \<le> Suc (N * (W + 2))"
    and "\<exists>ss. successively (\<lambda>s s'. spc_step U N W s s' \<and> \<not> producer_step W s s') (s # ss) \<and>
      sp_pc (last (s # ss)) = PollIdle \<and> length ss \<le> Suc (Suc (N * (W + 2)))"
proof -
  have inv: "spc_inv U N W s \<and> copies_ok N W (sp_core s)" by (rule poll.reach_inv [OF assms(1)])
  show "own_steps (\<lambda>s s'. \<not> producer_step W s s') (s # ss) \<le> Suc (N * (W + 2))"
    if "successively (spc_step U N W) (s # ss)" "\<forall>t \<in> set ss. unlapped_poll t"
    by (rule poll.own_steps_bounded [OF inv that(1)]) (use assms(2) that(2) in simp)
  from poll.can_finish [OF inv] obtain ss where
    ss: "successively (\<lambda>s s'. spc_step U N W s s' \<and> \<not> producer_step W s s') (s # ss)"
      "\<not> unlapped_poll (last (s # ss))" "\<forall>t \<in> set (butlast (s # ss)). unlapped_poll t"
      "length ss \<le> Suc (Suc (N * (W + 2)))" by blast
  with unlapped_path_returns [OF ss(1) assms(2) ss(3,2)] show "\<exists>ss. successively (\<lambda>s s'. spc_step U N W s s' \<and> \<not> producer_step W s s') (s # ss) \<and>
      sp_pc (last (s # ss)) = PollIdle \<and> length ss \<le> Suc (Suc (N * (W + 2)))"
    by blast
qed

end
