(* ===== verification/SeqRing_Feed.thy ===== *)
theory SeqRing_Feed
  imports SeqRing_Conc_Progress Threads
begin

text \<open>
  The calls a threaded test of the sequence ring makes, as accesses of theory \<open>SeqRing_Conc_Poll\<close>, and the ring
  under a producer that pushes \<open>payload 0, payload 1, ...\<close> and stops after \<open>goal\<close> items, fewer than a whole span
  of the numbers (\<open>feed_inv\<close>): no poll is lapped, the closure is called in increasing order with the
  item that belongs to each number (\<open>feed_poll_result\<close>), and the last item of all is delivered, never dropped.
\<close>

section \<open>The calls\<close>

inductive spc_push :: "nat \<Rightarrow> 'w list \<Rightarrow> u32 option \<Rightarrow> 'w spc \<Rightarrow> 'w spc \<Rightarrow> bool" for W v where
  access: "push_step W (sp_core s) c \<Longrightarrow>
    (ppc (sp_core s) = PushIdle \<longrightarrow> vals c = vals (sp_core s) @ [v]) \<Longrightarrow>
    spc_push W v (if ppc c = PushIdle then Some (seq_at (n_pub c)) else None) s (s\<lparr>sp_core := c\<rparr>)"

inductive_cases spc_pushE: "spc_push W v r s s'"

text \<open>Loading the producer's flag with Acquire makes all it has published visible.\<close>

definition see_published :: "'w spc \<Rightarrow> 'w spc" where
  "see_published s = s\<lparr>sp_seen := n_pub (sp_core s)\<rparr>"

abbreviation push_calls :: "nat \<Rightarrow> 'w list flag_call \<Rightarrow> u32 flag_result option \<Rightarrow> 'w spc \<times> bool \<Rightarrow> 'w spc \<times> bool \<Rightarrow> bool" where
  "push_calls W \<equiv> flagged (spc_push W) see_published"

abbreviation poll_calls :: "usize \<Rightarrow> nat \<Rightarrow> nat \<Rightarrow> usize flag_call \<Rightarrow> 'w poll_event flag_result option \<Rightarrow>
    'w spc \<times> bool \<Rightarrow> 'w spc \<times> bool \<Rightarrow> bool" where
  "poll_calls U N W \<equiv> flagged (spc_poll U N W) see_published"

section \<open>The ring under a producer that ends\<close>

text \<open>
  Only an item that a later push has replaced can be missed, so the last of all items is always delivered.
\<close>

lemma missed_is_replaced:
  assumes reading: "reading c m" and m: "0 < m" "m \<le> p" and inv: "sqc_inv W c"
    and step: "read_step N W p (seq_at m) (Some None) c c'"
  shows "m < length (vals c)"
proof -
  have done_le: "n_done c \<le> length (vals c)" "(\<exists>j. ppc c = PushWrite j) \<Longrightarrow> n_done c < length (vals c)"
    using inv by (auto simp: sqc_inv_def)
  have later: "m < length (vals c)" if "stored c t" "2 * m + 1 \<le> t" "number_at t \<noteq> seq_at m" for t
  proof -
    have "t \<noteq> 2 * m + 1" using that(3) by (auto simp: number_at_def)
    with that(1,2) done_le show ?thesis by (auto simp: stored_def)
  qed
  from step show ?thesis
  proof cases
    case (read_other t)
    then have "2 * m + 1 \<le> t" using m by (auto simp: loadable_def sr_slot_of_def)
    with read_other later show ?thesis by (auto simp: loadable_def)
  next
    case (read_reject m' cs t)
    then have "m \<le> m'" using reading by (auto simp: reading_def)
    with read_reject later [of t] show ?thesis by (auto simp: loadable_def)
  qed
qed

definition last_logged :: "'w spc \<Rightarrow> u32" where
  "last_logged s = (if sp_log s = [] then 0 else seq_at (fst (last (sp_log s))))"

definition feed_inv :: "usize \<Rightarrow> nat \<Rightarrow> nat \<Rightarrow> (u32 \<Rightarrow> 'w list) \<Rightarrow> u32 \<Rightarrow> 'w spc \<Rightarrow> bool" where
  "feed_inv U N W payload goal s \<longleftrightarrow> spc_inv U N W s \<and> copies_ok N W (sp_core s) \<and> \<not> sp_lapped s \<and>
     (\<forall>k < length (vals (sp_core s)). vals (sp_core s) ! k = payload (of_nat k)) \<and>
     length (vals (sp_core s)) \<le> unat goal \<and> unat goal < SPAN \<and>
     (ppc (sp_core s) \<noteq> PushAnnounce \<longrightarrow> n_pub (sp_core s) = n_done (sp_core s)) \<and>
     (\<forall>j. ppc (sp_core s) = PushWrite j \<longrightarrow> j \<le> W) \<and>
     (sp_at s = unat goal \<and> 0 < unat goal \<longrightarrow> sp_log s \<noteq> [] \<and> fst (last (sp_log s)) = unat goal)"

lemma feed_inv_bounds:
  assumes "feed_inv U N W payload goal s"
  shows "sp_at s \<le> sp_seen s" and "sp_seen s \<le> n_pub (sp_core s)" and "n_pub (sp_core s) \<le> length (vals (sp_core s))"
    and "length (vals (sp_core s)) \<le> unat goal" and "unat goal < SPAN" and "poll_inv U N s" and "SPAN \<le> U"
    and "ppc (sp_core s) = PushIdle \<Longrightarrow> n_pub (sp_core s) = length (vals (sp_core s))"
  using assms by (auto simp: feed_inv_def spc_inv_def poll_inv_def sqc_inv_def)

definition pushes_made :: "'w spc \<Rightarrow> nat \<Rightarrow> bool" where
  "pushes_made s n \<longleftrightarrow> length (vals (sp_core s)) = (if ppc (sp_core s) = PushIdle then n else Suc n)"

lemma feed_push:
  assumes inv: "feed_inv U N W payload goal s" and at: "i < goal" "pushes_made s (unat i)"
    and step: "spc_push W (payload i) r s s'"
  shows "feed_inv U N W payload goal s'" and "r = None \<Longrightarrow> pushes_made s' (unat i)"
    and "r = Some seq \<Longrightarrow> seq = i + 1 \<and> ppc (sp_core s') = PushIdle \<and> length (vals (sp_core s')) = Suc (unat i)"
    and "sp_pc s' = sp_pc s" "sp_seen s' = sp_seen s" "sp_at s' = sp_at s" "sp_read s' = sp_read s"
      "sp_dropped s' = sp_dropped s" "sp_log s' = sp_log s" "sp_con s' = sp_con s"
proof -
  from step obtain c where c: "push_step W (sp_core s) c" "s' = s\<lparr>sp_core := c\<rparr>"
    "ppc (sp_core s) = PushIdle \<longrightarrow> vals c = vals (sp_core s) @ [payload i]"
    "r = (if ppc c = PushIdle then Some (seq_at (n_pub c)) else None)" by (elim spc_pushE) auto
  have le: "unat i < unat goal" using at(1) by (simp add: word_less_nat_alt)
  have core: "sqc_inv W (sp_core s)" using inv by (simp add: feed_inv_def spc_inv_def)
  then have n: "length (vals (sp_core s)) = n_done (sp_core s) +
      (if ppc (sp_core s) = PushIdle \<or> ppc (sp_core s) = PushAnnounce then 0 else 1)" by (simp add: sqc_inv_def)
  have spc: "spc_inv U N W s'" using inv spc_inv_producer [OF _ c(1)] c(2) by (simp add: feed_inv_def)
  have copies: "copies_ok N W (sp_core s')" using inv copies_ok_push [OF _ c(1)] c(2) by (simp add: feed_inv_def)
  have i: "of_nat (unat i) = i" by (simp add: u32_of_unat [symmetric])
  have seq: "seq_at (Suc (unat i)) = i + 1"
    using le feed_inv_bounds(5) [OF inv] u32_of_unat [of i] by (simp add: seq_at_small)
  have "\<forall>k < length (vals c). vals c ! k = payload (of_nat k)"
    using c(1,3) inv at(2) i by cases (auto simp: feed_inv_def pushes_made_def nth_append less_Suc_eq)
  moreover have "length (vals c) \<le> unat goal"
    using c(1,3) inv at(2) le by cases (auto simp: feed_inv_def pushes_made_def)
  moreover have "ppc c \<noteq> PushAnnounce \<longrightarrow> n_pub c = n_done c"
    using c(1) inv by cases (auto simp: feed_inv_def)
  moreover have "\<forall>j. ppc c = PushWrite j \<longrightarrow> j \<le> W"
    using c(1) inv by cases (auto simp: feed_inv_def)
  ultimately show "feed_inv U N W payload goal s'"
    using spc copies inv c(2) by (simp add: feed_inv_def)
  show "r = None \<Longrightarrow> pushes_made s' (unat i)"
    using c(1) at(2) c(2-4) n by cases (auto simp: pushes_made_def)
  show "r = Some seq \<Longrightarrow> seq = i + 1 \<and> ppc (sp_core s') = PushIdle \<and> length (vals (sp_core s')) = Suc (unat i)" for seq
    using c(1) at(2) c(2-4) n \<open>seq_at (Suc (unat i)) = i + 1\<close> le by cases (auto simp: pushes_made_def)
qed (use step in \<open>auto elim: spc_pushE\<close>)

lemma spc_poll_frame:
  assumes "spc_poll U N W limit r s s'"
  shows "vals (sp_core s') = vals (sp_core s)" and "ppc (sp_core s') = ppc (sp_core s)"
    and "n_pub (sp_core s') = n_pub (sp_core s)" and "n_done (sp_core s') = n_done (sp_core s)"
    and "sp_seen s \<le> sp_seen s'"
  using assms by (auto elim!: spc_pollE dest: read_step_frame)

text \<open>While a poll runs, its statistics are not both zero once it has passed its first number.\<close>

definition poll_of :: "usize \<Rightarrow> 'w spc \<Rightarrow> bool" where
  "poll_of limit s \<longleftrightarrow> (case sp_pc s of
       PollIdle \<Rightarrow> True
     | PollRun limit' newest read dropped \<Rightarrow> limit' = limit \<and> (read = 0 \<and> dropped = 0 \<longrightarrow> sp_at s < sp_seen s)
     | LatestRun newest \<Rightarrow> False)"

lemma feed_poll:
  assumes inv: "feed_inv U N W payload goal s" and step: "spc_poll U N W limit r s s'"
  shows "feed_inv U N W payload goal s'"
proof -
  note bounds = feed_inv_bounds [OF inv] and frame = spc_poll_frame [OF step]
  have spc: "spc_inv U N W s'" "copies_ok N W (sp_core s')"
  proof -
    have s: "spc_inv U N W s" "copies_ok N W (sp_core s)" using inv by (simp_all add: feed_inv_def)
    from spc_inv_poll [OF s(1) step] show "spc_inv U N W s'" .
    have "sp_core s' = sp_core s \<or> sqc_step N W (sp_core s) (sp_core s')"
      by (rule spc.sim_step [OF s(1) spc_step.poll [OF step]])
    with s(2) show "copies_ok N W (sp_core s')" using sqc_copies.inv_step by metis
  qed
  have near: "p - sp_at s < SPAN" if "p \<le> n_pub (sp_core s)" for p using that bounds by linarith
  have core: "sqc_inv W (sp_core s)" using inv by (simp add: feed_inv_def spc_inv_def)
  have pending: "sp_at s' < unat goal \<or> sp_log s' \<noteq> [] \<and> fst (last (sp_log s')) = sp_at s' \<or> sp_at s' = sp_at s \<and> sp_log s' = sp_log s"
    using step
  proof cases
    case (poll_begin p dropped l)
    have "sc_last_seq (sp_con s) = seq_at (sp_at s)" using bounds(6) poll_begin by (simp add: poll_inv_def at_rest_def)
    moreover from this have "sp_at s < p" using poll_begin bounds(1) by (cases "sp_at s = p") auto
    moreover have "0 < N" using inv by (simp add: feed_inv_def spc_inv_def)
    ultimately show ?thesis
      using poll_jump_window(3) [of N U "sp_at s" p dropped l] poll_begin near [of p] bounds by auto
  next
    case (poll_miss newest read dropped c)
    note adv = run_ok_advance [OF bounds(6) poll_miss(3-5) bounds(7)]
    have "Suc (sp_at s) < length (vals (sp_core s))"
      using missed_is_replaced [OF adv(5) _ _ core poll_miss(6) [unfolded adv(2)]] adv(1) by simp
    then show ?thesis using poll_miss bounds(4) by simp
  qed auto
  have "\<not> sp_lapped s'"
    using step inv near by cases (auto simp: feed_inv_def not_le)
  with spc pending inv frame show ?thesis by (auto simp: feed_inv_def)
qed

lemma last_entry_le:
  assumes "poll_inv U N s" and "sp_log s \<noteq> []"
  shows "fst (last (sp_log s)) \<le> sp_at s"
  using assms(1) last_in_set [OF assms(2)] by (cases "last (sp_log s)") (auto simp: poll_inv_def entry_ok_def)

lemma feed_poll_result:
  assumes inv: "feed_inv U N W payload goal s" and limit: "0 < limit" "poll_of limit s"
    and step: "spc_poll U N W limit r s s'"
  shows "poll_of limit s'" and "case r of
      None \<Rightarrow> last_logged s' = last_logged s \<and> sp_read s' = sp_read s \<and> sp_dropped s' = sp_dropped s
    | Some (Hooked seq v) \<Rightarrow> last_logged s < seq \<and> v = payload (seq - 1) \<and> last_logged s' = seq \<and>
        sp_read s' = sp_read s \<and> sp_dropped s' = sp_dropped s
    | Some (Polled stats) \<Rightarrow> sp_pc s' = PollIdle \<and> last_logged s' = last_logged s \<and>
        sp_read s' = sp_read s + ps_read stats \<and> sp_dropped s' = sp_dropped s + ps_dropped stats \<and>
        ps_newest stats = seq_at (sp_seen s') \<and> ps_read stats + ps_dropped stats \<le> sp_at s' \<and>
        (ps_read stats = 0 \<and> ps_dropped stats = 0 \<longrightarrow> sp_at s' = sp_seen s')"
proof -
  note bounds = feed_inv_bounds [OF inv] and after = feed_inv_bounds [OF feed_poll [OF inv step]]
  have rest: "sc_last_seq (sp_con s) = seq_at (sp_at s)" if "sp_pc s = PollIdle"
    using bounds(6) that by (simp add: poll_inv_def at_rest_def)
  have start: "sp_at s + dropped < p" if "sp_pc s = PollIdle" "sp_seen s \<le> p" "p \<le> n_pub (sp_core s)"
      "seq_at p \<noteq> sc_last_seq (sp_con s)" "poll_jump U N (sc_last_seq (sp_con s)) (seq_at p) = (dropped, l)" for p dropped l
  proof -
    have "sp_at s < p" using that(2,4) rest [OF that(1)] bounds(1) by (cases "sp_at s = p") auto
    moreover have "0 < N" using inv by (simp add: feed_inv_def spc_inv_def)
    ultimately show ?thesis
      using poll_jump_window(3) [of N U "sp_at s" p dropped l] that rest bounds by simp
  qed
  have "0 < U" using bounds(7) SPAN_pos by linarith
  then have counted: "sat_add U dropped (Suc 0) \<noteq> 0" for dropped by (simp add: sat_add_def min_def)
  show "poll_of limit s'"
    using step limit(2) start by cases (auto simp: poll_of_def counted dest: run_ok_advance(1) [OF bounds(6) _ _ _ bounds(7)])
  from step show "case r of
      None \<Rightarrow> last_logged s' = last_logged s \<and> sp_read s' = sp_read s \<and> sp_dropped s' = sp_dropped s
    | Some (Hooked seq v) \<Rightarrow> last_logged s < seq \<and> v = payload (seq - 1) \<and> last_logged s' = seq \<and>
        sp_read s' = sp_read s \<and> sp_dropped s' = sp_dropped s
    | Some (Polled stats) \<Rightarrow> sp_pc s' = PollIdle \<and> last_logged s' = last_logged s \<and>
        sp_read s' = sp_read s + ps_read stats \<and> sp_dropped s' = sp_dropped s + ps_dropped stats \<and>
        ps_newest stats = seq_at (sp_seen s') \<and> ps_read stats + ps_dropped stats \<le> sp_at s' \<and>
        (ps_read stats = 0 \<and> ps_dropped stats = 0 \<longrightarrow> sp_at s' = sp_seen s')"
  proof cases
    case (poll_nothing p)
    have "seq_at p = seq_at (sp_at s) \<or> p = 0" using poll_nothing limit(1) rest by auto
    moreover have "sp_at s \<le> p" "p \<le> SPAN" "sp_at s \<le> SPAN" using poll_nothing bounds by linarith+
    ultimately have "sp_at s = p" using unat_seq_at_small by (metis le_zero_eq)
    with poll_nothing show ?thesis by (simp add: last_logged_def)
  next
    case (poll_hit newest read dropped v c)
    note adv = run_ok_advance [OF bounds(6) poll_hit(3-5) bounds(7)]
    have "entry_ok (vals (sp_core s')) (sp_at s') (Suc (sp_at s), v, length (vals c))"
      using after(6) poll_hit by (simp add: poll_inv_def)
    then have le: "Suc (sp_at s) \<le> length (vals c)"
      and v: "length (vals c) - Suc (sp_at s) < SPAN \<longrightarrow> v = vals c ! sp_at s" using poll_hit(2) by (auto simp: entry_ok_def)
    have vals: "vals c = vals (sp_core s)" using read_step_frame [OF poll_hit(6)] by simp
    then have "v = payload (of_nat (sp_at s))" using v le bounds(4,5) inv by (simp add: feed_inv_def)
    moreover have small: "Suc (sp_at s) \<le> SPAN" using le vals bounds(4,5) by simp
    then have seq: "seq_at (Suc (sp_at s)) = of_nat (Suc (sp_at s))" by (rule seq_at_small)
    moreover have "last_logged s < seq_at (Suc (sp_at s))"
      using last_entry_le [OF bounds(6)] small by (auto simp: last_logged_def word_less_nat_alt)
    ultimately show ?thesis using poll_hit adv(2) by (simp add: last_logged_def)
  next
    case (poll_return newest read dropped)
    have run: "run_ok N s limit newest read dropped" using bounds(6) poll_return by (simp add: poll_inv_def)
    then have "sp_read s + read + (sp_dropped s + dropped) = sp_at s" "newest = seq_at (sp_seen s)" by (simp_all add: run_ok_def)
    moreover have "sp_at s = sp_seen s" if "read = 0" "dropped = 0"
      using run_ok_more [OF run bounds(1)] poll_return(4) limit(1) that bounds(1) by auto
    ultimately show ?thesis using poll_return by (simp add: last_logged_def)
  qed (auto simp: last_logged_def)
qed

end
