(* ===== verification/SeqRing_Threads.thy ===== *)
theory SeqRing_Threads
  imports SeqRing_Feed
begin

text \<open>
  The threaded tests of the sequence ring as programs of two threads. In the draining tests a producer pushes
  \<open>goal\<close> values without ever waiting, while the consumer polls until a poll that began after the producer had
  finished finds nothing; the closure checks every item, and the test then demands that the items read and
  dropped are \<open>goal\<close> in number. Locale \<open>drain_test\<close> proves it once, for the unit test and for the model checker's
  version of it.
\<close>

section \<open>The threads\<close>

text \<open>
  The producer: the \<open>i\<close>-th round pushes \<open>payload i\<close>; \<open>check\<close> is what is asserted of the number returned, and
  \<open>ending\<close> what follows the loop.
\<close>

datatype pusher_pc = PushLoop u32 | Signal | PushesDone | WrongNumber

definition enter_pushes :: "pusher_pc \<Rightarrow> u32 \<Rightarrow> u32 \<Rightarrow> pusher_pc" where
  "enter_pushes ending goal i = (if i < goal then PushLoop i else ending)"

definition pushing_each :: "(u32 \<Rightarrow> u32 \<Rightarrow> bool) \<Rightarrow> pusher_pc \<Rightarrow> (u32 \<Rightarrow> 'w list) \<Rightarrow> u32 \<Rightarrow>
    ('w list flag_call, u32 flag_result, pusher_pc) thread" where
  "pushing_each check ending payload goal = Thread
     (\<lambda>p. case p of PushLoop i \<Rightarrow> Some (Work (payload i)) | Signal \<Rightarrow> Some Store_True | _ \<Rightarrow> None)
     (\<lambda>p result. case (p, result) of
        (PushLoop i, Worked seq) \<Rightarrow> if check i seq then enter_pushes ending goal (i + 1) else WrongNumber
      | (Signal, Stored) \<Rightarrow> PushesDone
      | _ \<Rightarrow> p)"

text \<open>
  The consumer: \<open>InPoll finished prev acc\<close> while a poll runs, the closure of which is called at each \<open>Hooked\<close>
  event. \<open>add\<close> accounts for the statistics a poll returns.
\<close>

datatype 'acc drainer_pc = LoadDone u32 'acc | InPoll bool u32 'acc | DrainOver u32 'acc | Mismatch

definition draining :: "usize \<Rightarrow> (u32 \<Rightarrow> 'w list \<Rightarrow> bool) \<Rightarrow> ('acc \<Rightarrow> poll_stats \<Rightarrow> 'acc) \<Rightarrow>
    (usize flag_call, 'w poll_event flag_result, 'acc drainer_pc) thread" where
  "draining limit check add = Thread
     (\<lambda>q. case q of LoadDone _ _ \<Rightarrow> Some Load_Flag | InPoll _ _ _ \<Rightarrow> Some (Work limit) | _ \<Rightarrow> None)
     (\<lambda>q result. case (q, result) of
        (LoadDone prev acc, Loaded finished) \<Rightarrow> InPoll finished prev acc
      | (InPoll finished prev acc, Worked (Hooked seq v)) \<Rightarrow>
          if prev < seq \<and> check seq v then InPoll finished seq acc else Mismatch
      | (InPoll finished prev acc, Worked (Polled stats)) \<Rightarrow>
          if finished \<and> ps_read stats = 0 \<and> ps_dropped stats = 0 then DrainOver prev (add acc stats)
          else LoadDone prev (add acc stats)
      | _ \<Rightarrow> q)"

lemma pushing_each_simps [simp]:
  "next_call (pushing_each check ending payload goal) (PushLoop i) = Some (Work (payload i))"
  "next_call (pushing_each check ending payload goal) Signal = Some Store_True"
  "next_call (pushing_each check ending payload goal) PushesDone = None"
  "next_call (pushing_each check ending payload goal) WrongNumber = None"
  "on_return (pushing_each check ending payload goal) (PushLoop i) (Worked seq) =
     (if check i seq then enter_pushes ending goal (i + 1) else WrongNumber)"
  "on_return (pushing_each check ending payload goal) Signal Stored = PushesDone"
  by (simp_all add: pushing_each_def)

lemma draining_simps [simp]:
  "next_call (draining limit test add) (LoadDone l a) = Some Load_Flag"
  "next_call (draining limit test add) (InPoll f l a) = Some (Work limit)"
  "next_call (draining limit test add) (DrainOver l a) = None"
  "next_call (draining limit test add) Mismatch = None"
  "on_return (draining limit test add) (LoadDone l a) (Loaded f) = InPoll f l a"
  "on_return (draining limit test add) (InPoll f l a) (Worked (Hooked seq v)) =
     (if l < seq \<and> test seq v then InPoll f seq a else Mismatch)"
  "on_return (draining limit test add) (InPoll f l a) (Worked (Polled stats)) =
     (if f \<and> ps_read stats = 0 \<and> ps_dropped stats = 0 then DrainOver l (add a stats) else LoadDone l (add a stats))"
  by (simp_all add: draining_def)

section \<open>The draining test\<close>

type_synonym ('w, 'acc) drain_state = "('w spc \<times> bool) \<times> pusher_pc \<times> 'acc drainer_pc"

definition drain_init :: "usize \<Rightarrow> nat \<Rightarrow> u32 \<Rightarrow> 'acc \<Rightarrow> ('w, 'acc) drain_state \<Rightarrow> bool" where
  "drain_init U N goal start x \<longleftrightarrow> spc_init U N (fst (fst x)) \<and> \<not> snd (fst x) \<and>
     snd x = (enter_pushes Signal goal 0, LoadDone 0 start)"

definition drain_step :: "usize \<Rightarrow> nat \<Rightarrow> nat \<Rightarrow> usize \<Rightarrow> (u32 \<Rightarrow> 'w list) \<Rightarrow> (u32 \<Rightarrow> 'w list \<Rightarrow> bool) \<Rightarrow>
    ('acc \<Rightarrow> poll_stats \<Rightarrow> 'acc) \<Rightarrow> u32 \<Rightarrow> ('w, 'acc) drain_state \<Rightarrow> ('w, 'acc) drain_state \<Rightarrow> bool" where
  "drain_step U N W limit payload test add goal = duo_step (push_calls W) (poll_calls U N W)
     (pushing_each (\<lambda>_ _. True) Signal payload goal) (draining limit test add)"

fun drainer_at :: "usize \<Rightarrow> u32 \<Rightarrow> (nat \<Rightarrow> nat \<Rightarrow> 'acc) \<Rightarrow> 'w spc \<Rightarrow> 'acc drainer_pc \<Rightarrow> bool" where
  "drainer_at limit goal acc_of s (LoadDone l a) \<longleftrightarrow> l = last_logged s \<and> a = acc_of (sp_read s) (sp_dropped s) \<and>
     sp_pc s = PollIdle"
| "drainer_at limit goal acc_of s (InPoll f l a) \<longleftrightarrow> l = last_logged s \<and> a = acc_of (sp_read s) (sp_dropped s) \<and>
     poll_of limit s \<and> (f \<longrightarrow> sp_seen s = unat goal)"
| "drainer_at limit goal acc_of s (DrainOver l a) \<longleftrightarrow> l = last_logged s \<and> a = acc_of (sp_read s) (sp_dropped s) \<and>
     sp_pc s = PollIdle \<and> sp_at s = unat goal"
| "drainer_at limit goal acc_of s Mismatch \<longleftrightarrow> False"

fun pusher_at :: "u32 \<Rightarrow> 'w spc \<Rightarrow> pusher_pc \<Rightarrow> bool" where
  "pusher_at goal s (PushLoop i) \<longleftrightarrow> i < goal \<and> pushes_made s (unat i)"
| "pusher_at goal s WrongNumber \<longleftrightarrow> False"
| "pusher_at goal s p \<longleftrightarrow> ppc (sp_core s) = PushIdle \<and> length (vals (sp_core s)) = unat goal"

lemma drainer_at_frame:
  assumes "drainer_at limit goal acc_of s q" and "sp_pc s' = sp_pc s" "sp_seen s' = sp_seen s" "sp_at s' = sp_at s"
    "sp_read s' = sp_read s" "sp_dropped s' = sp_dropped s" "sp_log s' = sp_log s"
  shows "drainer_at limit goal acc_of s' q"
  using assms by (cases q) (simp_all add: last_logged_def poll_of_def split: poll_pc.splits)

lemma pusher_at_frame:
  assumes "pusher_at goal s p" and "vals (sp_core s') = vals (sp_core s)" and "ppc (sp_core s') = ppc (sp_core s)"
  shows "pusher_at goal s' p"
  using assms by (cases p) (simp_all add: pushes_made_def)

lemma feed_see_published:
  assumes inv: "feed_inv U N W payload goal s" and idle: "sp_pc s = PollIdle"
  shows "feed_inv U N W payload goal (see_published s)"
proof -
  note bounds = feed_inv_bounds [OF inv]
  have "spc_inv U N W s" using inv by (simp add: feed_inv_def)
  then have seen: "spc_inv U N W (s\<lparr>sp_seen := n_pub (sp_core s),
      sp_lapped := sp_lapped s \<or> SPAN \<le> n_pub (sp_core s) - sp_at s\<rparr>)"
    using idle bounds(2) by (intro spc_inv_nothing) simp_all
  have "\<not> SPAN \<le> n_pub (sp_core s) - sp_at s" using bounds by linarith
  moreover have "\<not> sp_lapped s" using inv by (simp add: feed_inv_def)
  ultimately have eq: "see_published s = s\<lparr>sp_seen := n_pub (sp_core s), sp_lapped := sp_lapped s \<or> SPAN \<le> n_pub (sp_core s) - sp_at s\<rparr>"
    by (cases s) (simp add: see_published_def)
  have "spc_inv U N W (see_published s)" unfolding eq by (rule seen)
  with inv show ?thesis by (simp add: feed_inv_def see_published_def)
qed

lemma enter_pushes_at:
  assumes "ppc (sp_core s) = PushIdle" and "length (vals (sp_core s)) = unat i" and "i \<le> goal"
    and "ending = Signal \<or> ending = PushesDone"
  shows "pusher_at goal s (enter_pushes ending goal i)"
proof (cases "i < goal")
  case False
  with assms(3) have "i = goal" by simp
  with assms show ?thesis by (auto simp: enter_pushes_def)
qed (use assms in \<open>simp add: enter_pushes_def pushes_made_def\<close>)

lemma feed_init:
  assumes "spc_init U N s" and "unat goal < SPAN" and "ending = Signal \<or> ending = PushesDone"
  shows "feed_inv U N W payload goal s" and "pusher_at goal s (enter_pushes ending goal 0)"
    and "sp_pc s = PollIdle" "last_logged s = 0" "sp_read s = 0" "sp_dropped s = 0"
proof -
  have "copies_ok N W (sp_core s)" using assms(1) by (auto simp: spc_init_def intro: sqc_copies.inv_init)
  with spc_inv_init [OF assms(1), of W] show "feed_inv U N W payload goal s"
    using assms(1,2) by (auto simp: feed_inv_def spc_init_def sqc_init_def)
  show "pusher_at goal s (enter_pushes ending goal 0)"
    using assms(1,3) by (intro enter_pushes_at) (auto simp: spc_init_def sqc_init_def)
qed (use assms(1) in \<open>auto simp: spc_init_def last_logged_def\<close>)

text \<open>A push, from the side of the program: the producer's loop gets on.\<close>

lemma pusher_push:
  assumes inv: "feed_inv U N W payload goal s" and at: "pusher_at goal s (PushLoop i)"
    and step: "spc_push W (payload i) r s s'" and check: "check i (i + 1)" and ending: "ending = Signal \<or> ending = PushesDone"
  shows "pusher_at goal s' (case r of None \<Rightarrow> PushLoop i
    | Some seq \<Rightarrow> if check i seq then enter_pushes ending goal (i + 1) else WrongNumber)"
proof (cases r)
  case None
  with feed_push(2) [OF inv _ _ step] at show ?thesis by simp
next
  case (Some seq)
  have i: "i < goal" "pushes_made s (unat i)" using at by simp_all
  from feed_push(3) [OF inv i step Some] have s': "seq = i + 1" "ppc (sp_core s') = PushIdle"
    "length (vals (sp_core s')) = Suc (unat i)" by simp_all
  have "unat (i + 1) = Suc (unat i)" "i + 1 \<le> goal"
    using u32_loop_counter [OF i(1)] i(1) by (auto simp: word_le_nat_alt word_less_nat_alt)
  with s' have "pusher_at goal s' (enter_pushes ending goal (i + 1))" by (intro enter_pushes_at ending) simp_all
  with Some s' check show ?thesis by simp
qed

text \<open>How many accesses the producer still makes.\<close>

fun push_rem :: "nat \<Rightarrow> push_pc \<Rightarrow> nat" where
  "push_rem W PushIdle = W + 4"
| "push_rem W PushInvalidate = W + 3"
| "push_rem W (PushWrite j) = W - j + 2"
| "push_rem W PushAnnounce = 1"

fun pushes_left :: "nat \<Rightarrow> u32 \<Rightarrow> push_pc \<Rightarrow> pusher_pc \<Rightarrow> nat" where
  "pushes_left W goal pc (PushLoop i) = (unat goal - Suc (unat i)) * (W + 4) + push_rem W pc + 1"
| "pushes_left W goal pc Signal = 1"
| "pushes_left W goal pc p = 0"

lemma push_enabled:
  assumes inv: "feed_inv U N W payload goal s" and len: "length (payload i) = W"
  shows "\<exists>r s'. spc_push W (payload i) r s s' \<and>
    (r = None \<longrightarrow> push_rem W (ppc (sp_core s')) < push_rem W (ppc (sp_core s)))"
proof -
  have "\<exists>c. push_step W (sp_core s) c \<and> (ppc (sp_core s) = PushIdle \<longrightarrow> vals c = vals (sp_core s) @ [payload i]) \<and>
      (ppc c = PushIdle \<or> push_rem W (ppc c) < push_rem W (ppc (sp_core s)))"
  proof (cases "ppc (sp_core s)")
    case PushIdle
    from push_step.push_begin [OF this len] PushIdle show ?thesis by force
  next
    case PushInvalidate
    from push_step.push_invalidate [OF this, of W] PushInvalidate show ?thesis by force
  next
    case (PushWrite j)
    then have "j \<le> W" using inv by (simp add: feed_inv_def)
    show ?thesis
    proof (cases "j = W")
      case True
      from push_step.push_number [of "sp_core s" W] PushWrite True show ?thesis by force
    next
      case False
      with \<open>j \<le> W\<close> have "j < W" by simp
      from push_step.push_word [OF PushWrite this] PushWrite \<open>j < W\<close> show ?thesis by force
    qed
  next
    case PushAnnounce
    from push_step.push_publish [OF this, of W] PushAnnounce show ?thesis by force
  qed
  then obtain c where c: "push_step W (sp_core s) c" "ppc (sp_core s) = PushIdle \<longrightarrow> vals c = vals (sp_core s) @ [payload i]"
    "ppc c = PushIdle \<or> push_rem W (ppc c) < push_rem W (ppc (sp_core s))" by blast
  from spc_push.access [OF c(1,2)] c(3) show ?thesis by force
qed

locale drain_test =
  fixes U :: usize and N W :: nat and limit :: usize and payload :: "u32 \<Rightarrow> 'w list" and test :: "u32 \<Rightarrow> 'w list \<Rightarrow> bool"
    and add :: "'acc \<Rightarrow> poll_stats \<Rightarrow> 'acc" and acc_of :: "nat \<Rightarrow> nat \<Rightarrow> 'acc"
  assumes limit_pos: "0 < limit" and payload_length: "length (payload i) = W" and test_payload: "test seq (payload (seq - 1))"
    and add_acc: "add (acc_of r d) stats = acc_of (r + ps_read stats) (d + ps_dropped stats)"
begin

abbreviation init where "init goal \<equiv> \<lambda>x. unat goal < SPAN \<and> drain_init U N goal (acc_of 0 0) x"

abbreviation step where "step \<equiv> drain_step U N W limit payload test add"

definition drain_inv :: "u32 \<Rightarrow> 'w spc \<times> bool \<Rightarrow> pusher_pc \<Rightarrow> 'acc drainer_pc \<Rightarrow> bool" where
  "drain_inv goal x p q \<longleftrightarrow> feed_inv U N W payload goal (fst x) \<and> pusher_at goal (fst x) p \<and>
     snd x = (p = PushesDone) \<and> drainer_at limit goal acc_of (fst x) q"

lemma drain_inv_push:
  assumes inv: "drain_inv goal x p q" and call: "next_call (pushing_each (\<lambda>_ _. True) Signal payload goal) p = Some c"
    and acc: "push_calls W c r x y"
  shows "drain_inv goal y (after_access (pushing_each (\<lambda>_ _. True) Signal payload goal) p r) q"
proof (cases p)
  case (PushLoop i)
  obtain s where x: "x = (s, False)" using inv PushLoop by (cases x) (simp add: drain_inv_def)
  with acc call PushLoop obtain r' s' where step: "spc_push W (payload i) r' s s'" "r = map_option Worked r'" "y = (s', False)"
    by (auto simp: flagged_simps)
  have s: "feed_inv U N W payload goal s" "pusher_at goal s (PushLoop i)" "drainer_at limit goal acc_of s q"
    using inv by (simp_all add: drain_inv_def x PushLoop)
  have i: "i < goal" "pushes_made s (unat i)" using s(2) by simp_all
  note push = feed_push [OF s(1) i step(1)]
  have "drainer_at limit goal acc_of s' q" by (rule drainer_at_frame [OF s(3)]) (fact push)+
  moreover have "enter_pushes Signal goal j \<noteq> PushesDone" for j by (simp add: enter_pushes_def)
  ultimately show ?thesis
    using push(1) pusher_push [OF s(1,2) step(1), of "\<lambda>_ _. True" Signal] step(2,3)
    by (cases r') (auto simp: drain_inv_def PushLoop)
qed (use assms in \<open>auto simp: drain_inv_def flagged_simps\<close>)

lemma drain_inv_poll:
  assumes inv: "drain_inv goal x p q" and call: "next_call (draining limit test add) q = Some c"
    and acc: "poll_calls U N W c r x y"
  shows "drain_inv goal y p (after_access (draining limit test add) q r)"
proof -
  obtain s f where x: "x = (s, f)" by (cases x)
  have s: "feed_inv U N W payload goal s" "pusher_at goal s p" "f = (p = PushesDone)" "drainer_at limit goal acc_of s q"
    using inv by (simp_all add: drain_inv_def x)
  show ?thesis
  proof (cases q)
    case (LoadDone l a)
    then have idle: "sp_pc s = PollIdle" using s(4) by simp
    show ?thesis
    proof (cases "r = Some (Loaded True)")
      case True
      with acc call LoadDone x have y: "y = (see_published s, f)" "f" by (auto simp: flagged_simps)
      then have "n_pub (sp_core s) = unat goal" using feed_inv_bounds(8) [OF s(1)] s(2,3) by simp
      then show ?thesis
        using s y True feed_see_published [OF s(1) idle] pusher_at_frame [OF s(2), of "see_published s"] idle
        by (auto simp: drain_inv_def LoadDone see_published_def last_logged_def poll_of_def)
    next
      case False
      with acc call LoadDone x have "y = x" "r = Some (Loaded False)" by (auto simp: flagged_simps)
      with s x idle show ?thesis by (simp add: drain_inv_def LoadDone poll_of_def)
    qed
  next
    case (InPoll fin l a)
    with acc call x obtain e s' where step: "spc_poll U N W limit e s s'" "r = map_option Worked e" "y = (s', f)"
      by (auto simp: flagged_simps)
    have poll: "poll_of limit s" and at: "l = last_logged s" "a = acc_of (sp_read s) (sp_dropped s)"
      "fin \<longrightarrow> sp_seen s = unat goal" using s(4) by (simp_all add: InPoll)
    note result = feed_poll_result [OF s(1) limit_pos poll step(1)] and feed = feed_poll [OF s(1) step(1)]
    have seen: "fin \<longrightarrow> sp_seen s' = unat goal"
      using at(3) spc_poll_frame(5) [OF step(1)] feed_inv_bounds [OF feed] by auto
    have "pusher_at goal s' p" by (rule pusher_at_frame [OF s(2)]) (fact spc_poll_frame [OF step(1)])+
    moreover have "drainer_at limit goal acc_of s' (after_access (draining limit test add) q r)"
    proof (cases e)
      case None
      with result at seen step(2) show ?thesis by (simp add: InPoll)
    next
      case (Some event)
      show ?thesis
      proof (cases event)
        case (Hooked seq v)
        with Some result at seen step(2) test_payload [of seq] show ?thesis by (simp add: InPoll)
      next
        case (Polled stats)
        with Some result at seen step(2) show ?thesis by (auto simp: InPoll add_acc)
      qed
    qed
    ultimately show ?thesis using feed s(3) step(3) by (simp add: drain_inv_def)
  qed (use call in auto)
qed

sublocale duo_invariant "init goal" "push_calls W" "poll_calls U N W"
    "pushing_each (\<lambda>_ _. True) Signal payload goal" "draining limit test add" "drain_inv goal" for goal
proof
  show "drain_inv goal x p q" if "init goal (x, p, q)" for x p q
    using that feed_init [of U N "fst x" goal Signal] by (auto simp: drain_inv_def drain_init_def enter_pushes_def)
qed (auto intro: drain_inv_push drain_inv_poll)

lemma drain_result:
  assumes "reach (init goal) (step goal) ((s, f), p, q)"
  shows "p \<noteq> WrongNumber \<and> q \<noteq> Mismatch \<and> (\<forall>l a. q = DrainOver l a \<longrightarrow> l = goal \<and>
    a = acc_of (sp_read s) (sr_dropped (sp_con s)) \<and> sp_read s + sr_dropped (sp_con s) = unat goal)"
proof -
  from duo_reach_inv [of goal, OF assms [unfolded drain_step_def]] have
    s: "feed_inv U N W payload goal s" "pusher_at goal s p" "drainer_at limit goal acc_of s q"
    by (simp_all add: drain_inv_def)
  note bounds = feed_inv_bounds [OF s(1)]
  have "l = goal \<and> a = acc_of (sp_read s) (sr_dropped (sp_con s)) \<and> sp_read s + sr_dropped (sp_con s) = unat goal"
    if q: "q = DrainOver l a" for l a
  proof -
    have at: "l = last_logged s" "a = acc_of (sp_read s) (sp_dropped s)" "sp_pc s = PollIdle" "sp_at s = unat goal"
      using s(3) by (simp_all add: q)
    have sum: "sp_read s + sp_dropped s = unat goal" "sc_dropped_accum (sp_con s) = min (sp_dropped s) U"
      using bounds(6) at(3,4) by (simp_all add: poll_inv_def at_rest_def)
    have goal: "seq_at (unat goal) = goal" using bounds(5) by (simp add: word_unat_eq_iff)
    have "last_logged s = goal"
    proof (cases "goal = 0")
      case True
      have "length (sp_log s) = sp_read s" using bounds(6) at(3) by (simp add: poll_inv_def at_rest_def)
      with True sum(1) show ?thesis by (simp add: last_logged_def)
    next
      case False
      then have "sp_log s \<noteq> []" "fst (last (sp_log s)) = unat goal"
        using s(1) at(4) by (simp_all add: feed_inv_def unat_gt_0)
      with goal show ?thesis by (simp add: last_logged_def)
    qed
    moreover have "sr_dropped (sp_con s) = sp_dropped s" using sum bounds(5,7) by (simp add: sr_dropped_def)
    ultimately show ?thesis using at sum(1) by simp
  qed
  with s show ?thesis by auto
qed

text \<open>The producer can always finish on its own, and after it the consumer.\<close>

lemma keep:
  assumes "(step goal)\<^sup>*\<^sup>* x y" and "case x of (s, p, q) \<Rightarrow> drain_inv goal s p q"
  shows "case y of (s, p, q) \<Rightarrow> drain_inv goal s p q"
  using assms
proof (induction rule: rtranclp_induct)
  case (step y z)
  from inv_step [of goal y z] step show ?case by (simp add: drain_step_def)
qed

lemma producer_gets_on:
  assumes inv: "drain_inv goal x p q" and "p \<noteq> PushesDone"
  shows "\<exists>x' p'. step goal (x, p, q) (x', p', q) \<and>
    pushes_left W goal (ppc (sp_core (fst x'))) p' < pushes_left W goal (ppc (sp_core (fst x))) p"
proof -
  obtain s where x: "x = (s, False)" using assms by (cases x) (simp add: drain_inv_def)
  have s: "feed_inv U N W payload goal s" "pusher_at goal s p" using inv by (simp_all add: drain_inv_def x)
  show ?thesis
  proof (cases p)
    case (PushLoop i)
    obtain r s' where step: "spc_push W (payload i) r s s'"
      "r = None \<longrightarrow> push_rem W (ppc (sp_core s')) < push_rem W (ppc (sp_core s))"
      using push_enabled [OF s(1) payload_length [of i]] by blast
    have i: "i < goal" "pushes_made s (unat i)" using s(2) by (simp_all add: PushLoop)
    let ?T = "pushing_each (\<lambda>_ _. True) Signal payload goal"
    have go: "step goal (x, p, q) ((s', False), after_access ?T p (map_option Worked r), q)"
      unfolding drain_step_def
      by (rule duo_step.left) (use flagged.work [of "spc_push W", OF step(1), of see_published False] in \<open>auto simp: PushLoop x\<close>)
    have "pushes_left W goal (ppc (sp_core s')) (after_access ?T p (map_option Worked r)) < pushes_left W goal (ppc (sp_core s)) p"
    proof (cases r)
      case None
      with step(2) show ?thesis by (simp add: PushLoop)
    next
      case (Some seq)
      have idle: "ppc (sp_core s') = PushIdle" using feed_push(3) [OF s(1) i step(1) Some] by simp
      have pos: "0 < push_rem W (ppc (sp_core s))" by (cases "ppc (sp_core s)") simp_all
      have i1: "unat (i + 1) = Suc (unat i)" using u32_loop_counter [OF i(1)] by simp
      have "pushes_left W goal PushIdle (enter_pushes Signal goal (i + 1)) \<le> (unat goal - Suc (unat i)) * (W + 4) + 1"
      proof (cases "i + 1 < goal")
        case True
        then have "Suc (unat i) < unat goal" using i1 by (simp add: word_less_nat_alt)
        then have "unat goal - Suc (unat i) = Suc (unat goal - Suc (Suc (unat i)))" by linarith
        with True i1 show ?thesis by (simp add: enter_pushes_def)
      qed (simp add: enter_pushes_def)
      with Some pos idle show ?thesis by (simp add: PushLoop)
    qed
    with go show ?thesis
      by (intro exI [of _ "(s', False)"] exI [of _ "after_access ?T p (map_option Worked r)"]) (simp add: x)
  next
    case Signal
    have "step goal (x, p, q) ((s, True), after_access (pushing_each (\<lambda>_ _. True) Signal payload goal) p (Some Stored), q)"
      unfolding drain_step_def by (rule duo_step.left) (auto simp: Signal x flagged_simps)
    then show ?thesis
      by (intro exI [of _ "(s, True)"] exI [of _ PushesDone]) (simp add: Signal)
  qed (use assms s(2) in auto)
qed

lemma producer_can_end:
  assumes "case st of (x, p, q) \<Rightarrow> drain_inv goal x p q"
  shows "\<exists>y. (step goal)\<^sup>*\<^sup>* st y \<and> fst (snd y) = PushesDone"
proof (rule can_end [where I = "\<lambda>(x, p, q). drain_inv goal x p q"
      and left = "\<lambda>(x, p, q). pushes_left W goal (ppc (sp_core (fst x))) p"])
  show "case st of (x, p, q) \<Rightarrow> drain_inv goal x p q" by fact
  show "case y of (x, p, q) \<Rightarrow> drain_inv goal x p q"
    if "case z of (x, p, q) \<Rightarrow> drain_inv goal x p q" "step goal z y" for z y
    using keep that by blast
  fix y :: "('w, 'acc) drain_state"
  assume y: "case y of (x, p, q) \<Rightarrow> drain_inv goal x p q" "fst (snd y) \<noteq> PushesDone"
  obtain x p q where yy: "y = (x, p, q)" by (cases y)
  with y have "drain_inv goal x p q" "p \<noteq> PushesDone" by simp_all
  from producer_gets_on [OF this] obtain x' p' where "step goal y (x', p', q)"
    "pushes_left W goal (ppc (sp_core (fst x'))) p' < pushes_left W goal (ppc (sp_core (fst x))) p" by (auto simp: yy)
  then show "\<exists>z. (step goal)\<^sup>*\<^sup>* y z \<and> (fst (snd z) = PushesDone \<or>
      (case z of (x, p, q) \<Rightarrow> pushes_left W goal (ppc (sp_core (fst x))) p) <
      (case y of (x, p, q) \<Rightarrow> pushes_left W goal (ppc (sp_core (fst x))) p))"
    by (intro exI [of _ "(x', p', q)"]) (simp add: yy r_into_rtranclp)
qed

definition round_bound :: nat where "round_bound = Suc (N * (W + 2))"

definition stage :: "'w spc \<Rightarrow> 'acc drainer_pc \<Rightarrow> nat" where
  "stage s q = (case q of
       LoadDone l a \<Rightarrow> round_bound + 2
     | InPoll f l a \<Rightarrow> (case sp_pc s of
           PollRun limit' newest read dropped \<Rightarrow>
             if read < limit' \<and> sc_last_seq (sp_con s) \<noteq> newest then poll_work W s else round_bound + 4
         | _ \<Rightarrow> if f then round_bound + 1 else round_bound + 3)
     | _ \<Rightarrow> 0)"

definition drain_left :: "u32 \<Rightarrow> 'w spc \<Rightarrow> 'acc drainer_pc \<Rightarrow> nat" where
  "drain_left goal s q = (unat goal - sp_at s) * (round_bound + 5) + stage s q"

lemma round_work:
  assumes "feed_inv U N W payload goal s" and "polling s"
  shows "poll_work W s \<le> round_bound"
  unfolding round_bound_def by (rule poll_work_bound) (use assms in \<open>auto simp: feed_inv_def\<close>)

lemma stage_bound: "feed_inv U N W payload goal s \<Longrightarrow> stage s q < round_bound + 5"
  using round_work [of goal s] by (auto simp: stage_def polling_def split: drainer_pc.splits poll_pc.splits)

lemma drain_left_less:
  assumes "feed_inv U N W payload goal s'" and "sp_at s' \<le> unat goal"
    and "sp_at s < sp_at s' \<or> sp_at s = sp_at s' \<and> stage s' q' < stage s q"
  shows "drain_left goal s' q' < drain_left goal s q"
proof (cases "sp_at s = sp_at s'")
  case False
  with assms have lt: "sp_at s < sp_at s'" by simp
  then have "Suc (unat goal - sp_at s') \<le> unat goal - sp_at s" using assms(2) by linarith
  from mult_le_mono1 [OF this, of "round_bound + 5"] stage_bound [OF assms(1), of q'] show ?thesis
    unfolding drain_left_def by (simp del: mult_Suc_right)
qed (use assms in \<open>simp add: drain_left_def\<close>)

lemma poll_gets_on:
  assumes inv: "feed_inv U N W payload goal s" and at: "drainer_at limit goal acc_of s (InPoll f l a)"
    and all: "n_pub (sp_core s) = unat goal"
  shows "\<exists>e s'. spc_poll U N W limit e s s' \<and> (let q' = after_access (draining limit test add) (InPoll f l a) (map_option Worked e)
    in (\<exists>l a. q' = DrainOver l a) \<or> drain_left goal s' q' < drain_left goal s (InPoll f l a))"
proof -
  note bounds = feed_inv_bounds [OF inv]
  have spc: "spc_inv U N W s" "copies_ok N W (sp_core s)" "\<not> sp_lapped s" using inv by (simp_all add: feed_inv_def)
  have poll: "poll_of limit s" using at by simp
  have move: "(let q' = after_access (draining limit test add) (InPoll f l a) (map_option Worked e)
      in (\<exists>l a. q' = DrainOver l a) \<or> drain_left goal s' q' < drain_left goal s (InPoll f l a))"
    if step: "spc_poll U N W limit e s s'" and less: "\<And>q'. q' = after_access (draining limit test add) (InPoll f l a) (map_option Worked e) \<Longrightarrow>
      (\<exists>l a. q' = DrainOver l a) \<or> sp_at s < sp_at s' \<or> sp_at s = sp_at s' \<and> stage s' q' < stage s (InPoll f l a)" for e s'
  proof -
    note after = feed_poll [OF inv step]
    have "sp_at s' \<le> unat goal" using feed_inv_bounds [OF after] by linarith
    with drain_left_less [OF after this] less show ?thesis by (auto simp: Let_def)
  qed
  show ?thesis
  proof (cases "sp_pc s")
    case PollIdle
    show ?thesis
    proof (cases "seq_at (unat goal) = 0 \<or> seq_at (unat goal) = sc_last_seq (sp_con s)")
      case True
      have step: "spc_poll U N W limit (Some (Polled \<lparr>ps_read = 0, ps_dropped = 0, ps_newest = seq_at (unat goal)\<rparr>)) s
          (s\<lparr>sp_seen := unat goal, sp_lapped := sp_lapped s \<or> SPAN \<le> unat goal - sp_at s\<rparr>)"
        by (rule spc_poll.poll_nothing) (use PollIdle all bounds True in auto)
      show ?thesis by (intro exI conjI, rule step, rule move [OF step]) (auto simp: stage_def PollIdle)
    next
      case False
      obtain dropped after' where jump: "poll_jump U N (sc_last_seq (sp_con s)) (seq_at (unat goal)) = (dropped, after')"
        by (cases "poll_jump U N (sc_last_seq (sp_con s)) (seq_at (unat goal))")
      let ?s = "s\<lparr>sp_con := (sp_con s)\<lparr>sc_last_seq := after'\<rparr>, sp_pc := PollRun limit (seq_at (unat goal)) 0 dropped,
        sp_seen := unat goal, sp_at := sp_at s + dropped, sp_lapped := sp_lapped s \<or> SPAN \<le> unat goal - sp_at s\<rparr>"
      have step: "spc_poll U N W limit None s ?s"
        by (rule spc_poll.poll_begin) (use PollIdle all bounds False jump limit_pos in auto)
      have feed: "feed_inv U N W payload goal ?s" by (rule feed_poll [OF inv step])
      have work: "poll_work W ?s \<le> round_bound" by (rule round_work [OF feed]) (simp add: polling_def)
      have "run_ok N ?s limit (seq_at (unat goal)) 0 dropped" "sp_at ?s \<le> sp_seen ?s"
        using feed_inv_bounds(1,6) [OF feed] by (simp_all add: poll_inv_def)
      moreover have "sp_at ?s < sp_seen ?s" if "dropped = 0"
        using feed_poll_result(1) [OF inv limit_pos poll step] that by (simp add: poll_of_def)
      ultimately have "dropped = 0 \<Longrightarrow> after' \<noteq> seq_at (unat goal)"
        using run_ok_more by fastforce
      then have "dropped = 0 \<Longrightarrow> stage ?s (InPoll f l a) < stage s (InPoll f l a)"
        using work limit_pos PollIdle by (simp add: stage_def)
      then have less: "sp_at s < sp_at ?s \<or> sp_at s = sp_at ?s \<and> stage ?s (InPoll f l a) < stage s (InPoll f l a)" by auto
      show ?thesis by (intro exI conjI, rule step, intro move [OF step]) (use less in simp)
    qed
  next
    case (PollRun limit' newest read dropped)
    then have pc: "sp_pc s = PollRun limit newest read dropped" using poll by (simp add: poll_of_def)
    from poll_can_go_on [OF spc pc] obtain e s' where step: "spc_poll U N W limit e s s'" by blast
    have polling: "polling s" by (simp add: polling_def pc)
    have "(\<exists>l a. q' = DrainOver l a) \<or> sp_at s < sp_at s' \<or> sp_at s = sp_at s' \<and> stage s' q' < stage s (InPoll f l a)"
      if q': "q' = after_access (draining limit test add) (InPoll f l a) (map_option Worked e)" for q'
      using step
    proof cases
      case (poll_access newest' read' dropped' c)
      then have "poll_work W s' < poll_work W s"
        using poll_work_poll [OF spc(1,3) polling step] by (simp add: polling_def pc)
      with poll_access pc q' show ?thesis by (simp add: stage_def)
    next
      case (poll_return newest' read' dropped')
      with pc q' show ?thesis by (auto simp: stage_def)
    qed (use pc in auto)
    with move [OF step] step show ?thesis by blast
  next
    case (LatestRun newest)
    with poll show ?thesis by (simp add: poll_of_def)
  qed
qed

lemma drain_gets_on:
  assumes inv: "drain_inv goal x PushesDone q" and "\<nexists>l a. q = DrainOver l a"
  shows "\<exists>x' q'. step goal (x, PushesDone, q) (x', PushesDone, q') \<and>
    ((\<exists>l a. q' = DrainOver l a) \<or> drain_left goal (fst x') q' < drain_left goal (fst x) q)"
proof -
  obtain s where x: "x = (s, True)" using inv by (cases x) (simp add: drain_inv_def)
  have s: "feed_inv U N W payload goal s" "drainer_at limit goal acc_of s q"
    "ppc (sp_core s) = PushIdle" "length (vals (sp_core s)) = unat goal"
    using inv by (simp_all add: drain_inv_def x)
  have all: "n_pub (sp_core s) = unat goal" using feed_inv_bounds(8) [OF s(1,3)] s(4) by simp
  let ?U = "draining limit test add"
  show ?thesis
  proof (cases q)
    case (LoadDone l a)
    have "step goal (x, PushesDone, q) ((see_published s, True), PushesDone, after_access ?U q (Some (Loaded True)))"
      unfolding drain_step_def by (rule duo_step.right) (auto simp: LoadDone x flagged_simps)
    then show ?thesis
      using s(2) by (intro exI [of _ "(see_published s, True)"] exI [of _ "InPoll True l a"])
        (simp add: LoadDone x drain_left_def stage_def see_published_def)
  next
    case (InPoll f l a)
    from poll_gets_on [OF s(1) s(2) [unfolded InPoll] all] obtain e s' where step: "spc_poll U N W limit e s s'"
      "let q' = after_access ?U (InPoll f l a) (map_option Worked e)
       in (\<exists>l a. q' = DrainOver l a) \<or> drain_left goal s' q' < drain_left goal s (InPoll f l a)" by blast
    have "step goal (x, PushesDone, q) ((s', True), PushesDone, after_access ?U q (map_option Worked e))"
      unfolding drain_step_def
      by (rule duo_step.right) (use flagged.work [of "spc_poll U N W", OF step(1), of see_published True] in \<open>auto simp: InPoll x\<close>)
    with step(2) show ?thesis
      by (intro exI [of _ "(s', True)"] exI [of _ "after_access ?U q (map_option Worked e)"]) (simp add: Let_def InPoll x)
  qed (use assms(2) s(2) in auto)
qed

lemma drain_can_end:
  assumes "reach (init goal) (step goal) st"
  shows "\<exists>y. (step goal)\<^sup>*\<^sup>* st y \<and> fst (snd y) = PushesDone \<and> (\<exists>l a. snd (snd y) = DrainOver l a)"
proof -
  have inv: "case st of (x, p, q) \<Rightarrow> drain_inv goal x p q"
    using duo_reach_inv [of goal] assms unfolding drain_step_def by (cases st) auto
  from producer_can_end [OF this] obtain x q where y: "(step goal)\<^sup>*\<^sup>* st (x, PushesDone, q)" by force
  have "\<exists>z. (step goal)\<^sup>*\<^sup>* (x, PushesDone, q) z \<and> (fst (snd z) = PushesDone \<and> (\<exists>l a. snd (snd z) = DrainOver l a))"
  proof (rule can_end [where I = "\<lambda>(x, p, q). drain_inv goal x p q \<and> p = PushesDone"
        and left = "\<lambda>(x, p, q). drain_left goal (fst x) q"])
    show "case (x, PushesDone, q) of (x, p, q) \<Rightarrow> drain_inv goal x p q \<and> p = PushesDone" using keep [OF y inv] by simp
    show "case w of (x, p, q) \<Rightarrow> drain_inv goal x p q \<and> p = PushesDone"
      if "case z of (x, p, q) \<Rightarrow> drain_inv goal x p q \<and> p = PushesDone" "step goal z w" for z w
    proof -
      have "case w of (x, p, q) \<Rightarrow> drain_inv goal x p q" using keep [of goal z w] that by auto
      moreover have "fst (snd w) = PushesDone" using that by (auto simp: drain_step_def elim!: duo_stepE)
      ultimately show ?thesis by (cases w) simp
    qed
    fix z :: "('w, 'acc) drain_state"
    assume z: "case z of (x, p, q) \<Rightarrow> drain_inv goal x p q \<and> p = PushesDone"
      "\<not> (fst (snd z) = PushesDone \<and> (\<exists>l a. snd (snd z) = DrainOver l a))"
    obtain x q where zz: "z = (x, PushesDone, q)" using z(1) by (cases z) simp
    with z have "drain_inv goal x PushesDone q" "\<nexists>l a. q = DrainOver l a" by simp_all
    from drain_gets_on [OF this] obtain x' q' where "step goal z (x', PushesDone, q')"
      "(\<exists>l a. q' = DrainOver l a) \<or> drain_left goal (fst x') q' < drain_left goal (fst x) q" unfolding zz by blast
    then show "\<exists>w. (step goal)\<^sup>*\<^sup>* z w \<and> ((fst (snd w) = PushesDone \<and> (\<exists>l a. snd (snd w) = DrainOver l a)) \<or>
        (case w of (x, p, q) \<Rightarrow> drain_left goal (fst x) q) < (case z of (x, p, q) \<Rightarrow> drain_left goal (fst x) q))"
      by (intro exI [of _ "(x', PushesDone, q')"]) (simp add: zz r_into_rtranclp)
  qed
  with y show ?thesis by (meson rtranclp_trans)
qed

end

text \<open>
  The unit test: four words per item, each the round's counter, polls of up to 8, and only the items read are
  added up; the items dropped come from the consumer's own counter.
\<close>

definition repeats :: "u32 \<Rightarrow> u32 list \<Rightarrow> bool" where
  "repeats seq v \<longleftrightarrow> v = replicate 4 (seq - 1)"

definition add_read :: "nat \<Rightarrow> poll_stats \<Rightarrow> nat" where
  "add_read n stats = n + ps_read stats"

definition overwrite_init :: "usize \<Rightarrow> nat \<Rightarrow> u32 \<Rightarrow> (u32, nat) drain_state \<Rightarrow> bool" where
  "overwrite_init U N goal = drain_init U N goal 0"

definition overwrite_step :: "usize \<Rightarrow> nat \<Rightarrow> u32 \<Rightarrow> (u32, nat) drain_state \<Rightarrow> (u32, nat) drain_state \<Rightarrow> bool" where
  "overwrite_step U N = drain_step U N 4 8 (replicate 4) repeats add_read"

interpretation overwrite: drain_test U N 4 8 "replicate 4" repeats add_read "\<lambda>r d. r" for U N
  by unfold_locales (simp_all add: repeats_def add_read_def)

lemma overwrite_result:
  assumes "reach (overwrite_init U N goal) (overwrite_step U N goal) ((s, f), p, q)" and "unat goal < SPAN"
  shows "q \<noteq> Mismatch \<and> (\<forall>last_seq total. q = DrainOver last_seq total \<longrightarrow>
    last_seq = goal \<and> total + sr_dropped (sp_con s) = unat goal)"
  using overwrite.drain_result [of goal U N s f p q] assms by (auto simp: overwrite_init_def overwrite_step_def)

lemma overwrite_can_end:
  assumes "reach (overwrite_init U N goal) (overwrite_step U N goal) st" and "unat goal < SPAN"
  shows "\<exists>y. (overwrite_step U N goal)\<^sup>*\<^sup>* st y \<and> fst (snd y) = PushesDone \<and> (\<exists>l a. snd (snd y) = DrainOver l a)"
  using overwrite.drain_can_end [of goal U N st] assms by (simp add: overwrite_init_def overwrite_step_def)

text \<open>The model explored for a ring of two slots and three items: both statistics are added up.\<close>

definition tens :: "u32 \<Rightarrow> u32 list" where
  "tens i = [(i + 1) * 10]"

definition add_both :: "nat \<times> nat \<Rightarrow> poll_stats \<Rightarrow> nat \<times> nat" where
  "add_both acc stats = (fst acc + ps_read stats, snd acc + ps_dropped stats)"

definition frozen_init :: "usize \<Rightarrow> nat \<Rightarrow> u32 \<Rightarrow> (u32, nat \<times> nat) drain_state \<Rightarrow> bool" where
  "frozen_init U N goal = drain_init U N goal (0, 0)"

definition frozen_step :: "usize \<Rightarrow> nat \<Rightarrow> u32 \<Rightarrow> (u32, nat \<times> nat) drain_state \<Rightarrow> (u32, nat \<times> nat) drain_state \<Rightarrow> bool" where
  "frozen_step U N = drain_step U N 1 2 tens (\<lambda>_ _. True) add_both"

interpretation frozen: drain_test U N 1 2 tens "\<lambda>_ _. True" add_both Pair for U N
  by unfold_locales (simp_all add: tens_def add_both_def)

lemma frozen_result:
  assumes "reach (frozen_init U N goal) (frozen_step U N goal) ((s, f), p, q)" and "unat goal < SPAN"
  shows "q \<noteq> Mismatch \<and> (\<forall>l read dropped. q = DrainOver l (read, dropped) \<longrightarrow> read + dropped = unat goal)"
  using frozen.drain_result [of goal U N s f p q] assms by (auto simp: frozen_init_def frozen_step_def)

end
