(* ===== verification/SeqRing_Models.thy ===== *)
theory SeqRing_Models
  imports SeqRing_Threads
begin

text \<open>
  The two other programs that the model checker explores for the sequence ring: a fixed number of polls, and one
  request for the latest item, both against a producer that pushes \<open>10, 20, ...\<close> and stops.
\<close>

section \<open>A consumer never outruns the producer\<close>

text \<open>A fixed number of polls of up to two items against pushes whose numbers are asserted.\<close>

datatype outrun_pc = PollsLeft nat u32 | OutranProducer

definition polling_times :: "u32 \<Rightarrow> (usize flag_call, u32 poll_event flag_result, outrun_pc) thread" where
  "polling_times goal = Thread
     (\<lambda>q. case q of PollsLeft (Suc n) prev \<Rightarrow> Some (Work 2) | _ \<Rightarrow> None)
     (\<lambda>q result. case (q, result) of
        (PollsLeft n prev, Worked (Hooked seq v)) \<Rightarrow>
          if prev < seq \<and> seq \<le> goal \<and> v = tens (seq - 1) then PollsLeft n seq else OutranProducer
      | (PollsLeft n prev, Worked (Polled stats)) \<Rightarrow>
          if ps_newest stats \<le> goal \<and> ps_read stats + ps_dropped stats \<le> unat goal then PollsLeft (n - 1) prev else OutranProducer
      | _ \<Rightarrow> q)"

type_synonym outrun_state = "(u32 spc \<times> bool) \<times> pusher_pc \<times> outrun_pc"

definition outrun_init :: "usize \<Rightarrow> nat \<Rightarrow> u32 \<Rightarrow> nat \<Rightarrow> outrun_state \<Rightarrow> bool" where
  "outrun_init U N goal polls x \<longleftrightarrow> spc_init U N (fst (fst x)) \<and> snd x = (enter_pushes PushesDone goal 0, PollsLeft polls 0)"

abbreviation numbered_pushes :: "u32 \<Rightarrow> (u32 list flag_call, u32 flag_result, pusher_pc) thread" where
  "numbered_pushes \<equiv> pushing_each (\<lambda>i seq. seq = i + 1) PushesDone tens"

definition outrun_step :: "usize \<Rightarrow> nat \<Rightarrow> u32 \<Rightarrow> outrun_state \<Rightarrow> outrun_state \<Rightarrow> bool" where
  "outrun_step U N goal = duo_step (push_calls 1) (poll_calls U N 1) (numbered_pushes goal) (polling_times goal)"

definition outrun_inv :: "usize \<Rightarrow> nat \<Rightarrow> u32 \<Rightarrow> u32 spc \<times> bool \<Rightarrow> pusher_pc \<Rightarrow> outrun_pc \<Rightarrow> bool" where
  "outrun_inv U N goal x p q \<longleftrightarrow> feed_inv U N 1 tens goal (fst x) \<and> pusher_at goal (fst x) p \<and> p \<noteq> Signal \<and>
     poll_of 2 (fst x) \<and> (\<exists>n. q = PollsLeft n (last_logged (fst x)))"

lemma feed_push_calls:
  assumes inv: "feed_inv U N W payload goal s" and at: "pusher_at goal s p" "p \<noteq> Signal"
    and call: "next_call (pushing_each check PushesDone payload goal) p = Some c" and acc: "push_calls W c r (s, f) y"
    and check: "\<And>i. check i (i + 1)"
  obtains s' where "y = (s', f)" "feed_inv U N W payload goal s'"
    "pusher_at goal s' (after_access (pushing_each check PushesDone payload goal) p r)"
    "after_access (pushing_each check PushesDone payload goal) p r \<noteq> Signal"
    "sp_pc s' = sp_pc s" "sp_seen s' = sp_seen s" "sp_at s' = sp_at s" "sp_log s' = sp_log s"
proof -
  from call at obtain i where p: "p = PushLoop i" by (cases p) auto
  with call acc obtain r' s' where step: "spc_push W (payload i) r' s s'" "r = map_option Worked r'" "y = (s', f)"
    by (auto simp: flagged_simps)
  have i: "i < goal" "pushes_made s (unat i)" using at(1) p by simp_all
  note push = feed_push [OF inv i step(1)]
  have "pusher_at goal s (PushLoop i)" using at(1) p by simp
  from pusher_push [where check = check and ending = PushesDone, OF inv this step(1) check]
  have "pusher_at goal s' (after_access (pushing_each check PushesDone payload goal) p r)"
    using step(2) p by (cases r') (simp_all split del: if_split)
  moreover have "after_access (pushing_each check PushesDone payload goal) p r \<noteq> Signal"
    using step(2) p by (cases r') (simp_all add: enter_pushes_def)
  ultimately show ?thesis using that [of s'] step(3) push by simp
qed

lemma last_logged_le:
  assumes "feed_inv U N W payload goal s"
  shows "last_logged s \<le> goal"
proof (cases "sp_log s = []")
  case False
  note bounds = feed_inv_bounds [OF assms]
  show ?thesis using last_entry_le [OF bounds(6) False] bounds False by (simp add: last_logged_def word_le_nat_alt)
qed (simp add: last_logged_def)

lemma outrun_inv_poll:
  assumes inv: "outrun_inv U N goal x p q" and call: "next_call (polling_times goal) q = Some c"
    and acc: "poll_calls U N 1 c r x y"
  shows "outrun_inv U N goal y p (after_access (polling_times goal) q r)"
proof -
  obtain s f where x: "x = (s, f)" by (cases x)
  have s: "feed_inv U N 1 tens goal s" "pusher_at goal s p" "p \<noteq> Signal" "poll_of 2 s"
    using inv by (simp_all add: outrun_inv_def x)
  obtain n where q: "q = PollsLeft n (last_logged s)" using inv by (auto simp: outrun_inv_def x)
  with call acc x obtain e s' where step: "spc_poll U N 1 2 e s s'" "r = map_option Worked e" "y = (s', f)"
    by (auto simp: polling_times_def flagged_simps split: nat.splits)
  have feed: "feed_inv U N 1 tens goal s'" by (rule feed_poll [OF s(1) step(1)])
  note result = feed_poll_result [OF s(1) _ s(4) step(1)] and bounds = feed_inv_bounds [OF feed]
  have "pusher_at goal s' p" by (rule pusher_at_frame [OF s(2)]) (fact spc_poll_frame [OF step(1)])+
  moreover have "\<exists>n. after_access (polling_times goal) q r = PollsLeft n (last_logged s')"
  proof (cases e)
    case None
    with result step(2) q show ?thesis by simp
  next
    case (Some event)
    show ?thesis
    proof (cases event)
      case (Hooked seq v)
      with Some result step(2) q last_logged_le [OF feed] show ?thesis by (simp add: polling_times_def)
    next
      case (Polled stats)
      have "seq_at (sp_seen s') \<le> goal" using bounds by (simp add: word_le_nat_alt)
      moreover have "sp_at s' \<le> unat goal" using bounds by linarith
      ultimately show ?thesis using Some Polled result step(2) q by (auto simp: polling_times_def)
    qed
  qed
  ultimately show ?thesis using feed s(3) step(3) result(1) by (simp add: outrun_inv_def)
qed

interpretation outrun: duo_invariant "\<lambda>x. unat goal < SPAN \<and> outrun_init U N goal polls x" "push_calls 1" "poll_calls U N 1"
  "numbered_pushes goal" "polling_times goal" "outrun_inv U N goal" for U N goal polls
proof
  show "outrun_inv U N goal x p q" if "unat goal < SPAN \<and> outrun_init U N goal polls (x, p, q)" for x p q
    using that feed_init [of U N "fst x" goal PushesDone]
    by (auto simp: outrun_inv_def outrun_init_def enter_pushes_def poll_of_def)
  show "outrun_inv U N goal y (after_access (numbered_pushes goal) p r) q"
    if "outrun_inv U N goal x p q" "next_call (numbered_pushes goal) p = Some c" "push_calls 1 c r x y" for x p q c r y
  proof -
    obtain s f where x: "x = (s, f)" by (cases x)
    with that have s: "feed_inv U N 1 tens goal s" "pusher_at goal s p" "p \<noteq> Signal" "poll_of 2 s"
      "\<exists>n. q = PollsLeft n (last_logged s)" by (simp_all add: outrun_inv_def)
    from feed_push_calls [OF s(1-3) that(2) that(3) [unfolded x]] obtain s' where s': "y = (s', f)" "feed_inv U N 1 tens goal s'"
      "pusher_at goal s' (after_access (numbered_pushes goal) p r)" "after_access (numbered_pushes goal) p r \<noteq> Signal"
      "sp_pc s' = sp_pc s" "sp_seen s' = sp_seen s" "sp_at s' = sp_at s" "sp_log s' = sp_log s" by auto
    with s(4,5) show ?thesis by (auto simp: outrun_inv_def poll_of_def last_logged_def split: poll_pc.splits)
  qed
qed (rule outrun_inv_poll)

lemma outrun_result:
  assumes "reach (outrun_init U N goal polls) (outrun_step U N goal) (x, p, q)" and "unat goal < SPAN"
  shows "p \<noteq> WrongNumber \<and> q \<noteq> OutranProducer"
proof -
  have "reach (\<lambda>x. unat goal < SPAN \<and> outrun_init U N goal polls x) (outrun_step U N goal) (x, p, q)"
    using assms by simp
  from outrun.duo_reach_inv [OF this [unfolded outrun_step_def]] show ?thesis by (auto simp: outrun_inv_def)
qed

section \<open>The latest item is never ahead of what was published\<close>

datatype latest_pc = Asking | Answered "(u32 \<times> u32 list) option" | Invented

definition asking_once :: "u32 \<Rightarrow> (unit flag_call, (u32 \<times> u32 list) option flag_result, latest_pc) thread" where
  "asking_once goal = Thread
     (\<lambda>q. case q of Asking \<Rightarrow> Some (Work ()) | _ \<Rightarrow> None)
     (\<lambda>q result. case (q, result) of
        (Asking, Worked (Some (seq, v))) \<Rightarrow>
          if 1 \<le> seq \<and> seq \<le> goal \<and> v = tens (seq - 1) then Answered (Some (seq, v)) else Invented
      | (Asking, Worked None) \<Rightarrow> Answered None
      | _ \<Rightarrow> q)"

type_synonym latest_state = "(u32 spc \<times> bool) \<times> pusher_pc \<times> latest_pc"

definition ask_init :: "usize \<Rightarrow> nat \<Rightarrow> u32 \<Rightarrow> latest_state \<Rightarrow> bool" where
  "ask_init U N goal x \<longleftrightarrow> spc_init U N (fst (fst x)) \<and> snd x = (enter_pushes PushesDone goal 0, Asking)"

abbreviation latest_calls :: "nat \<Rightarrow> unit flag_call \<Rightarrow> (u32 \<times> u32 list) option flag_result option \<Rightarrow>
    u32 spc \<times> bool \<Rightarrow> u32 spc \<times> bool \<Rightarrow> bool" where
  "latest_calls N \<equiv> flagged (\<lambda>_. spc_latest N 1) see_published"

abbreviation plain_pushes :: "u32 \<Rightarrow> (u32 list flag_call, u32 flag_result, pusher_pc) thread" where
  "plain_pushes \<equiv> pushing_each (\<lambda>_ _. True) PushesDone tens"

definition ask_step :: "nat \<Rightarrow> u32 \<Rightarrow> latest_state \<Rightarrow> latest_state \<Rightarrow> bool" where
  "ask_step N goal = duo_step (push_calls 1) (latest_calls N) (plain_pushes goal) (asking_once goal)"

lemma feed_latest:
  assumes inv: "feed_inv U N W payload goal s" and step: "spc_latest N W r s s'"
  shows "feed_inv U N W payload goal s'"
    and "vals (sp_core s') = vals (sp_core s)" and "ppc (sp_core s') = ppc (sp_core s)"
    and "r = Some (Some (seq, v)) \<Longrightarrow> 1 \<le> seq \<and> seq \<le> goal \<and> v = payload (seq - 1)"
proof -
  note bounds = feed_inv_bounds [OF inv]
  have s: "spc_inv U N W s" "copies_ok N W (sp_core s)" "\<not> sp_lapped s" using inv by (simp_all add: feed_inv_def)
  have spc': "spc_inv U N W s'" by (rule spc_inv_latest_step [OF s(1) step])
  have "sp_core s' = sp_core s \<or> sqc_step N W (sp_core s) (sp_core s')"
    by (rule spc.sim_step [OF s(1) spc_step.latest [OF step]])
  with s(2) have copies: "copies_ok N W (sp_core s')" using sqc_copies.inv_step by metis
  show vals: "vals (sp_core s') = vals (sp_core s)" "ppc (sp_core s') = ppc (sp_core s)"
    using step by (auto elim!: spc_latestE dest: read_step_frame)
  moreover have "n_pub (sp_core s') = n_pub (sp_core s)" "n_done (sp_core s') = n_done (sp_core s)"
    "sp_at s' = sp_at s" "sp_log s' = sp_log s" "sp_lapped s' = sp_lapped s"
    using step by (auto elim!: spc_latestE dest: read_step_frame)
  ultimately show "feed_inv U N W payload goal s'" using inv spc' copies by (simp add: feed_inv_def)
  assume r: "r = Some (Some (seq, v))"
  from step show "1 \<le> seq \<and> seq \<le> goal \<and> v = payload (seq - 1)"
  proof cases
    case (latest_hit newest v' c)
    have n: "newest = seq_at (sp_seen s)" "0 < sp_seen s" using s(1) latest_hit by (simp_all add: spc_inv_def call_ok_def)
    have "entry_ok (vals (sp_core s')) (sp_seen s') (sp_seen s, v, length (vals c))"
      using spc' latest_hit r by (simp add: spc_inv_def call_ok_def)
    then have v: "length (vals c) - sp_seen s < SPAN \<longrightarrow> v = vals (sp_core s) ! (sp_seen s - 1)"
      using vals by (auto simp: entry_ok_def)
    have "length (vals c) - sp_seen s < SPAN" using bounds(4,5) vals(1) latest_hit by simp
    then have "v = payload (of_nat (sp_seen s - 1))"
      using v bounds n(2) inv by (simp add: feed_inv_def)
    moreover have small: "sp_seen s \<le> SPAN" "sp_seen s \<le> unat goal" using bounds by linarith+
    then have "seq_at (sp_seen s) - 1 = of_nat (sp_seen s - 1)" using n(2) by (simp add: seq_at_small)
    moreover have "seq_at (sp_seen s) \<le> goal" "1 \<le> seq_at (sp_seen s)"
      using small n(2) by (simp_all add: word_le_nat_alt)
    ultimately show ?thesis using latest_hit r n(1) by simp
  qed (use r in auto)
qed

definition ask_inv :: "usize \<Rightarrow> nat \<Rightarrow> u32 \<Rightarrow> u32 spc \<times> bool \<Rightarrow> pusher_pc \<Rightarrow> latest_pc \<Rightarrow> bool" where
  "ask_inv U N goal x p q \<longleftrightarrow> feed_inv U N 1 tens goal (fst x) \<and> pusher_at goal (fst x) p \<and> p \<noteq> Signal \<and> q \<noteq> Invented"

interpretation ask: duo_invariant "\<lambda>x. unat goal < SPAN \<and> ask_init U N goal x" "push_calls 1" "latest_calls N"
  "plain_pushes goal" "asking_once goal" "ask_inv U N goal" for U N goal
proof
  show "ask_inv U N goal x p q" if "unat goal < SPAN \<and> ask_init U N goal (x, p, q)" for x p q
    using that feed_init [of U N "fst x" goal PushesDone] by (auto simp: ask_inv_def ask_init_def enter_pushes_def)
  show "ask_inv U N goal y (after_access (plain_pushes goal) p r) q"
    if "ask_inv U N goal x p q" "next_call (plain_pushes goal) p = Some c" "push_calls 1 c r x y" for x p q c r y
  proof -
    obtain s f where x: "x = (s, f)" by (cases x)
    with that have s: "feed_inv U N 1 tens goal s" "pusher_at goal s p" "p \<noteq> Signal" by (simp_all add: ask_inv_def)
    from feed_push_calls [OF s(1-3) that(2) that(3) [unfolded x]] obtain s' where "y = (s', f)" "feed_inv U N 1 tens goal s'"
      "pusher_at goal s' (after_access (plain_pushes goal) p r)" "after_access (plain_pushes goal) p r \<noteq> Signal" by blast
    moreover have "q \<noteq> Invented" using that(1) by (simp add: ask_inv_def)
    ultimately show ?thesis by (simp add: ask_inv_def)
  qed
  show "ask_inv U N goal y p (after_access (asking_once goal) q r)"
    if "ask_inv U N goal x p q" "next_call (asking_once goal) q = Some c" "latest_calls N c r x y" for x p q c r y
  proof -
    obtain s f where x: "x = (s, f)" by (cases x)
    with that have s: "feed_inv U N 1 tens goal s" "pusher_at goal s p" "p \<noteq> Signal" by (simp_all add: ask_inv_def)
    from that(2) have q: "q = Asking" "c = Work ()" by (cases q; simp add: asking_once_def)+
    with that(3) x obtain e s' where step: "spc_latest N 1 e s s'" "r = map_option Worked e" "y = (s', f)"
      by (auto simp: flagged_simps)
    note latest = feed_latest [OF s(1) step(1)]
    have "pusher_at goal s' p" by (rule pusher_at_frame [OF s(2) latest(2,3)])
    moreover have "after_access (asking_once goal) q r \<noteq> Invented"
      using latest(4) step(2) q by (cases e) (auto simp: asking_once_def split: option.splits)
    ultimately show ?thesis using latest(1) s(3) step(3) by (simp add: ask_inv_def)
  qed
qed

lemma ask_result:
  assumes "reach (ask_init U N goal) (ask_step N goal) (x, p, q)" and "unat goal < SPAN"
  shows "q \<noteq> Invented"
proof -
  have "reach (\<lambda>x. unat goal < SPAN \<and> ask_init U N goal x) (ask_step N goal) (x, p, q)"
    using assms by simp
  from ask.duo_reach_inv [OF this [unfolded ask_step_def]] show ?thesis by (simp add: ask_inv_def)
qed

end
