(* ===== verification/LatestBuf_Conc.thy ===== *)
theory LatestBuf_Conc
  imports LatestBuf Transition
begin

unbundle bit_operations_syntax

text \<open>
  \<open>LatestBuf\<close> with both endpoints running at the same time, one shared access per step. The exchange
  word is only touched by AcqRel swaps, which are totally ordered and each acquire what the one before
  released; the consumer's hint load may return any older value, so its outcome is left open. Slots are
  plain memory: an endpoint's accesses since its last swap (\<open>dirty\<close>) and those it has released that
  the other endpoint has not acquired by a swap (\<open>rel\<close>) are not ordered before the other endpoint's
  next access. Touching such a slot, or reading an unwritten one, is the state \<open>Undefined\<close>.
\<close>

datatype 'a pub_pc =
    PubIdle
  | PubWrite (pub_back: u32) (pub_gen: u32) (pub_value: 'a)
  | PubSwap (pub_back: u32) (pub_gen: u32) (pub_value: 'a)
  | PubSettle (pub_previous: u32) (pub_gen: u32)

datatype 'a take_pc =
    TakeIdle
  | TakeSwap u32
  | TakeSettle u32
  | TakeRead u32
  | TakeFinish "'a lb_entry"

text \<open>
  Ghost state: the publications \<open>hist\<close> in the order of their swaps, how many of them the consumer is
  past (\<open>upto\<close>) and was past before its claim in progress (\<open>from'\<close>), the log of finished claims, and
  the reports \<open>publish\<close> returned.
\<close>

record 'a lbc =
  l_buf :: "'a latest_buf"
  pub :: "'a pub_pc"
  tak :: "'a take_pc"
  p_dirty :: "u32 set"
  p_rel :: "u32 set"
  c_dirty :: "u32 set"
  c_rel :: "u32 set"
  hist :: "'a list"
  upto :: nat
  from' :: nat
  items :: "'a latest_item list"
  log :: "(nat \<times> nat) list"
  reports :: "publish_report list"

datatype 'a lbc_state = Active "'a lbc" | Undefined

inductive lbc_publish :: "'a \<Rightarrow> publish_report option \<Rightarrow> 'a lbc \<Rightarrow> 'a lbc_state \<Rightarrow> bool" for v where
  pub_begin: "pub s = PubIdle \<Longrightarrow> g = lb_next_generation (next_generation (lb_producer (l_buf s))) \<Longrightarrow>
    lbc_publish v None s (Active (s\<lparr>
      l_buf := (l_buf s)\<lparr>lb_producer := (lb_producer (l_buf s))\<lparr>next_generation := g\<rparr>\<rparr>,
      pub := PubWrite (lb_producer_slot (back_encoded (lb_producer (l_buf s)))) g v\<rparr>))"
| pub_write: "pub s = PubWrite b g v \<Longrightarrow> b \<notin> c_dirty s \<union> c_rel s \<Longrightarrow>
    slot_write (lb_slots (l_buf s)) (unat b) \<lparr>ent_generation = g, ent_value = v\<rparr> = Some slots' \<Longrightarrow>
    lbc_publish v None s (Active (s\<lparr>l_buf := (l_buf s)\<lparr>lb_slots := slots'\<rparr>, pub := PubSwap b g v,
      p_dirty := insert b (p_dirty s)\<rparr>))"
| pub_race: "pub s = PubWrite b g v \<Longrightarrow> b \<in> c_dirty s \<union> c_rel s \<or>
    slot_write (lb_slots (l_buf s)) (unat b) \<lparr>ent_generation = g, ent_value = v\<rparr> = None \<Longrightarrow>
    lbc_publish v None s Undefined"
| pub_swap: "pub s = PubSwap b g v \<Longrightarrow>
    lbc_publish v None s (Active (s\<lparr>l_buf := (l_buf s)\<lparr>lb_exchange := lb_encode b True\<rparr>,
      pub := PubSettle (lb_exchange (l_buf s)) g, p_dirty := {}, p_rel := p_rel s \<union> p_dirty s,
      c_rel := {}, hist := hist s @ [v]\<rparr>))"
| pub_settle: "pub s = PubSettle previous g \<Longrightarrow>
    lbc_publish v (Some \<lparr>pr_generation = g, pr_replaced_unread = lb_ready previous\<rparr>) s (Active (s\<lparr>
      l_buf := (l_buf s)\<lparr>lb_producer := (lb_producer (l_buf s))
        \<lparr>back_encoded := lb_encode_producer_slot (previous AND SLOT_MASK)\<rparr>\<rparr>, pub := PubIdle,
      reports := reports s @ [\<lparr>pr_generation = g, pr_replaced_unread = lb_ready previous\<rparr>]\<rparr>))"

inductive lbc_take :: "'a latest_item option option \<Rightarrow> 'a lbc \<Rightarrow> 'a lbc_state \<Rightarrow> bool" where
  take_empty: "tak s = TakeIdle \<Longrightarrow> lbc_take (Some None) s (Active s)"
| take_hint: "tak s = TakeIdle \<Longrightarrow>
    lbc_take None s (Active (s\<lparr>tak := TakeSwap (lb_consumer_slot (front_encoded (lb_consumer (l_buf s))))\<rparr>))"
| take_swap: "tak s = TakeSwap f \<Longrightarrow> previous = lb_exchange (l_buf s) \<Longrightarrow>
    lbc_take None s (Active (s\<lparr>l_buf := (l_buf s)\<lparr>lb_exchange := lb_encode f False\<rparr>,
      tak := TakeSettle previous, c_dirty := {}, c_rel := c_rel s \<union> c_dirty s, p_rel := {},
      from' := (if lb_ready previous then upto s else from' s),
      upto := (if lb_ready previous then length (hist s) else upto s)\<rparr>))"
| take_settle: "tak s = TakeSettle previous \<Longrightarrow>
    lbc_take (if lb_ready previous then None else Some None) s (Active (s\<lparr>
      l_buf := (l_buf s)\<lparr>lb_consumer := (lb_consumer (l_buf s))
        \<lparr>front_encoded := lb_encode_consumer_slot (previous AND SLOT_MASK)\<rparr>\<rparr>,
      tak := (if lb_ready previous then TakeRead previous else TakeIdle)\<rparr>))"
| take_read: "tak s = TakeRead previous \<Longrightarrow> previous AND SLOT_MASK \<notin> p_dirty s \<union> p_rel s \<Longrightarrow>
    slot_read (lb_slots (l_buf s)) (lb_slot previous) = Some e \<Longrightarrow>
    lbc_take None s (Active (s\<lparr>tak := TakeFinish e, c_dirty := insert (previous AND SLOT_MASK) (c_dirty s)\<rparr>))"
| take_race: "tak s = TakeRead previous \<Longrightarrow> previous AND SLOT_MASK \<in> p_dirty s \<union> p_rel s \<or>
    slot_read (lb_slots (l_buf s)) (lb_slot previous) = None \<Longrightarrow>
    lbc_take None s Undefined"
| take_finish: "tak s = TakeFinish e \<Longrightarrow>
    distance = lb_generation_distance (last_generation (lb_consumer (l_buf s))) (ent_generation e) \<Longrightarrow>
    lbc_take (Some (Some \<lparr>li_value = ent_value e, li_generation = ent_generation e,
        li_skipped = u32_saturating_sub distance 1\<rparr>)) s (Active (s\<lparr>
      l_buf := (l_buf s)\<lparr>lb_consumer := (lb_consumer (l_buf s))\<lparr>last_generation := ent_generation e\<rparr>\<rparr>,
      tak := TakeIdle,
      items := items s @ [\<lparr>li_value = ent_value e, li_generation = ent_generation e,
        li_skipped = u32_saturating_sub distance 1\<rparr>],
      log := log s @ [(from' s, upto s)]\<rparr>))"

text \<open>One access of either endpoint.\<close>

inductive lbc_step :: "'a lbc_state \<Rightarrow> 'a lbc_state \<Rightarrow> bool" where
  publish: "lbc_publish v r s s' \<Longrightarrow> lbc_step (Active s) s'"
| take: "lbc_take r s s' \<Longrightarrow> lbc_step (Active s) s'"

inductive_cases lbc_stepE: "lbc_step (Active s) s'"
inductive_cases lbc_publishE: "lbc_publish v r s s'"
inductive_cases lbc_takeE: "lbc_take r s s'"

definition lbc_init :: "'a lbc_state \<Rightarrow> bool" where
  "lbc_init s0 \<longleftrightarrow> s0 = Active \<lparr>l_buf = lb_new, pub = PubIdle, tak = TakeIdle, p_dirty = {}, p_rel = {},
     c_dirty = {}, c_rel = {}, hist = [], upto = 0, from' = 0, items = [], log = [], reports = []\<rparr>"

section \<open>The invariant\<close>

text \<open>What the producer's program point says, when it owns slot \<open>P\<close> and \<open>n\<close> values were published.\<close>

fun pub_ok :: "lb_producer_state \<Rightarrow> 'a lb_entry slots \<Rightarrow> nat \<Rightarrow> u32 \<Rightarrow> 'a pub_pc \<Rightarrow> bool" where
  "pub_ok ps slots n P PubIdle =
     (lb_producer_slot (back_encoded ps) = P \<and> next_generation ps = seq_at n)"
| "pub_ok ps slots n P (PubWrite b g v) =
     (b = P \<and> lb_producer_slot (back_encoded ps) = P \<and> g = seq_at (Suc n) \<and> next_generation ps = g)"
| "pub_ok ps slots n P (PubSwap b g v) =
     (b = P \<and> lb_producer_slot (back_encoded ps) = P \<and> g = seq_at (Suc n) \<and> next_generation ps = g \<and>
      slots ! unat P = Some \<lparr>ent_generation = g, ent_value = v\<rparr>)"
| "pub_ok ps slots n P (PubSettle previous g) =
     (previous AND SLOT_MASK = P \<and> g = seq_at n \<and> next_generation ps = seq_at n)"

text \<open>
  What the consumer's says, when it owns slot \<open>C\<close>: once it has claimed the \<open>c\<close>-th publication (after
  being past \<open>a\<close>), its slot holds exactly that one.
\<close>

definition holds_claim :: "lb_consumer_state \<Rightarrow> 'a lb_entry slots \<Rightarrow> 'a list \<Rightarrow> nat \<Rightarrow> nat \<Rightarrow> u32 \<Rightarrow> bool" where
  "holds_claim cs slots vs a c C \<longleftrightarrow> last_generation cs = seq_at a \<and> a < c \<and>
     slots ! unat C = Some \<lparr>ent_generation = seq_at c, ent_value = vs ! (c - 1)\<rparr>"

fun take_ok :: "lb_consumer_state \<Rightarrow> 'a lb_entry slots \<Rightarrow> 'a list \<Rightarrow> nat \<Rightarrow> nat \<Rightarrow> u32 \<Rightarrow> 'a take_pc \<Rightarrow> bool" where
  "take_ok cs slots vs a c C TakeIdle =
     (lb_consumer_slot (front_encoded cs) = C \<and> last_generation cs = seq_at c)"
| "take_ok cs slots vs a c C (TakeSwap f) =
     (f = C \<and> lb_consumer_slot (front_encoded cs) = C \<and> last_generation cs = seq_at c)"
| "take_ok cs slots vs a c C (TakeSettle previous) =
     (previous AND SLOT_MASK = C \<and>
      (if lb_ready previous then holds_claim cs slots vs a c C else last_generation cs = seq_at c))"
| "take_ok cs slots vs a c C (TakeRead previous) =
     (previous AND SLOT_MASK = C \<and> lb_consumer_slot (front_encoded cs) = C \<and> holds_claim cs slots vs a c C)"
| "take_ok cs slots vs a c C (TakeFinish e) =
     (lb_consumer_slot (front_encoded cs) = C \<and> holds_claim cs slots vs a c C \<and> slots ! unat C = Some e)"

text \<open>Finished claims form a chain from 0: each starts where the one before ended.\<close>

fun chain :: "nat \<Rightarrow> (nat \<times> nat) list \<Rightarrow> nat \<Rightarrow> bool" where
  "chain a [] c = (a = c)"
| "chain a ((x, y) # r) c = (x = a \<and> x < y \<and> chain y r c)"

lemma chain_snoc: "chain a (r @ [(x, y)]) c \<longleftrightarrow> chain a r x \<and> x < y \<and> y = c"
  by (induction a r x rule: chain.induct) auto

fun claiming :: "'a take_pc \<Rightarrow> bool" where
  "claiming (TakeSettle previous) = lb_ready previous"
| "claiming (TakeRead previous) = True"
| "claiming (TakeFinish e) = True"
| "claiming pc = False"

definition item_of :: "'a list \<Rightarrow> nat \<times> nat \<Rightarrow> 'a latest_item" where
  "item_of vs ac = \<lparr>li_value = vs ! (snd ac - 1), li_generation = seq_at (snd ac),
     li_skipped = of_nat (lb_skips (fst ac) (snd ac))\<rparr>"

definition lbc_owned :: "'a lbc \<Rightarrow> u32 \<Rightarrow> u32 \<Rightarrow> u32 \<Rightarrow> bool" where
  "lbc_owned s P C M \<longleftrightarrow> P < 3 \<and> C < 3 \<and> M < 3 \<and> P \<noteq> C \<and> C \<noteq> M \<and> M \<noteq> P \<and>
     lb_exchange (l_buf s) = lb_encode M (lb_ready (lb_exchange (l_buf s))) \<and>
     p_dirty s \<subseteq> {P} \<and> p_rel s \<subseteq> {P, M} \<and> c_dirty s \<subseteq> {C} \<and> c_rel s \<subseteq> {C, M} \<and>
     pub_ok (lb_producer (l_buf s)) (lb_slots (l_buf s)) (length (hist s)) P (pub s) \<and>
     take_ok (lb_consumer (l_buf s)) (lb_slots (l_buf s)) (hist s) (from' s) (upto s) C (tak s) \<and>
     (upto s < length (hist s) \<longrightarrow> lb_slots (l_buf s) ! unat M =
        Some \<lparr>ent_generation = seq_at (length (hist s)), ent_value = last (hist s)\<rparr>)"

definition lbc_inv :: "'a lbc \<Rightarrow> bool" where
  "lbc_inv s \<longleftrightarrow> length (lb_slots (l_buf s)) = 3 \<and> upto s \<le> length (hist s) \<and>
     (lb_ready (lb_exchange (l_buf s)) \<longleftrightarrow> upto s < length (hist s)) \<and>
     chain 0 (log s) (if claiming (tak s) then from' s else upto s) \<and>
     items s = map (item_of (hist s)) (log s) \<and> (\<forall>(a, c) \<in> set (log s). 0 < c \<and> c \<le> length (hist s)) \<and>
     (\<exists>P C M. lbc_owned s P C M)"

definition lbc_ok :: "'a lbc_state \<Rightarrow> bool" where
  "lbc_ok s \<longleftrightarrow> (case s of Active r \<Rightarrow> lbc_inv r | Undefined \<Rightarrow> False)"

lemma lbc_ok_init: "lbc_init s \<Longrightarrow> lbc_ok s"
proof -
  assume "lbc_init s"
  moreover have "lbc_owned \<lparr>l_buf = lb_new, pub = PubIdle, tak = TakeIdle, p_dirty = {}, p_rel = {},
     c_dirty = {}, c_rel = {}, hist = [], upto = 0, from' = 0, items = [], log = [], reports = []\<rparr> 1 2 0"
    by (simp add: lbc_owned_def lb_new_def lb_producer_slot_def lb_consumer_slot_def
        PRODUCER_SLOT_XOR_def CONSUMER_SLOT_XOR_def lb_ready_def lb_encode_def)
  ultimately show ?thesis
    by (auto simp: lbc_ok_def lbc_init_def lbc_inv_def lb_new_def lb_slot_array_def lb_ready_def)
qed

section \<open>Every step keeps it\<close>

lemma u32_slot: "(x :: u32) < 3 \<Longrightarrow> unat x < 3" "(x :: u32) < 3 \<Longrightarrow> y < 3 \<Longrightarrow> unat x = unat y \<longleftrightarrow> x = y"
  by (simp_all add: word_less_nat_alt word_unat_eq_iff)

text \<open>The two endpoints' assertions do not mention the other's slot.\<close>

lemma take_ok_slot_write:
  assumes "take_ok cs slots vs a c C pc" and "P < 3" "C < 3" "P \<noteq> C"
  shows "take_ok cs (slots[unat P := x]) vs a c C pc"
  using assms by (cases pc) (auto simp: holds_claim_def u32_slot)

lemma take_ok_append:
  assumes "take_ok cs slots vs a c C pc" and "c \<le> length vs"
  shows "take_ok cs slots (vs @ [v]) a c C pc"
  using assms by (cases pc) (auto simp: holds_claim_def nth_append)

lemma items_append:
  assumes "\<forall>(a, c) \<in> set r. 0 < c \<and> c \<le> length vs"
  shows "map (item_of (vs @ [v])) r = map (item_of vs) r"
proof (rule map_cong [OF refl])
  fix ac assume "ac \<in> set r"
  with assms have "0 < snd ac \<and> snd ac \<le> length vs" by auto
  then show "item_of (vs @ [v]) ac = item_of vs ac" by (cases "snd ac") (auto simp: item_of_def nth_append)
qed

lemma lbc_pub_begin:
  assumes inv: "lbc_inv s" and pc: "pub s = PubIdle"
    and g: "g = lb_next_generation (next_generation (lb_producer (l_buf s)))"
  shows "lbc_inv (s\<lparr>l_buf := (l_buf s)\<lparr>lb_producer := (lb_producer (l_buf s))\<lparr>next_generation := g\<rparr>\<rparr>,
      pub := PubWrite (lb_producer_slot (back_encoded (lb_producer (l_buf s)))) g v\<rparr>)"
proof -
  obtain P C M where owned: "lbc_owned s P C M" using inv by (auto simp: lbc_inv_def)
  have "next_generation (lb_producer (l_buf s)) = seq_at (length (hist s))"
    using owned pc by (simp add: lbc_owned_def)
  then have "g = seq_at (Suc (length (hist s)))" by (simp add: g lb_gen.nxt_seq_at)
  then show ?thesis using inv owned pc by (auto simp: lbc_inv_def lbc_owned_def intro!: exI [of _ P] exI [of _ C] exI [of _ M])
qed

lemma lbc_pub_write:
  assumes inv: "lbc_inv s" and pc: "pub s = PubWrite b g v"
  shows "b \<notin> c_dirty s \<union> c_rel s"
    and "slot_write (lb_slots (l_buf s)) (unat b) e = Some ((lb_slots (l_buf s))[unat b := Some e])"
    and "lbc_inv (s\<lparr>l_buf := (l_buf s)\<lparr>lb_slots := (lb_slots (l_buf s))
        [unat b := Some \<lparr>ent_generation = g, ent_value = v\<rparr>]\<rparr>,
      pub := PubSwap b g v, p_dirty := insert b (p_dirty s)\<rparr>)"
proof -
  obtain P C M where owned: "lbc_owned s P C M" using inv by (auto simp: lbc_inv_def)
  then have b: "b = P" using pc by (simp add: lbc_owned_def)
  show "b \<notin> c_dirty s \<union> c_rel s" using owned by (auto simp: lbc_owned_def b)
  have lt: "unat b < length (lb_slots (l_buf s))"
    using inv owned by (simp add: lbc_inv_def lbc_owned_def b u32_slot)
  then show "slot_write (lb_slots (l_buf s)) (unat b) e = Some ((lb_slots (l_buf s))[unat b := Some e])"
    by simp
  have ne: "P < 3" "C < 3" "M < 3" "P \<noteq> C" "M \<noteq> P" using owned by (auto simp: lbc_owned_def)
  have "lbc_owned (s\<lparr>l_buf := (l_buf s)\<lparr>lb_slots := (lb_slots (l_buf s))
        [unat b := Some \<lparr>ent_generation = g, ent_value = v\<rparr>]\<rparr>,
      pub := PubSwap b g v, p_dirty := insert b (p_dirty s)\<rparr>) P C M"
    using owned pc lt ne take_ok_slot_write [OF _ ne(1,2,4)]
    by (auto simp: lbc_owned_def b u32_slot)
  with inv show "lbc_inv (s\<lparr>l_buf := (l_buf s)\<lparr>lb_slots := (lb_slots (l_buf s))
        [unat b := Some \<lparr>ent_generation = g, ent_value = v\<rparr>]\<rparr>,
      pub := PubSwap b g v, p_dirty := insert b (p_dirty s)\<rparr>)"
    by (auto simp: lbc_inv_def)
qed

lemma lbc_pub_swap:
  assumes inv: "lbc_inv s" and pc: "pub s = PubSwap b g v"
  shows "lbc_inv (s\<lparr>l_buf := (l_buf s)\<lparr>lb_exchange := lb_encode b True\<rparr>,
      pub := PubSettle (lb_exchange (l_buf s)) g, p_dirty := {}, p_rel := p_rel s \<union> p_dirty s,
      c_rel := {}, hist := hist s @ [v]\<rparr>)"
    (is "lbc_inv ?s'")
proof -
  obtain P C M where owned: "lbc_owned s P C M" using inv by (auto simp: lbc_inv_def)
  then have b: "b = P" "b < 3" "g = seq_at (Suc (length (hist s)))" using pc by (auto simp: lbc_owned_def)
  have le: "upto s \<le> length (hist s)" using inv by (simp add: lbc_inv_def)
  have M: "lb_exchange (l_buf s) AND SLOT_MASK = M"
    using owned lb_mask_encode [of M "lb_ready (lb_exchange (l_buf s))"] by (simp add: lbc_owned_def)
  have "lbc_owned ?s' M C P"
    using owned pc b M take_ok_append [OF _ le] by (auto simp: lbc_owned_def)
  then show ?thesis
    using inv b le items_append [of "log s" "hist s" v]
    by (auto simp: lbc_inv_def nth_append)
qed

lemma lbc_pub_settle:
  assumes inv: "lbc_inv s" and pc: "pub s = PubSettle previous g"
  shows "lbc_inv (s\<lparr>l_buf := (l_buf s)\<lparr>lb_producer := (lb_producer (l_buf s))
        \<lparr>back_encoded := lb_encode_producer_slot (previous AND SLOT_MASK)\<rparr>\<rparr>, pub := PubIdle,
      reports := reports s @ [\<lparr>pr_generation = g, pr_replaced_unread = lb_ready previous\<rparr>]\<rparr>)"
    (is "lbc_inv ?s'")
proof -
  obtain P C M where owned: "lbc_owned s P C M" using inv by (auto simp: lbc_inv_def)
  then have "lbc_owned ?s' P C M" using pc by (auto simp: lbc_owned_def)
  with inv show ?thesis by (auto simp: lbc_inv_def)
qed

lemma lbc_take_hint:
  assumes inv: "lbc_inv s" and pc: "tak s = TakeIdle"
  shows "lbc_inv (s\<lparr>tak := TakeSwap (lb_consumer_slot (front_encoded (lb_consumer (l_buf s))))\<rparr>)"
    (is "lbc_inv ?s'")
proof -
  obtain P C M where owned: "lbc_owned s P C M" using inv by (auto simp: lbc_inv_def)
  then have "lbc_owned ?s' P C M" using pc by (auto simp: lbc_owned_def)
  with inv pc show ?thesis by (auto simp: lbc_inv_def)
qed

lemma lbc_take_swap:
  assumes inv: "lbc_inv s" and pc: "tak s = TakeSwap f" and prev: "previous = lb_exchange (l_buf s)"
  shows "lbc_inv (s\<lparr>l_buf := (l_buf s)\<lparr>lb_exchange := lb_encode f False\<rparr>,
      tak := TakeSettle previous, c_dirty := {}, c_rel := c_rel s \<union> c_dirty s, p_rel := {},
      from' := (if lb_ready previous then upto s else from' s),
      upto := (if lb_ready previous then length (hist s) else upto s)\<rparr>)"
    (is "lbc_inv ?s'")
proof -
  obtain P C M where owned: "lbc_owned s P C M" using inv by (auto simp: lbc_inv_def)
  then have f: "f = C" "f < 3" "last_generation (lb_consumer (l_buf s)) = seq_at (upto s)"
    using pc by (auto simp: lbc_owned_def)
  have ready: "lb_ready previous \<longleftrightarrow> upto s < length (hist s)" and le: "upto s \<le> length (hist s)"
    using inv by (simp_all add: lbc_inv_def prev)
  have M: "previous AND SLOT_MASK = M"
    using owned lb_mask_encode [of M "lb_ready previous"] by (simp add: lbc_owned_def prev)
  have "holds_claim (lb_consumer (l_buf s)) (lb_slots (l_buf s)) (hist s) (upto s) (length (hist s)) M"
    if "upto s < length (hist s)"
  proof -
    have "hist s \<noteq> []" using that by auto
    then show ?thesis using that owned f by (simp add: lbc_owned_def holds_claim_def last_conv_nth)
  qed
  then have "lbc_owned ?s' P M C"
    using owned pc f M ready le by (auto simp: lbc_owned_def)
  then have "\<exists>P C M. lbc_owned ?s' P C M" by blast
  with inv pc f ready le show ?thesis
    unfolding lbc_inv_def by (cases "upto s < length (hist s)") simp_all
qed

lemma lbc_take_settle:
  assumes inv: "lbc_inv s" and pc: "tak s = TakeSettle previous"
  shows "lbc_inv (s\<lparr>l_buf := (l_buf s)\<lparr>lb_consumer := (lb_consumer (l_buf s))
        \<lparr>front_encoded := lb_encode_consumer_slot (previous AND SLOT_MASK)\<rparr>\<rparr>,
      tak := (if lb_ready previous then TakeRead previous else TakeIdle)\<rparr>)"
    (is "lbc_inv ?s'")
proof -
  obtain P C M where owned: "lbc_owned s P C M" using inv by (auto simp: lbc_inv_def)
  then have "lbc_owned ?s' P C M" using pc by (auto simp: lbc_owned_def holds_claim_def)
  then have "\<exists>P C M. lbc_owned ?s' P C M" by blast
  with inv pc show ?thesis unfolding lbc_inv_def by (cases "lb_ready previous") simp_all
qed

lemma lbc_take_read:
  assumes inv: "lbc_inv s" and pc: "tak s = TakeRead previous"
  shows "previous AND SLOT_MASK \<notin> p_dirty s \<union> p_rel s"
    and "slot_read (lb_slots (l_buf s)) (lb_slot previous) \<noteq> None"
    and "slot_read (lb_slots (l_buf s)) (lb_slot previous) = Some e \<Longrightarrow>
      lbc_inv (s\<lparr>tak := TakeFinish e, c_dirty := insert (previous AND SLOT_MASK) (c_dirty s)\<rparr>)"
proof -
  obtain P C M where owned: "lbc_owned s P C M" using inv by (auto simp: lbc_inv_def)
  then have C: "previous AND SLOT_MASK = C" "C < 3" using pc by (auto simp: lbc_owned_def)
  then have slot: "lb_slot previous = unat C" "unat C < length (lb_slots (l_buf s))"
    using inv by (simp_all add: lb_slot_def lbc_inv_def u32_slot)
  show "previous AND SLOT_MASK \<notin> p_dirty s \<union> p_rel s" using owned C by (auto simp: lbc_owned_def)
  have held: "holds_claim (lb_consumer (l_buf s)) (lb_slots (l_buf s)) (hist s) (from' s) (upto s) C"
    using owned pc by (simp add: lbc_owned_def)
  then show "slot_read (lb_slots (l_buf s)) (lb_slot previous) \<noteq> None"
    using slot by (simp add: holds_claim_def)
  assume e: "slot_read (lb_slots (l_buf s)) (lb_slot previous) = Some e"
  then have "lb_slots (l_buf s) ! unat C = Some e" using slot by simp
  then have "lbc_owned (s\<lparr>tak := TakeFinish e, c_dirty := insert (previous AND SLOT_MASK) (c_dirty s)\<rparr>) P C M"
    using owned pc C by (auto simp: lbc_owned_def)
  with inv pc show "lbc_inv (s\<lparr>tak := TakeFinish e, c_dirty := insert (previous AND SLOT_MASK) (c_dirty s)\<rparr>)"
    by (auto simp: lbc_inv_def)
qed

lemma lbc_take_finish:
  assumes inv: "lbc_inv s" and pc: "tak s = TakeFinish e"
    and d: "distance = lb_generation_distance (last_generation (lb_consumer (l_buf s))) (ent_generation e)"
  shows "lbc_inv (s\<lparr>
      l_buf := (l_buf s)\<lparr>lb_consumer := (lb_consumer (l_buf s))\<lparr>last_generation := ent_generation e\<rparr>\<rparr>,
      tak := TakeIdle,
      items := items s @ [\<lparr>li_value = ent_value e, li_generation = ent_generation e,
        li_skipped = u32_saturating_sub distance 1\<rparr>],
      log := log s @ [(from' s, upto s)]\<rparr>)"
    (is "lbc_inv ?s'")
proof -
  obtain P C M where owned: "lbc_owned s P C M" using inv by (auto simp: lbc_inv_def)
  have le: "upto s \<le> length (hist s)" using inv by (simp add: lbc_inv_def)
  have held: "holds_claim (lb_consumer (l_buf s)) (lb_slots (l_buf s)) (hist s) (from' s) (upto s) C"
    and e: "lb_slots (l_buf s) ! unat C = Some e"
    using owned pc by (simp_all add: lbc_owned_def)
  then have ent: "e = \<lparr>ent_generation = seq_at (upto s), ent_value = hist s ! (upto s - 1)\<rparr>"
    and last: "last_generation (lb_consumer (l_buf s)) = seq_at (from' s)" and lt: "from' s < upto s"
    by (simp_all add: holds_claim_def)
  have item: "\<lparr>li_value = ent_value e, li_generation = ent_generation e,
      li_skipped = u32_saturating_sub distance 1\<rparr> = item_of (hist s) (from' s, upto s)"
    using lb_skipped_eq [OF lt] by (simp add: item_of_def ent d last)
  have "lbc_owned ?s' P C M" using owned pc ent by (auto simp: lbc_owned_def)
  then show ?thesis
    using inv pc lt le unfolding item by (auto simp: lbc_inv_def chain_snoc)
qed

lemma lbc_ok_step:
  assumes ok: "lbc_ok s0" and step: "lbc_step s0 s1"
  shows "lbc_ok s1"
proof (cases s0)
  case Undefined
  with ok show ?thesis by (simp add: lbc_ok_def)
next
  case (Active s)
  then have inv: "lbc_inv s" using ok by (simp add: lbc_ok_def)
  note steps = lbc_pub_begin [OF inv] lbc_pub_write [OF inv] lbc_pub_swap [OF inv] lbc_pub_settle [OF inv]
    lbc_take_hint [OF inv] lbc_take_swap [OF inv] lbc_take_settle [OF inv] lbc_take_read [OF inv]
    lbc_take_finish [OF inv]
  from step [unfolded Active] show ?thesis
  proof cases
    case (publish v r)
    from this show ?thesis
    proof cases
      case (pub_write b g slots')
      then show ?thesis using lbc_pub_write(2,3) [OF inv pub_write(3)] unfolding lbc_ok_def by simp
    next
      case (pub_race b g)
      then show ?thesis using lbc_pub_write(1,2) [OF inv pub_race(3)] by simp
    qed (use steps in \<open>simp_all only: lbc_ok_def lbc_state.case\<close>)
  next
    case (take r)
    from this show ?thesis
    proof cases
      case take_empty
      then show ?thesis using inv by (simp add: lbc_ok_def)
    next
      case (take_race previous)
      then show ?thesis using lbc_take_read(1,2) [OF inv take_race(3)] by simp
    qed (use steps in \<open>simp_all only: lbc_ok_def lbc_state.case\<close>)
  qed
qed

interpretation lbc: inductive_invariant lbc_init lbc_step lbc_ok
  by unfold_locales (fact lbc_ok_init, fact lbc_ok_step)

section \<open>What every execution satisfies\<close>

text \<open>
  No data race, no read of an unwritten slot; the producer's, the consumer's and the exchange's slots
  are always three different ones.
\<close>

lemma lbc_never_undefined: "\<not> reach lbc_init lbc_step Undefined"
  using lbc.reach_inv [of Undefined] by (auto simp: lbc_ok_def)

text \<open>
  Every item delivered is one whole publication, under its generation, that was the newest when it was
  claimed; items come in order, none twice; each reports how many publications were passed over since
  the item before, exactly while fewer than one span apart.
\<close>

lemma lbc_items:
  assumes "reach lbc_init lbc_step (Active s)"
  shows "\<exists>c. chain 0 (log s) c \<and> c \<le> length (hist s) \<and> items s = map (item_of (hist s)) (log s)"
proof -
  have inv: "lbc_inv s" using lbc.reach_inv [OF assms] by (simp add: lbc_ok_def)
  then obtain P C M where owned: "lbc_owned s P C M" by (auto simp: lbc_inv_def)
  have "from' s \<le> length (hist s)" if "claiming (tak s)"
    using that owned inv by (cases "tak s") (auto simp: lbc_owned_def lbc_inv_def holds_claim_def)
  with inv show ?thesis by (auto simp: lbc_inv_def)
qed

lemma lbc_claims_newest:
  assumes "reach lbc_init lbc_step (Active s)" and "lbc_step (Active s) (Active s')"
    and "upto s' \<noteq> upto s"
  shows "upto s' = length (hist s)"
  using assms(2,3) by (auto elim!: lbc_stepE lbc_publishE lbc_takeE split: if_splits)

text \<open>The number of claims plus what they report as skipped is how far the consumer is.\<close>

lemma chain_total:
  "chain a r c \<Longrightarrow> a \<le> c \<and> c - a = (\<Sum>(x, y) \<leftarrow> r. y - x)"
  by (induction a r c rule: chain.induct) auto

lemma lbc_accounting:
  assumes "reach lbc_init lbc_step (Active s)" and "length (hist s) < SPAN"
  shows "(\<Sum>i \<leftarrow> items s. Suc (unat (li_skipped i))) \<le> length (hist s) \<and>
    (tak s = TakeIdle \<longrightarrow> (\<Sum>i \<leftarrow> items s. Suc (unat (li_skipped i))) = upto s)"
proof -
  have inv: "lbc_inv s" using lbc.reach_inv [OF assms(1)] by (simp add: lbc_ok_def)
  obtain c where c: "chain 0 (log s) c" "c \<le> length (hist s)" "items s = map (item_of (hist s)) (log s)"
    using lbc_items [OF assms(1)] by blast
  have range: "\<forall>(x, y) \<in> set r. x < y \<and> y \<le> c" if "chain a r c" for a r
    using that
  proof (induction a r c rule: chain.induct)
    case (2 a x y r c)
    then have "y \<le> c" using chain_total [of y r c] by simp
    with 2 show ?case by auto
  qed simp
  have "Suc (unat (li_skipped (item_of (hist s) (x, y)))) = y - x" if "(x, y) \<in> set (log s)" for x y
  proof -
    have xy: "x < y" "y \<le> c" using range [OF c(1)] that by auto
    then have "y - x < SPAN" using c(2) assms(2) by linarith
    then have "lb_skips x y = y - x - 1" using xy(1) by (rule lb_skips_exact [rotated])
    moreover have "y - x - 1 < 2 ^ 32" using \<open>y - x < SPAN\<close> unfolding SPAN_def by linarith
    then have "unat (of_nat (y - x - 1) :: u32) = y - x - 1" by (rule unat_of_nat_u32_small)
    ultimately show ?thesis using xy(1) by (simp add: item_of_def del: of_nat_diff)
  qed
  then have "(\<Sum>i \<leftarrow> items s. Suc (unat (li_skipped i))) = (\<Sum>(x, y) \<leftarrow> log s. y - x)"
    unfolding c(3) by (auto intro!: arg_cong [where f = sum_list] simp: comp_def)
  then have "(\<Sum>i \<leftarrow> items s. Suc (unat (li_skipped i))) = c" using chain_total [OF c(1)] by simp
  moreover have "c = upto s" if "tak s = TakeIdle"
  proof -
    have "chain 0 (log s) (upto s)" using inv that by (simp add: lbc_inv_def)
    then show ?thesis using chain_total c(1) by (metis diff_zero)
  qed
  ultimately show ?thesis using c(2) by simp
qed

section \<open>An execution\<close>

text \<open>One publication and the take of it, access by access.\<close>

definition lbc_published :: "bool lbc" where
  "lbc_published = \<lparr>l_buf = \<lparr>lb_exchange = lb_encode 1 True,
       lb_slots = [None, Some \<lparr>ent_generation = 1, ent_value = True\<rparr>, None],
       lb_producer = \<lparr>back_encoded = lb_encode_producer_slot 0, next_generation = 1\<rparr>,
       lb_consumer = \<lparr>front_encoded = 0, last_generation = 0\<rparr>,
       lb_producer_taken = False, lb_consumer_taken = False\<rparr>,
     pub = PubIdle, tak = TakeIdle, p_dirty = {}, p_rel = {1}, c_dirty = {}, c_rel = {}, hist = [True],
     upto = 0, from' = 0, items = [], log = [],
     reports = [\<lparr>pr_generation = 1, pr_replaced_unread = False\<rparr>]\<rparr>"

lemma lbc_one_publish: "reach lbc_init lbc_step (Active lbc_published)"
proof -
  let ?s0 = "\<lparr>l_buf = lb_new, pub = PubIdle, tak = TakeIdle, p_dirty = {}, p_rel = {}, c_dirty = {},
     c_rel = {}, hist = [], upto = 0, from' = 0, items = [], log = [], reports = []\<rparr> :: bool lbc"
  let ?p = "\<lparr>back_encoded = 0, next_generation = 1\<rparr>"
  let ?slots = "[None, Some \<lparr>ent_generation = 1, ent_value = True\<rparr>, None]"
  let ?s1 = "?s0\<lparr>l_buf := lb_new\<lparr>lb_producer := ?p\<rparr>, pub := PubWrite 1 1 True\<rparr>"
  let ?s2 = "?s1\<lparr>l_buf := lb_new\<lparr>lb_producer := ?p, lb_slots := ?slots\<rparr>, pub := PubSwap 1 1 True, p_dirty := {1}\<rparr>"
  let ?s3 = "?s2\<lparr>l_buf := lb_new\<lparr>lb_producer := ?p, lb_slots := ?slots, lb_exchange := lb_encode 1 True\<rparr>,
     pub := PubSettle 0 1, p_dirty := {}, p_rel := {1}, hist := [True]\<rparr>"
  have r0: "reach lbc_init lbc_step (Active ?s0)" by (rule start) (simp add: lbc_init_def)
  have t1: "lbc_step (Active ?s0) (Active ?s1)"
    using lbc_step.publish [OF lbc_publish.pub_begin [of ?s0 1 True]]
    by (simp add: lb_new_def lb_next_generation_def lb_producer_slot_def PRODUCER_SLOT_XOR_def)
  have "slot_write (lb_slots (l_buf ?s1)) (unat (1 :: u32)) \<lparr>ent_generation = 1, ent_value = True\<rparr> = Some ?slots"
    by (simp add: lb_new_def lb_slot_array_def uninit_slots_def slot_write_def eval_nat_numeral)
  from lbc_step.publish [OF lbc_publish.pub_write [OF _ _ this]] have t2: "lbc_step (Active ?s1) (Active ?s2)" by simp
  have t3: "lbc_step (Active ?s2) (Active ?s3)"
    using lbc_step.publish [OF lbc_publish.pub_swap [of ?s2 1 1 True]] by (simp add: lb_new_def)
  have t4: "lbc_step (Active ?s3) (Active lbc_published)"
    using lbc_step.publish [OF lbc_publish.pub_settle [of ?s3 0 1]] by (simp add: lbc_published_def lb_new_def lb_ready_def READY_BIT_def)
  from r0 t1 have "reach lbc_init lbc_step (Active ?s1)" by (rule move)
  from this t2 have "reach lbc_init lbc_step (Active ?s2)" by (rule move)
  from this t3 have "reach lbc_init lbc_step (Active ?s3)" by (rule move)
  from this t4 show ?thesis by (rule move)
qed

lemma lbc_published_sel:
  "tak lbc_published = TakeIdle" "hist lbc_published = [True]" "upto lbc_published = 0" "from' lbc_published = 0"
  "c_dirty lbc_published = {}" "c_rel lbc_published = {}" "p_dirty lbc_published = {}"
  "items lbc_published = []" "log lbc_published = []"
  "lb_exchange (l_buf lbc_published) = lb_encode 1 True"
  "lb_slots (l_buf lbc_published) = [None, Some \<lparr>ent_generation = 1, ent_value = True\<rparr>, None]"
  "lb_consumer (l_buf lbc_published) = \<lparr>front_encoded = 0, last_generation = 0\<rparr>"
  "lb_consumer_slot 0 = 2"
  by (simp_all add: lbc_published_def lb_consumer_slot_def CONSUMER_SLOT_XOR_def)

lemma lbc_one_take:
  "reach lbc_init lbc_step (Active (lbc_published\<lparr>
     c_rel := {}, p_rel := {}, from' := 0, upto := 1, c_dirty := {1},
     l_buf := (l_buf lbc_published)\<lparr>lb_exchange := lb_encode 2 False,
       lb_consumer := \<lparr>front_encoded = lb_encode_consumer_slot 1, last_generation = 1\<rparr>\<rparr>,
     tak := TakeIdle,
     items := [\<lparr>li_value = True, li_generation = 1, li_skipped = 0\<rparr>], log := [(0, 1)]\<rparr>))"
proof -
  let ?c = "\<lparr>front_encoded = lb_encode_consumer_slot 1, last_generation = 0\<rparr>"
  let ?x = "lb_encode 1 True"
  let ?s1 = "lbc_published\<lparr>tak := TakeSwap 2\<rparr>"
  let ?s2 = "lbc_published\<lparr>l_buf := (l_buf lbc_published)\<lparr>lb_exchange := lb_encode 2 False\<rparr>,
     tak := TakeSettle ?x, c_dirty := {}, c_rel := {}, p_rel := {}, from' := 0, upto := 1\<rparr>"
  let ?s3 = "?s2\<lparr>l_buf := (l_buf ?s2)\<lparr>lb_consumer := ?c\<rparr>, tak := TakeRead ?x\<rparr>"
  let ?s4 = "?s3\<lparr>tak := TakeFinish \<lparr>ent_generation = 1, ent_value = True\<rparr>, c_dirty := {1}\<rparr>"
  have t1: "lbc_step (Active lbc_published) (Active ?s1)"
    using lbc_step.take [OF lbc_take.take_hint [of lbc_published]]
    by (simp add: lbc_published_sel)
  have t2: "lbc_step (Active ?s1) (Active ?s2)"
    using lbc_step.take [OF lbc_take.take_swap [of ?s1 2 ?x]] by (simp add: lbc_published_sel)
  have t3: "lbc_step (Active ?s2) (Active ?s3)"
    using lbc_step.take [OF lbc_take.take_settle [of ?s2 ?x]] by (simp add: lbc_published_sel)
  have "slot_read (lb_slots (l_buf ?s3)) (lb_slot ?x) = Some \<lparr>ent_generation = 1, ent_value = True\<rparr>"
    by (simp add: lbc_published_sel slot_read_def)
  from lbc_step.take [OF lbc_take.take_read [OF _ _ this]] have t4: "lbc_step (Active ?s3) (Active ?s4)"
    by (simp add: lbc_published_sel)
  have t5: "lbc_step (Active ?s4) (Active (lbc_published\<lparr>
     c_rel := {}, p_rel := {}, from' := 0, upto := 1, c_dirty := {1},
     l_buf := (l_buf lbc_published)\<lparr>lb_exchange := lb_encode 2 False,
       lb_consumer := \<lparr>front_encoded = lb_encode_consumer_slot 1, last_generation = 1\<rparr>\<rparr>,
     tak := TakeIdle,
     items := [\<lparr>li_value = True, li_generation = 1, li_skipped = 0\<rparr>], log := [(0, 1)]\<rparr>))"
    using lbc_step.take [OF lbc_take.take_finish [of ?s4 "\<lparr>ent_generation = 1, ent_value = True\<rparr>" 1]]
    by (simp add: lbc_published_sel lb_generation_distance_def u32_saturating_sub_def)
  from lbc_one_publish t1 have "reach lbc_init lbc_step (Active ?s1)" by (rule move)
  from this t2 have "reach lbc_init lbc_step (Active ?s2)" by (rule move)
  from this t3 have "reach lbc_init lbc_step (Active ?s3)" by (rule move)
  from this t4 have "reach lbc_init lbc_step (Active ?s4)" by (rule move)
  from this t5 show ?thesis by (rule move)
qed

end
