(* ===== verification/LatestBuf_Progress.thy ===== *)
theory LatestBuf_Progress
  imports LatestBuf_Conc Threads
begin

unbundle bit_operations_syntax

text \<open>
  Progress of the concurrent exchange: from every reachable state, wherever the other endpoint stopped, the
  consumer gets the newest publication by its own accesses, and the producer publishes by its own.
\<close>

definition taker_alone :: "'a lbc_state \<Rightarrow> 'a lbc_state \<Rightarrow> bool" where
  "taker_alone x y \<longleftrightarrow> lbc_step x y \<and> (\<exists>s s'. x = Active s \<and> y = Active s' \<and> pub s' = pub s \<and>
     hist s' = hist s \<and> reports s' = reports s)"

definition publisher_alone :: "'a lbc_state \<Rightarrow> 'a lbc_state \<Rightarrow> bool" where
  "publisher_alone x y \<longleftrightarrow> lbc_step x y \<and> (\<exists>s s'. x = Active s \<and> y = Active s' \<and> tak s' = tak s \<and>
     upto s' = upto s \<and> items s' = items s \<and> log s' = log s)"

lemma taker_aloneI:
  assumes "lbc_step (Active s) (Active s')" and "pub s' = pub s" and "hist s' = hist s" and "reports s' = reports s"
  shows "taker_alone (Active s) (Active s')"
  using assms by (simp add: taker_alone_def)

lemma publisher_aloneI:
  assumes "lbc_step (Active s) (Active s')" and "tak s' = tak s" and "upto s' = upto s" and "items s' = items s"
    and "log s' = log s"
  shows "publisher_alone (Active s) (Active s')"
  using assms by (simp add: publisher_alone_def)

text \<open>The accesses of a call, with what they leave alone.\<close>

definition publish_acc :: "'a \<Rightarrow> publish_report option \<Rightarrow> 'a lbc_state \<Rightarrow> 'a lbc_state \<Rightarrow> bool" where
  "publish_acc v r x y \<longleftrightarrow> (\<exists>s. x = Active s \<and> lbc_publish v r s y)"

definition take_latest_acc :: "unit \<Rightarrow> 'a latest_item option option \<Rightarrow> 'a lbc_state \<Rightarrow> 'a lbc_state \<Rightarrow> bool" where
  "take_latest_acc u r x y \<longleftrightarrow> (\<exists>s. x = Active s \<and> lbc_take r s y)"

lemma lbc_acc_Active [simp]:
  "publish_acc v r (Active s) y \<longleftrightarrow> lbc_publish v r s y" "take_latest_acc u r' (Active s) y \<longleftrightarrow> lbc_take r' s y"
  by (simp_all add: publish_acc_def take_latest_acc_def)

lemma lbc_acc_steps: "publish_acc v r x y \<Longrightarrow> lbc_step x y" "take_latest_acc u r' x y \<Longrightarrow> lbc_step x y"
  by (auto simp: publish_acc_def take_latest_acc_def intro: lbc_step.intros)

lemma lbc_take_frame:
  "lbc_take r s (Active s') \<Longrightarrow> pub s' = pub s \<and> hist s' = hist s \<and> reports s' = reports s \<and>
    lb_producer (l_buf s') = lb_producer (l_buf s)"
  by (erule lbc_take.cases) auto

lemma lbc_publish_frame:
  "lbc_publish v r s (Active s') \<Longrightarrow> tak s' = tak s \<and> upto s' = upto s \<and> items s' = items s \<and> log s' = log s \<and>
    lb_consumer (l_buf s') = lb_consumer (l_buf s)"
  by (erule lbc_publish.cases) auto

lemma taker_alone_take: "lbc_take r s (Active s') \<Longrightarrow> taker_alone (Active s) (Active s')"
  using lbc_take_frame by (fastforce intro: taker_aloneI lbc_step.take)

lemma publisher_alone_publish: "lbc_publish v r s (Active s') \<Longrightarrow> publisher_alone (Active s) (Active s')"
  using lbc_publish_frame by (fastforce intro: publisher_aloneI lbc_step.publish)

lemma lbc_ok_Active: "lbc_ok (Active s) \<longleftrightarrow> lbc_inv s"
  by (simp add: lbc_ok_def)

lemma taker_alone_ok: "taker_alone\<^sup>*\<^sup>* x y \<Longrightarrow> lbc_ok x \<Longrightarrow> lbc_ok y"
  by (induction rule: rtranclp_induct) (auto simp: taker_alone_def intro: lbc_ok_step)

lemma taker_alone_hist:
  "taker_alone\<^sup>*\<^sup>* x (Active s') \<Longrightarrow> x = Active s \<Longrightarrow> hist s' = hist s \<and> pub s' = pub s"
  by (induction "Active s'" arbitrary: s' rule: rtranclp_induct) (auto simp: taker_alone_def)

section \<open>The consumer\<close>

fun take_rank :: "'a take_pc \<Rightarrow> nat" where
  "take_rank TakeIdle = 0"
| "take_rank (TakeSwap f) = 4"
| "take_rank (TakeSettle previous) = 3"
| "take_rank (TakeRead previous) = 2"
| "take_rank (TakeFinish e) = 1"

text \<open>Inside a take the next access is always possible and leads towards its end.\<close>

lemma taker_next:
  assumes inv: "lbc_inv s" and busy: "tak s \<noteq> TakeIdle"
  shows "\<exists>r s'. lbc_take r s (Active s') \<and> take_rank (tak s') < take_rank (tak s) \<and> (r = None \<longleftrightarrow> tak s' \<noteq> TakeIdle) \<and>
    upto s \<le> upto s' \<and> ((\<exists>f. tak s = TakeSwap f) \<or> upto s = length (hist s) \<longrightarrow> upto s' = length (hist s))"
proof (cases "tak s")
  case TakeIdle
  with busy show ?thesis by simp
next
  case (TakeSwap f)
  have "upto s \<le> length (hist s)" "lb_ready (lb_exchange (l_buf s)) \<longleftrightarrow> upto s < length (hist s)"
    using inv by (simp_all add: lbc_inv_def)
  then show ?thesis
    by (intro exI [of _ None]) (rule exI, rule conjI, rule lbc_take.take_swap [OF TakeSwap refl], auto simp: TakeSwap)
next
  case (TakeSettle previous)
  show ?thesis by (intro exI conjI, rule lbc_take.take_settle [OF TakeSettle]) (auto simp: TakeSettle)
next
  case (TakeRead previous)
  note read = lbc_take_read [OF inv TakeRead]
  then obtain e where "slot_read (lb_slots (l_buf s)) (lb_slot previous) = Some e" by blast
  from lbc_take.take_read [OF TakeRead read(1) this] show ?thesis
    by (intro exI conjI, assumption) (auto simp: TakeRead)
next
  case (TakeFinish e)
  show ?thesis by (intro exI conjI, rule lbc_take.take_finish [OF TakeFinish refl]) (auto simp: TakeFinish)
qed

lemma taker_ends_call:
  assumes "lbc_inv s"
  shows "\<exists>s'. taker_alone\<^sup>*\<^sup>* (Active s) (Active s') \<and> tak s' = TakeIdle \<and> upto s \<le> upto s' \<and>
    ((\<exists>f. tak s = TakeSwap f) \<or> upto s = length (hist s) \<longrightarrow> upto s' = length (hist s))"
  using assms
proof (induction "take_rank (tak s)" arbitrary: s rule: less_induct)
  case less
  show ?case
  proof (cases "tak s = TakeIdle")
    case True
    then show ?thesis by auto
  next
    case False
    then obtain s1 where s1: "taker_alone (Active s) (Active s1)" "take_rank (tak s1) < take_rank (tak s)"
      "upto s \<le> upto s1" "(\<exists>f. tak s = TakeSwap f) \<or> upto s = length (hist s) \<longrightarrow> upto s1 = length (hist s)"
      using taker_next [OF less.prems] taker_alone_take by blast
    have "lbc_inv s1" "hist s1 = hist s"
      using taker_alone_ok [OF r_into_rtranclp [of taker_alone, OF s1(1)]] less.prems s1(1)
      by (auto simp: lbc_ok_Active taker_alone_def)
    with less.hyps [OF s1(2)] obtain s2 where "taker_alone\<^sup>*\<^sup>* (Active s1) (Active s2)" "tak s2 = TakeIdle"
      "upto s1 \<le> upto s2" "upto s1 = length (hist s) \<longrightarrow> upto s2 = length (hist s)" by auto
    with s1 show ?thesis by (intro exI [of _ s2]) (auto intro: converse_rtranclp_into_rtranclp)
  qed
qed

lemma taker_gets_newest:
  assumes "reach lbc_init lbc_step (Active s)"
  shows "\<exists>s'. taker_alone\<^sup>*\<^sup>* (Active s) (Active s') \<and> tak s' = TakeIdle \<and> upto s' = length (hist s)"
proof -
  have inv: "lbc_inv s" using lbc.reach_inv [OF assms] by (simp add: lbc_ok_Active)
  obtain s1 where s1: "taker_alone\<^sup>*\<^sup>* (Active s) (Active s1)" "tak s1 = TakeIdle"
    using taker_ends_call [OF inv] by blast
  let ?s2 = "s1\<lparr>tak := TakeSwap (lb_consumer_slot (front_encoded (lb_consumer (l_buf s1))))\<rparr>"
  have s2: "taker_alone (Active s1) (Active ?s2)"
    by (rule taker_aloneI [OF lbc_step.take [OF lbc_take.take_hint [OF s1(2)]]]) simp_all
  have path: "taker_alone\<^sup>*\<^sup>* (Active s) (Active ?s2)" using s1(1) s2 by (rule rtranclp.rtrancl_into_rtrancl)
  then have "lbc_inv ?s2" using taker_alone_ok inv lbc_ok_Active by blast
  from taker_ends_call [OF this] obtain s3 where "taker_alone\<^sup>*\<^sup>* (Active ?s2) (Active s3)" "tak s3 = TakeIdle"
    "upto s3 = length (hist s1)" by auto
  with path taker_alone_hist [OF s1(1) refl] show ?thesis by (auto intro: rtranclp_trans)
qed

text \<open>So its last item is the newest publication.\<close>

lemma lbc_last_item:
  assumes "lbc_inv s" and "tak s = TakeIdle" and "upto s = length (hist s)" and "hist s \<noteq> []"
  shows "items s \<noteq> [] \<and> li_value (last (items s)) = last (hist s) \<and>
    li_generation (last (items s)) = seq_at (length (hist s))"
proof -
  have chain: "chain 0 (log s) (length (hist s))" and items: "items s = map (item_of (hist s)) (log s)"
    using assms by (simp_all add: lbc_inv_def)
  have ne: "log s \<noteq> []" using chain assms(4) by auto
  then obtain r a b where r: "log s = r @ [(a, b)]" by (cases "log s" rule: rev_cases) auto
  then have "b = length (hist s)" using chain by (simp add: chain_snoc)
  with r items assms(4) show ?thesis by (simp add: item_of_def last_conv_nth)
qed

lemma taker_gets_newest_item:
  assumes reach: "reach lbc_init lbc_step (Active s)" and "hist s \<noteq> []"
  shows "\<exists>s'. taker_alone\<^sup>*\<^sup>* (Active s) (Active s') \<and> tak s' = TakeIdle \<and> items s' \<noteq> [] \<and>
    li_value (last (items s')) = last (hist s) \<and> li_generation (last (items s')) = seq_at (length (hist s))"
proof -
  obtain s' where s': "taker_alone\<^sup>*\<^sup>* (Active s) (Active s')" "tak s' = TakeIdle" "upto s' = length (hist s)"
    using taker_gets_newest [OF reach] by blast
  have "hist s' = hist s" using taker_alone_hist [OF s'(1) refl] by simp
  moreover have "lbc_inv s'"
    using taker_alone_ok [OF s'(1) lbc.reach_inv [OF reach]] by (simp add: lbc_ok_Active)
  ultimately show ?thesis using lbc_last_item [of s'] s' assms(2) by auto
qed

section \<open>The producer\<close>

text \<open>From each point of a publication the call runs to its end.\<close>

lemma publish_runsI:
  "lbc_publish v (Some r) s y \<Longrightarrow> runs (publish_acc v) (Active s) r y"
  "lbc_publish v None s y \<Longrightarrow> runs (publish_acc v) y r z \<Longrightarrow> runs (publish_acc v) (Active s) r z"
  by (auto intro: runs.intros)

lemma settle_runs:
  assumes "pub s = PubSettle previous g"
  shows "\<exists>r s'. runs (publish_acc v) (Active s) r (Active s') \<and> pub s' = PubIdle \<and> hist s' = hist s"
  using publish_runsI(1) [OF lbc_publish.pub_settle [OF assms]] by fastforce

lemma swap_runs:
  assumes pc: "pub s = PubSwap b g v"
  shows "\<exists>r s'. runs (publish_acc v) (Active s) r (Active s') \<and> pub s' = PubIdle \<and> hist s' = hist s @ [v]"
proof -
  let ?s = "s\<lparr>l_buf := (l_buf s)\<lparr>lb_exchange := lb_encode b True\<rparr>, pub := PubSettle (lb_exchange (l_buf s)) g,
      p_dirty := {}, p_rel := p_rel s \<union> p_dirty s, c_rel := {}, hist := hist s @ [v]\<rparr>"
  have "pub ?s = PubSettle (lb_exchange (l_buf s)) g" by simp
  from settle_runs [OF this, of v] obtain r s' where "runs (publish_acc v) (Active ?s) r (Active s')" "pub s' = PubIdle"
    "hist s' = hist s @ [v]" by auto
  with publish_runsI(2) [OF lbc_publish.pub_swap [OF pc]] show ?thesis by blast
qed

lemma write_runs:
  assumes inv: "lbc_inv s" and pc: "pub s = PubWrite b g v"
  shows "\<exists>r s'. runs (publish_acc v) (Active s) r (Active s') \<and> pub s' = PubIdle \<and> hist s' = hist s @ [v]"
proof -
  from lbc_pub_write(2) [OF inv pc] obtain slots' where
    w: "slot_write (lb_slots (l_buf s)) (unat b) \<lparr>ent_generation = g, ent_value = v\<rparr> = Some slots'" by auto
  let ?s = "s\<lparr>l_buf := (l_buf s)\<lparr>lb_slots := slots'\<rparr>, pub := PubSwap b g v, p_dirty := insert b (p_dirty s)\<rparr>"
  have "pub ?s = PubSwap b g v" by simp
  from swap_runs [OF this] obtain r s' where "runs (publish_acc v) (Active ?s) r (Active s')" "pub s' = PubIdle"
    "hist s' = hist s @ [v]" by auto
  with publish_runsI(2) [OF lbc_publish.pub_write [OF pc lbc_pub_write(1) [OF inv pc] w]] show ?thesis by blast
qed

lemma publish_runs:
  assumes inv: "lbc_inv s" and idle: "pub s = PubIdle"
  shows "\<exists>r s'. runs (publish_acc v) (Active s) r (Active s') \<and> pub s' = PubIdle \<and> hist s' = hist s @ [v]"
proof -
  let ?p = "lb_producer (l_buf s)"
  let ?g = "lb_next_generation (next_generation ?p)"
  let ?s = "s\<lparr>l_buf := (l_buf s)\<lparr>lb_producer := ?p\<lparr>next_generation := ?g\<rparr>\<rparr>,
    pub := PubWrite (lb_producer_slot (back_encoded ?p)) ?g v\<rparr>"
  note begin' = lbc_publish.pub_begin [OF idle refl, of v]
  have "lbc_inv ?s"
    using lbc_ok_step [OF _ lbc_step.publish [OF begin']] inv by (simp add: lbc_ok_Active)
  moreover have "pub ?s = PubWrite (lb_producer_slot (back_encoded ?p)) ?g v" by simp
  ultimately obtain r s' where "runs (publish_acc v) (Active ?s) r (Active s')" "pub s' = PubIdle" "hist s' = hist s @ [v]"
    using write_runs by fastforce
  with publish_runsI(2) [OF begin'] show ?thesis by blast
qed

lemma no_run_after_undefined:
  "\<not> runs (publish_acc v) lbc_state.Undefined r y" "\<not> runs (take_latest_acc u) lbc_state.Undefined r' y"
  by (auto simp: publish_acc_def take_latest_acc_def elim: runs.cases)

lemma runs_publish_alone:
  "runs (publish_acc v) x r y \<Longrightarrow> y = Active s' \<Longrightarrow> publisher_alone\<^sup>*\<^sup>* x y"
proof (induction rule: runs.induct)
  case (returns r x y)
  then show ?case by (auto simp: publish_acc_def intro: publisher_alone_publish)
next
  case (access x x' r y)
  from access(1) obtain s where "x = Active s" "lbc_publish v None s x'" by (auto simp: publish_acc_def)
  moreover obtain s1 where "x' = Active s1" using access(2) by (cases x') (auto simp: no_run_after_undefined)
  ultimately have "publisher_alone x x'" by (simp add: publisher_alone_publish)
  with access show ?case by (auto intro: converse_rtranclp_into_rtranclp)
qed

lemma publisher_publishes:
  assumes reach: "reach lbc_init lbc_step (Active s)" and idle: "pub s = PubIdle"
  shows "\<exists>s'. publisher_alone\<^sup>*\<^sup>* (Active s) (Active s') \<and> pub s' = PubIdle \<and> hist s' = hist s @ [v]"
proof -
  have "lbc_inv s" using lbc.reach_inv [OF reach] by (simp add: lbc_ok_Active)
  from publish_runs [OF this idle, of v] obtain r s' where run: "runs (publish_acc v) (Active s) r (Active s')"
    and s': "pub s' = PubIdle" "hist s' = hist s @ [v]" by blast
  from runs_publish_alone [OF run refl] s' show ?thesis by blast
qed

end
