(* ===== verification/LatestBuf_Reports.thy ===== *)
theory LatestBuf_Reports
  imports LatestBuf_Conc
begin

unbundle bit_operations_syntax

text \<open>
  What the producer of a \<open>LatestBuf\<close> learns while the consumer runs. Publications are counted from 1.
  \<open>claimed s\<close> are those the consumer has taken or is taking: the ends of its finished claims and of the
  claim in progress. The report of publication \<open>k\<close> must say that an unread value was replaced exactly
  when publication \<open>k - 1\<close> exists and was never claimed; whether it was is settled by the swap, and
  no later step changes it.
\<close>

definition claimed :: "'a lbc \<Rightarrow> nat set" where
  "claimed s = snd ` set (log s) \<union> (if claiming (tak s) then {upto s} else {})"

definition report_of :: "nat set \<Rightarrow> nat \<Rightarrow> publish_report" where
  "report_of cs i = \<lparr>pr_generation = seq_at (Suc i), pr_replaced_unread = (0 < i \<and> i \<notin> cs)\<rparr>"

text \<open>How many publications have returned their report.\<close>

definition settled :: "'a lbc \<Rightarrow> nat" where
  "settled s = (case pub s of PubSettle previous g \<Rightarrow> length (hist s) - 1 | _ \<Rightarrow> length (hist s))"

definition reports_inv :: "'a lbc \<Rightarrow> bool" where
  "reports_inv s \<longleftrightarrow> reports s = map (report_of (claimed s)) [0..<settled s] \<and>
     (\<forall>previous g. pub s = PubSettle previous g \<longrightarrow> hist s \<noteq> [] \<and>
        (lb_ready previous \<longleftrightarrow> pr_replaced_unread (report_of (claimed s) (length (hist s) - 1))))"

section \<open>Claims and the exchange word\<close>

lemma chain_ends:
  "chain a r c \<Longrightarrow> (\<forall>x \<in> snd ` set r. a < x \<and> x \<le> c) \<and> (c = a \<or> c \<in> snd ` set r) \<and> a \<le> c"
  by (induction a r c rule: chain.induct) force+

lemma claimed_bounds:
  assumes "lbc_inv s"
  shows "claimed s \<subseteq> {0<..upto s}" and "upto s = 0 \<or> upto s \<in> claimed s"
proof -
  obtain P C M where owned: "lbc_owned s P C M" using assms by (auto simp: lbc_inv_def)
  have chain: "chain 0 (log s) (if claiming (tak s) then from' s else upto s)"
    using assms by (simp add: lbc_inv_def)
  have "from' s < upto s" if "claiming (tak s)"
    using that owned by (cases "tak s") (auto simp: lbc_owned_def holds_claim_def)
  with chain_ends [OF chain]
  show "claimed s \<subseteq> {0<..upto s}" and "upto s = 0 \<or> upto s \<in> claimed s"
    by (auto simp: claimed_def split: if_splits)
qed

text \<open>The ready bit says that the newest publication was not claimed.\<close>

lemma ready_iff_unclaimed:
  assumes "lbc_inv s"
  shows "lb_ready (lb_exchange (l_buf s)) \<longleftrightarrow> 0 < length (hist s) \<and> length (hist s) \<notin> claimed s"
proof -
  have "upto s \<le> length (hist s)" and "lb_ready (lb_exchange (l_buf s)) \<longleftrightarrow> upto s < length (hist s)"
    using assms by (simp_all add: lbc_inv_def)
  with claimed_bounds [OF assms] show ?thesis by (cases "upto s = length (hist s)") auto
qed

lemma report_of_insert:
  assumes "i < n"
  shows "report_of (insert n cs) i = report_of cs i"
  using assms by (simp add: report_of_def)

lemma settled_le: "settled s \<le> length (hist s)"
  by (simp add: settled_def split: pub_pc.split)

section \<open>Every step keeps the reports exact\<close>

text \<open>Steps that leave the publications, the reports and the claims alone.\<close>

lemma reports_inv_frame:
  assumes "reports_inv s" and "reports s' = reports s" and "hist s' = hist s" and "claimed s' = claimed s"
    and "pub s' = pub s \<or> (\<forall>previous g. pub s \<noteq> PubSettle previous g \<and> pub s' \<noteq> PubSettle previous g)"
  shows "reports_inv s'"
proof -
  have "settled s' = settled s"
    using assms(3,5) by (auto simp: settled_def split: pub_pc.split)
  with assms show ?thesis by (auto simp: reports_inv_def)
qed

lemma reports_inv_swap:
  assumes inv: "lbc_inv s" and rep: "reports_inv s" and pc: "pub s = PubSwap b g v"
    and s': "reports s' = reports s" "hist s' = hist s @ [v]" "claimed s' = claimed s"
      "pub s' = PubSettle (lb_exchange (l_buf s)) g"
  shows "reports_inv s'"
  using rep pc by (simp add: reports_inv_def settled_def s' ready_iff_unclaimed [OF inv] report_of_def)

lemma reports_inv_settle:
  assumes rep: "reports_inv s" and pc: "pub s = PubSettle previous g" and inv: "lbc_inv s"
    and s': "reports s' = reports s @ [\<lparr>pr_generation = g, pr_replaced_unread = lb_ready previous\<rparr>]"
      "hist s' = hist s" "claimed s' = claimed s" "pub s' = PubIdle"
  shows "reports_inv s'"
proof -
  obtain n where n: "length (hist s) = Suc n" using rep pc by (cases "hist s") (auto simp: reports_inv_def)
  have "g = seq_at (Suc n)" using inv pc n by (auto simp: lbc_inv_def lbc_owned_def)
  then have "\<lparr>pr_generation = g, pr_replaced_unread = lb_ready previous\<rparr> = report_of (claimed s) n"
    using rep pc n by (simp add: reports_inv_def report_of_def)
  with rep pc n show ?thesis by (simp add: reports_inv_def settled_def s')
qed

text \<open>A claim only ever adds the newest publication, which no report so far is about.\<close>

lemma reports_inv_claim:
  assumes rep: "reports_inv s" and n: "0 < length (hist s)"
    and s': "reports s' = reports s" "hist s' = hist s" "claimed s' = insert (length (hist s)) (claimed s)"
      "pub s' = pub s"
  shows "reports_inv s'"
proof -
  have "map (report_of (claimed s')) [0..<settled s] = map (report_of (claimed s)) [0..<settled s]"
    using settled_le [of s] by (intro map_cong refl) (simp add: s' report_of_insert)
  moreover have "settled s' = settled s" unfolding settled_def s' ..
  ultimately show ?thesis using rep n by (auto simp: reports_inv_def s' report_of_insert)
qed

definition lbc_reports_ok :: "'a lbc_state \<Rightarrow> bool" where
  "lbc_reports_ok s \<longleftrightarrow> lbc_ok s \<and> (case s of Active r \<Rightarrow> reports_inv r | Undefined \<Rightarrow> False)"

lemma lbc_reports_ok_init: "lbc_init s \<Longrightarrow> lbc_reports_ok s"
  using lbc_ok_init [of s]
  by (auto simp: lbc_reports_ok_def lbc_init_def reports_inv_def settled_def)

lemma lbc_reports_ok_step:
  assumes ok: "lbc_reports_ok s0" and step: "lbc_step s0 s1"
  shows "lbc_reports_ok s1"
proof -
  have ok1: "lbc_ok s1" using lbc_ok_step ok step by (auto simp: lbc_reports_ok_def)
  obtain s where s: "s0 = Active s" "lbc_inv s" "reports_inv s"
    using ok by (auto simp: lbc_reports_ok_def lbc_ok_def split: lbc_state.splits)
  from step [unfolded s(1)] have "case s1 of Active s' \<Rightarrow> reports_inv s' | Undefined \<Rightarrow> False"
  proof cases
    case (publish v r)
    from this show ?thesis
    proof cases
      case (pub_swap b g)
      with reports_inv_swap [OF s(2,3), of b g v] show ?thesis by (simp add: claimed_def)
    next
      case (pub_settle previous g)
      with reports_inv_settle [OF s(3) _ s(2), of previous g] show ?thesis by (simp add: claimed_def)
    qed (use ok1 in \<open>auto simp: lbc_ok_def claimed_def intro!: reports_inv_frame [OF s(3)]\<close>)
  next
    case (take r)
    from this show ?thesis
    proof cases
      case (take_swap f previous)
      have ready: "lb_ready previous \<longleftrightarrow> upto s < length (hist s)" using s(2) take_swap(4) by (simp add: lbc_inv_def)
      have claiming: "\<not> claiming (tak s)" using take_swap(3) by simp
      show ?thesis
      proof (cases "lb_ready previous")
        case True
        with ready have "0 < length (hist s)" by linarith
        from reports_inv_claim [OF s(3) this] True claiming show ?thesis
          by (simp add: take_swap(2) claimed_def insert_commute)
      next
        case False
        with claiming show ?thesis
          by (simp add: take_swap(2)) (rule reports_inv_frame [OF s(3)], simp_all add: claimed_def)
      qed
    next
      case (take_settle previous)
      then show ?thesis
        by (cases "lb_ready previous") (auto simp: claimed_def intro!: reports_inv_frame [OF s(3)])
    qed (use ok1 in \<open>auto simp: lbc_ok_def claimed_def intro!: reports_inv_frame [OF s(3)]\<close>)
  qed
  with ok1 show ?thesis by (simp add: lbc_reports_ok_def)
qed

interpretation lbc_reports: inductive_invariant lbc_init lbc_step lbc_reports_ok
  by unfold_locales (fact lbc_reports_ok_init, fact lbc_reports_ok_step)

section \<open>What the producer learns\<close>

lemma lbc_reports_exact:
  assumes "reach lbc_init lbc_step (Active s)"
  shows "reports s = map (report_of (claimed s)) [0..<settled s]"
  using lbc_reports.reach_inv [OF assms] by (simp add: lbc_reports_ok_def reports_inv_def)

text \<open>Every publication ends in exactly one place: claimed, reported as replaced, or pending.\<close>

lemma lbc_publications_partition:
  assumes "reach lbc_init lbc_step (Active s)" and "settled s = length (hist s)"
  shows "length (filter pr_replaced_unread (reports s)) + card (claimed s) +
    (if lb_ready (lb_exchange (l_buf s)) then 1 else 0) = length (hist s)"
proof -
  let ?n = "length (hist s)" and ?C = "claimed s"
  have inv: "lbc_inv s" using lbc.reach_inv [OF assms(1)] by (simp add: lbc_ok_def)
  have C: "?C \<subseteq> {1..?n}" using claimed_bounds(1) [OF inv] inv by (auto simp: lbc_inv_def)
  have replaced: "length (filter pr_replaced_unread (reports s)) = card ({1..<?n} - ?C)"
  proof -
    have "filter (\<lambda>i. 0 < i \<and> i \<notin> ?C) [0..<?n] = filter (\<lambda>i. pr_replaced_unread (report_of ?C i)) [0..<?n]"
      by (simp add: report_of_def)
    then have "length (filter pr_replaced_unread (reports s)) = length (filter (\<lambda>i. 0 < i \<and> i \<notin> ?C) [0..<?n])"
      by (simp add: lbc_reports_exact [OF assms(1)] assms(2) filter_map comp_def)
    also have "\<dots> = card (set (filter (\<lambda>i. 0 < i \<and> i \<notin> ?C) [0..<?n]))"
      by (intro distinct_card [symmetric]) simp
    also have "set (filter (\<lambda>i. 0 < i \<and> i \<notin> ?C) [0..<?n]) = {1..<?n} - ?C" by auto
    finally show ?thesis .
  qed
  have fin: "finite ?C" by (rule finite_subset [OF C]) simp
  have pending: "(if lb_ready (lb_exchange (l_buf s)) then 1 else 0) = card ({?n} \<inter> {1..} - ?C)"
    by (simp add: ready_iff_unclaimed [OF inv] Int_insert_left Suc_le_eq insert_Diff_if)
  have "card {1..?n} = card ({1..<?n} - ?C) + card ?C + card ({?n} \<inter> {1..} - ?C)"
  proof -
    have "card (({1..<?n} - ?C) \<union> ?C \<union> ({?n} \<inter> {1..} - ?C))
        = card (({1..<?n} - ?C) \<union> ?C) + card ({?n} \<inter> {1..} - ?C)"
      using fin by (intro card_Un_disjoint) auto
    also have "card (({1..<?n} - ?C) \<union> ?C) = card ({1..<?n} - ?C) + card ?C"
      using fin by (intro card_Un_disjoint) auto
    also have "({1..<?n} - ?C) \<union> ?C \<union> ({?n} \<inter> {1..} - ?C) = {1..?n}" using C by auto
    finally show ?thesis .
  qed
  with replaced pending show ?thesis by simp
qed

end
