(* ===== verification/LatestBuf_Threads.thy ===== *)
theory LatestBuf_Threads
  imports LatestBuf_Progress LatestBuf_Reports
begin

unbundle bit_operations_syntax

text \<open>
  The threaded tests of the exchange as programs. In the first, one thread publishes \<open>[1; 4]\<close>, \<open>[2; 4]\<close>, ... up
  to \<open>goal\<close> while the other takes until it has seen generation \<open>goal\<close> and panics when an item is torn or not newer
  than the one before. In the second, which the model checker explores for small sizes, one thread publishes
  a list of values and keeps the reports, the other takes a number of times and keeps the items, and after
  both have ended the test takes once more and compares the three accounts.
\<close>

section \<open>What a call returns\<close>

abbreviation last_taken :: "'a lbc \<Rightarrow> u32" where
  "last_taken s \<equiv> last_generation (lb_consumer (l_buf s))"

lemma lbc_take_result:
  assumes inv: "lbc_inv s" and acc: "lbc_take r s (Active s')"
  shows "case r of
      Some (Some item) \<Rightarrow> tak s' = TakeIdle \<and> items s' = items s @ [item] \<and> (\<exists>a c. a < c \<and> c \<le> length (hist s) \<and>
        last_taken s = seq_at a \<and> item = item_of (hist s) (a, c) \<and> last_taken s' = seq_at c)
    | Some None \<Rightarrow> tak s' = TakeIdle \<and> last_taken s' = last_taken s \<and> items s' = items s
    | None \<Rightarrow> last_taken s' = last_taken s \<and> items s' = items s"
  using acc
proof cases
  case (take_finish e distance)
  obtain P C M where owned: "lbc_owned s P C M" using inv by (auto simp: lbc_inv_def)
  then have claim: "last_taken s = seq_at (from' s)" "from' s < upto s" "upto s \<le> length (hist s)"
    "e = \<lparr>ent_generation = seq_at (upto s), ent_value = hist s ! (upto s - 1)\<rparr>"
    using take_finish(3) inv by (auto simp: lbc_owned_def holds_claim_def lbc_inv_def)
  then have "\<lparr>li_value = ent_value e, li_generation = ent_generation e, li_skipped = u32_saturating_sub distance 1\<rparr>
      = item_of (hist s) (from' s, upto s)"
    using lb_skipped_eq [OF claim(2)] take_finish(4) by (simp add: item_of_def)
  with claim take_finish(1,2) show ?thesis by auto
qed auto

definition publish_of :: "'a pub_pc \<Rightarrow> 'a \<Rightarrow> bool" where
  "publish_of pc v \<longleftrightarrow> (\<forall>b g w. pc = PubWrite b g w \<or> pc = PubSwap b g w \<longrightarrow> w = v)"

fun settling :: "'a pub_pc \<Rightarrow> bool" where
  "settling (PubSettle previous g) = True"
| "settling pc = False"

text \<open>The publication in progress counts as made once its swap is done.\<close>

lemma lbc_publish_result:
  assumes "lbc_publish v r s (Active s')" and "publish_of (pub s) v"
  shows "case r of
      None \<Rightarrow> publish_of (pub s') v \<and> reports s' = reports s \<and>
        (hist s' = hist s \<and> \<not> settling (pub s) \<and> \<not> settling (pub s') \<or>
         hist s' = hist s @ [v] \<and> \<not> settling (pub s) \<and> settling (pub s'))
    | Some report \<Rightarrow> pub s' = PubIdle \<and> hist s' = hist s \<and> settling (pub s) \<and> reports s' = reports s @ [report]"
  using assms by cases (auto simp: publish_of_def)

lemma publish_call_runs:
  assumes "lbc_inv s" and "publish_of (pub s) v"
  shows "\<exists>r s'. runs (publish_acc v) (Active s) r (Active s') \<and> pub s' = PubIdle \<and>
    hist s' = (if settling (pub s) then hist s else hist s @ [v])"
proof (cases "pub s")
  case PubIdle
  with publish_runs [OF assms(1)] show ?thesis by simp
next
  case (PubWrite b g w)
  with write_runs [OF assms(1), of b g v] assms(2) show ?thesis by (auto simp: publish_of_def)
next
  case (PubSwap b g w)
  with swap_runs [of s b g v] assms(2) show ?thesis by (auto simp: publish_of_def)
next
  case (PubSettle previous g)
  from settle_runs [OF this, of v] PubSettle show ?thesis by simp
qed

lemma take_call_runs:
  assumes "lbc_inv s" and "tak s \<noteq> TakeIdle"
  shows "\<exists>r s'. runs (take_latest_acc u) (Active s) r (Active s') \<and> tak s' = TakeIdle \<and> pub s' = pub s \<and> hist s' = hist s \<and>
    ((\<exists>f. tak s = TakeSwap f) \<or> upto s = length (hist s) \<longrightarrow> upto s' = length (hist s))"
  using assms
proof (induction "take_rank (tak s)" arbitrary: s rule: less_induct)
  case less
  from taker_next [OF less.prems] obtain r s1 where s1: "lbc_take r s (Active s1)" "take_rank (tak s1) < take_rank (tak s)"
    "r = None \<longleftrightarrow> tak s1 \<noteq> TakeIdle" "(\<exists>f. tak s = TakeSwap f) \<or> upto s = length (hist s) \<longrightarrow> upto s1 = length (hist s)"
    by blast
  have frame: "pub s1 = pub s" "hist s1 = hist s" using lbc_take_frame [OF s1(1)] by auto
  show ?case
  proof (cases r)
    case None
    have inv1: "lbc_inv s1" using lbc_ok_step [OF _ lbc_step.take [OF s1(1)]] less.prems(1) by (simp add: lbc_ok_Active)
    from less.hyps [OF s1(2) inv1] s1(3) None obtain r' s2 where s2: "runs (take_latest_acc u) (Active s1) r' (Active s2)"
      "tak s2 = TakeIdle" "pub s2 = pub s" "hist s2 = hist s" "upto s1 = length (hist s) \<longrightarrow> upto s2 = length (hist s)"
      by (auto simp: frame)
    have "take_latest_acc u None (Active s) (Active s1)" using s1(1) None by simp
    from runs.access [where acc = "take_latest_acc u", OF this s2(1)] s1(4) s2(2-5) show ?thesis by blast
  next
    case (Some x)
    with s1 have "runs (take_latest_acc u) (Active s) x (Active s1)" by (intro runs.returns) simp
    with s1(3,4) Some frame show ?thesis by blast
  qed
qed

section \<open>Publishing up to a goal\<close>

datatype publish_pc = Publishing u32 | PublishedAll

definition enter_publishing :: "u32 \<Rightarrow> publish_pc" where
  "enter_publishing goal = (if 1 \<le> goal then Publishing 1 else PublishedAll)"

definition publishing_up_to :: "u32 \<Rightarrow> (u32 list, publish_report, publish_pc) thread" where
  "publishing_up_to goal = Thread
     (\<lambda>p. case p of Publishing value \<Rightarrow> Some (replicate 4 value) | PublishedAll \<Rightarrow> None)
     (\<lambda>p report. case p of Publishing value \<Rightarrow> (if value = goal then PublishedAll else Publishing (value + 1)) | PublishedAll \<Rightarrow> p)"

datatype taker_pc = TakeLoop u32 | TakeDone u32 | TornOrStale

definition enter_taking :: "u32 \<Rightarrow> u32 \<Rightarrow> taker_pc" where
  "enter_taking goal last_generation' = (if last_generation' < goal then TakeLoop last_generation' else TakeDone last_generation')"

definition taking_up_to :: "u32 \<Rightarrow> (unit, u32 list latest_item option, taker_pc) thread" where
  "taking_up_to goal = Thread
     (\<lambda>q. case q of TakeLoop l \<Rightarrow> Some () | _ \<Rightarrow> None)
     (\<lambda>q result. case q of
        TakeLoop l \<Rightarrow> (case result of
            None \<Rightarrow> q
          | Some item \<Rightarrow>
              if l < li_generation item \<and> li_value item = replicate 4 (li_value item ! 0)
              then enter_taking goal (li_generation item) else TornOrStale)
      | _ \<Rightarrow> q)"

type_synonym torn_state = "u32 list lbc_state \<times> publish_pc \<times> taker_pc"

definition torn_init :: "u32 \<Rightarrow> torn_state \<Rightarrow> bool" where
  "torn_init goal x \<longleftrightarrow> lbc_init (fst x) \<and> snd x = (enter_publishing goal, enter_taking goal 0)"

definition torn_step :: "u32 \<Rightarrow> torn_state \<Rightarrow> torn_state \<Rightarrow> bool" where
  "torn_step goal = duo_step publish_acc take_latest_acc (publishing_up_to goal) (taking_up_to goal)"

lemma torn_simps [simp]:
  "next_call (publishing_up_to goal) (Publishing v) = Some (replicate 4 v)"
  "next_call (publishing_up_to goal) PublishedAll = None"
  "on_return (publishing_up_to goal) (Publishing v) report = (if v = goal then PublishedAll else Publishing (v + 1))"
  "next_call (taking_up_to goal) (TakeLoop l) = Some ()"
  "next_call (taking_up_to goal) (TakeDone l) = None"
  "next_call (taking_up_to goal) TornOrStale = None"
  "on_return (taking_up_to goal) (TakeLoop l) None = TakeLoop l"
  "on_return (taking_up_to goal) (TakeLoop l) (Some item) =
     (if l < li_generation item \<and> li_value item = replicate 4 (li_value item ! 0)
      then enter_taking goal (li_generation item) else TornOrStale)"
  by (simp_all add: publishing_up_to_def taking_up_to_def)

fun publisher_at :: "u32 \<Rightarrow> u32 list lbc \<Rightarrow> publish_pc \<Rightarrow> bool" where
  "publisher_at goal s (Publishing v) \<longleftrightarrow> v \<le> goal \<and> publish_of (pub s) (replicate 4 v) \<and>
     unat v = (if settling (pub s) then length (hist s) else Suc (length (hist s)))"
| "publisher_at goal s PublishedAll \<longleftrightarrow> pub s = PubIdle \<and> length (hist s) = unat goal"

fun taker_at :: "u32 \<Rightarrow> u32 list lbc \<Rightarrow> taker_pc \<Rightarrow> bool" where
  "taker_at goal s (TakeLoop l) \<longleftrightarrow> l < goal \<and> l = last_taken s"
| "taker_at goal s (TakeDone l) \<longleftrightarrow> l = goal \<and> l = last_taken s \<and> tak s = TakeIdle"
| "taker_at goal s TornOrStale \<longleftrightarrow> False"

definition published_values :: "nat \<Rightarrow> u32 list list" where
  "published_values n = map (\<lambda>i. replicate 4 (of_nat (Suc i))) [0..<n]"

definition torn_inv :: "u32 \<Rightarrow> u32 list lbc_state \<Rightarrow> publish_pc \<Rightarrow> taker_pc \<Rightarrow> bool" where
  "torn_inv goal x p q \<longleftrightarrow> (\<exists>s. x = Active s \<and> lbc_inv s \<and> hist s = published_values (length (hist s)) \<and>
     length (hist s) \<le> unat goal \<and> publisher_at goal s p \<and> taker_at goal s q)"

lemma taker_at_other:
  "last_taken s' = last_taken s \<Longrightarrow> tak s' = tak s \<Longrightarrow> taker_at goal s q \<Longrightarrow> taker_at goal s' q"
  by (cases q) auto

lemma publisher_at_other:
  "pub s' = pub s \<Longrightarrow> hist s' = hist s \<Longrightarrow> publisher_at goal s p \<Longrightarrow> publisher_at goal s' p"
  by (cases p) auto

lemma lbc_acc_Active_result:
  assumes "lbc_inv s" and "publish_acc v r (Active s) y \<or> take_latest_acc u r' (Active s) y"
  obtains s' where "y = Active s'" and "lbc_inv s'"
proof -
  have "lbc_step (Active s) y" using assms(2) by (auto intro: lbc_step.intros)
  from lbc_ok_step [OF _ this] have "lbc_ok y" using assms(1) by (simp add: lbc_ok_Active)
  then show ?thesis using that by (cases y) (auto simp: lbc_ok_def)
qed

lemma torn_inv_publish:
  assumes inv: "torn_inv goal x p q" and call: "next_call (publishing_up_to goal) p = Some c" and acc: "publish_acc c r x y"
  shows "torn_inv goal y (after_access (publishing_up_to goal) p r) q"
proof -
  from call obtain v where p: "p = Publishing v" "c = replicate 4 v" by (cases p) auto
  from inv obtain s where s: "x = Active s" "lbc_inv s" "hist s = published_values (length (hist s))"
    "length (hist s) \<le> unat goal" "taker_at goal s q" "v \<le> goal" "publish_of (pub s) (replicate 4 v)"
    "unat v = (if settling (pub s) then length (hist s) else Suc (length (hist s)))"
    by (auto simp: torn_inv_def p)
  obtain s' where s': "y = Active s'" "lbc_inv s'" using lbc_acc_Active_result s(1,2) acc by metis
  have step: "lbc_publish (replicate 4 v) r s (Active s')" using acc s(1) s'(1) p by simp
  have taker: "taker_at goal s' q" using taker_at_other [OF _ _ s(5)] lbc_publish_frame [OF step] by simp
  have le: "unat v \<le> unat goal" using s(6) by (simp add: word_le_nat_alt)
  show ?thesis
  proof (cases r)
    case None
    have "replicate 4 v = replicate 4 (of_nat (Suc (length (hist s))))" if "\<not> settling (pub s)"
      using s(8) that u32_of_unat [of v] by simp
    with None lbc_publish_result [OF step s(7)] s s' taker le show ?thesis
      by (auto simp: torn_inv_def p published_values_def)
  next
    case (Some report)
    then have after: "pub s' = PubIdle" "hist s' = hist s" "unat v = length (hist s)"
      using lbc_publish_result [OF step s(7)] s(8) by auto
    have "publisher_at goal s' (if v = goal then PublishedAll else Publishing (v + 1))"
    proof (cases "v = goal")
      case False
      with s(6) have "v < goal" by simp
      with after u32_loop_counter [OF this] show ?thesis
        by (auto simp: publish_of_def word_le_nat_alt word_less_nat_alt)
    qed (use after in simp)
    with Some s s' taker after(2) show ?thesis by (auto simp: torn_inv_def p)
  qed
qed

lemma torn_inv_take:
  assumes inv: "torn_inv goal x p q" and call: "next_call (taking_up_to goal) q = Some u" and acc: "take_latest_acc u r x y"
  shows "torn_inv goal y p (after_access (taking_up_to goal) q r)"
proof -
  from call obtain l where q: "q = TakeLoop l" by (cases q) auto
  from inv obtain s where s: "x = Active s" "lbc_inv s" "hist s = published_values (length (hist s))"
    "length (hist s) \<le> unat goal" "publisher_at goal s p" "l < goal" "l = last_taken s"
    by (auto simp: torn_inv_def q)
  obtain s' where s': "y = Active s'" "lbc_inv s'" using lbc_acc_Active_result s(1,2) acc by metis
  have step: "lbc_take r s (Active s')" using acc s(1) s'(1) by simp
  have frame: "hist s' = hist s" "publisher_at goal s' p"
    using lbc_take_frame [OF step] publisher_at_other [OF _ _ s(5)] by auto
  note result = lbc_take_result [OF s(2) step]
  have "taker_at goal s' (after_access (taking_up_to goal) q r)"
  proof (cases "\<exists>item. r = Some (Some item)")
    case True
    then obtain item a c where item: "r = Some (Some item)" "tak s' = TakeIdle" "a < c" "c \<le> length (hist s)"
      "last_taken s = seq_at a" "item = item_of (hist s) (a, c)" "last_taken s' = seq_at c"
      using result by auto
    have c: "c \<le> unat goal" using item(4) s(4) by simp
    then have "c \<le> SPAN" using unat_u32_less [of goal] by (simp add: SPAN_def)
    then have gen: "unat (seq_at c) = c" "unat (seq_at a) = a" using item(3) by simp_all
    then have "l < seq_at c" using item(3,5) s(7) by (simp add: word_less_nat_alt)
    moreover have "c - 1 < length (hist s)" using item(3,4) by linarith
    then have "hist s ! (c - 1) = replicate 4 (of_nat c)"
      using item(3) s(3) by (metis (no_types, lifting) Suc_pred' length_map length_upt diff_zero less_nat_zero_code neq0_conv
          nth_map nth_upt add_0 published_values_def)
    then have "li_value item = replicate 4 (li_value item ! 0)" by (simp add: item(6) item_of_def)
    moreover have "taker_at goal s' (enter_taking goal (seq_at c))"
      using c gen item(2,7) by (auto simp: enter_taking_def word_less_nat_alt word_unat_eq_iff)
    ultimately show ?thesis by (simp add: item(1,6) q item_of_def)
  next
    case False
    with result s(6,7) show ?thesis by (cases r) (auto simp: q split: option.splits)
  qed
  with s s' frame show ?thesis by (auto simp: torn_inv_def)
qed

lemma torn_inv_init:
  assumes "torn_init goal (x, p, q)"
  shows "torn_inv goal x p q"
proof -
  have "1 \<le> goal \<longleftrightarrow> goal \<noteq> 0" by (simp add: word_le_nat_alt Suc_le_eq unat_gt_0)
  moreover have "0 < goal \<longleftrightarrow> goal \<noteq> 0" by (simp add: word_neq_0_conv)
  moreover have "lbc_ok x" using assms by (auto simp: torn_init_def intro: lbc_ok_init)
  ultimately show ?thesis using assms
    by (auto simp: torn_init_def torn_inv_def lbc_init_def lbc_ok_def enter_publishing_def enter_taking_def publish_of_def
        published_values_def lb_new_def)
qed

interpretation torn: duo_invariant "torn_init goal" publish_acc take_latest_acc "publishing_up_to goal" "taking_up_to goal"
  "torn_inv goal" for goal
  by unfold_locales (auto intro: torn_inv_init torn_inv_publish torn_inv_take)

lemma torn_result:
  assumes "reach (torn_init goal) (torn_step goal) (x, p, q)"
  shows "\<exists>s. x = Active s \<and> q \<noteq> TornOrStale \<and> (next_call (taking_up_to goal) q = None \<longrightarrow> q = TakeDone goal)"
proof -
  from torn.duo_reach_inv [OF assms [unfolded torn_step_def]] obtain s where "x = Active s" "taker_at goal s q"
    by (auto simp: torn_inv_def)
  then show ?thesis by (cases q) auto
qed

text \<open>From every reachable state some schedule ends both threads.\<close>

fun pubs_left :: "u32 \<Rightarrow> publish_pc \<Rightarrow> nat" where
  "pubs_left goal (Publishing v) = Suc (unat goal - unat v)"
| "pubs_left goal PublishedAll = 0"

definition torn_left :: "u32 \<Rightarrow> torn_state \<Rightarrow> nat" where
  "torn_left goal st = pubs_left goal (fst (snd st)) + (case fst st of Active s \<Rightarrow> (if tak s = TakeIdle then 0 else 1) | Undefined \<Rightarrow> 0)"

lemma runs_publish_tak:
  assumes "runs (publish_acc v) x r y" and "x = Active s" and "y = Active s'"
  shows "tak s' = tak s"
  using assms
proof (induction arbitrary: s rule: runs.induct)
  case (access x x' r y)
  then obtain s1 where x': "x' = Active s1" by (cases x') (auto simp: no_run_after_undefined)
  with access.hyps(1) access.prems(1) have "tak s1 = tak s" by (auto dest: lbc_publish_frame)
  with access.IH [OF x' access.prems(2)] show ?case by simp
qed (auto dest: lbc_publish_frame)

lemma torn_publisher_gains:
  assumes inv: "torn_inv goal x (Publishing v) q"
  shows "\<exists>y. (torn_step goal)\<^sup>*\<^sup>* (x, Publishing v, q) y \<and> torn_left goal y < torn_left goal (x, Publishing v, q)"
proof -
  from inv obtain s where s: "x = Active s" "lbc_inv s" "v \<le> goal" "publish_of (pub s) (replicate 4 v)"
    by (auto simp: torn_inv_def)
  from publish_call_runs [OF s(2,4)] obtain r s' where run: "runs (publish_acc (replicate 4 v)) (Active s) r (Active s')"
    by blast
  let ?p = "if v = goal then PublishedAll else Publishing (v + 1)"
  have "(torn_step goal)\<^sup>*\<^sup>* (x, Publishing v, q) (Active s', ?p, q)"
    using runs_left [where left_acc = publish_acc and right_acc = take_latest_acc, OF run, of "publishing_up_to goal"
        "Publishing v" "taking_up_to goal" q]
    by (simp add: torn_step_def s(1) split del: if_split)
  moreover have "pubs_left goal ?p < pubs_left goal (Publishing v)"
  proof (cases "v = goal")
    case False
    with s(3) have "v < goal" by simp
    from u32_loop_counter [OF this] this show ?thesis by (auto simp: word_less_nat_alt)
  qed simp
  then have "torn_left goal (Active s', ?p, q) < torn_left goal (x, Publishing v, q)"
    using runs_publish_tak [OF run refl refl] by (simp add: torn_left_def s(1))
  ultimately show ?thesis by blast
qed

lemma torn_taker_runs:
  assumes "runs (take_latest_acc ()) (Active s) r (Active s')"
  shows "(torn_step goal)\<^sup>*\<^sup>* (Active s, p, TakeLoop l) (Active s', p, on_return (taking_up_to goal) (TakeLoop l) r)"
  unfolding torn_step_def by (rule runs_right [where right_acc = take_latest_acc, OF assms]) simp

lemma torn_keep:
  assumes "(torn_step goal)\<^sup>*\<^sup>* x y" and "torn_inv goal (fst x) (fst (snd x)) (snd (snd x))"
  shows "torn_inv goal (fst y) (fst (snd y)) (snd (snd y))"
  using assms
proof (induction rule: rtranclp_induct)
  case (step y z)
  with torn.inv_step [of goal y z] show ?case by (cases y; cases z) (simp add: torn_step_def)
qed

lemma last_taken_newest:
  assumes "lbc_inv s" and "tak s = TakeIdle"
  shows "last_taken s = seq_at (upto s)"
  using assms by (auto simp: lbc_inv_def lbc_owned_def)

lemma torn_last_take:
  assumes inv: "torn_inv goal x PublishedAll (TakeLoop l)" and idle: "x = Active s" "tak s = TakeIdle"
  shows "\<exists>y. (torn_step goal)\<^sup>*\<^sup>* (x, PublishedAll, TakeLoop l) y \<and> snd y = (PublishedAll, TakeDone goal)"
proof -
  from inv idle have s: "lbc_inv s" "length (hist s) = unat goal" by (auto simp: torn_inv_def)
  let ?s = "s\<lparr>tak := TakeSwap (lb_consumer_slot (front_encoded (lb_consumer (l_buf s))))\<rparr>"
  have hint: "lbc_take None s (Active ?s)" by (rule lbc_take.take_hint [OF idle(2)])
  from lbc_ok_step [OF _ lbc_step.take [OF this]] have "lbc_inv ?s" using s(1) by (simp add: lbc_ok_Active)
  from take_call_runs [OF this] obtain r s' where r: "runs (take_latest_acc ()) (Active ?s) r (Active s')"
    "tak s' = TakeIdle" "upto s' = length (hist s)" by auto
  have "take_latest_acc () None (Active s) (Active ?s)" using hint by simp
  from torn_taker_runs [OF runs.access [where acc = "take_latest_acc ()", OF this r(1)]]
  have path: "(torn_step goal)\<^sup>*\<^sup>* (x, PublishedAll, TakeLoop l) (Active s', PublishedAll, on_return (taking_up_to goal) (TakeLoop l) r)"
    unfolding idle(1) .
  from torn_keep [OF path] inv obtain q where q: "q = on_return (taking_up_to goal) (TakeLoop l) r"
    "lbc_inv s'" "taker_at goal s' q" by (auto simp: torn_inv_def)
  have "unat goal \<le> SPAN" using unat_u32_less [of goal] by (simp add: SPAN_def)
  then have "seq_at (unat goal) = goal" by (simp add: word_unat_eq_iff)
  then have "last_taken s' = goal" using last_taken_newest [OF q(2) r(2)] r(3) s(2) by simp
  then have "q = TakeDone goal" using q(3) by (cases q) auto
  then have "on_return (taking_up_to goal) (TakeLoop l) r = TakeDone goal" using q(1) by (metis (no_types))
  from path [unfolded this] show ?thesis by force
qed

lemma torn_can_end:
  assumes "reach (torn_init goal) (torn_step goal) st"
  shows "\<exists>y. (torn_step goal)\<^sup>*\<^sup>* st y \<and> snd y = (PublishedAll, TakeDone goal)"
proof (rule can_end [where I = "\<lambda>st. torn_inv goal (fst st) (fst (snd st)) (snd (snd st))" and left = "torn_left goal"])
  show "torn_inv goal (fst st) (fst (snd st)) (snd (snd st))"
    using torn.duo_reach_inv assms by (cases st) (simp add: torn_step_def)
  show "torn_inv goal (fst y) (fst (snd y)) (snd (snd y))"
    if "torn_inv goal (fst x) (fst (snd x)) (snd (snd x))" "torn_step goal x y" for x y
    using torn_keep that by blast
  fix y assume y: "torn_inv goal (fst y) (fst (snd y)) (snd (snd y))" "\<not> snd y = (PublishedAll, TakeDone goal)"
  obtain x p q where yy: "y = (x, p, q)" by (cases y)
  from y(1) obtain s where s: "x = Active s" "lbc_inv s" "taker_at goal s q" by (auto simp: torn_inv_def yy)
  show "\<exists>z. (torn_step goal)\<^sup>*\<^sup>* y z \<and> (snd z = (PublishedAll, TakeDone goal) \<or> torn_left goal z < torn_left goal y)"
  proof (cases p)
    case (Publishing v)
    with torn_publisher_gains [of goal x v q] y(1) show ?thesis by (auto simp: yy)
  next
    case PublishedAll
    with y(2) s(3) obtain l where q: "q = TakeLoop l" by (cases q) (auto simp: yy)
    show ?thesis
    proof (cases "tak s = TakeIdle")
      case True
      have "torn_inv goal x PublishedAll (TakeLoop l)" using y(1) by (simp add: yy PublishedAll q)
      from torn_last_take [OF this s(1) True] show ?thesis unfolding yy PublishedAll q by blast
    next
      case False
      from take_call_runs [OF s(2) False] obtain r s' where "runs (take_latest_acc ()) (Active s) r (Active s')"
        "tak s' = TakeIdle" by blast
      with torn_taker_runs False show ?thesis by (force simp: yy PublishedAll q s(1) torn_left_def)
    qed
  qed
qed
section \<open>Publications, takes and the final account\<close>

definition listing_publisher :: "('a, publish_report, 'a list \<times> publish_report list) thread" where
  "listing_publisher = Thread
     (\<lambda>(vs, rs). case vs of [] \<Rightarrow> None | v # _ \<Rightarrow> Some v)
     (\<lambda>(vs, rs) report. (tl vs, rs @ [report]))"

definition counting_taker :: "(unit, 'a latest_item option, nat \<times> 'a latest_item list) thread" where
  "counting_taker = Thread
     (\<lambda>(k, got). if k = 0 then None else Some ())
     (\<lambda>(k, got) result. (k - 1, case result of None \<Rightarrow> got | Some item \<Rightarrow> got @ [item]))"

type_synonym 'a account_state = "'a lbc_state \<times> ('a list \<times> publish_report list) \<times> (nat \<times> 'a latest_item list)"

definition account_init :: "'a list \<Rightarrow> nat \<Rightarrow> 'a account_state \<Rightarrow> bool" where
  "account_init vs k x \<longleftrightarrow> lbc_init (fst x) \<and> snd x = ((vs, []), (k, []))"

definition account_step :: "'a account_state \<Rightarrow> 'a account_state \<Rightarrow> bool" where
  "account_step = duo_step publish_acc take_latest_acc listing_publisher counting_taker"

definition account_inv :: "'a list \<Rightarrow> 'a lbc_state \<Rightarrow> 'a list \<times> publish_report list \<Rightarrow> nat \<times> 'a latest_item list \<Rightarrow> bool" where
  "account_inv vs x p q \<longleftrightarrow> (\<exists>s made. x = Active s \<and> lbc_reports_ok x \<and> snd p = reports s \<and> snd q = items s \<and>
     vs = made @ fst p \<and> hist s = made @ (if settling (pub s) then [hd (fst p)] else []) \<and>
     (if fst p = [] then pub s = PubIdle else publish_of (pub s) (hd (fst p))) \<and> (fst q = 0 \<longrightarrow> tak s = TakeIdle))"

lemma lbc_reports_acc:
  assumes "lbc_reports_ok (Active s)" and "publish_acc v r (Active s) y \<or> take_latest_acc u r' (Active s) y"
  obtains s' where "y = Active s'" and "lbc_reports_ok (Active s')"
proof -
  have "lbc_step (Active s) y" using assms(2) by (auto intro: lbc_step.intros)
  from lbc_reports_ok_step [OF assms(1) this] show ?thesis
    using that by (cases y) (auto simp: lbc_reports_ok_def lbc_ok_def)
qed

lemma account_inv_publish:
  assumes inv: "account_inv vs x p q" and call: "next_call listing_publisher p = Some v" and acc: "publish_acc v r x y"
  shows "account_inv vs y (after_access listing_publisher p r) q"
proof -
  from call obtain ps rs where p: "p = (v # ps, rs)" by (cases p; cases "fst p") (auto simp: listing_publisher_def)
  from inv obtain s made where s: "x = Active s" "lbc_reports_ok (Active s)" "rs = reports s" "snd q = items s"
    "vs = made @ v # ps" "hist s = made @ (if settling (pub s) then [v] else [])" "publish_of (pub s) v"
    "fst q = 0 \<longrightarrow> tak s = TakeIdle" by (auto simp: account_inv_def p)
  obtain s' where s': "y = Active s'" "lbc_reports_ok (Active s')" using lbc_reports_acc s(1,2) acc by metis
  have step: "lbc_publish v r s (Active s')" using acc s(1) s'(1) by simp
  note frame = lbc_publish_frame [OF step] and result = lbc_publish_result [OF step s(7)]
  show ?thesis
  proof (cases r)
    case None
    with result s s' frame show ?thesis
      by (intro iffD2 [OF account_inv_def] exI [of _ s'] exI [of _ made]) (auto simp: p)
  next
    case (Some report)
    with result s s' frame show ?thesis
      by (intro iffD2 [OF account_inv_def] exI [of _ s'] exI [of _ "made @ [v]"])
        (auto simp: p listing_publisher_def publish_of_def)
  qed
qed

lemma account_inv_take:
  assumes inv: "account_inv vs x p q" and call: "next_call counting_taker q = Some u" and acc: "take_latest_acc u r x y"
  shows "account_inv vs y p (after_access counting_taker q r)"
proof -
  from call obtain k got where q: "q = (k, got)" "k \<noteq> 0" by (cases q) (auto simp: counting_taker_def split: if_splits)
  from inv obtain s where s: "x = Active s" "lbc_reports_ok (Active s)" by (auto simp: account_inv_def)
  obtain s' where s': "y = Active s'" "lbc_reports_ok (Active s')" using lbc_reports_acc s(1,2) acc by metis
  have step: "lbc_take r s (Active s')" using acc s(1) s'(1) by simp
  have "lbc_inv s" using s(2) by (simp add: lbc_reports_ok_def lbc_ok_def)
  from lbc_take_result [OF this step] lbc_take_frame [OF step] inv s(1) s' q show ?thesis
    by (cases r; auto simp: account_inv_def counting_taker_def split: option.splits)
qed

interpretation account: duo_invariant "account_init vs k" publish_acc take_latest_acc listing_publisher counting_taker
  "account_inv vs" for vs k
proof
  show "account_inv vs x p q" if "account_init vs k (x, p, q)" for x :: "'a lbc_state" and p q
    using that lbc_reports_ok_init [of x] by (auto simp: account_inv_def account_init_def lbc_init_def publish_of_def)
qed (auto intro: account_inv_publish account_inv_take)

text \<open>A take after both threads have ended: nothing runs in between, so it is the sequential operation.\<close>

lemma take_after_join:
  assumes inv: "lbc_inv s" and idle: "tak s = TakeIdle"
  shows "\<exists>b'. lb_take_latest (l_buf s) = Some
    (if upto s < length (hist s) then Some (item_of (hist s) (upto s, length (hist s))) else None, b')"
proof (cases "upto s < length (hist s)")
  case False
  with inv show ?thesis by (auto simp: lb_take_latest_def lbc_inv_def)
next
  case True
  obtain P C M where owned: "lbc_owned s P C M" using inv by (auto simp: lbc_inv_def)
  have ready: "lb_ready (lb_exchange (l_buf s))" and len: "length (lb_slots (l_buf s)) = 3"
    using inv True by (simp_all add: lbc_inv_def)
  have M: "M < 3" "lb_exchange (l_buf s) = lb_encode M True"
    "lb_slots (l_buf s) ! unat M = Some \<lparr>ent_generation = seq_at (length (hist s)), ent_value = last (hist s)\<rparr>"
    "last_taken s = seq_at (upto s)"
    using owned True ready idle by (auto simp: lbc_owned_def)
  then have "lb_slot (lb_exchange (l_buf s)) = unat M"
    by (simp add: lb_slot_encode)
  moreover have "last (hist s) = hist s ! (length (hist s) - 1)" using True by (intro last_conv_nth) auto
  ultimately show ?thesis
    using M(1,3,4) ready len True lb_skipped_eq [OF True]
    by (simp add: lb_take_latest_def item_of_def u32_slot)
qed

lemma chain_card: "chain a r c \<Longrightarrow> card (snd ` set r) = length r"
proof (induction a r c rule: chain.induct)
  case (2 a x y r c)
  then have "y \<notin> snd ` set r" using chain_ends [of y r c] by auto
  with 2 show ?case by simp
qed simp

lemma account_result:
  assumes "reach (account_init vs k) account_step (x, ([], rs), (0, got))"
  shows "\<exists>s final b'. x = Active s \<and> lb_take_latest (l_buf s) = Some (final, b') \<and>
    final = (if upto s < length vs then Some (item_of vs (upto s, length vs)) else None) \<and>
    chain 0 (log s) (upto s) \<and> got = map (item_of vs) (log s) \<and>
    rs = map (report_of (snd ` set (log s))) [0..<length vs] \<and>
    length (filter pr_replaced_unread rs) + length got + (if final = None then 0 else 1) = length vs \<and>
    upto s \<le> length vs"
proof -
  have init: "account_init vs k (s, p, q) \<Longrightarrow> lbc_init s" for s p q by (simp add: account_init_def)
  have left: "publish_acc c r s s' \<Longrightarrow> id s' = id s \<or> lbc_step (id s) (id s')" for c :: 'a and r s s'
    by (auto dest: lbc_acc_steps)
  have right: "take_latest_acc c r s s' \<Longrightarrow> id s' = id s \<or> lbc_step (id s) (id s')"
    for c and r :: "'a latest_item option option" and s s'
    by (auto dest: lbc_acc_steps)
  from duo_reach_core [where core = id and step = lbc_step and cinit = lbc_init, OF left right _ assms [unfolded account_step_def]]
  have core: "reach lbc_init lbc_step x" using init by simp
  from account.duo_reach_inv [OF assms [unfolded account_step_def]] obtain s where
    s: "x = Active s" "lbc_reports_ok x" "rs = reports s" "got = items s" "hist s = vs" "pub s = PubIdle" "tak s = TakeIdle"
    by (auto simp: account_inv_def)
  then have inv: "lbc_inv s" by (simp add: lbc_reports_ok_def lbc_ok_def)
  have claimed: "claimed s = snd ` set (log s)" and settled: "settled s = length vs"
    using s by (simp_all add: claimed_def settled_def)
  have chain: "chain 0 (log s) (upto s)" and items: "items s = map (item_of vs) (log s)" "upto s \<le> length vs"
    "lb_ready (lb_exchange (l_buf s)) \<longleftrightarrow> upto s < length vs"
    using inv s(5,7) by (simp_all add: lbc_inv_def)
  have "reports s = map (report_of (snd ` set (log s))) [0..<length vs]"
    using lbc_reports_exact [of s] core s(1) by (simp add: claimed settled)
  moreover have "length (filter pr_replaced_unread (reports s)) + length (items s) + (if upto s < length vs then 1 else 0) = length vs"
    using lbc_publications_partition [of s] core s(1,5) chain_card [OF chain] by (simp add: claimed settled items)
  ultimately show ?thesis
    using take_after_join [OF inv s(7)] s chain items(1,2) by (cases "upto s < length vs") auto
qed

end
