(* ===== verification/LatestBuf_Models.thy ===== *)
theory LatestBuf_Models
  imports LatestBuf_Threads
begin

text \<open>
  The program that makes a slot travel from the producer to the consumer and back: phases stored and loaded with
  Relaxed order let the two threads take turns, and each side asserts what the other has left. The exchange word
  alone carries the slots; a phase may be seen late. At the end, the program in which a take races one publication.
\<close>

section \<open>A Relaxed phase beside the component\<close>

datatype 'c phase_call = Act 'c | Set_Phase nat | Get_Phase

datatype 'r phase_result = Acted 'r | Phase_Set | Phase nat

text \<open>The phases stored only grow, so a load that is late returns a smaller one.\<close>

inductive phased :: "('c \<Rightarrow> 'r option \<Rightarrow> 's \<Rightarrow> 's \<Rightarrow> bool) \<Rightarrow> 'c phase_call \<Rightarrow> 'r phase_result option \<Rightarrow>
    's \<times> nat \<Rightarrow> 's \<times> nat \<Rightarrow> bool" for acc where
  act: "acc c r s s' \<Longrightarrow> phased acc (Act c) (map_option Acted r) (s, n) (s', n)"
| set_phase: "phased acc (Set_Phase m) (Some Phase_Set) (s, n) (s, m)"
| get_phase: "m \<le> n \<Longrightarrow> phased acc Get_Phase (Some (Phase m)) (s, n) (s, n)"

inductive_simps phased_simps:
  "phased acc (Act c) r x y"
  "phased acc (Set_Phase m) r x y"
  "phased acc Get_Phase r x y"

section \<open>The threads\<close>

datatype turn_pc = Turn nat | Announce nat | Await nat | TurnsOver | OutOfTurn

text \<open>The \<open>k\<close>-th of the values published.\<close>

definition pair_of :: "nat \<Rightarrow> u32 list" where
  "pair_of k = [of_nat k, of_nat k]"

definition publishing_in_turn :: "nat \<Rightarrow> (u32 list phase_call, publish_report phase_result, turn_pc) thread" where
  "publishing_in_turn rounds = Thread
     (\<lambda>p. case p of Turn k \<Rightarrow> Some (Act (pair_of k)) | Announce n \<Rightarrow> Some (Set_Phase n) | Await n \<Rightarrow> Some Get_Phase | _ \<Rightarrow> None)
     (\<lambda>p result. case (p, result) of
        (Turn k, Acted report) \<Rightarrow>
          if pr_replaced_unread report then OutOfTurn else if k = rounds then TurnsOver else Announce (2 * k - 1)
      | (Announce n, Phase_Set) \<Rightarrow> Await (n + 1)
      | (Await n, Phase m) \<Rightarrow> if m < n then Await n else Turn (n div 2 + 1)
      | _ \<Rightarrow> p)"

definition taking_in_turn :: "nat \<Rightarrow> (unit phase_call, u32 list latest_item option phase_result, turn_pc) thread" where
  "taking_in_turn rounds = Thread
     (\<lambda>q. case q of Turn k \<Rightarrow> Some (Act ()) | Announce n \<Rightarrow> Some (Set_Phase n) | Await n \<Rightarrow> Some Get_Phase | _ \<Rightarrow> None)
     (\<lambda>q result. case (q, result) of
        (Turn k, Acted (Some item)) \<Rightarrow>
          if li_generation item = of_nat k \<and> li_value item = pair_of k \<and> li_skipped item = 0 then Announce (2 * k) else OutOfTurn
      | (Turn k, Acted None) \<Rightarrow> Turn k
      | (Announce n, Phase_Set) \<Rightarrow> if n = 2 * (rounds - 1) then TurnsOver else Await (n + 1)
      | (Await n, Phase m) \<Rightarrow> if m < n then Await n else Turn ((n + 1) div 2)
      | _ \<Rightarrow> q)"

type_synonym turn_state = "(u32 list lbc_state \<times> nat) \<times> turn_pc \<times> turn_pc"

definition turn_init :: "turn_state \<Rightarrow> bool" where
  "turn_init x \<longleftrightarrow> lbc_init (fst (fst x)) \<and> snd (fst x) = 0 \<and> snd x = (Turn 1, Await 1)"

abbreviation publish_turns :: "u32 list phase_call \<Rightarrow> publish_report phase_result option \<Rightarrow>
    u32 list lbc_state \<times> nat \<Rightarrow> u32 list lbc_state \<times> nat \<Rightarrow> bool" where
  "publish_turns \<equiv> phased publish_acc"

abbreviation take_turns :: "unit phase_call \<Rightarrow> u32 list latest_item option phase_result option \<Rightarrow>
    u32 list lbc_state \<times> nat \<Rightarrow> u32 list lbc_state \<times> nat \<Rightarrow> bool" where
  "take_turns \<equiv> phased take_latest_acc"

definition turn_step :: "nat \<Rightarrow> turn_state \<Rightarrow> turn_state \<Rightarrow> bool" where
  "turn_step rounds = duo_step publish_turns take_turns (publishing_in_turn rounds) (taking_in_turn rounds)"

lemma turn_simps [simp]:
  "next_call (publishing_in_turn rounds) (Turn k) = Some (Act (pair_of k))"
  "next_call (publishing_in_turn rounds) (Announce n) = Some (Set_Phase n)"
  "next_call (publishing_in_turn rounds) (Await n) = Some Get_Phase"
  "next_call (publishing_in_turn rounds) TurnsOver = None"
  "next_call (publishing_in_turn rounds) OutOfTurn = None"
  "on_return (publishing_in_turn rounds) (Turn k) (Acted report) =
     (if pr_replaced_unread report then OutOfTurn else if k = rounds then TurnsOver else Announce (2 * k - 1))"
  "on_return (publishing_in_turn rounds) (Announce n) Phase_Set = Await (n + 1)"
  "on_return (publishing_in_turn rounds) (Await n) (Phase m) = (if m < n then Await n else Turn (n div 2 + 1))"
  "next_call (taking_in_turn rounds) (Turn k) = Some (Act ())"
  "next_call (taking_in_turn rounds) (Announce n) = Some (Set_Phase n)"
  "next_call (taking_in_turn rounds) (Await n) = Some Get_Phase"
  "next_call (taking_in_turn rounds) TurnsOver = None"
  "next_call (taking_in_turn rounds) OutOfTurn = None"
  "on_return (taking_in_turn rounds) (Turn k) (Acted None) = Turn k"
  "on_return (taking_in_turn rounds) (Turn k) (Acted (Some item)) =
     (if li_generation item = of_nat k \<and> li_value item = pair_of k \<and> li_skipped item = 0 then Announce (2 * k) else OutOfTurn)"
  "on_return (taking_in_turn rounds) (Announce n) Phase_Set = (if n = 2 * (rounds - 1) then TurnsOver else Await (n + 1))"
  "on_return (taking_in_turn rounds) (Await n) (Phase m) = (if m < n then Await n else Turn ((n + 1) div 2))"
  by (simp_all add: publishing_in_turn_def taking_in_turn_def)

section \<open>Taking turns\<close>

definition paired :: "u32 list list \<Rightarrow> bool" where
  "paired vs \<longleftrightarrow> (\<forall>i < length vs. vs ! i = pair_of (Suc i))"

definition published :: "u32 list lbc \<Rightarrow> nat \<Rightarrow> bool" where
  "published s n \<longleftrightarrow> pub s = PubIdle \<and> length (hist s) = n"

definition taken :: "'a lbc \<Rightarrow> nat \<Rightarrow> bool" where
  "taken s n \<longleftrightarrow> tak s = TakeIdle \<and> upto s = n"

definition publishing_turn :: "u32 list lbc \<Rightarrow> nat \<Rightarrow> bool" where
  "publishing_turn s k \<longleftrightarrow> publish_of (pub s) (pair_of k) \<and> Suc (length (hist s)) = (if settling (pub s) then Suc k else k) \<and>
     (\<forall>previous g. pub s = PubSettle previous g \<longrightarrow> \<not> lb_ready previous)"

text \<open>In round \<open>k\<close> the producer has the turn; with the next phase the consumer has it.\<close>

definition producers_turn :: "nat \<Rightarrow> nat \<Rightarrow> u32 list lbc \<Rightarrow> nat \<Rightarrow> turn_pc \<Rightarrow> turn_pc \<Rightarrow> bool" where
  "producers_turn rounds k s n p q \<longleftrightarrow> n = 2 * (k - 1) \<and> taken s (k - 1) \<and> q = (if k = rounds then TurnsOver else Await (2 * k - 1)) \<and>
     (p = Await (2 * (k - 1)) \<and> 1 < k \<and> published s (k - 1) \<or> p = Turn k \<and> publishing_turn s k \<or>
      p = Announce (2 * k - 1) \<and> k < rounds \<and> published s k \<or> p = TurnsOver \<and> k = rounds \<and> published s k)"

definition consumers_turn :: "nat \<Rightarrow> nat \<Rightarrow> u32 list lbc \<Rightarrow> nat \<Rightarrow> turn_pc \<Rightarrow> turn_pc \<Rightarrow> bool" where
  "consumers_turn rounds k s n p q \<longleftrightarrow> k < rounds \<and> n = 2 * k - 1 \<and> p = Await (2 * k) \<and> published s k \<and>
     (q = Await (2 * k - 1) \<and> taken s (k - 1) \<or> q = Turn k \<and> last_taken s = seq_at (k - 1) \<or> q = Announce (2 * k) \<and> taken s k)"

definition turn_inv :: "nat \<Rightarrow> u32 list lbc_state \<times> nat \<Rightarrow> turn_pc \<Rightarrow> turn_pc \<Rightarrow> bool" where
  "turn_inv rounds x p q \<longleftrightarrow> (\<exists>s k. fst x = Active s \<and> lbc_inv s \<and> paired (hist s) \<and> 1 \<le> k \<and> k \<le> rounds \<and>
     (producers_turn rounds k s (snd x) p q \<or> consumers_turn rounds k s (snd x) p q))"

lemma publish_turn_access:
  assumes inv: "lbc_inv s" and turn: "publishing_turn s k" "paired (hist s)" "1 \<le> k" and taken: "taken s (k - 1)"
    and step: "lbc_publish (pair_of k) r s (Active s')"
  shows "paired (hist s') \<and> taken s' (k - 1) \<and> (case r of
      None \<Rightarrow> publishing_turn s' k
    | Some report \<Rightarrow> \<not> pr_replaced_unread report \<and> published s' k)"
proof -
  have ready: "lb_ready (lb_exchange (l_buf s)) \<longleftrightarrow> upto s < length (hist s)" using inv by (simp add: lbc_inv_def)
  from step turn taken ready show ?thesis
    by cases (auto simp: publishing_turn_def paired_def taken_def published_def publish_of_def nth_append less_Suc_eq)
qed

lemma take_turn_access:
  assumes inv: "lbc_inv s" and s: "published s k" "paired (hist s)" "1 \<le> k" "k \<le> SPAN" "last_taken s = seq_at (k - 1)"
    and step: "lbc_take r s (Active s')" and inv': "lbc_inv s'"
  shows "case r of
      Some (Some item) \<Rightarrow> li_generation item = of_nat k \<and> li_value item = pair_of k \<and> li_skipped item = 0 \<and> taken s' k
    | _ \<Rightarrow> last_taken s' = seq_at (k - 1)"
proof (cases "\<exists>item. r = Some (Some item)")
  case False
  with lbc_take_result [OF inv step] s(5) show ?thesis by (auto split: option.splits)
next
  case True
  then obtain item a c where item: "r = Some (Some item)" "tak s' = TakeIdle" "a < c" "c \<le> length (hist s)"
    "last_taken s = seq_at a" "item = item_of (hist s) (a, c)" "last_taken s' = seq_at c"
    using lbc_take_result [OF inv step] by auto
  have n: "length (hist s) = k" using s(1) by (simp add: published_def)
  have "unat (seq_at a) = unat (seq_at (k - 1))" using item(5) s(5) by simp
  then have "a = k - 1" using item(3,4) n s(4) by simp
  with item(3,4) n have ac: "a = k - 1" "c = k" by simp_all
  have "last_taken s' = seq_at (upto s')" by (rule last_taken_newest [OF inv' item(2)])
  moreover have "upto s' \<le> k" using inv' lbc_take_frame [OF step] n by (simp add: lbc_inv_def)
  ultimately have "unat (seq_at (upto s')) = unat (seq_at k)" "upto s' \<le> SPAN" using item(7) ac s(4) by simp_all
  then have "upto s' = k" using s(4) by simp
  with item ac s n show ?thesis
    by (auto simp: item_of_def taken_def paired_def seq_at_small lb_skips_def)
qed

lemma turn_inv_publish:
  assumes inv: "turn_inv rounds x p q" and call: "next_call (publishing_in_turn rounds) p = Some c" and acc: "publish_turns c r x y"
  shows "turn_inv rounds y (after_access (publishing_in_turn rounds) p r) q"
proof -
  obtain n where x: "x = (fst x, n)" by (cases x) auto
  from inv obtain s k where s: "fst x = Active s" "lbc_inv s" "paired (hist s)" "1 \<le> k" "k \<le> rounds"
    "producers_turn rounds k s (snd x) p q \<or> consumers_turn rounds k s (snd x) p q" by (auto simp: turn_inv_def)
  show ?thesis
  proof (cases p)
    case (Turn k')
    with s(6) have turn: "k' = k" "publishing_turn s k" "taken s (k - 1)" "snd x = 2 * (k - 1)"
      "q = (if k = rounds then TurnsOver else Await (2 * k - 1))"
      by (auto simp: producers_turn_def consumers_turn_def)
    from acc call Turn turn(1) s(1) obtain r' y' where step: "lbc_publish (pair_of k) r' s y'" "r = map_option Acted r'" "y = (y', snd x)"
      by (cases x) (auto simp: phased_simps)
    obtain s' where s': "y' = Active s'" "lbc_inv s'"
      using lbc_acc_Active_result [OF s(2), of "pair_of k" r' y'] step(1) by auto
    note after = publish_turn_access [OF s(2) turn(2) s(3,4) turn(3) step(1) [unfolded s'(1)]]
    show ?thesis
    proof (cases r')
      case None
      with after turn s' step s(4,5) show ?thesis
        by (intro iffD2 [OF turn_inv_def] exI [of _ s'] exI [of _ k]) (auto simp: Turn producers_turn_def)
    next
      case (Some report)
      with after turn s' step s(4,5) show ?thesis
        by (intro iffD2 [OF turn_inv_def] exI [of _ s'] exI [of _ k]) (auto simp: Turn producers_turn_def)
    qed
  next
    case (Announce m)
    with s(6) have "producers_turn rounds k s (snd x) p q" "m = 2 * k - 1" "k < rounds"
      by (auto simp: producers_turn_def consumers_turn_def)
    moreover from acc call Announce x have "y = (fst x, m)" "r = Some Phase_Set" by (cases x; auto simp: phased_simps)+
    ultimately show ?thesis using s
      by (intro iffD2 [OF turn_inv_def] exI [of _ s] exI [of _ k]) (auto simp: Announce producers_turn_def consumers_turn_def)
  next
    case (Await m)
    from acc call Await x obtain m' where m': "y = x" "r = Some (Phase m')" "m' \<le> snd x" by (cases x) (auto simp: phased_simps)
    show ?thesis
    proof (cases "m' < m")
      case True
      with m' inv show ?thesis by (simp add: Await)
    next
      case False
      have "\<not> consumers_turn rounds k s (snd x) p q"
      proof
        assume "consumers_turn rounds k s (snd x) p q"
        then have "snd x = 2 * k - 1" "m = 2 * k" by (simp_all add: consumers_turn_def Await)
        with False m'(3) s(4) show False by linarith
      qed
      with s(6) have "producers_turn rounds k s (snd x) p q" by simp
      moreover from this have "m = 2 * (k - 1)" "published s (k - 1)" by (auto simp: producers_turn_def Await)
      moreover from this(1) s(4) have "m div 2 + 1 = k" by simp
      moreover have "publishing_turn s k" using calculation(3) s(4) by (simp add: publishing_turn_def published_def publish_of_def)
      ultimately show ?thesis using s False m'
        by (intro iffD2 [OF turn_inv_def] exI [of _ s] exI [of _ k]) (simp add: Await producers_turn_def)
    qed
  qed (use call in auto)
qed

lemma turn_inv_take:
  assumes inv: "turn_inv rounds x p q" and small: "rounds \<le> SPAN"
    and call: "next_call (taking_in_turn rounds) q = Some c" and acc: "take_turns c r x y"
  shows "turn_inv rounds y p (after_access (taking_in_turn rounds) q r)"
proof -
  from inv obtain s k where s: "fst x = Active s" "lbc_inv s" "paired (hist s)" "1 \<le> k" "k \<le> rounds"
    "producers_turn rounds k s (snd x) p q \<or> consumers_turn rounds k s (snd x) p q" by (auto simp: turn_inv_def)
  show ?thesis
  proof (cases q)
    case (Turn k')
    with s(6) have turn: "k' = k" "k < rounds" "published s k" "last_taken s = seq_at (k - 1)" "snd x = 2 * k - 1" "p = Await (2 * k)"
      by (auto simp: producers_turn_def consumers_turn_def split: if_splits)
    from acc call Turn s(1) obtain r' y' where step: "lbc_take r' s y'" "r = map_option Acted r'" "y = (y', snd x)"
      by (cases x) (auto simp: phased_simps)
    obtain s' where s': "y' = Active s'" "lbc_inv s'"
      using lbc_acc_Active_result [OF s(2), of _ _ y' "()" r'] step(1) by auto
    have k: "k \<le> SPAN" using s(5) small by simp
    note after = take_turn_access [OF s(2) turn(3) s(3,4) k turn(4) step(1) [unfolded s'(1)] s'(2)]
    have frame: "published s' k" "paired (hist s')"
      using lbc_take_frame [OF step(1) [unfolded s'(1)]] turn(3) s(3) by (simp_all add: published_def)
    have "\<exists>q'. after_access (taking_in_turn rounds) q r = q' \<and> (q' = Turn k \<and> last_taken s' = seq_at (k - 1) \<or>
        q' = Announce (2 * k) \<and> taken s' k)"
      using after step(2) turn(1) by (cases r') (auto simp: Turn split: option.splits)
    with turn s' step(3) s(4,5) frame show ?thesis
      by (intro iffD2 [OF turn_inv_def] exI [of _ s'] exI [of _ k]) (auto simp: consumers_turn_def)
  next
    case (Announce m)
    with s(6) have "consumers_turn rounds k s (snd x) p q" "m = 2 * k" "taken s k" "published s k" "k < rounds" "p = Await (2 * k)"
      by (auto simp: producers_turn_def consumers_turn_def split: if_splits)
    moreover from acc call Announce have "y = (fst x, m)" "r = Some Phase_Set" by (cases x; auto simp: phased_simps)+
    ultimately show ?thesis using s
      by (intro iffD2 [OF turn_inv_def] exI [of _ s] exI [of _ "Suc k"]) (auto simp: Announce producers_turn_def)
  next
    case (Await m)
    from acc call Await obtain m' where m': "y = x" "r = Some (Phase m')" "m' \<le> snd x" by (cases x) (auto simp: phased_simps)
    show ?thesis
    proof (cases "m' < m")
      case True
      with m' inv show ?thesis by (simp add: Await)
    next
      case False
      with s(4,6) m'(3) Await have turn: "consumers_turn rounds k s (snd x) p q" "m = 2 * k - 1" "taken s (k - 1)"
        by (auto simp: producers_turn_def consumers_turn_def split: if_splits)
      have "last_taken s = seq_at (k - 1)" using last_taken_newest [OF s(2)] turn(3) by (simp add: taken_def)
      moreover have "(m + 1) div 2 = k" using turn(2) s(4) by simp
      ultimately show ?thesis using s False m' turn
        by (intro iffD2 [OF turn_inv_def] exI [of _ s] exI [of _ k]) (auto simp: Await consumers_turn_def)
    qed
  qed (use call in auto)
qed

interpretation turns: duo_invariant "\<lambda>x. 2 \<le> rounds \<and> rounds \<le> SPAN \<and> turn_init x" publish_turns take_turns
  "publishing_in_turn rounds" "taking_in_turn rounds" "\<lambda>x p q. rounds \<le> SPAN \<and> turn_inv rounds x p q" for rounds
proof
  show "rounds \<le> SPAN \<and> turn_inv rounds x p q" if "2 \<le> rounds \<and> rounds \<le> SPAN \<and> turn_init (x, p, q)" for x p q
  proof -
    have "lbc_ok (fst x)" using that by (auto simp: turn_init_def intro: lbc_ok_init)
    with that show ?thesis
      by (cases x) (auto simp: turn_init_def turn_inv_def lbc_init_def lbc_ok_def producers_turn_def paired_def taken_def
          publishing_turn_def publish_of_def intro!: exI [of _ "1 :: nat"])
  qed
qed (auto intro: turn_inv_publish turn_inv_take)

lemma turns_result:
  assumes "reach turn_init (turn_step rounds) ((x, n), p, q)" and "2 \<le> rounds" "rounds \<le> SPAN"
  shows "p \<noteq> OutOfTurn \<and> q \<noteq> OutOfTurn \<and> (p = TurnsOver \<and> q = TurnsOver \<longrightarrow>
    (\<exists>s b'. x = Active s \<and> lb_take_latest (l_buf s) =
      Some (Some \<lparr>li_value = pair_of rounds, li_generation = of_nat rounds, li_skipped = 0\<rparr>, b')))"
proof -
  have "reach (\<lambda>x. 2 \<le> rounds \<and> rounds \<le> SPAN \<and> turn_init x) (turn_step rounds) ((x, n), p, q)" using assms by simp
  from turns.duo_reach_inv [OF this [unfolded turn_step_def]] obtain s k where s: "x = Active s" "lbc_inv s" "paired (hist s)"
    "1 \<le> k" "k \<le> rounds" "producers_turn rounds k s n p q \<or> consumers_turn rounds k s n p q" by (auto simp: turn_inv_def)
  have "\<exists>b'. lb_take_latest (l_buf s) = Some (Some \<lparr>li_value = pair_of rounds, li_generation = of_nat rounds, li_skipped = 0\<rparr>, b')"
    if "p = TurnsOver"
  proof -
    have last: "k = rounds" "length (hist s) = rounds" "upto s = rounds - 1" "tak s = TakeIdle"
      using s(6) that by (auto simp: producers_turn_def consumers_turn_def published_def taken_def)
    then have lt: "upto s < length (hist s)" using s(4) by simp
    have "hist s ! (rounds - 1) = pair_of rounds" using s(3,4) last(1,2) by (simp add: paired_def)
    moreover have "lb_skips (rounds - 1) rounds = 0" using s(4) last(1) by (auto simp: lb_skips_def)
    ultimately have "item_of (hist s) (upto s, length (hist s)) = \<lparr>li_value = pair_of rounds, li_generation = of_nat rounds, li_skipped = 0\<rparr>"
      using last assms(3) by (simp add: item_of_def seq_at_small)
    with take_after_join [OF s(2) last(4)] lt show ?thesis by simp
  qed
  with s(1,6) show ?thesis by (auto simp: producers_turn_def consumers_turn_def split: if_splits)
qed

section \<open>An empty poll beside a publication\<close>

text \<open>
  One thread publishes 7, the other takes once; after both have ended the test takes again. A first take that came
  too early, or saw the exchange word too late, must leave the publication to the second.
\<close>

definition early_poll_init :: "u32 account_state \<Rightarrow> bool" where
  "early_poll_init = account_init [7] 1"

definition early_poll_step :: "u32 account_state \<Rightarrow> u32 account_state \<Rightarrow> bool" where
  "early_poll_step = account_step"

lemma early_poll_result:
  assumes "reach early_poll_init early_poll_step (x, ([], rs), (0, got))"
  shows "\<exists>s second b'. x = Active s \<and> lb_take_latest (l_buf s) = Some (second, b') \<and> map pr_generation rs = [1] \<and>
    (got = [] \<longrightarrow> second = Some \<lparr>li_value = 7, li_generation = 1, li_skipped = 0\<rparr>) \<and>
    (got \<noteq> [] \<longrightarrow> got = [\<lparr>li_value = 7, li_generation = 1, li_skipped = 0\<rparr>] \<and> second = None)"
proof -
  have len: "length [7 :: u32] = 1" by simp
  from account_result [OF assms [unfolded early_poll_init_def early_poll_step_def], unfolded len] obtain s second b' where
    s: "x = Active s" "lb_take_latest (l_buf s) = Some (second, b')"
      "second = (if upto s < 1 then Some (item_of [7] (upto s, 1)) else None)"
      "chain 0 (log s) (upto s)" "got = map (item_of [7]) (log s)" "rs = map (report_of (snd ` set (log s))) [0..<1]"
      "length (filter pr_replaced_unread rs) + length got + (if second = None then 0 else 1) = 1" "upto s \<le> 1"
    by (elim exE conjE)
  have item: "item_of [7] (0, 1) = \<lparr>li_value = 7, li_generation = 1, li_skipped = (0 :: u32)\<rparr>"
    by (simp add: item_of_def seq_at_small lb_skips_def SPAN_eq)
  have rs: "map pr_generation rs = [1]" by (simp add: s(6) report_of_def seq_at_small SPAN_eq)
  show ?thesis
  proof (cases "log s")
    case Nil
    with s item rs show ?thesis by auto
  next
    case (Cons ac rest)
    with s(4,7,8) s(5) have "ac = (0, 1)" "rest = []" "upto s = 1" by (cases ac; auto)+
    with Cons s item rs show ?thesis by simp
  qed
qed

end
