(* ===== verification/Handover.thy ===== *)
theory Handover
  imports Roles Transition
begin

text \<open>
  What a role's claim flag does for memory. The state that outlives a handle (cursors, slot indices, generations,
  the slots themselves) is written by the holder of the role without any ordering of its own, so a later holder in
  another context may touch it only because the flag carries it: \<open>try_producer\<close>/\<open>try_consumer\<close> swap the flag with
  AcqRel, and dropping a handle stores \<open>false\<close> with Release.

  Ghost state: the contexts with a live handle; \<open>ho_uses\<close>, how often the role has been used; how many of these uses
  each context has seen; and how many the flag's last store or swap makes visible to who acquires it. A use by a
  context that has not seen all earlier uses is a data race and leads to \<open>Raced\<close>. The swap is a
  read-modify-write and reads the last value stored.
\<close>

record ('s, 'c) handover =
  ho_state :: 's
  ho_holders :: "'c list"
  ho_uses :: nat
  ho_seen :: "'c \<Rightarrow> nat"
  ho_flag :: nat

datatype ('s, 'c) ho_state = Shared "('s, 'c) handover" | Raced

inductive ho_claim :: "('s \<Rightarrow> 'h option \<times> 's) \<Rightarrow> 'c \<Rightarrow> bool \<Rightarrow> ('s, 'c) ho_state \<Rightarrow> ('s, 'c) ho_state \<Rightarrow> bool"
  for acq c where
  claim_swap: "acq (ho_state x) = (h, s) \<Longrightarrow> known = max (ho_seen x c) (ho_flag x) \<Longrightarrow>
    ho_claim acq c (h \<noteq> None) (Shared x) (Shared (x\<lparr>ho_state := s,
      ho_holders := (if h = None then ho_holders x else c # ho_holders x),
      ho_seen := (ho_seen x)(c := known), ho_flag := known\<rparr>))"

inductive ho_use :: "('v \<Rightarrow> 'r \<Rightarrow> 's \<Rightarrow> 's \<Rightarrow> bool) \<Rightarrow> 'c \<Rightarrow> 'v \<Rightarrow> 'r \<Rightarrow> ('s, 'c) ho_state \<Rightarrow> ('s, 'c) ho_state \<Rightarrow> bool"
  for oper c v r where
  use: "c \<in> set (ho_holders x) \<Longrightarrow> ho_seen x c = ho_uses x \<Longrightarrow> oper v r (ho_state x) s \<Longrightarrow>
    ho_use oper c v r (Shared x) (Shared (x\<lparr>ho_state := s, ho_uses := Suc (ho_uses x),
      ho_seen := (ho_seen x)(c := Suc (ho_uses x))\<rparr>))"
| race: "c \<in> set (ho_holders x) \<Longrightarrow> ho_seen x c \<noteq> ho_uses x \<Longrightarrow> ho_use oper c v r (Shared x) Raced"

inductive ho_drop :: "('s \<Rightarrow> 's) \<Rightarrow> 'c \<Rightarrow> ('s, 'c) ho_state \<Rightarrow> ('s, 'c) ho_state \<Rightarrow> bool" for rel c where
  drop_store: "c \<in> set (ho_holders x) \<Longrightarrow> ho_drop rel c (Shared x) (Shared (x\<lparr>ho_state := rel (ho_state x),
      ho_holders := remove1 c (ho_holders x), ho_flag := ho_seen x c\<rparr>))"

text \<open>What the rest of the program does to the container meanwhile: \<open>other\<close> leaves the role alone.\<close>

inductive ho_other :: "('s \<Rightarrow> 's \<Rightarrow> bool) \<Rightarrow> ('s, 'c) ho_state \<Rightarrow> ('s, 'c) ho_state \<Rightarrow> bool" for other where
  other_side: "other (ho_state x) s \<Longrightarrow> ho_other other (Shared x) (Shared (x\<lparr>ho_state := s\<rparr>))"

inductive ho_step :: "('s \<Rightarrow> 'h option \<times> 's) \<Rightarrow> ('s \<Rightarrow> 's) \<Rightarrow> ('v \<Rightarrow> 'r \<Rightarrow> 's \<Rightarrow> 's \<Rightarrow> bool) \<Rightarrow> ('s \<Rightarrow> 's \<Rightarrow> bool) \<Rightarrow>
    ('s, 'c) ho_state \<Rightarrow> ('s, 'c) ho_state \<Rightarrow> bool" for acq rel oper other where
  claim_step: "ho_claim acq c got x y \<Longrightarrow> ho_step acq rel oper other x y"
| use_step: "ho_use oper c v r x y \<Longrightarrow> ho_step acq rel oper other x y"
| drop_step: "ho_drop rel c x y \<Longrightarrow> ho_step acq rel oper other x y"
| other_step: "ho_other other x y \<Longrightarrow> ho_step acq rel oper other x y"

definition ho_init :: "'s \<Rightarrow> ('s, 'c) ho_state \<Rightarrow> bool" where
  "ho_init s x \<longleftrightarrow> x = Shared \<lparr>ho_state = s, ho_holders = [], ho_uses = 0, ho_seen = (\<lambda>_. 0), ho_flag = 0\<rparr>"

text \<open>What a role promises whatever contexts, numbered here, do with it.\<close>

definition handover_safe :: "('s \<Rightarrow> 'h option \<times> 's) \<Rightarrow> ('s \<Rightarrow> 's) \<Rightarrow> ('s \<Rightarrow> bool) \<Rightarrow> ('v \<Rightarrow> 'r \<Rightarrow> 's \<Rightarrow> 's \<Rightarrow> bool) \<Rightarrow>
    ('s \<Rightarrow> 's \<Rightarrow> bool) \<Rightarrow> bool" where
  "handover_safe acq rel taken oper other \<longleftrightarrow> (\<forall>s (y :: ('s, nat) ho_state).
     \<not> taken s \<longrightarrow> reach (ho_init s) (ho_step acq rel oper other) y \<longrightarrow>
     (\<exists>x. y = Shared x \<and> length (ho_holders x) \<le> 1 \<and> (\<forall>c \<in> set (ho_holders x). ho_seen x c = ho_uses x)))"

locale handed_role = role acq rel taken rest
  for acq :: "'s \<Rightarrow> 'h option \<times> 's" and rel :: "'s \<Rightarrow> 's" and taken :: "'s \<Rightarrow> bool" and rest :: "'s \<Rightarrow> 't" +
  fixes oper :: "'v \<Rightarrow> 'r \<Rightarrow> 's \<Rightarrow> 's \<Rightarrow> bool" and other :: "'s \<Rightarrow> 's \<Rightarrow> bool"
  assumes oper_keeps: "oper v r s s' \<Longrightarrow> taken s' = taken s"
    and other_keeps: "other s s' \<Longrightarrow> taken s' = taken s"
begin

text \<open>
  The holder has seen every use; while nobody holds the role, the flag carries every use.
\<close>

definition handed :: "('s, 'c) ho_state \<Rightarrow> bool" where
  "handed y \<longleftrightarrow> (\<exists>x. y = Shared x \<and> ho_flag x \<le> ho_uses x \<and> (\<forall>c. ho_seen x c \<le> ho_uses x) \<and>
     (if taken (ho_state x) then \<exists>c. ho_holders x = [c] \<and> ho_seen x c = ho_uses x
      else ho_holders x = [] \<and> ho_flag x = ho_uses x))"

lemma handed_claim:
  assumes "handed x" and "ho_claim acq c got x y"
  shows "handed y \<and> (got \<longleftrightarrow> (\<exists>z. x = Shared z \<and> ho_holders z = []))"
  using assms(2)
proof cases
  case (claim_swap z h s known)
  have z: "ho_flag z \<le> ho_uses z" "\<forall>c. ho_seen z c \<le> ho_uses z"
    "if taken (ho_state z) then \<exists>c. ho_holders z = [c] \<and> ho_seen z c = ho_uses z
      else ho_holders z = [] \<and> ho_flag z = ho_uses z"
    using assms(1) claim_swap(2) by (simp_all add: handed_def)
  have known: "known \<le> ho_uses z" using z(1,2) claim_swap(5) by simp
  show ?thesis
  proof (cases "taken (ho_state z)")
    case True
    with acq_taken claim_swap(4) have "h = None" "s = ho_state z" by auto
    moreover from True z(3) obtain d where "ho_holders z = [d]" "ho_seen z d = ho_uses z" by auto
    ultimately show ?thesis using claim_swap z known True by (auto simp: handed_def)
  next
    case False
    from acq_free [OF this] claim_swap(4) have "h \<noteq> None" "taken s" by auto
    with False z known claim_swap show ?thesis by (auto simp: handed_def)
  qed
qed

lemma handed_use:
  assumes "handed x" and "ho_use oper c v r x y"
  shows "handed y \<and> (\<exists>z s. x = Shared z \<and> y = Shared (z\<lparr>ho_state := s, ho_uses := Suc (ho_uses z),
    ho_seen := (ho_seen z)(c := Suc (ho_uses z))\<rparr>) \<and> oper v r (ho_state z) s)"
  using assms(2)
proof cases
  case (use z s)
  have z: "ho_flag z \<le> ho_uses z" "\<forall>d. ho_seen z d \<le> ho_uses z" "taken (ho_state z)" "ho_holders z = [c]"
    using assms(1) use(1,3) by (auto simp: handed_def split: if_splits)
  moreover have "taken s" using oper_keeps [OF use(5)] z(3) by simp
  ultimately have "handed y" using use(2) by (auto simp: handed_def le_SucI)
  then show ?thesis using use(1,2,5) by (intro conjI exI [of _ z] exI [of _ s])
next
  case (race z)
  with assms(1) show ?thesis by (auto simp: handed_def split: if_splits)
qed

lemma handed_drop:
  assumes "handed x" and "ho_drop rel c x y"
  shows "handed y"
  using assms(2)
proof cases
  case (drop_store z)
  then have "ho_holders z = [c]" "ho_seen z c = ho_uses z" "\<forall>d. ho_seen z d \<le> ho_uses z"
    using assms(1) by (auto simp: handed_def split: if_splits)
  with drop_store(2) show ?thesis by (simp add: handed_def rel_taken)
qed

lemma handed_other:
  assumes "handed x" and "ho_other other x y"
  shows "handed y"
  using assms(2,1) by cases (auto simp: handed_def dest: other_keeps)

lemma handed_init: "\<not> taken s \<Longrightarrow> ho_init s x \<Longrightarrow> handed x"
  by (simp add: handed_def ho_init_def)

sublocale inductive_invariant "\<lambda>x. \<exists>s. \<not> taken s \<and> ho_init s x" "ho_step acq rel oper other" handed
proof
  show "handed x" if "\<exists>s. \<not> taken s \<and> ho_init s x" for x :: "('s, 'c) ho_state" using that handed_init by blast
  show "handed y" if "handed x" "ho_step acq rel oper other x y" for x y :: "('s, 'c) ho_state"
    using that(2)
  proof cases
    case (claim_step c got)
    from handed_claim [OF that(1) this] show ?thesis by simp
  next
    case (use_step c v r)
    from handed_use [OF that(1) this] show ?thesis by simp
  next
    case (drop_step c)
    from handed_drop [OF that(1) this] show ?thesis .
  next
    case other_step
    from handed_other [OF that(1) this] show ?thesis .
  qed
qed

text \<open>Whatever the contexts do: one holder at most, every use ordered after all earlier ones, and never a race.\<close>

lemma handed_never_races:
  assumes "reach (\<lambda>x. \<exists>s. \<not> taken s \<and> ho_init s x) (ho_step acq rel oper other) y"
  shows "\<exists>x. y = Shared x \<and> length (ho_holders x) \<le> 1 \<and> (\<forall>c \<in> set (ho_holders x). ho_seen x c = ho_uses x) \<and>
    (ho_holders x = [] \<longrightarrow> ho_flag x = ho_uses x)"
proof -
  from reach_inv [OF assms] have "handed y" .
  then show ?thesis by (auto simp: handed_def split: if_splits)
qed

lemma handed_safe: "handover_safe acq rel taken oper other"
  unfolding handover_safe_def
proof (intro allI impI)
  fix s and y :: "('s, nat) ho_state"
  assume "\<not> taken s" and y: "reach (ho_init s) (ho_step acq rel oper other) y"
  from y have "reach (\<lambda>x. \<exists>s. \<not> taken s \<and> ho_init s x) (ho_step acq rel oper other) y"
    using \<open>\<not> taken s\<close> by (induction rule: reach.induct) (auto intro: reach.intros)
  from handed_never_races [OF this]
  show "\<exists>x. y = Shared x \<and> length (ho_holders x) \<le> 1 \<and> (\<forall>c \<in> set (ho_holders x). ho_seen x c = ho_uses x)" by blast
qed

end

end
