(* ===== verification/Handover_Roles.thy ===== *)
theory Handover_Roles
  imports Handover EventBuf SeqRing LatestBuf
begin

text \<open>
  The roles whose state outlives their handles, each with its operation and with what the other role may do
  meanwhile: both roles of the queue (cursors in the buffer), the producer of the sequence ring, and both roles of
  the latest-value exchange. The consumer of the sequence ring keeps its cursor in the handle, and the signals
  have no state but their atomic word.
\<close>

section \<open>The operations of a role\<close>

definition eb_pushes :: "'a \<Rightarrow> 'a + unit \<Rightarrow> 'a event_buf \<Rightarrow> 'a event_buf \<Rightarrow> bool" where
  "eb_pushes v r b b' \<longleftrightarrow> eb_push b v = Some (r, b')"

definition eb_pops :: "unit \<Rightarrow> 'a option \<Rightarrow> 'a event_buf \<Rightarrow> 'a event_buf \<Rightarrow> bool" where
  "eb_pops u r b b' \<longleftrightarrow> eb_pop b = Some (r, b')"

definition sr_pushes :: "'a \<Rightarrow> u32 \<Rightarrow> 'a seq_ring \<Rightarrow> 'a seq_ring \<Rightarrow> bool" where
  "sr_pushes v seq r r' \<longleftrightarrow> sr_push r v = Some (seq, r')"

definition lb_publishes :: "'a \<Rightarrow> publish_report \<Rightarrow> 'a latest_buf \<Rightarrow> 'a latest_buf \<Rightarrow> bool" where
  "lb_publishes v report b b' \<longleftrightarrow> lb_publish b v = Some (report, b')"

definition lb_takes :: "unit \<Rightarrow> 'a latest_item option \<Rightarrow> 'a latest_buf \<Rightarrow> 'a latest_buf \<Rightarrow> bool" where
  "lb_takes u item b b' \<longleftrightarrow> lb_take_latest b = Some (item, b')"

section \<open>What the other role does\<close>

definition eb_producer_side :: "'a event_buf \<Rightarrow> 'a event_buf \<Rightarrow> bool" where
  "eb_producer_side b b' \<longleftrightarrow> (\<exists>v r. eb_pushes v r b b') \<or> b' = snd (eb_try_producer b) \<or> b' = eb_drop_producer b"

definition eb_consumer_side :: "'a event_buf \<Rightarrow> 'a event_buf \<Rightarrow> bool" where
  "eb_consumer_side b b' \<longleftrightarrow> (\<exists>r. eb_pops () r b b') \<or> b' = snd (eb_try_consumer b) \<or> b' = eb_drop_consumer b"

definition sr_consumer_side :: "'a seq_ring \<Rightarrow> 'a seq_ring \<Rightarrow> bool" where
  "sr_consumer_side r r' \<longleftrightarrow> r' = snd (sr_try_consumer r) \<or> r' = sr_drop_consumer r"

definition lb_producer_side :: "'a latest_buf \<Rightarrow> 'a latest_buf \<Rightarrow> bool" where
  "lb_producer_side b b' \<longleftrightarrow> (\<exists>v r. lb_publishes v r b b') \<or> b' = snd (lb_try_producer b) \<or> b' = lb_drop_producer b"

definition lb_consumer_side :: "'a latest_buf \<Rightarrow> 'a latest_buf \<Rightarrow> bool" where
  "lb_consumer_side b b' \<longleftrightarrow> (\<exists>item. lb_takes () item b b') \<or> b' = snd (lb_try_consumer b) \<or> b' = lb_drop_consumer b"

text \<open>No operation of either role writes a claim flag.\<close>

lemma eb_push_roles:
  "eb_pushes v r b b' \<Longrightarrow> eb_producer_taken b' = eb_producer_taken b \<and> eb_consumer_taken b' = eb_consumer_taken b"
  by (auto simp: eb_pushes_def eb_push_def Let_def split: if_splits elim!: option_bind_SomeE)

lemma eb_pop_roles:
  "eb_pops u r b b' \<Longrightarrow> eb_producer_taken b' = eb_producer_taken b \<and> eb_consumer_taken b' = eb_consumer_taken b"
  by (auto simp: eb_pops_def eb_pop_def Let_def split: if_splits elim!: option_bind_SomeE)

lemma sr_push_roles:
  "sr_pushes v seq r r' \<Longrightarrow> sr_producer_taken r' = sr_producer_taken r \<and> sr_consumer_taken r' = sr_consumer_taken r"
  by (auto simp: sr_pushes_def sr_push_def sr_push_inner_def Let_def split: if_splits elim!: option_bind_SomeE)

lemma lb_publish_roles:
  "lb_publishes v r b b' \<Longrightarrow> lb_producer_taken b' = lb_producer_taken b \<and> lb_consumer_taken b' = lb_consumer_taken b"
  by (auto simp: lb_publishes_def lb_publish_def Let_def elim!: option_bind_SomeE)

lemma lb_take_roles:
  "lb_takes u item b b' \<Longrightarrow> lb_producer_taken b' = lb_producer_taken b \<and> lb_consumer_taken b' = lb_consumer_taken b"
  by (auto simp: lb_takes_def lb_take_latest_def Let_def split: if_splits elim!: option_bind_SomeE)

lemmas role_ops = eb_push_roles eb_pop_roles sr_push_roles lb_publish_roles lb_take_roles

interpretation eb_prod_handed: handed_role eb_try_producer eb_drop_producer eb_producer_taken
  "\<lambda>b. b\<lparr>eb_producer_taken := False\<rparr>" eb_pushes eb_consumer_side
  by unfold_locales
    (auto simp: eb_consumer_side_def eb_try_consumer_def eb_drop_consumer_def Let_def dest: role_ops split: if_splits)

interpretation eb_cons_handed: handed_role eb_try_consumer eb_drop_consumer eb_consumer_taken
  "\<lambda>b. b\<lparr>eb_consumer_taken := False\<rparr>" eb_pops eb_producer_side
  by unfold_locales
    (auto simp: eb_producer_side_def eb_try_producer_def eb_drop_producer_def Let_def dest: role_ops split: if_splits)

interpretation sr_prod_handed: handed_role sr_try_producer sr_drop_producer sr_producer_taken
  "\<lambda>r. r\<lparr>sr_producer_taken := False\<rparr>" sr_pushes sr_consumer_side
  by unfold_locales
    (auto simp: sr_consumer_side_def sr_try_consumer_def sr_drop_consumer_def Let_def dest: role_ops split: if_splits)

interpretation lb_prod_handed: handed_role lb_try_producer lb_drop_producer lb_producer_taken
  "\<lambda>b. b\<lparr>lb_producer_taken := False\<rparr>" lb_publishes lb_consumer_side
  by unfold_locales
    (auto simp: lb_consumer_side_def lb_try_consumer_def lb_drop_consumer_def Let_def dest: role_ops split: if_splits)

interpretation lb_cons_handed: handed_role lb_try_consumer lb_drop_consumer lb_consumer_taken
  "\<lambda>b. b\<lparr>lb_consumer_taken := False\<rparr>" lb_takes lb_producer_side
  by unfold_locales
    (auto simp: lb_producer_side_def lb_try_producer_def lb_drop_producer_def Let_def dest: role_ops split: if_splits)

end
