(* ===== verification/LatestBuf_Handover.thy ===== *)
theory LatestBuf_Handover
  imports Handover_Roles Threads
begin

text \<open>
  The two programs in which a role of the latest-value exchange passes from one thread to another. The first
  thread claims the role, uses it, drops it and says so in an \<open>AtomicBool\<close> with Relaxed order; the second waits
  for that, may do something with the other role, claims this one, which must succeed, and uses it. The signal may
  be seen late and makes nothing visible; the state of the role travels through the claim flag alone.
\<close>

section \<open>The calls\<close>

datatype ('v, 'e) role_call = Claim_Role | Use_Role 'v | Drop_Role | Elsewhere 'e | Raise_Signal | Look_Signal

datatype 'r role_result = Claimed bool | Used 'r | Dropped | Elsewhere_Done bool | Signalled | Looked bool

inductive role_access :: "('s \<Rightarrow> 'h option \<times> 's) \<Rightarrow> ('s \<Rightarrow> 's) \<Rightarrow> ('v \<Rightarrow> 'r \<Rightarrow> 's \<Rightarrow> 's \<Rightarrow> bool) \<Rightarrow> ('e \<Rightarrow> bool \<Rightarrow> 's \<Rightarrow> 's \<Rightarrow> bool) \<Rightarrow>
    nat \<Rightarrow> ('v, 'e) role_call \<Rightarrow> 'r role_result option \<Rightarrow> ('s, nat) ho_state \<times> bool \<Rightarrow> ('s, nat) ho_state \<times> bool \<Rightarrow> bool"
  for acq rel oper oth c where
  claim_role: "ho_claim acq c got x y \<Longrightarrow> role_access acq rel oper oth c Claim_Role (Some (Claimed got)) (x, f) (y, f)"
| use_role: "ho_use oper c v r x y \<Longrightarrow> role_access acq rel oper oth c (Use_Role v) (Some (Used r)) (x, f) (y, f)"
| drop_role: "ho_drop rel c x y \<Longrightarrow> role_access acq rel oper oth c Drop_Role (Some Dropped) (x, f) (y, f)"
| elsewhere: "ho_other (oth e done) x y \<Longrightarrow>
    role_access acq rel oper oth c (Elsewhere e) (Some (Elsewhere_Done done)) (x, f) (y, f)"
| raise_signal: "role_access acq rel oper oth c Raise_Signal (Some Signalled) (x, f) (x, True)"
| look_stale: "role_access acq rel oper oth c Look_Signal (Some (Looked False)) (x, f) (x, f)"
| look_true: "role_access acq rel oper oth c Look_Signal (Some (Looked True)) (x, True) (x, True)"

inductive_simps role_access_simps:
  "role_access acq rel oper oth c Claim_Role r x y"
  "role_access acq rel oper oth c (Use_Role v) r x y"
  "role_access acq rel oper oth c Drop_Role r x y"
  "role_access acq rel oper oth c (Elsewhere e) r x y"
  "role_access acq rel oper oth c Raise_Signal r x y"
  "role_access acq rel oper oth c Look_Signal r x y"

section \<open>The threads\<close>

datatype first_pc = FirstClaim | FirstUse | FirstDrop | FirstSignal | FirstEnd | FirstFailed

definition first_holder :: "'v \<Rightarrow> ('r \<Rightarrow> bool) \<Rightarrow> (('v, 'e) role_call, 'r role_result, first_pc) thread" where
  "first_holder v expected = Thread
     (\<lambda>p. case p of FirstClaim \<Rightarrow> Some Claim_Role | FirstUse \<Rightarrow> Some (Use_Role v) | FirstDrop \<Rightarrow> Some Drop_Role
        | FirstSignal \<Rightarrow> Some Raise_Signal | _ \<Rightarrow> None)
     (\<lambda>p result. case (p, result) of
        (FirstClaim, Claimed got) \<Rightarrow> if got then FirstUse else FirstFailed
      | (FirstUse, Used r) \<Rightarrow> if expected r then FirstDrop else FirstFailed
      | (FirstDrop, Dropped) \<Rightarrow> FirstSignal
      | (FirstSignal, Signalled) \<Rightarrow> FirstEnd
      | _ \<Rightarrow> p)"

datatype 'r second_pc = SecondLook | SecondElsewhere nat | SecondClaim | SecondUse | SecondDrop 'r | SecondEnd 'r | SecondFailed

definition second_holder :: "'e list \<Rightarrow> 'v \<Rightarrow> (('v, 'e) role_call, 'r role_result, 'r second_pc) thread" where
  "second_holder es v = Thread
     (\<lambda>q. case q of SecondLook \<Rightarrow> Some Look_Signal | SecondElsewhere i \<Rightarrow> Some (if i < length es then Elsewhere (es ! i) else Claim_Role)
        | SecondClaim \<Rightarrow> Some Claim_Role | SecondUse \<Rightarrow> Some (Use_Role v) | SecondDrop r \<Rightarrow> Some Drop_Role | _ \<Rightarrow> None)
     (\<lambda>q result. case (q, result) of
        (SecondLook, Looked dropped) \<Rightarrow> if dropped then (if es = [] then SecondClaim else SecondElsewhere 0) else SecondLook
      | (SecondElsewhere i, Elsewhere_Done done) \<Rightarrow>
          if \<not> done then SecondFailed else if Suc i < length es then SecondElsewhere (Suc i) else SecondClaim
      | (SecondClaim, Claimed got) \<Rightarrow> if got then SecondUse else SecondFailed
      | (SecondUse, Used r) \<Rightarrow> SecondDrop r
      | (SecondDrop r, Dropped) \<Rightarrow> SecondEnd r
      | _ \<Rightarrow> q)"

text \<open>
  The contract that a component has to meet: \<open>stage i\<close> describes the container, apart from the claim flag, after
  the first use (\<open>i = 1\<close>) and after each thing done elsewhere.
\<close>

locale handover_test = handed_role acq rel taken rest oper other
  for acq :: "'s \<Rightarrow> 'h option \<times> 's" and rel taken and rest :: "'s \<Rightarrow> 't" and oper :: "'v \<Rightarrow> 'r \<Rightarrow> 's \<Rightarrow> 's \<Rightarrow> bool" and other +
  fixes oth :: "'e \<Rightarrow> bool \<Rightarrow> 's \<Rightarrow> 's \<Rightarrow> bool" and v\<^sub>1 v\<^sub>2 :: 'v and ok\<^sub>1 ok\<^sub>2 :: "'r \<Rightarrow> bool" and es :: "'e list"
    and stage :: "nat \<Rightarrow> 's \<Rightarrow> bool"
  assumes oth_other: "oth e k s s' \<Longrightarrow> other s s'"
    and stage_acq: "stage i s \<Longrightarrow> acq s = (h, s') \<Longrightarrow> stage i s'"
    and stage_rel: "stage i s \<Longrightarrow> stage i (rel s)"
    and first_use: "stage 0 s \<Longrightarrow> oper v\<^sub>1 r s s' \<Longrightarrow> ok\<^sub>1 r \<and> stage 1 s'"
    and elsewhere: "i < length es \<Longrightarrow> stage (Suc i) s \<Longrightarrow> oth (es ! i) k s s' \<Longrightarrow> k \<and> stage (Suc (Suc i)) s'"
    and second_use: "stage (Suc (length es)) s \<Longrightarrow> oper v\<^sub>2 r s s' \<Longrightarrow> ok\<^sub>2 r"
begin

abbreviation access :: "nat \<Rightarrow> ('v, 'e) role_call \<Rightarrow> 'r role_result option \<Rightarrow> ('s, nat) ho_state \<times> bool \<Rightarrow> ('s, nat) ho_state \<times> bool \<Rightarrow> bool"
  where "access \<equiv> role_access acq rel oper oth"

definition first_at :: "('s, nat) handover \<Rightarrow> first_pc \<Rightarrow> bool" where
  "first_at x p \<longleftrightarrow> p = FirstClaim \<and> ho_holders x = [] \<and> stage 0 (ho_state x) \<or> p = FirstUse \<and> ho_holders x = [0] \<and> stage 0 (ho_state x) \<or>
     p = FirstDrop \<and> ho_holders x = [0] \<and> stage 1 (ho_state x) \<or> p = FirstSignal \<and> ho_holders x = [] \<and> stage 1 (ho_state x)"

fun second_at :: "('s, nat) handover \<Rightarrow> 'r second_pc \<Rightarrow> bool" where
  "second_at x SecondLook = (ho_holders x = [] \<and> stage 1 (ho_state x))"
| "second_at x (SecondElsewhere i) = (ho_holders x = [] \<and> i < length es \<and> stage (Suc i) (ho_state x))"
| "second_at x SecondClaim = (ho_holders x = [] \<and> stage (Suc (length es)) (ho_state x))"
| "second_at x SecondUse = (ho_holders x = [1] \<and> stage (Suc (length es)) (ho_state x))"
| "second_at x (SecondDrop r) = (ho_holders x = [1] \<and> ok\<^sub>2 r)"
| "second_at x (SecondEnd r) = (ho_holders x = [] \<and> ok\<^sub>2 r)"
| "second_at x SecondFailed = False"

definition pass_inv :: "('s, nat) ho_state \<times> bool \<Rightarrow> first_pc \<Rightarrow> 'r second_pc \<Rightarrow> bool" where
  "pass_inv y p q \<longleftrightarrow> handed (fst y) \<and> (\<exists>x. fst y = Shared x \<and>
     (if snd y then p = FirstEnd \<and> second_at x q else q = SecondLook \<and> first_at x p))"

lemma pass_inv_first:
  assumes inv: "pass_inv y p q" and call: "next_call (first_holder v\<^sub>1 ok\<^sub>1) p = Some c" and acc: "access 0 c r y z"
  shows "pass_inv z (after_access (first_holder v\<^sub>1 ok\<^sub>1) p r) q"
proof -
  have "p \<noteq> FirstEnd" using call by (auto simp: first_holder_def)
  with inv obtain x where y: "y = (Shared x, False)" "handed (Shared x)" "q = SecondLook" "first_at x p"
    by (cases y) (auto simp: pass_inv_def split: if_splits)
  show ?thesis
  proof (cases p)
    case FirstClaim
    with acc call y(1) obtain got z' where z: "ho_claim acq 0 got (Shared x) z'" "z = (z', False)" "r = Some (Claimed got)"
      by (auto simp: first_holder_def role_access_simps)
    have "handed z'" "got" using handed_claim [OF y(2) z(1)] y(4) by (auto simp: first_at_def FirstClaim)
    with z y(3,4) show ?thesis
      by (auto simp: pass_inv_def first_at_def first_holder_def FirstClaim elim!: ho_claim.cases intro: stage_acq)
  next
    case FirstUse
    with acc call y(1) obtain r' z' where z: "ho_use oper 0 v\<^sub>1 r' (Shared x) z'" "z = (z', False)" "r = Some (Used r')"
      by (auto simp: first_holder_def role_access_simps)
    from handed_use [OF y(2) z(1)] obtain s where s: "handed z'" "z' = Shared (x\<lparr>ho_state := s, ho_uses := Suc (ho_uses x),
      ho_seen := (ho_seen x)(0 := Suc (ho_uses x))\<rparr>)" "oper v\<^sub>1 r' (ho_state x) s" by auto
    have "ok\<^sub>1 r' \<and> stage 1 s" using first_use [OF _ s(3)] y(4) by (simp add: first_at_def FirstUse)
    with z s y(3,4) show ?thesis by (simp add: pass_inv_def first_at_def first_holder_def FirstUse)
  next
    case FirstDrop
    with acc call y(1) obtain z' where z: "ho_drop rel 0 (Shared x) z'" "z = (z', False)" "r = Some Dropped"
      by (auto simp: first_holder_def role_access_simps)
    have "handed z'" by (rule handed_drop [OF y(2) z(1)])
    with z y(3,4) show ?thesis
      by (auto simp: pass_inv_def first_at_def first_holder_def FirstDrop elim!: ho_drop.cases intro: stage_rel)
  next
    case FirstSignal
    with acc call y(1) have "z = (Shared x, True)" "r = Some Signalled" by (auto simp: first_holder_def role_access_simps)
    with y show ?thesis by (simp add: pass_inv_def first_at_def first_holder_def FirstSignal)
  qed (use call in \<open>auto simp: first_holder_def\<close>)
qed

lemma pass_inv_second:
  assumes inv: "pass_inv y p q" and call: "next_call (second_holder es v\<^sub>2) q = Some c" and acc: "access 1 c r y z"
  shows "pass_inv z p (after_access (second_holder es v\<^sub>2) q r)"
proof (cases "snd y")
  case False
  then have q: "q = SecondLook" using inv by (auto simp: pass_inv_def)
  with acc call False have "z = y" "r = Some (Looked False)" by (cases y; auto simp: second_holder_def role_access_simps)+
  with inv q show ?thesis by (simp add: second_holder_def)
next
  case True
  with inv obtain x where y: "y = (Shared x, True)" "handed (Shared x)" "p = FirstEnd" "second_at x q"
    by (cases y) (auto simp: pass_inv_def)
  show ?thesis
  proof (cases q)
    case SecondLook
    with acc call y(1) obtain got where "z = y" "r = Some (Looked got)" by (auto simp: second_holder_def role_access_simps)
    moreover have "second_at x (if es = [] then SecondClaim else SecondElsewhere 0)"
    proof (cases "es = []")
      case True
      then have one: "Suc (length es) = 1" by simp
      have "ho_holders x = []" "stage 1 (ho_state x)" using y(4) SecondLook by simp_all
      then show ?thesis by (simp only: if_P [OF True] second_at.simps one simp_thms)
    qed (use y(4) SecondLook in simp)
    ultimately show ?thesis using y SecondLook by (auto simp: pass_inv_def second_holder_def)
  next
    case (SecondElsewhere i)
    then have i: "i < length es" using y(4) by simp
    with SecondElsewhere acc call y(1) obtain k z' where z: "ho_other (oth (es ! i) k) (Shared x) z'" "z = (z', True)" "r = Some (Elsewhere_Done k)"
      by (auto simp: second_holder_def role_access_simps)
    from z(1) obtain s where s: "z' = Shared (x\<lparr>ho_state := s\<rparr>)" "oth (es ! i) k (ho_state x) s" by (auto elim: ho_other.cases)
    have "ho_other other (Shared x) z'" unfolding s(1) by (rule ho_other.other_side) (rule oth_other [OF s(2)])
    from handed_other [OF y(2) this] have "handed z'" .
    moreover have stg: "k \<and> stage (Suc (Suc i)) s" using elsewhere [OF i _ s(2)] y(4) SecondElsewhere by simp
    moreover have "Suc i < length es \<or> stage (Suc (length es)) s"
    proof (cases "Suc i < length es")
      case False
      with i have "length es = Suc i" by simp
      with stg show ?thesis by simp
    qed simp
    ultimately show ?thesis using z s y(3,4) SecondElsewhere by (auto simp: pass_inv_def second_holder_def)
  next
    case SecondClaim
    with acc call y(1) obtain got z' where z: "ho_claim acq 1 got (Shared x) z'" "z = (z', True)" "r = Some (Claimed got)"
      by (auto simp: second_holder_def role_access_simps)
    have "handed z'" "got" using handed_claim [OF y(2) z(1)] y(4) by (auto simp: SecondClaim)
    with z y(3,4) show ?thesis
      by (auto simp: pass_inv_def second_holder_def SecondClaim elim!: ho_claim.cases intro: stage_acq)
  next
    case SecondUse
    with acc call y(1) obtain r' z' where z: "ho_use oper 1 v\<^sub>2 r' (Shared x) z'" "z = (z', True)" "r = Some (Used r')"
      by (auto simp: second_holder_def role_access_simps)
    from handed_use [OF y(2) z(1)] obtain s where s: "handed z'" "z' = Shared (x\<lparr>ho_state := s, ho_uses := Suc (ho_uses x),
      ho_seen := (ho_seen x)(1 := Suc (ho_uses x))\<rparr>)" "oper v\<^sub>2 r' (ho_state x) s" by auto
    have "ok\<^sub>2 r'" using second_use [OF _ s(3)] y(4) by (simp add: SecondUse)
    with z s y(3,4) show ?thesis by (simp add: pass_inv_def second_holder_def SecondUse)
  next
    case (SecondDrop r')
    with acc call y(1) obtain z' where z: "ho_drop rel 1 (Shared x) z'" "z = (z', True)" "r = Some Dropped"
      by (auto simp: second_holder_def role_access_simps)
    have "handed z'" by (rule handed_drop [OF y(2) z(1)])
    with z y(3,4) show ?thesis by (auto simp: pass_inv_def second_holder_def SecondDrop elim!: ho_drop.cases)
  qed (use call in \<open>auto simp: second_holder_def\<close>)
qed

definition pass_init :: "(('s, nat) ho_state \<times> bool) \<times> first_pc \<times> 'r second_pc \<Rightarrow> bool" where
  "pass_init z \<longleftrightarrow> (\<exists>s. \<not> taken s \<and> stage 0 s \<and> ho_init s (fst (fst z))) \<and> \<not> snd (fst z) \<and> snd z = (FirstClaim, SecondLook)"

sublocale passing: duo_invariant pass_init "access 0" "access 1" "first_holder v\<^sub>1 ok\<^sub>1" "second_holder es v\<^sub>2" pass_inv
proof
  show "pass_inv y p q" if "pass_init (y, p, q)" for y p q
    using that handed_init by (auto simp: pass_init_def pass_inv_def first_at_def ho_init_def)
qed (auto intro: pass_inv_first pass_inv_second)

lemma passed_on:
  assumes "reach pass_init (duo_step (access 0) (access 1) (first_holder v\<^sub>1 ok\<^sub>1) (second_holder es v\<^sub>2)) ((y, f), p, q)"
  shows "y \<noteq> Raced \<and> p \<noteq> FirstFailed \<and> q \<noteq> SecondFailed \<and> (\<forall>r. q = SecondEnd r \<longrightarrow> ok\<^sub>2 r)"
proof -
  from passing.duo_reach_inv [OF assms] show ?thesis by (auto simp: pass_inv_def first_at_def split: if_splits)
qed

end

section \<open>The producer's role\<close>

text \<open>Publish 1 and drop; then claim, which must succeed, and publish 2: the generation goes on.\<close>

definition producer_init :: "((u32 latest_buf, nat) ho_state \<times> bool) \<times> first_pc \<times> publish_report second_pc \<Rightarrow> bool" where
  "producer_init z \<longleftrightarrow> ho_init lb_new (fst (fst z)) \<and> \<not> snd (fst z) \<and> snd z = (FirstClaim, SecondLook)"

definition producer_passes ::
  "((u32 latest_buf, nat) ho_state \<times> bool) \<times> first_pc \<times> publish_report second_pc \<Rightarrow>
   ((u32 latest_buf, nat) ho_state \<times> bool) \<times> first_pc \<times> publish_report second_pc \<Rightarrow> bool" where
  "producer_passes =
     (let access = role_access lb_try_producer lb_drop_producer lb_publishes (\<lambda>(e :: unit) k s s'. False)
      in duo_step (access 0) (access 1) (first_holder 1 (\<lambda>report. pr_generation report = 1)) (second_holder [] 2))"

definition after_publishing :: "nat \<Rightarrow> u32 latest_buf \<Rightarrow> bool" where
  "after_publishing i b \<longleftrightarrow> (if i = 0 then lb_rep b [] 0 else i = 1 \<and> lb_rep b [1] 0)"

lemma lb_rep_flags:
  "lb_rep (b\<lparr>lb_producer_taken := t\<rparr>) hist c = lb_rep b hist c"
  "lb_rep (b\<lparr>lb_consumer_taken := t\<rparr>) hist c = lb_rep b hist c"
  by (simp_all add: lb_rep_def lb_roles_def)

lemma lb_publishes_rep:
  assumes "lb_publishes v report b b'" and "lb_rep b hist c"
  shows "pr_generation report = seq_at (Suc (length hist)) \<and> lb_rep b' (hist @ [v]) c"
  using lb_publish_rep [OF assms(2), of v] assms(1) by (auto simp: lb_publishes_def)

interpretation producer_handover: handover_test lb_try_producer lb_drop_producer lb_producer_taken
  "\<lambda>b. b\<lparr>lb_producer_taken := False\<rparr>" lb_publishes lb_consumer_side "\<lambda>(e :: unit) k s s'. False" 1 2
  "\<lambda>report. pr_generation report = 1" "\<lambda>report. pr_generation report = 2" "[]" after_publishing
proof
  show "pr_generation r = 1 \<and> after_publishing 1 s'" if "after_publishing 0 s" "lb_publishes 1 r s s'" for r s s'
    using lb_publishes_rep [OF that(2), of "[]" 0] that(1) by (simp add: after_publishing_def seq_at_small SPAN_eq)
  show "pr_generation r = 2" if "after_publishing (Suc (length [])) s" "lb_publishes 2 r s s'" for r s s'
    using lb_publishes_rep [OF that(2), of "[1]" 0] that(1) by (simp add: after_publishing_def seq_at_small SPAN_eq)
qed (auto simp: after_publishing_def lb_rep_flags lb_try_producer_def lb_drop_producer_def Let_def split: if_splits)

lemma producer_handover_result:
  assumes "reach producer_init producer_passes ((y, f), p, q)"
  shows "y \<noteq> Raced \<and> p \<noteq> FirstFailed \<and> q \<noteq> SecondFailed \<and> (\<forall>report. q = SecondEnd report \<longrightarrow> pr_generation report = 2)"
proof (rule producer_handover.passed_on)
  have "\<not> lb_producer_taken (lb_new :: u32 latest_buf)" by (simp add: lb_new_def)
  moreover have "after_publishing 0 lb_new" by (simp add: after_publishing_def lb_rep_new)
  ultimately have "producer_handover.pass_init z" if "producer_init z" for z
    using that by (auto simp: producer_init_def producer_handover.pass_init_def)
  with assms show "reach producer_handover.pass_init (duo_step (producer_handover.access 0) (producer_handover.access 1)
      (first_holder 1 (\<lambda>report. pr_generation report = 1)) (second_holder [] 2)) ((y, f), p, q)"
    unfolding producer_passes_def Let_def by (induction rule: reach.induct) (auto intro: reach.intros)
qed

section \<open>The consumer's role\<close>

text \<open>
  With one value published, take it and drop the role; then, in the other thread, publish twice more, claim the
  consumer's role, which must succeed, and take: one publication was skipped, counted from the value taken before.
\<close>

datatype elsewhere_call = Claim_Producer | Publish_There u32 | Drop_Producer

fun lb_elsewhere :: "elsewhere_call \<Rightarrow> bool \<Rightarrow> u32 latest_buf \<Rightarrow> u32 latest_buf \<Rightarrow> bool" where
  "lb_elsewhere Claim_Producer done b b' \<longleftrightarrow> (\<exists>h. lb_try_producer b = (h, b') \<and> done = (h \<noteq> None))"
| "lb_elsewhere (Publish_There v) done b b' \<longleftrightarrow> (\<exists>report. lb_publishes v report b b') \<and> done"
| "lb_elsewhere Drop_Producer done b b' \<longleftrightarrow> b' = lb_drop_producer b \<and> done"

definition publish_two :: "elsewhere_call list" where
  "publish_two = [Claim_Producer, Publish_There 2, Publish_There 3, Drop_Producer]"

definition first_item :: "u32 latest_item option \<Rightarrow> bool" where
  "first_item item \<longleftrightarrow> map_option li_generation item = Some 1"

definition consumer_init :: "((u32 latest_buf, nat) ho_state \<times> bool) \<times> first_pc \<times> u32 latest_item option second_pc \<Rightarrow> bool" where
  "consumer_init z \<longleftrightarrow> (\<exists>report b. lb_publish (snd (lb_try_producer lb_new)) 1 = Some (report, b) \<and>
     ho_init (lb_drop_producer b) (fst (fst z))) \<and> \<not> snd (fst z) \<and> snd z = (FirstClaim, SecondLook)"

definition consumer_passes ::
  "((u32 latest_buf, nat) ho_state \<times> bool) \<times> first_pc \<times> u32 latest_item option second_pc \<Rightarrow>
   ((u32 latest_buf, nat) ho_state \<times> bool) \<times> first_pc \<times> u32 latest_item option second_pc \<Rightarrow> bool" where
  "consumer_passes =
     (let access = role_access lb_try_consumer lb_drop_consumer lb_takes lb_elsewhere
      in duo_step (access 0) (access 1) (first_holder () first_item) (second_holder publish_two ()))"

definition after_taking :: "nat \<Rightarrow> u32 latest_buf \<Rightarrow> bool" where
  "after_taking i b \<longleftrightarrow> (i \<le> 1 \<longrightarrow> \<not> lb_producer_taken b) \<and> lb_rep b (if i \<le> 2 then [1] else if i = 3 then [1, 2] else [1, 2, 3]) (if i = 0 then 0 else 1)"

lemma lb_takes_rep:
  assumes "lb_takes u item b b'" and "lb_rep b hist c" and "c < length hist"
  shows "item = Some \<lparr>li_value = last hist, li_generation = seq_at (length hist), li_skipped = of_nat (lb_skips c (length hist))\<rparr> \<and>
    lb_rep b' hist (length hist)"
  using lb_take_rep [OF assms(2)] assms(1,3) by (auto simp: lb_takes_def)

interpretation consumer_handover: handover_test lb_try_consumer lb_drop_consumer lb_consumer_taken
  "\<lambda>b. b\<lparr>lb_consumer_taken := False\<rparr>" lb_takes lb_producer_side lb_elsewhere "()" "()" first_item
  "\<lambda>item. item = Some \<lparr>li_value = 3, li_generation = 3, li_skipped = 1\<rparr>" publish_two after_taking
proof
  show "lb_producer_side s s'" if "lb_elsewhere e k s s'" for e k s s'
    using that by (cases e) (auto simp: lb_producer_side_def)
  show "first_item r \<and> after_taking 1 s'" if "after_taking 0 s" "lb_takes () r s s'" for r s s'
    using lb_takes_rep [OF that(2), of "[1]" 0] lb_take_roles [OF that(2)] that(1)
    by (auto simp: after_taking_def first_item_def seq_at_small SPAN_eq)
  show "k \<and> after_taking (Suc (Suc i)) s'"
    if "i < length publish_two" "after_taking (Suc i) s" "lb_elsewhere (publish_two ! i) k s s'" for i k s s'
  proof -
    note pub = lb_publishes_rep [of 2 _ s s' "[1]" 1] lb_publishes_rep [of 3 _ s s' "[1, 2]" 1]
    have "i = 0 \<or> i = 1 \<or> i = 2 \<or> i = 3" using that(1) by (simp add: publish_two_def) linarith
    then show ?thesis
      using that(2,3) pub
      by (elim disjE) (auto simp: publish_two_def after_taking_def lb_try_producer_def lb_drop_producer_def Let_def
        lb_rep_flags split: if_splits)
  qed
  show "r = Some \<lparr>li_value = 3, li_generation = 3, li_skipped = 1\<rparr>"
    if "after_taking (Suc (length publish_two)) s" "lb_takes () r s s'" for r s s'
    using lb_takes_rep [OF that(2), of "[1, 2, 3]" 1] that(1)
    by (simp add: after_taking_def publish_two_def lb_skips_def seq_at_small SPAN_eq)
qed (auto simp: after_taking_def lb_rep_flags lb_try_consumer_def lb_drop_consumer_def Let_def split: if_splits)

lemma consumer_handover_result:
  assumes "reach consumer_init consumer_passes ((y, f), p, q)"
  shows "y \<noteq> Raced \<and> p \<noteq> FirstFailed \<and> q \<noteq> SecondFailed \<and>
    (\<forall>item. q = SecondEnd item \<longrightarrow> item = Some \<lparr>li_value = 3, li_generation = 3, li_skipped = 1\<rparr>)"
proof (rule consumer_handover.passed_on)
  have "\<not> lb_consumer_taken (lb_drop_producer b) \<and> after_taking 0 (lb_drop_producer b)"
    if "lb_publish (snd (lb_try_producer lb_new)) 1 = Some (report, b)" for report and b :: "u32 latest_buf"
  proof -
    have pub: "lb_publishes 1 report (snd (lb_try_producer lb_new)) b" using that by (simp add: lb_publishes_def)
    have "lb_rep (snd (lb_try_producer lb_new)) ([] :: u32 list) 0"
      using lb_rep_new by (simp add: lb_try_producer_def lb_rep_flags Let_def)
    from lb_publishes_rep [OF pub this] lb_publish_roles [OF pub] show ?thesis
      by (simp add: after_taking_def lb_drop_producer_def lb_rep_flags lb_try_producer_def lb_new_def Let_def)
  qed
  then have "consumer_handover.pass_init z" if "consumer_init z" for z
    using that by (auto simp: consumer_init_def consumer_handover.pass_init_def)
  with assms show "reach consumer_handover.pass_init (duo_step (consumer_handover.access 0) (consumer_handover.access 1)
      (first_holder () first_item) (second_holder publish_two ())) ((y, f), p, q)"
    unfolding consumer_passes_def Let_def by (induction rule: reach.induct) (auto intro: reach.intros)
qed

end
