(* ===== verification/EventFlags.thy ===== *)
theory EventFlags
  imports Roles Transition
begin

unbundle bit_operations_syntax

text \<open>
  \<open>EventFlags\<close> (\<open>src/event_flags.rs\<close>): a set of 32 payload-free conditions in one atomic word. A raise
  is one \<open>fetch_or\<close>, a take one \<open>swap(0)\<close>, so every concurrent execution is an interleaving of these
  two steps. Masks are instances of the library's bounded distributive lattices and refine sets of indices below 32.
\<close>

section \<open>EventMask\<close>

datatype event_mask = EventMask (mask_word: u32)

definition mask_EMPTY :: event_mask where
  "mask_EMPTY = EventMask 0"

definition mask_ALL :: event_mask where
  "mask_ALL = EventMask u32_MAX"

definition mask_from_bits :: "u32 \<Rightarrow> event_mask" where
  "mask_from_bits bits = EventMask bits"

definition mask_from_index :: "u32 \<Rightarrow> event_mask option" where
  "mask_from_index index = (if index < 32 then Some (EventMask (push_bit (unat index) 1)) else None)"

definition mask_bits :: "event_mask \<Rightarrow> u32" where
  "mask_bits m = mask_word m"

definition mask_is_empty :: "event_mask \<Rightarrow> bool" where
  "mask_is_empty m \<longleftrightarrow> mask_word m = 0"

definition mask_contains :: "event_mask \<Rightarrow> event_mask \<Rightarrow> bool" where
  "mask_contains m other \<longleftrightarrow> mask_word m AND mask_word other = mask_word other"

definition mask_intersects :: "event_mask \<Rightarrow> event_mask \<Rightarrow> bool" where
  "mask_intersects m other \<longleftrightarrow> mask_word m AND mask_word other \<noteq> 0"

definition mask_bitor :: "event_mask \<Rightarrow> event_mask \<Rightarrow> event_mask" where
  "mask_bitor m rhs = EventMask (mask_word m OR mask_word rhs)"

definition mask_bitor_assign :: "event_mask \<Rightarrow> event_mask \<Rightarrow> event_mask" where
  "mask_bitor_assign m rhs = EventMask (mask_word m OR mask_word rhs)"

definition mask_bitand :: "event_mask \<Rightarrow> event_mask \<Rightarrow> event_mask" where
  "mask_bitand m rhs = EventMask (mask_word m AND mask_word rhs)"

text \<open>The set of condition indices a mask stands for.\<close>

definition conditions :: "event_mask \<Rightarrow> nat set" where
  "conditions m = {i. bit (mask_word m) i}"

lemma u32_bit_less: "bit (w :: u32) i \<Longrightarrow> i < 32"
  using bit_imp_le_length [of w i] by simp

lemma conditions_bound: "conditions m \<subseteq> {..<32}"
  by (auto simp: conditions_def dest: u32_bit_less)

lemma conditions_inj: "conditions m = conditions m' \<longleftrightarrow> m = m'"
  by (cases m; cases m') (auto simp: conditions_def bit_eq_iff set_eq_iff dest: u32_bit_less)

lemma conditions_EMPTY [simp]: "conditions mask_EMPTY = {}"
  by (simp add: conditions_def mask_EMPTY_def)

lemma conditions_ALL [simp]: "conditions mask_ALL = {..<32}"
  by (auto simp: conditions_def mask_ALL_def)

lemma conditions_bitor [simp]: "conditions (mask_bitor m m') = conditions m \<union> conditions m'"
  by (auto simp: conditions_def mask_bitor_def bit_or_iff)

lemma conditions_bitor_assign [simp]:
  "conditions (mask_bitor_assign m m') = conditions m \<union> conditions m'"
  by (auto simp: conditions_def mask_bitor_assign_def bit_or_iff)

lemma conditions_bitand [simp]: "conditions (mask_bitand m m') = conditions m \<inter> conditions m'"
  by (auto simp: conditions_def mask_bitand_def bit_and_iff)

lemma mask_is_empty_iff: "mask_is_empty m \<longleftrightarrow> conditions m = {}"
  by (auto simp: mask_is_empty_def conditions_def bit_eq_iff dest: u32_bit_less)

lemma mask_contains_iff: "mask_contains m m' \<longleftrightarrow> conditions m' \<subseteq> conditions m"
  by (auto simp: mask_contains_def conditions_def bit_eq_iff bit_and_iff dest: u32_bit_less)

lemma mask_intersects_iff: "mask_intersects m m' \<longleftrightarrow> conditions m \<inter> conditions m' \<noteq> {}"
  by (auto simp: mask_intersects_def conditions_def bit_eq_iff bit_and_iff dest: u32_bit_less)

text \<open>
  Masks form the bounded distributive lattice of their sets of conditions: the union operator is the join,
  the intersection operator the meet, \<open>EMPTY\<close> and \<open>ALL\<close> the bounds and \<open>contains\<close> the order.
\<close>

instantiation event_mask :: "{distrib_lattice, bounded_lattice}"
begin

definition less_eq_event_mask :: "event_mask \<Rightarrow> event_mask \<Rightarrow> bool" where
  "less_eq_event_mask m m' \<longleftrightarrow> mask_contains m' m"

definition less_event_mask :: "event_mask \<Rightarrow> event_mask \<Rightarrow> bool" where
  "less_event_mask m m' \<longleftrightarrow> mask_contains m' m \<and> m \<noteq> m'"

definition sup_event_mask :: "event_mask \<Rightarrow> event_mask \<Rightarrow> event_mask" where
  "sup_event_mask = mask_bitor"

definition inf_event_mask :: "event_mask \<Rightarrow> event_mask \<Rightarrow> event_mask" where
  "inf_event_mask = mask_bitand"

definition bot_event_mask :: event_mask where
  "bot_event_mask = mask_EMPTY"

definition top_event_mask :: event_mask where
  "top_event_mask = mask_ALL"

instance
  by standard
    (use conditions_bound in \<open>auto simp: less_eq_event_mask_def less_event_mask_def sup_event_mask_def
      inf_event_mask_def bot_event_mask_def top_event_mask_def mask_contains_iff simp flip: conditions_inj\<close>)

end

lemmas mask_lattice_defs = less_eq_event_mask_def less_event_mask_def sup_event_mask_def
  inf_event_mask_def bot_event_mask_def top_event_mask_def

text \<open>\<open>from_index\<close> never shifts by 32 or more, and gives the one-condition mask.\<close>

lemma mask_from_index_conditions:
  "mask_from_index i = (if unat i < 32 then Some (EventMask (push_bit (unat i) 1)) else None)"
  "unat i < 32 \<Longrightarrow> conditions (EventMask (push_bit (unat i) 1)) = {unat i}"
  by (auto simp: mask_from_index_def word_less_nat_alt conditions_def bit_simps)

section \<open>The shared word\<close>

record event_flags =
  ef_pending :: u32
  ef_producer_taken :: bool
  ef_consumer_taken :: bool

datatype ef_producer = EfProducer
datatype ef_consumer = EfConsumer

definition ef_new :: event_flags where
  "ef_new = \<lparr>ef_pending = 0, ef_producer_taken = False, ef_consumer_taken = False\<rparr>"

definition ef_default :: event_flags where
  "ef_default = ef_new"

definition ef_try_producer :: "event_flags \<Rightarrow> ef_producer option \<times> event_flags" where
  "ef_try_producer f =
     (let was_taken = ef_producer_taken f; f' = f\<lparr>ef_producer_taken := True\<rparr>
      in if was_taken then (None, f') else (Some EfProducer, f'))"

definition ef_try_consumer :: "event_flags \<Rightarrow> ef_consumer option \<times> event_flags" where
  "ef_try_consumer f =
     (let was_taken = ef_consumer_taken f; f' = f\<lparr>ef_consumer_taken := True\<rparr>
      in if was_taken then (None, f') else (Some EfConsumer, f'))"

definition ef_drop_producer :: "event_flags \<Rightarrow> event_flags" where
  "ef_drop_producer f = f\<lparr>ef_producer_taken := False\<rparr>"

definition ef_drop_consumer :: "event_flags \<Rightarrow> event_flags" where
  "ef_drop_consumer f = f\<lparr>ef_consumer_taken := False\<rparr>"

definition ef_raise :: "event_flags \<Rightarrow> event_mask \<Rightarrow> event_flags" where
  "ef_raise f m = f\<lparr>ef_pending := ef_pending f OR mask_bits m\<rparr>"

definition ef_take_all :: "event_flags \<Rightarrow> event_mask \<times> event_flags" where
  "ef_take_all f = (mask_from_bits (ef_pending f), f\<lparr>ef_pending := 0\<rparr>)"

interpretation ef_prod: role ef_try_producer ef_drop_producer ef_producer_taken
  "\<lambda>f. f\<lparr>ef_producer_taken := False\<rparr>"
  by unfold_locales (auto simp: ef_try_producer_def ef_drop_producer_def)

interpretation ef_cons: role ef_try_consumer ef_drop_consumer ef_consumer_taken
  "\<lambda>f. f\<lparr>ef_consumer_taken := False\<rparr>"
  by unfold_locales (auto simp: ef_try_consumer_def ef_drop_consumer_def)

text \<open>In the lattice of masks a raise is a join, so raises commute and collapse.\<close>

lemma ef_raise_join: "mask_from_bits (ef_pending (ef_raise f m)) = sup (mask_from_bits (ef_pending f)) m"
  by (cases m) (simp add: ef_raise_def mask_from_bits_def mask_bits_def mask_bitor_def mask_lattice_defs)

lemma ef_raise_raise: "ef_raise (ef_raise f m) m' = ef_raise f (sup m m')"
  by (simp add: ef_raise_def mask_bits_def mask_bitor_def mask_lattice_defs or.assoc)

lemma ef_raise_commute: "ef_raise (ef_raise f m) m' = ef_raise (ef_raise f m') m"
  by (simp add: ef_raise_raise sup.commute)

lemma ef_raise_contained:
  "m \<le> mask_from_bits (ef_pending f) \<Longrightarrow> ef_raise f m = f"
  by (simp add: ef_raise_def mask_bits_def mask_from_bits_def mask_contains_def mask_lattice_defs
      bit_eq_iff bit_simps) (rule event_flags.equality; auto intro!: bit_eqI simp: bit_or_iff)

section \<open>Runs: every occurrence is seen, once, as a set\<close>

datatype ef_op = Raise event_mask | TakeAll

fun ef_run :: "event_flags \<Rightarrow> ef_op list \<Rightarrow> event_mask list \<times> event_flags" where
  "ef_run f [] = ([], f)"
| "ef_run f (Raise m # ops) = ef_run (ef_raise f m) ops"
| "ef_run f (TakeAll # ops) = (let (m, f') = ef_take_all f; (ms, f'') = ef_run f' ops in (m # ms, f''))"

text \<open>The specification: what each take returns, and what stays pending, as sets of conditions.\<close>

fun ef_spec :: "nat set \<Rightarrow> ef_op list \<Rightarrow> nat set list \<times> nat set" where
  "ef_spec P [] = ([], P)"
| "ef_spec P (Raise m # ops) = ef_spec (P \<union> conditions m) ops"
| "ef_spec P (TakeAll # ops) = (let (ss, P') = ef_spec {} ops in (P # ss, P'))"

abbreviation ef_pending_set :: "event_flags \<Rightarrow> nat set" where
  "ef_pending_set f \<equiv> conditions (EventMask (ef_pending f))"

lemma conditions_raise: "ef_pending_set (ef_raise f m) = ef_pending_set f \<union> conditions m"
  by (auto simp: ef_raise_def mask_bits_def conditions_def bit_or_iff)

lemma ef_run_refines:
  "ef_spec (ef_pending_set f) ops
     = (map conditions (fst (ef_run f ops)), ef_pending_set (snd (ef_run f ops)))"
proof (induction f ops rule: ef_run.induct)
  case (2 f m ops)
  then show ?case by (simp add: conditions_raise)
next
  case (3 f ops)
  have "ef_spec {} ops = (map conditions (fst (ef_run (f\<lparr>ef_pending := 0\<rparr>) ops)),
      ef_pending_set (snd (ef_run (f\<lparr>ef_pending := 0\<rparr>) ops)))"
    using "3.IH" [OF refl] by (simp add: ef_take_all_def conditions_def)
  then show ?case by (simp add: ef_take_all_def mask_from_bits_def split_beta Let_def)
qed simp

text \<open>No occurrence is lost and none is invented: what was raised is what was taken or is pending.\<close>

fun raised :: "ef_op list \<Rightarrow> nat set" where
  "raised [] = {}"
| "raised (Raise m # ops) = conditions m \<union> raised ops"
| "raised (TakeAll # ops) = raised ops"

lemma ef_spec_conserves: "P \<union> raised ops = \<Union> (set (fst (ef_spec P ops))) \<union> snd (ef_spec P ops)"
  by (induction P ops rule: ef_spec.induct) (auto simp: split_beta Let_def)

text \<open>A take returns exactly what was raised since the preceding take.\<close>

lemma ef_spec_append:
  "ef_spec P (ops @ ops') =
     (let (ss, P') = ef_spec P ops; (ss', P'') = ef_spec P' ops' in (ss @ ss', P''))"
  by (induction P ops rule: ef_spec.induct) (auto simp: split_beta Let_def)

lemma ef_spec_raises:
  "TakeAll \<notin> set ops \<Longrightarrow> ef_spec P ops = ([], P \<union> raised ops)"
  by (induction P ops rule: ef_spec.induct) auto

lemma ef_spec_take_window:
  assumes "TakeAll \<notin> set window"
  shows "ef_spec P (before @ TakeAll # window @ TakeAll # after)
    = (let (ss, Q) = ef_spec P before; (ss', R) = ef_spec {} after
       in (ss @ [Q] @ [raised window] @ ss', R))"
  using ef_spec_raises [OF assms, of "{}"] by (simp add: ef_spec_append split_beta Let_def)

text \<open>Duplicates coalesce and order is forgotten: only the union of the raises matters.\<close>

lemma ef_raise_commutes: "ef_raise (ef_raise f m) m' = ef_raise (ef_raise f m') m"
  by (simp add: ef_raise_def or.left_commute or.commute or.assoc)

lemma ef_raise_idem: "ef_raise (ef_raise f m) m = ef_raise f m"
  by (simp add: ef_raise_def or.assoc)

section \<open>What an observed raise publishes\<close>

text \<open>
  Read-modify-writes of an atomic with an ordering. Memory actions of the raising context are numbered; a view is how
  many of them a context has seen, and the atomic carries the view that an Acquire of it obtains. A Release
  read-modify-write adds the context's own view to it; one without Release leaves it alone, as it continues the
  release sequence of the earlier ones. One without Acquire leaves the context's view as it is.
\<close>

datatype memory_order = Ord_Relaxed | Ord_Acquire | Ord_Release | Ord_AcqRel

definition acquires :: "memory_order \<Rightarrow> bool" where
  "acquires ord \<longleftrightarrow> ord = Ord_Acquire \<or> ord = Ord_AcqRel"

definition releases :: "memory_order \<Rightarrow> bool" where
  "releases ord \<longleftrightarrow> ord = Ord_Release \<or> ord = Ord_AcqRel"

text \<open>\<open>rmw ord update own (x, carried)\<close>: what the update returns, the context's view after it, the new value and its view.\<close>

definition rmw :: "memory_order \<Rightarrow> ('x \<Rightarrow> 'r \<times> 'x) \<Rightarrow> nat \<Rightarrow> 'x \<times> nat \<Rightarrow> 'r \<times> nat \<times> 'x \<times> nat" where
  "rmw ord update own at =
     (let (x, carried) = at;
          (r, x') = update x;
          own' = (if acquires ord then max own carried else own)
      in (r, own', x', if releases ord then max carried own' else carried))"

text \<open>
  The flags with the views: \<open>clock\<close> counts the memory actions of the raising context, \<open>word_view\<close> is the view that
  the pending word carries, \<open>taker_view\<close> that of the taking context.
\<close>

record ef_view =
  fl :: event_flags
  clock :: nat
  word_view :: nat
  taker_view :: nat

definition efv_raise :: "ef_view \<Rightarrow> event_mask \<Rightarrow> ef_view" where
  "efv_raise s m =
     (let (_, own, f, carried) = rmw Ord_Release (\<lambda>f. ((), ef_raise f m)) (clock s) (fl s, word_view s)
      in s\<lparr>fl := f, clock := own, word_view := carried\<rparr>)"

definition efv_take_all :: "ef_view \<Rightarrow> event_mask \<times> ef_view" where
  "efv_take_all s =
     (let (m, own, f, carried) = rmw Ord_Acquire ef_take_all (taker_view s) (fl s, word_view s)
      in (m, s\<lparr>fl := f, taker_view := own, word_view := carried\<rparr>))"

text \<open>The two contexts in any interleaving: a memory action of the raising one, a raise, or a take.\<close>

datatype ef_event = Other_Action | Raised event_mask | Took event_mask

inductive efv_step :: "ef_event \<Rightarrow> ef_view \<Rightarrow> ef_view \<Rightarrow> bool" where
  action: "efv_step Other_Action s (s\<lparr>clock := Suc (clock s)\<rparr>)"
| raise: "efv_step (Raised m) s (efv_raise s m)"
| take: "efv_take_all s = (m, s') \<Longrightarrow> efv_step (Took m) s s'"

definition efv_init :: "ef_view \<Rightarrow> bool" where
  "efv_init s \<longleftrightarrow> s = \<lparr>fl = ef_new, clock = 0, word_view = 0, taker_view = 0\<rparr>"

inductive efv_trace :: "ef_event list \<Rightarrow> ef_view \<Rightarrow> bool" where
  empty: "efv_init s \<Longrightarrow> efv_trace [] s"
| extend: "efv_trace evs s \<Longrightarrow> efv_step e s s' \<Longrightarrow> efv_trace (evs @ [e]) s'"

text \<open>
  What an observer of the events alone expects: the conditions raised since the last take, how many actions came
  before, and how many of them came before the last raise.
\<close>

fun raised_since_take :: "nat set \<Rightarrow> ef_event list \<Rightarrow> nat set" where
  "raised_since_take P [] = P"
| "raised_since_take P (Other_Action # evs) = raised_since_take P evs"
| "raised_since_take P (Raised m # evs) = raised_since_take (P \<union> conditions m) evs"
| "raised_since_take P (Took m # evs) = raised_since_take {} evs"

definition actions_in :: "ef_event list \<Rightarrow> nat" where
  "actions_in evs = length (filter (\<lambda>e. e = Other_Action) evs)"

definition is_raise :: "ef_event \<Rightarrow> bool" where
  "is_raise e \<longleftrightarrow> (\<exists>m. e = Raised m)"

definition actions_before_last_raise :: "ef_event list \<Rightarrow> nat" where
  "actions_before_last_raise evs = actions_in (rev (dropWhile (\<lambda>e. \<not> is_raise e) (rev evs)))"

lemma raised_since_take_append: "raised_since_take P (evs @ evs') = raised_since_take (raised_since_take P evs) evs'"
  by (induction P evs rule: raised_since_take.induct) auto

lemma actions_simps [simp]:
  "actions_in [] = 0" "actions_in (evs @ evs') = actions_in evs + actions_in evs'"
  "actions_in (e # evs) = (if e = Other_Action then 1 else 0) + actions_in evs"
  by (simp_all add: actions_in_def)

lemma actions_before_last_raise_snoc [simp]:
  "actions_before_last_raise [] = 0"
  "actions_before_last_raise (evs @ [e]) = (if is_raise e then actions_in evs else actions_before_last_raise evs)"
  by (auto simp: actions_before_last_raise_def is_raise_def)

lemma is_raise_simps [simp]: "is_raise (Raised m)" "\<not> is_raise Other_Action" "\<not> is_raise (Took m)"
  by (simp_all add: is_raise_def)

lemma actions_before_raise_le: "evs = before @ Raised m # after \<Longrightarrow> actions_in before \<le> actions_before_last_raise evs"
proof (induction after arbitrary: evs rule: rev_induct)
  case Nil
  then show ?case by simp
next
  case (snoc e after)
  from snoc.IH [OF refl] show ?case
    using actions_before_last_raise_snoc(2) [of "before @ Raised m # after" e] snoc.prems by simp
qed

definition efv_inv :: "ef_event list \<Rightarrow> ef_view \<Rightarrow> bool" where
  "efv_inv evs s \<longleftrightarrow> ef_pending_set (fl s) = raised_since_take {} evs \<and> clock s = actions_in evs \<and>
     word_view s = actions_before_last_raise evs \<and> word_view s \<le> clock s \<and> taker_view s \<le> word_view s"

lemma efv_take_all_exact:
  assumes "efv_take_all s = (m, s')"
  shows "conditions m = ef_pending_set (fl s)" and "ef_pending_set (fl s') = {}" and "clock s' = clock s"
    and "word_view s' = word_view s" and "taker_view s' = max (taker_view s) (word_view s)"
  using assms by (auto simp: efv_take_all_def rmw_def acquires_def releases_def ef_take_all_def mask_from_bits_def conditions_def)

lemma efv_raise_exact:
  "ef_pending_set (fl (efv_raise s m)) = ef_pending_set (fl s) \<union> conditions m" "clock (efv_raise s m) = clock s"
  "word_view (efv_raise s m) = max (word_view s) (clock s)" "taker_view (efv_raise s m) = taker_view s"
  by (simp_all add: efv_raise_def rmw_def Let_def acquires_def releases_def conditions_raise)

lemma efv_trace_inv: "efv_trace evs s \<Longrightarrow> efv_inv evs s"
proof (induction rule: efv_trace.induct)
  case (empty s)
  then show ?case by (simp add: efv_init_def efv_inv_def ef_new_def conditions_def)
next
  case (extend evs s e s')
  from extend(2) show ?case
  proof cases
    case (take m)
    with extend(3) efv_take_all_exact [OF take(2)] show ?thesis by (simp add: efv_inv_def raised_since_take_append)
  qed (use extend(3) in \<open>simp_all add: efv_inv_def raised_since_take_append efv_raise_exact\<close>)
qed

lemma efv_take_publishes:
  assumes trace: "efv_trace evs s" and "efv_step (Took m) s s'"
  shows "conditions m = raised_since_take {} evs \<and> taker_view s' = actions_before_last_raise evs \<and>
    (\<forall>before m' after. evs = before @ Raised m' # after \<longrightarrow> actions_in before \<le> taker_view s')"
proof -
  from assms(2) have "efv_take_all s = (m, s')" by cases simp
  from efv_take_all_exact [OF this] efv_trace_inv [OF trace] show ?thesis
    by (auto simp: efv_inv_def intro: actions_before_raise_le)
qed

text \<open>The operations, for symbolic execution on concrete states.\<close>

lemmas ef_op_defs [op_defs] = mask_from_bits_def mask_from_index_def mask_bits_def
  mask_is_empty_def mask_contains_def mask_intersects_def mask_bitor_def mask_bitand_def
  mask_EMPTY_def mask_ALL_def ef_new_def ef_try_producer_def ef_try_consumer_def
  ef_drop_producer_def ef_drop_consumer_def ef_raise_def ef_take_all_def

end
