(* ===== verification/Stress.thy ===== *)
theory Stress
  imports Threads
begin

text \<open>
  The stress tests of the signals share one shape. One thread makes the same call \<open>n\<close> times and stores a flag;
  the other folds what its own call returns until it has loaded the flag, and once more after that:
  \<open>while !done.load(Acquire) { acc = add(acc, call()) } add(acc, call())\<close>.
\<close>

datatype loop_pc = Looping u32 | LoopStore | LoopEnd

definition enter_loop :: "u32 \<Rightarrow> u32 \<Rightarrow> loop_pc" where
  "enter_loop n i = (if i < n then Looping i else LoopStore)"

definition loop_thread :: "'c \<Rightarrow> u32 \<Rightarrow> ('c flag_call, 'r flag_result, loop_pc) thread" where
  "loop_thread work n = Thread
     (\<lambda>p. case p of Looping i \<Rightarrow> Some (Work work) | LoopStore \<Rightarrow> Some Store_True | LoopEnd \<Rightarrow> None)
     (\<lambda>p result. case p of Looping i \<Rightarrow> enter_loop n (i + 1) | _ \<Rightarrow> LoopEnd)"

datatype 'a poll_pc = PollFlag 'a | PollWork 'a | PollLast 'a | PollEnd (folded: 'a)

fun fold_result :: "('a \<Rightarrow> 'u \<Rightarrow> 'a) \<Rightarrow> 'a \<Rightarrow> 'u flag_result \<Rightarrow> 'a" where
  "fold_result add a (Worked u) = add a u"
| "fold_result add a _ = a"

definition poll_thread :: "'d \<Rightarrow> ('a \<Rightarrow> 'u \<Rightarrow> 'a) \<Rightarrow> ('d flag_call, 'u flag_result, 'a poll_pc) thread" where
  "poll_thread poll add = Thread
     (\<lambda>q. case q of PollFlag a \<Rightarrow> Some Load_Flag | PollWork a \<Rightarrow> Some (Work poll) | PollLast a \<Rightarrow> Some (Work poll) | PollEnd a \<Rightarrow> None)
     (\<lambda>q result. case q of
        PollFlag a \<Rightarrow> (if result = Loaded True then PollLast a else PollWork a)
      | PollWork a \<Rightarrow> PollFlag (fold_result add a result)
      | PollLast a \<Rightarrow> PollEnd (fold_result add a result)
      | PollEnd a \<Rightarrow> q)"

lemma stress_simps [simp]:
  "next_call (loop_thread work n) (Looping i) = Some (Work work)"
  "next_call (loop_thread work n) LoopStore = Some Store_True"
  "next_call (loop_thread work n) LoopEnd = None"
  "on_return (loop_thread work n) (Looping i) r = enter_loop n (i + 1)"
  "on_return (loop_thread work n) LoopStore r = LoopEnd"
  "next_call (poll_thread poll add) (PollFlag a) = Some Load_Flag"
  "next_call (poll_thread poll add) (PollWork a) = Some (Work poll)"
  "next_call (poll_thread poll add) (PollLast a) = Some (Work poll)"
  "next_call (poll_thread poll add) (PollEnd a) = None"
  "on_return (poll_thread poll add) (PollFlag a) (Loaded b) = (if b then PollLast a else PollWork a)"
  "on_return (poll_thread poll add) (PollWork a) (Worked u) = PollFlag (add a u)"
  "on_return (poll_thread poll add) (PollLast a) (Worked u) = PollEnd (add a u)"
  by (simp_all add: loop_thread_def poll_thread_def)

fun work_made :: "u32 \<Rightarrow> loop_pc \<Rightarrow> nat" where
  "work_made n (Looping i) = unat i"
| "work_made n _ = unat n"

lemma work_made_enter: "i < n \<Longrightarrow> work_made n (enter_loop n (i + 1)) = Suc (unat i)"
  using u32_loop_counter [of i n] by (auto simp: enter_loop_def word_less_nat_alt)

lemma enter_loop_open: "enter_loop n i \<noteq> LoopEnd" "enter_loop n i = Looping j \<Longrightarrow> j < n"
  by (auto simp: enter_loop_def split: if_splits)

fun result_of :: "'a poll_pc \<Rightarrow> 'a" where
  "result_of (PollFlag a) = a" | "result_of (PollWork a) = a" | "result_of (PollLast a) = a" | "result_of (PollEnd a) = a"

fun work_left :: "u32 \<Rightarrow> loop_pc \<Rightarrow> nat" where
  "work_left n (Looping i) = Suc (unat n - unat i)" | "work_left n LoopStore = 1" | "work_left n LoopEnd = 0"

fun polls_left :: "'a poll_pc \<Rightarrow> nat" where
  "polls_left (PollWork a) = 3" | "polls_left (PollFlag a) = 2" | "polls_left (PollLast a) = 1" | "polls_left (PollEnd a) = 0"

definition stress_init :: "'s \<Rightarrow> u32 \<Rightarrow> 'a \<Rightarrow> ('s \<times> bool) \<times> loop_pc \<times> 'a poll_pc \<Rightarrow> bool" where
  "stress_init s0 n a0 x \<longleftrightarrow> x = ((s0, False), enter_loop n 0, PollFlag a0)"

definition stress_step :: "('c \<Rightarrow> 'r option \<Rightarrow> 's \<Rightarrow> 's \<Rightarrow> bool) \<Rightarrow> 'c \<Rightarrow> ('d \<Rightarrow> 'u option \<Rightarrow> 's \<Rightarrow> 's \<Rightarrow> bool) \<Rightarrow> 'd \<Rightarrow>
    ('a \<Rightarrow> 'u \<Rightarrow> 'a) \<Rightarrow> u32 \<Rightarrow> ('s \<times> bool) \<times> loop_pc \<times> 'a poll_pc \<Rightarrow> ('s \<times> bool) \<times> loop_pc \<times> 'a poll_pc \<Rightarrow> bool" where
  "stress_step work_acc work poll_acc poll add n =
     duo_step (flagged work_acc id) (flagged poll_acc id) (loop_thread work n) (poll_thread poll add)"

text \<open>
  What a component has to promise: \<open>J k s a\<close> relates the number of calls completed, the shared state and the
  folded value; a poll that completes leaves nothing behind; and each call can run to its end.
\<close>

locale stress_test =
  fixes work_acc :: "'c \<Rightarrow> 'r option \<Rightarrow> 's \<Rightarrow> 's \<Rightarrow> bool" and work :: 'c
    and poll_acc :: "'d \<Rightarrow> 'u option \<Rightarrow> 's \<Rightarrow> 's \<Rightarrow> bool" and poll :: 'd
    and add :: "'a \<Rightarrow> 'u \<Rightarrow> 'a" and n :: u32 and s0 :: 's and a0 :: 'a
    and J :: "nat \<Rightarrow> 's \<Rightarrow> 'a \<Rightarrow> bool" and drained :: "'s \<Rightarrow> bool"
  assumes at_start: "J 0 s0 a0"
    and on_work: "J k s a \<Longrightarrow> k < unat n \<Longrightarrow> work_acc work r s s' \<Longrightarrow> J (if r = None then k else Suc k) s' a"
    and on_poll: "J k s a \<Longrightarrow> k \<le> unat n \<Longrightarrow> poll_acc poll None s s' \<Longrightarrow> J k s' a"
    and on_polled: "J k s a \<Longrightarrow> k \<le> unat n \<Longrightarrow> poll_acc poll (Some u) s s' \<Longrightarrow> J k s' (add a u) \<and> drained s'"
    and work_runs: "J k s a \<Longrightarrow> \<exists>r s'. runs (work_acc work) s r s'"
    and poll_runs: "J k s a \<Longrightarrow> \<exists>u s'. runs (poll_acc poll) s u s'"
begin

abbreviation "starts \<equiv> stress_init s0 n a0"
abbreviation "steps \<equiv> stress_step work_acc work poll_acc poll add n"

definition stress_inv :: "'s \<times> bool \<Rightarrow> loop_pc \<Rightarrow> 'a poll_pc \<Rightarrow> bool" where
  "stress_inv x p q \<longleftrightarrow> J (work_made n p) (fst x) (result_of q) \<and> (\<forall>i. p = Looping i \<longrightarrow> i < n) \<and>
     (snd x \<longleftrightarrow> p = LoopEnd) \<and> ((\<exists>a. q = PollLast a \<or> q = PollEnd a) \<longrightarrow> snd x) \<and>
     ((\<exists>a. q = PollEnd a) \<longrightarrow> drained (fst x))"

lemma work_made_bound: "stress_inv x p q \<Longrightarrow> work_made n p \<le> unat n"
  by (cases p) (auto simp: stress_inv_def word_less_nat_alt)

lemma stress_inv_work:
  assumes inv: "stress_inv x p q" and call: "next_call (loop_thread work n) p = Some c" and acc: "flagged work_acc id c r x y"
  shows "stress_inv y (after_access (loop_thread work n) p r) q"
proof (cases p)
  case (Looping i)
  then have "c = Work work" using call by simp
  with acc obtain s s' f r0 where acc: "r = map_option Worked r0" "x = (s, f)" "y = (s', f)" "work_acc work r0 s s'"
    by (auto simp: flagged_simps)
  have i: "i < n" "unat i < unat n" using inv Looping by (auto simp: stress_inv_def word_less_nat_alt)
  have "J (unat i) s (result_of q)" using inv Looping acc(2) by (simp add: stress_inv_def)
  from on_work [OF this i(2) acc(4)] inv Looping acc i work_made_enter [OF i(1)] show ?thesis
    by (cases r0; cases f) (auto simp: stress_inv_def enter_loop_open)
qed (use inv call acc in \<open>auto simp: stress_inv_def flagged_simps\<close>)

lemma stress_inv_poll:
  assumes inv: "stress_inv x p q" and call: "next_call (poll_thread poll add) q = Some d" and acc: "flagged poll_acc id d r x y"
  shows "stress_inv y p (after_access (poll_thread poll add) q r)"
proof (cases "\<exists>a. q = PollFlag a")
  case True
  then show ?thesis using inv call acc by (auto simp: stress_inv_def flagged_simps)
next
  case False
  with call obtain a where q: "q = PollWork a \<or> q = PollLast a" "d = Work poll" by (cases q) auto
  with acc obtain s s' f r0 where acc: "r = map_option Worked r0" "x = (s, f)" "y = (s', f)" "poll_acc poll r0 s s'"
    by (auto simp: flagged_simps)
  have J: "J (work_made n p) s a" using inv q(1) acc(2) by (auto simp: stress_inv_def)
  show ?thesis
  proof (cases r0)
    case None
    with on_poll [OF J work_made_bound [OF inv]] acc q(1) inv show ?thesis by (auto simp: stress_inv_def)
  next
    case (Some u)
    with on_polled [OF J work_made_bound [OF inv]] acc q(1) inv show ?thesis by (auto simp: stress_inv_def)
  qed
qed

sublocale duo_invariant starts "flagged work_acc id" "flagged poll_acc id" "loop_thread work n"
  "poll_thread poll add" stress_inv
proof
  show "stress_inv x p q" if "starts (x, p, q)" for x p q
  proof -
    have "0 < n \<or> n = 0" by (cases "n = 0") (auto simp: word_neq_0_conv)
    with that at_start show ?thesis by (auto simp: stress_init_def stress_inv_def enter_loop_def)
  qed
qed (auto intro: stress_inv_work stress_inv_poll)

text \<open>When the second thread has its result, every call was made and nothing is left behind.\<close>

lemma stress_result: "reach starts steps ((s, f), p, PollEnd a) \<Longrightarrow> J (unat n) s a \<and> drained s \<and> p = LoopEnd"
  using duo_reach_inv [of "(s, f)" p "PollEnd a"] by (auto simp: stress_step_def stress_inv_def)

text \<open>And from every reachable state some schedule leads there.\<close>

definition stress_left :: "('s \<times> bool) \<times> loop_pc \<times> 'a poll_pc \<Rightarrow> nat" where
  "stress_left x = work_left n (fst (snd x)) + polls_left (snd (snd x))"

lemma loop_gains:
  assumes inv: "stress_inv (s, f) p q" and p: "p \<noteq> LoopEnd"
  shows "\<exists>y. steps\<^sup>*\<^sup>* ((s, f), p, q) y \<and> stress_left y < stress_left ((s, f), p, q)"
proof (cases p)
  case (Looping i)
  then have i: "i < n" using inv by (simp add: stress_inv_def)
  have "J (work_made n p) s (result_of q)" using inv by (simp add: stress_inv_def)
  from work_runs [OF this] obtain r s' where "runs (work_acc work) s r s'" by blast
  from runs_left [where left_acc = "flagged work_acc id", OF runs_flagged [where acc = work_acc, OF this],
    of "loop_thread work n" p]
  have "steps\<^sup>*\<^sup>* ((s, f), p, q) ((s', f), enter_loop n (i + 1), q)"
    by (simp add: Looping stress_step_def)
  moreover have "work_left n (enter_loop n (i + 1)) < work_left n p"
    using i u32_loop_counter [OF i] by (auto simp: enter_loop_def Looping word_less_nat_alt)
  then have "stress_left ((s', f), enter_loop n (i + 1), q) < stress_left ((s, f), p, q)" by (simp add: stress_left_def)
  ultimately show ?thesis by blast
next
  case LoopStore
  have "next_call (loop_thread work n) p = Some Store_True" by (simp add: LoopStore)
  from duo_step.left [where left_acc = "flagged work_acc id", OF this flagged.store_true]
  have "steps ((s, f), p, q) ((s, True), LoopEnd, q)" by (simp add: stress_step_def LoopStore)
  from r_into_rtranclp [where r = steps, OF this] show ?thesis
    by (intro exI conjI, assumption) (simp add: stress_left_def LoopStore)
qed (use p in simp)

lemma poll_gains:
  assumes inv: "stress_inv (s, f) p q" and f: "f" and q: "\<And>a. q \<noteq> PollEnd a"
  shows "\<exists>y. steps\<^sup>*\<^sup>* ((s, f), p, q) y \<and> stress_left y < stress_left ((s, f), p, q)"
proof -
  have "J (work_made n p) s (result_of q)" using inv by (simp add: stress_inv_def)
  from poll_runs [OF this] obtain u s' where "runs (poll_acc poll) s u s'" by blast
  from runs_right [where right_acc = "flagged poll_acc id", OF runs_flagged [where acc = poll_acc, OF this]]
  have polled: "steps\<^sup>*\<^sup>* ((s, f), p, q) ((s', f), p, on_return (poll_thread poll add) q (Worked u))"
    if "next_call (poll_thread poll add) q = Some (Work poll)"
    using that by (simp add: stress_step_def)
  show ?thesis
  proof (cases q)
    case (PollFlag a)
    have "next_call (poll_thread poll add) q = Some Load_Flag" by (simp add: PollFlag)
    from duo_step.right [where right_acc = "flagged poll_acc id", OF this flagged.load_true]
    have "steps ((s, f), p, q) ((s, True), p, PollLast a)" using f by (simp add: stress_step_def PollFlag)
    from r_into_rtranclp [where r = steps, OF this] show ?thesis
      by (intro exI conjI, assumption) (simp add: stress_left_def PollFlag)
  next
    case (PollWork a)
    with polled show ?thesis by (force simp: stress_left_def)
  next
    case (PollLast a)
    with polled show ?thesis by (force simp: stress_left_def)
  qed (use q in simp)
qed

lemma stress_can_end:
  assumes "reach starts steps x"
  shows "\<exists>y a. steps\<^sup>*\<^sup>* x y \<and> snd y = (LoopEnd, PollEnd a)"
proof -
  let ?I = "\<lambda>x. stress_inv (fst x) (fst (snd x)) (snd (snd x))" and ?final = "\<lambda>y. \<exists>a. snd y = (LoopEnd, PollEnd a)"
  have start: "?I x" using duo_reach_inv assms by (cases x) (simp add: stress_step_def)
  have keep: "?I z" if "?I y" "steps y z" for y z
    using inv_step [of y z] that by (cases y; cases z) (simp add: stress_step_def)
  have "\<exists>y. steps\<^sup>*\<^sup>* x y \<and> ?final y"
  proof (rule can_end [where I = ?I and left = stress_left, OF start keep])
    fix y assume y: "?I y" "\<not> ?final y"
    obtain s f p q where yy: "y = ((s, f), p, q)" by (metis prod.collapse)
    have "f" if "p = LoopEnd" using y(1) that by (simp add: yy stress_inv_def)
    moreover have "\<nexists>a. q = PollEnd a" if "p = LoopEnd" using y(2) that yy by auto
    ultimately show "\<exists>z. steps\<^sup>*\<^sup>* y z \<and> (?final z \<or> stress_left z < stress_left y)"
      using loop_gains [of s f p q] poll_gains [of s f p q] y(1) by (cases "p = LoopEnd") (auto simp: yy)
  qed
  then show ?thesis by blast
qed

end

end
