(* ===== verification/EventFlags_Threads.thy ===== *)
theory EventFlags_Threads
  imports EventFlags Stress
begin

text \<open>
  The threaded tests of the flags as programs (\<open>Stress\<close>). A raise and a take are one read-modify-write each. One thread
  raises a condition many times and then stores a flag while the other collects what it takes until it has
  seen the flag; one thread raises several conditions against a single take; and one thread writes a payload
  before it raises, which the other reads after it has taken the condition.
\<close>

definition raise_acc :: "event_mask \<Rightarrow> unit option \<Rightarrow> event_flags \<Rightarrow> event_flags \<Rightarrow> bool" where
  "raise_acc m r f f' \<longleftrightarrow> r = Some () \<and> f' = ef_raise f m"

definition take_all_acc :: "unit \<Rightarrow> event_mask option \<Rightarrow> event_flags \<Rightarrow> event_flags \<Rightarrow> bool" where
  "take_all_acc u r f f' \<longleftrightarrow> (\<exists>m. r = Some m \<and> ef_take_all f = (m, f'))"

lemma raise_runs: "runs (raise_acc m) f () (ef_raise f m)"
  by (rule runs.returns) (simp add: raise_acc_def)

lemma take_all_runs: "runs (take_all_acc u) f (fst (ef_take_all f)) (snd (ef_take_all f))"
  by (rule runs.returns) (simp add: take_all_acc_def)

lemma take_all_pending: "take_all_acc u r f f' \<Longrightarrow> \<exists>m. r = Some m \<and> conditions m = ef_pending_set f \<and> ef_pending_set f' = {}"
  by (auto simp: take_all_acc_def ef_take_all_def mask_from_bits_def conditions_def)

section \<open>Takes until the producer is done\<close>

definition ef_stress_init :: "u32 \<Rightarrow> (event_flags \<times> bool) \<times> loop_pc \<times> event_mask poll_pc \<Rightarrow> bool" where
  "ef_stress_init n = stress_init ef_new n mask_EMPTY"

definition ef_stress_step :: "event_mask \<Rightarrow> u32 \<Rightarrow> (event_flags \<times> bool) \<times> loop_pc \<times> event_mask poll_pc \<Rightarrow>
    (event_flags \<times> bool) \<times> loop_pc \<times> event_mask poll_pc \<Rightarrow> bool" where
  "ef_stress_step m n = stress_step raise_acc m take_all_acc () mask_bitor_assign n"

definition ef_stress_inv :: "event_mask \<Rightarrow> nat \<Rightarrow> event_flags \<Rightarrow> event_mask \<Rightarrow> bool" where
  "ef_stress_inv m k f collected \<longleftrightarrow> conditions collected \<union> ef_pending_set f = (if k = 0 then {} else conditions m)"

interpretation ef_stress: stress_test raise_acc m take_all_acc "()" mask_bitor_assign n ef_new mask_EMPTY
  "ef_stress_inv m" "\<lambda>f. ef_pending_set f = {}" for m n
proof
  show "ef_stress_inv m 0 ef_new mask_EMPTY" by (simp add: ef_stress_inv_def ef_new_def conditions_def mask_EMPTY_def)
  show "ef_stress_inv m (if r = None then k else Suc k) f' a"
    if "ef_stress_inv m k f a" "raise_acc m r f f'" for k f a r f'
    using that by (auto simp: ef_stress_inv_def raise_acc_def conditions_raise split: if_splits)
  show "ef_stress_inv m k f' a" if "ef_stress_inv m k f a" "take_all_acc () None f f'" for k f a f'
    using take_all_pending [OF that(2)] by simp
  show "ef_stress_inv m k f' (mask_bitor_assign a u) \<and> ef_pending_set f' = {}"
    if "ef_stress_inv m k f a" "take_all_acc () (Some u) f f'" for k f a u f'
    using that(1) take_all_pending [OF that(2)] by (auto simp: ef_stress_inv_def)
qed (use raise_runs take_all_runs in blast)+

text \<open>The condition is neither lost nor joined by another one, if it was raised at all.\<close>

lemma collects_exactly:
  assumes "reach (ef_stress_init n) (ef_stress_step m n) (x, p, PollEnd seen)" and "0 < n"
  shows "seen = m"
proof -
  have "unat n \<noteq> 0" using assms(2) by (simp add: unat_gt_0)
  then show ?thesis using ef_stress.stress_result [of n m "fst x" "snd x" p seen] assms(1)
    by (auto simp: ef_stress_init_def ef_stress_step_def ef_stress_inv_def simp flip: conditions_inj)
qed

lemma collecting_ends:
  assumes "reach (ef_stress_init n) (ef_stress_step m n) x"
  shows "\<exists>y seen. (ef_stress_step m n)\<^sup>*\<^sup>* x y \<and> snd y = (LoopEnd, PollEnd seen)"
  using ef_stress.stress_can_end assms by (simp add: ef_stress_init_def ef_stress_step_def)

section \<open>Several conditions against one take\<close>

definition raising_each :: "(event_mask, unit, event_mask list) thread" where
  "raising_each = Thread (\<lambda>p. case p of [] \<Rightarrow> None | m # ms \<Rightarrow> Some m) (\<lambda>p result. tl p)"

definition taking_once :: "(unit, event_mask, event_mask option) thread" where
  "taking_once = Thread (\<lambda>q. case q of None \<Rightarrow> Some () | Some m \<Rightarrow> None) (\<lambda>q m. Some m)"

definition partition_init :: "event_mask list \<Rightarrow> event_flags \<times> event_mask list \<times> event_mask option \<Rightarrow> bool" where
  "partition_init ms x \<longleftrightarrow> x = (ef_new, ms, None)"

definition partition_step ::
  "event_flags \<times> event_mask list \<times> event_mask option \<Rightarrow> event_flags \<times> event_mask list \<times> event_mask option \<Rightarrow> bool" where
  "partition_step = duo_step raise_acc take_all_acc raising_each taking_once"

definition all_conditions :: "event_mask list \<Rightarrow> nat set" where
  "all_conditions ms = \<Union> (conditions ` set ms)"

definition disjoint_masks :: "event_mask list \<Rightarrow> bool" where
  "disjoint_masks ms \<longleftrightarrow> sorted_wrt (\<lambda>m m'. \<not> mask_intersects m m') ms"

fun first_take :: "event_mask option \<Rightarrow> nat set" where
  "first_take None = {}" | "first_take (Some m) = conditions m"

definition partition_inv :: "event_mask list \<Rightarrow> event_flags \<Rightarrow> event_mask list \<Rightarrow> event_mask option \<Rightarrow> bool" where
  "partition_inv ms f p q \<longleftrightarrow> (\<exists>made. ms = made @ p \<and> first_take q \<union> ef_pending_set f = all_conditions made \<and>
     (disjoint_masks ms \<longrightarrow> first_take q \<inter> ef_pending_set f = {}))"

lemma partition_inv_raise:
  assumes "partition_inv ms f p q" and "next_call raising_each p = Some m" and "raise_acc m r f f'"
  shows "partition_inv ms f' (after_access raising_each p r) q"
proof -
  from assms(1) obtain made where made: "ms = made @ p" "first_take q \<union> ef_pending_set f = all_conditions made"
    "disjoint_masks ms \<longrightarrow> first_take q \<inter> ef_pending_set f = {}" by (auto simp: partition_inv_def)
  from assms(2) obtain ps where p: "p = m # ps" by (cases p) (auto simp: raising_each_def)
  have "disjoint_masks ms \<longrightarrow> all_conditions made \<inter> conditions m = {}"
    by (auto simp: made(1) p disjoint_masks_def sorted_wrt_append all_conditions_def mask_intersects_iff)
  then have "disjoint_masks ms \<longrightarrow> first_take q \<inter> conditions m = {}" using made(2) by auto
  then show ?thesis using made assms(3)
    by (intro exI [of _ "made @ [m]"] iffD2 [OF partition_inv_def])
      (auto simp: p raising_each_def raise_acc_def conditions_raise all_conditions_def)
qed

lemma partition_inv_take:
  assumes "partition_inv ms f p q" and "next_call taking_once q = Some u" and "take_all_acc u r f f'"
  shows "partition_inv ms f' p (after_access taking_once q r)"
  using assms(1,2) take_all_pending [OF assms(3)]
  by (cases q) (auto simp: partition_inv_def taking_once_def)

interpretation partition: duo_invariant "partition_init ms" raise_acc take_all_acc raising_each taking_once "partition_inv ms" for ms
proof
  have "ef_pending_set ef_new = {}" by (simp add: ef_new_def conditions_def)
  then show "partition_inv ms f p q" if "partition_init ms (f, p, q)" for f p q
    using that by (auto simp: partition_init_def partition_inv_def all_conditions_def)
qed (auto intro: partition_inv_raise partition_inv_take)

text \<open>A second take, after both threads have ended, gets exactly what the first did not.\<close>

lemma partition_exact:
  assumes "reach (partition_init ms) partition_step (f, [], Some first)" and "ef_take_all f = (second, f')"
  shows "conditions (mask_bitor first second) = all_conditions ms \<and>
    (disjoint_masks ms \<longrightarrow> mask_is_empty (mask_bitand first second))"
  using partition.duo_reach_inv [OF assms(1) [unfolded partition_step_def]] assms(2)
  by (auto simp: partition_inv_def mask_is_empty_iff ef_take_all_def mask_from_bits_def)

section \<open>An observed raise publishes the payload\<close>

text \<open>
  The producer's first memory action stores the payload, Relaxed; the taking context may still load the old
  value while its view does not include that action.
\<close>

datatype publish_call = StorePayload | RaiseReady event_mask
datatype observe_call = TakeReady | LoadPayload
datatype observe_result = TookMask event_mask | Payload u32

definition PAYLOAD :: u32 where
  "PAYLOAD = 0xA5A55A5A"

definition publish_acc :: "publish_call \<Rightarrow> unit option \<Rightarrow> ef_view \<Rightarrow> ef_view \<Rightarrow> bool" where
  "publish_acc c r s s' \<longleftrightarrow> r = Some () \<and>
     efv_step (case c of StorePayload \<Rightarrow> Other_Action | RaiseReady m \<Rightarrow> Raised m) s s'"

definition observe_acc :: "observe_call \<Rightarrow> observe_result option \<Rightarrow> ef_view \<Rightarrow> ef_view \<Rightarrow> bool" where
  "observe_acc c r s s' \<longleftrightarrow> (case c of
      TakeReady \<Rightarrow> (\<exists>m. r = Some (TookMask m) \<and> efv_step (Took m) s s')
    | LoadPayload \<Rightarrow> s' = s \<and> (r = Some (Payload 0) \<and> taker_view s = 0 \<or> r = Some (Payload PAYLOAD) \<and> 0 < clock s))"

inductive_cases efv_stepE: "efv_step e s s'"

datatype publish_pc = ToStore | ToRaise | Published
datatype observe_pc = Spinning | Reading | ReadOk | ReadStale

definition publishing :: "event_mask \<Rightarrow> (publish_call, unit, publish_pc) thread" where
  "publishing ready = Thread
     (\<lambda>p. case p of ToStore \<Rightarrow> Some StorePayload | ToRaise \<Rightarrow> Some (RaiseReady ready) | Published \<Rightarrow> None)
     (\<lambda>p result. case p of ToStore \<Rightarrow> ToRaise | _ \<Rightarrow> Published)"

definition observing :: "event_mask \<Rightarrow> (observe_call, observe_result, observe_pc) thread" where
  "observing ready = Thread
     (\<lambda>q. case q of Spinning \<Rightarrow> Some TakeReady | Reading \<Rightarrow> Some LoadPayload | _ \<Rightarrow> None)
     (\<lambda>q result. case result of
        TookMask m \<Rightarrow> (if mask_contains m ready then Reading else Spinning)
      | Payload v \<Rightarrow> (if v = PAYLOAD then ReadOk else ReadStale))"

definition publish_init :: "ef_view \<times> publish_pc \<times> observe_pc \<Rightarrow> bool" where
  "publish_init x \<longleftrightarrow> efv_init (fst x) \<and> snd x = (ToStore, Spinning)"

definition publish_step :: "event_mask \<Rightarrow> ef_view \<times> publish_pc \<times> observe_pc \<Rightarrow> ef_view \<times> publish_pc \<times> observe_pc \<Rightarrow> bool" where
  "publish_step ready = duo_step publish_acc observe_acc (publishing ready) (observing ready)"

definition publish_inv :: "ef_view \<Rightarrow> publish_pc \<Rightarrow> observe_pc \<Rightarrow> bool" where
  "publish_inv s p q \<longleftrightarrow> (p = ToStore \<or> 0 < clock s) \<and> (ef_pending_set (fl s) \<noteq> {} \<longrightarrow> 0 < word_view s) \<and>
     (q = Reading \<longrightarrow> 0 < taker_view s) \<and> q \<noteq> ReadStale"

lemma publish_inv_publish:
  assumes inv: "publish_inv s p q" and call: "next_call (publishing ready) p = Some c" and acc: "publish_acc c r s s'"
  shows "publish_inv s' (after_access (publishing ready) p r) q"
proof -
  from acc have r: "r = Some ()" by (simp add: publish_acc_def)
  show ?thesis
  proof (cases p)
    case ToStore
    with call acc have "s' = s\<lparr>clock := Suc (clock s)\<rparr>" by (auto simp: publishing_def publish_acc_def elim: efv_stepE)
    with inv r ToStore show ?thesis by (simp add: publish_inv_def publishing_def)
  next
    case ToRaise
    with call acc have "s' = efv_raise s ready" by (auto simp: publishing_def publish_acc_def elim: efv_stepE)
    with inv r ToRaise show ?thesis by (simp add: publish_inv_def publishing_def efv_raise_exact less_max_iff_disj)
  qed (use call in \<open>simp add: publishing_def\<close>)
qed

lemma publish_inv_observe:
  assumes inv: "publish_inv s p q" and call: "next_call (observing ready) q = Some c" and acc: "observe_acc c r s s'"
    and ready: "conditions ready \<noteq> {}"
  shows "publish_inv s' p (after_access (observing ready) q r)"
proof (cases c)
  case TakeReady
  with acc obtain m where m: "r = Some (TookMask m)" "efv_take_all s = (m, s')"
    by (auto simp: observe_acc_def elim: efv_stepE)
  note took = efv_take_all_exact [OF m(2)]
  moreover have "0 < word_view s" if "mask_contains m ready"
    using that ready inv calculation(1) by (auto simp: publish_inv_def mask_contains_iff)
  ultimately show ?thesis using inv m(1) by (auto simp: publish_inv_def observing_def)
next
  case LoadPayload
  with call have "q = Reading" by (cases q) (auto simp: observing_def)
  with inv acc LoadPayload show ?thesis by (auto simp: publish_inv_def observing_def observe_acc_def)
qed

interpretation publish: duo_invariant publish_init publish_acc observe_acc "publishing ready" "observing ready"
  "\<lambda>s p q. conditions ready \<noteq> {} \<longrightarrow> publish_inv s p q" for ready
proof
  show "conditions ready \<noteq> {} \<longrightarrow> publish_inv s p q" if "publish_init (s, p, q)" for s p q
    using that by (auto simp: publish_init_def publish_inv_def efv_init_def ef_new_def conditions_def)
qed (auto intro: publish_inv_publish publish_inv_observe)

lemma payload_is_published:
  assumes "reach publish_init (publish_step ready) (s, p, q)" and "conditions ready \<noteq> {}"
  shows "q \<noteq> ReadStale"
  using publish.duo_reach_inv [OF assms(1) [unfolded publish_step_def]] assms(2) by (simp add: publish_inv_def)

end
