(* ===== verification/CountedSignal.thy ===== *)
theory CountedSignal
  imports Roles Transition
begin

unbundle bit_operations_syntax

text \<open>
  \<open>CountedSignal\<close> (\<open>src/counted_signal.rs\<close>): a count of payload-free events that saturates at
  \<open>u32::MAX\<close>. First the operations one at a time, then the interleaving of the producer's atomic
  accesses with the consumer's, where the producer's Relaxed load may return an old value.
\<close>

section \<open>Operations\<close>

record counted_signal =
  cs_count :: u32
  cs_producer_taken :: bool
  cs_consumer_taken :: bool

datatype cs_producer = CsProducer
datatype cs_consumer = CsConsumer

datatype count_snapshot = CountSnapshot (snap_count: u32)

definition cs_new :: counted_signal where
  "cs_new = \<lparr>cs_count = 0, cs_producer_taken = False, cs_consumer_taken = False\<rparr>"

definition cs_with_count_for_probe :: "u32 \<Rightarrow> counted_signal" where
  "cs_with_count_for_probe n = \<lparr>cs_count = n, cs_producer_taken = False, cs_consumer_taken = False\<rparr>"

definition cs_default :: counted_signal where
  "cs_default = cs_new"

definition cs_try_producer :: "counted_signal \<Rightarrow> cs_producer option \<times> counted_signal" where
  "cs_try_producer c =
     (let was_taken = cs_producer_taken c; c' = c\<lparr>cs_producer_taken := True\<rparr>
      in if was_taken then (None, c') else (Some CsProducer, c'))"

definition cs_try_consumer :: "counted_signal \<Rightarrow> cs_consumer option \<times> counted_signal" where
  "cs_try_consumer c =
     (let was_taken = cs_consumer_taken c; c' = c\<lparr>cs_consumer_taken := True\<rparr>
      in if was_taken then (None, c') else (Some CsConsumer, c'))"

definition cs_drop_producer :: "counted_signal \<Rightarrow> counted_signal" where
  "cs_drop_producer c = c\<lparr>cs_producer_taken := False\<rparr>"

definition cs_drop_consumer :: "counted_signal \<Rightarrow> counted_signal" where
  "cs_drop_consumer c = c\<lparr>cs_consumer_taken := False\<rparr>"

text \<open>The atomic read-modify-writes return the value before the write.\<close>

definition cs_fetch_or :: "counted_signal \<Rightarrow> u32 \<Rightarrow> u32 \<times> counted_signal" where
  "cs_fetch_or c x = (cs_count c, c\<lparr>cs_count := cs_count c OR x\<rparr>)"

definition cs_fetch_add :: "counted_signal \<Rightarrow> u32 \<Rightarrow> u32 \<times> counted_signal" where
  "cs_fetch_add c x = (cs_count c, c\<lparr>cs_count := cs_count c + x\<rparr>)"

definition cs_increment :: "counted_signal \<Rightarrow> counted_signal" where
  "cs_increment c =
     (let observed = cs_count c in
      if observed = u32_MAX then
        (let (reread, c1) = cs_fetch_or c 0
         in if reread = u32_MAX then c1 else snd (cs_fetch_add c1 1))
      else snd (cs_fetch_add c 1))"

definition snap_from_raw :: "u32 \<Rightarrow> count_snapshot" where
  "snap_from_raw raw = CountSnapshot raw"

definition snap_count_of :: "count_snapshot \<Rightarrow> u32" where
  "snap_count_of s = snap_count s"

definition snap_is_saturated :: "count_snapshot \<Rightarrow> bool" where
  "snap_is_saturated s \<longleftrightarrow> snap_count s = u32_MAX"

definition cs_take_count :: "counted_signal \<Rightarrow> count_snapshot \<times> counted_signal" where
  "cs_take_count c = (snap_from_raw (cs_count c), c\<lparr>cs_count := 0\<rparr>)"

interpretation cs_prod: role cs_try_producer cs_drop_producer cs_producer_taken
  "\<lambda>c. c\<lparr>cs_producer_taken := False\<rparr>"
  by unfold_locales (auto simp: cs_try_producer_def cs_drop_producer_def)

interpretation cs_cons: role cs_try_consumer cs_drop_consumer cs_consumer_taken
  "\<lambda>c. c\<lparr>cs_consumer_taken := False\<rparr>"
  by unfold_locales (auto simp: cs_try_consumer_def cs_drop_consumer_def)

section \<open>Exact below the sentinel, saturated at it\<close>

text \<open>The count of \<open>n\<close> increments.\<close>

definition saturated :: "nat \<Rightarrow> u32" where
  "saturated n = of_nat (min n (2 ^ 32 - 1))"

lemma unat_saturated: "unat (saturated n) = min n (2 ^ 32 - 1)"
  unfolding saturated_def by (rule unat_of_nat_u32_small) simp

lemma saturated_0 [simp]: "saturated 0 = 0"
  by (simp add: saturated_def)

lemma saturated_MAX_iff: "saturated n = u32_MAX \<longleftrightarrow> 2 ^ 32 - 1 \<le> n"
  using unat_saturated [of n] by (auto simp: word_unat_eq_iff min_def)

lemma saturated_Suc: "saturated (Suc n) = (if saturated n = u32_MAX then u32_MAX else saturated n + 1)"
proof (cases "2 ^ 32 - 1 \<le> n")
  case True
  then have "2 ^ 32 - 1 \<le> Suc n" by linarith
  with True show ?thesis using saturated_MAX_iff by simp
next
  case False
  then have "min (Suc n) (2 ^ 32 - 1) = Suc n" "min n (2 ^ 32 - 1) = n" by linarith+
  moreover from False have "saturated n \<noteq> u32_MAX" by (simp add: saturated_MAX_iff)
  ultimately show ?thesis by (simp add: saturated_def)
qed

lemma cs_increment_count:
  "cs_count (cs_increment c) = (if cs_count c = u32_MAX then u32_MAX else cs_count c + 1)"
  by (simp add: cs_increment_def cs_fetch_or_def cs_fetch_add_def Let_def)

lemma cs_increment_saturated:
  "cs_count c = saturated n \<Longrightarrow> cs_count (cs_increment c) = saturated (Suc n)"
  by (simp add: cs_increment_count saturated_Suc)

text \<open>Runs: each take returns the saturated number of increments since the preceding take.\<close>

datatype cs_op = Increment | TakeCount

fun cs_run :: "counted_signal \<Rightarrow> cs_op list \<Rightarrow> count_snapshot list \<times> counted_signal" where
  "cs_run c [] = ([], c)"
| "cs_run c (Increment # ops) = cs_run (cs_increment c) ops"
| "cs_run c (TakeCount # ops) =
     (let (s, c') = cs_take_count c; (ss, c'') = cs_run c' ops in (s # ss, c''))"

fun count_spec :: "nat \<Rightarrow> cs_op list \<Rightarrow> nat list \<times> nat" where
  "count_spec n [] = ([], n)"
| "count_spec n (Increment # ops) = count_spec (Suc n) ops"
| "count_spec n (TakeCount # ops) = (let (ns, m) = count_spec 0 ops in (n # ns, m))"

lemma cs_run_refines:
  assumes "cs_count c = saturated n"
  shows "map snap_count (fst (cs_run c ops)) = map saturated (fst (count_spec n ops)) \<and>
    cs_count (snd (cs_run c ops)) = saturated (snd (count_spec n ops))"
  using assms
proof (induction c ops arbitrary: n rule: cs_run.induct)
  case (2 c ops)
  then show ?case using cs_increment_saturated by simp
next
  case (3 c ops)
  let ?c = "c\<lparr>cs_count := 0\<rparr>"
  have take: "cs_take_count c = (CountSnapshot (saturated n), ?c)"
    using "3.prems" by (simp add: cs_take_count_def snap_from_raw_def)
  have "cs_count ?c = saturated 0" by simp
  from "3.IH" [OF take [symmetric] refl, unfolded snd_conv, OF this]
  show ?case by (simp add: take split_beta Let_def)
qed simp

text \<open>Nothing is lost while no epoch saturates: the takes and the rest add up to the increments.\<close>

lemma count_spec_total:
  "n + length (filter (\<lambda>op. op = Increment) ops) = sum_list (fst (count_spec n ops)) + snd (count_spec n ops)"
  by (induction n ops rule: count_spec.induct) (auto simp: split_beta Let_def)

section \<open>The producer against the consumer, access by access\<close>

text \<open>
  The shared word has a modification order \<open>mo\<close>, the list of all values written to it, newest last. A
  read-modify-write reads the newest and appends; a Relaxed load of the producer may return any value
  from the last one it has seen (position \<open>seen\<close>) on. The producer is at one of the program points of
  \<open>increment\<close>. The ghost \<open>since\<close> counts the increments that have taken effect since the last take.
\<close>

datatype inc_pc = IncIdle | IncLoaded u32 | IncAdd

record inc_state =
  mo :: "u32 list"
  seen :: nat
  pc :: inc_pc
  since :: nat
  takes :: "(u32 \<times> nat) list"

inductive inc_access :: "unit option \<Rightarrow> inc_state \<Rightarrow> inc_state \<Rightarrow> bool" where
  load: "pc s = IncIdle \<Longrightarrow> seen s \<le> k \<Longrightarrow> k < length (mo s) \<Longrightarrow>
    inc_access None s (s\<lparr>seen := k, pc := (if mo s ! k = u32_MAX then IncLoaded (mo s ! k) else IncAdd)\<rparr>)"
| reread_skip: "pc s = IncLoaded v \<Longrightarrow> last (mo s) = u32_MAX \<Longrightarrow>
    inc_access (Some ()) s (s\<lparr>mo := mo s @ [last (mo s) OR 0], seen := length (mo s), pc := IncIdle, since := Suc (since s)\<rparr>)"
| reread_add: "pc s = IncLoaded v \<Longrightarrow> last (mo s) \<noteq> u32_MAX \<Longrightarrow>
    inc_access None s (s\<lparr>mo := mo s @ [last (mo s) OR 0], seen := length (mo s), pc := IncAdd\<rparr>)"
| add: "pc s = IncAdd \<Longrightarrow>
    inc_access (Some ()) s (s\<lparr>mo := mo s @ [last (mo s) + 1], seen := length (mo s), pc := IncIdle, since := Suc (since s)\<rparr>)"

inductive take_access :: "u32 option \<Rightarrow> inc_state \<Rightarrow> inc_state \<Rightarrow> bool" where
  take: "take_access (Some (last (mo s))) s (s\<lparr>mo := mo s @ [0], since := 0, takes := takes s @ [(last (mo s), since s)]\<rparr>)"

inductive inc_step :: "inc_state \<Rightarrow> inc_state \<Rightarrow> bool" where
  increment: "inc_access r s s' \<Longrightarrow> inc_step s s'"
| take_count: "take_access r s s' \<Longrightarrow> inc_step s s'"

inductive_cases inc_accessE: "inc_access r s s'"
inductive_cases take_accessE: "take_access r s s'"
inductive_cases inc_stepE: "inc_step s s'"

definition inc_init :: inc_state where
  "inc_init = \<lparr>mo = [0], seen = 0, pc = IncIdle, since = 0, takes = []\<rparr>"

abbreviation inc_reachable :: "inc_state \<Rightarrow> bool" where
  "inc_reachable \<equiv> reach (\<lambda>s. s = inc_init) inc_step"

text \<open>
  After the producer's last access only zeroes were written, the newest value is the saturated number
  of increments, and a producer about to add has seen that the word is not at the sentinel.
\<close>

definition inc_inv :: "inc_state \<Rightarrow> bool" where
  "inc_inv s \<longleftrightarrow> seen s < length (mo s) \<and>
     (\<forall>k. seen s < k \<and> k < length (mo s) \<longrightarrow> mo s ! k = 0) \<and>
     last (mo s) = saturated (since s) \<and>
     (pc s = IncAdd \<longrightarrow> last (mo s) \<noteq> u32_MAX) \<and>
     (\<forall>(v, n) \<in> set (takes s). v = saturated n)"

lemma inc_inv_init: "inc_inv inc_init"
  by (simp add: inc_inv_def inc_init_def)

lemma last_seen:
  assumes "seen s < length (mo s)" and "\<forall>k. seen s < k \<and> k < length (mo s) \<longrightarrow> mo s ! k = 0"
    and "seen s \<le> k" and "k < length (mo s)"
  shows "last (mo s) = mo s ! k \<or> last (mo s) = 0"
proof (cases "k = length (mo s) - 1")
  case True
  with assms(4) show ?thesis by (cases "mo s") (auto simp: last_conv_nth)
next
  case False
  then have "seen s < length (mo s) - 1" using assms(3,4) by linarith
  then show ?thesis using assms(2) by (cases "mo s = []") (auto simp: last_conv_nth)
qed

lemma inc_inv_increment:
  assumes step: "inc_access r s s'" and inv: "inc_inv s"
  shows "inc_inv s'"
  using step
proof cases
  case (load k)
  have "last (mo s) = mo s ! k \<or> last (mo s) = 0"
    using last_seen [of s k] inv load by (simp add: inc_inv_def)
  then show ?thesis using inv load by (auto simp: inc_inv_def)
qed (use inv in \<open>auto simp: inc_inv_def saturated_Suc nth_append\<close>)

lemma inc_inv_take: "take_access r s s' \<Longrightarrow> inc_inv s \<Longrightarrow> inc_inv s'"
  by (erule take_accessE) (auto simp: inc_inv_def nth_append)

lemma inc_inv_step: "inc_inv s \<Longrightarrow> inc_step s s' \<Longrightarrow> inc_inv s'"
  by (erule inc_stepE) (auto intro: inc_inv_increment inc_inv_take)

interpretation inc: inductive_invariant "\<lambda>s. s = inc_init" inc_step inc_inv
  by unfold_locales (auto intro: inc_inv_init inc_inv_step)

text \<open>
  The producer's addition never wraps the word, every take returns the saturated number of increments
  since the preceding one, however stale the loads were, and an increment is at most three accesses.
\<close>

lemma inc_never_wraps:
  assumes "inc_reachable s" and "inc_step s s'" and "pc s = IncAdd" and "pc s' = IncIdle"
  shows "unat (last (mo s')) = unat (last (mo s)) + 1"
proof -
  have "last (mo s) \<noteq> u32_MAX" using inc.reach_inv [OF assms(1)] assms(3) unfolding inc_inv_def by blast
  then have "unat (last (mo s) + 1) = unat (last (mo s)) + 1"
    using unatSuc [of "last (mo s)"] by (simp add: eq_neg_iff_add_eq_0 add.commute)
  with assms(2-4) show ?thesis by (auto elim!: inc_stepE inc_accessE take_accessE)
qed

lemma inc_takes_exact:
  assumes "inc_reachable s" and "(v, n) \<in> set (takes s)"
  shows "unat v = min n (2 ^ 32 - 1)"
  using inc.reach_inv [OF assms(1)] assms(2) by (auto simp: inc_inv_def unat_saturated)

fun inc_remaining :: "inc_pc \<Rightarrow> nat" where
  "inc_remaining IncIdle = 0"
| "inc_remaining (IncLoaded v) = 2"
| "inc_remaining IncAdd = 1"

lemma inc_bounded:
  assumes "inc_step s s'"
  shows "takes s' \<noteq> takes s \<and> pc s' = pc s \<or> pc s = IncIdle \<and> inc_remaining (pc s') \<le> 2
    \<or> inc_remaining (pc s') < inc_remaining (pc s)"
  using assms by (auto elim!: inc_stepE inc_accessE take_accessE)

text \<open>One increment, access by access, and the take that returns it.\<close>

lemma inc_one_take: "inc_reachable \<lparr>mo = [0, 1, 0], seen = 1, pc = IncIdle, since = 0, takes = [(1, 1)]\<rparr>"
proof -
  let ?s1 = "inc_init\<lparr>pc := IncAdd\<rparr>"
  let ?s2 = "inc_init\<lparr>mo := [0, 1], seen := 1, since := 1\<rparr>"
  have t1: "inc_step inc_init ?s1" using increment [OF inc_access.load [of inc_init 0]] by (simp add: inc_init_def)
  have t2: "inc_step ?s1 ?s2" using increment [OF inc_access.add [of ?s1]] by (simp add: inc_init_def)
  have t3: "inc_step ?s2 \<lparr>mo = [0, 1, 0], seen = 1, pc = IncIdle, since = 0, takes = [(1, 1)]\<rparr>"
    using take_count [OF take_access.take [of ?s2]] by (simp add: inc_init_def)
  have "inc_reachable inc_init" by (rule start) simp
  from move [OF move [OF move [OF this t1] t2] t3] show ?thesis .
qed

text \<open>The operations, for symbolic execution on concrete states.\<close>

lemmas cs_op_defs [op_defs] = cs_new_def cs_try_producer_def cs_try_consumer_def
  cs_drop_producer_def cs_drop_consumer_def cs_increment_def cs_fetch_or_def cs_fetch_add_def
  cs_take_count_def snap_from_raw_def snap_count_of_def snap_is_saturated_def

end
