(* ===== verification/CountedSignal_Threads.thy ===== *)
theory CountedSignal_Threads
  imports CountedSignal Stress
begin

text \<open>
  The threaded tests of the counter as programs (\<open>Stress\<close>): one thread increments a number of times and then stores a
  flag, the other adds up what it takes until it has seen the flag, and takes once more; the model-checked
  variants with a bounded number of takes from a seeded count; and the one in which the increment waits for
  the take.
\<close>

definition increment_acc :: "unit \<Rightarrow> unit option \<Rightarrow> inc_state \<Rightarrow> inc_state \<Rightarrow> bool" where
  "increment_acc u = inc_access"

definition take_acc :: "unit \<Rightarrow> u32 option \<Rightarrow> inc_state \<Rightarrow> inc_state \<Rightarrow> bool" where
  "take_acc u = take_access"

text \<open>\<open>with_count_for_model\<close> starts an epoch at a given count.\<close>

definition inc_seeded :: "u32 \<Rightarrow> inc_state" where
  "inc_seeded n = inc_init\<lparr>mo := [n], since := unat n\<rparr>"

definition taken :: "inc_state \<Rightarrow> nat" where
  "taken s = sum_list (map snd (takes s))"

lemma inc_inv_seeded: "inc_inv (inc_seeded n)" "taken (inc_seeded n) = 0" "since (inc_seeded n) = unat n"
proof -
  have "saturated (unat n) = n"
    using unat_u32_less [of n] by (simp add: word_unat_eq_iff unat_saturated)
  then show "inc_inv (inc_seeded n)" "taken (inc_seeded n) = 0" "since (inc_seeded n) = unat n"
    by (auto simp: inc_inv_def inc_seeded_def inc_init_def taken_def)
qed

lemma increment_ledger:
  "increment_acc u r s s' \<Longrightarrow> inc_inv s \<Longrightarrow> inc_inv s' \<and> taken s' = taken s \<and>
    since s' = (if r = None then since s else Suc (since s)) \<and> (r \<noteq> None \<longrightarrow> pc s' = IncIdle)"
  using inc_inv_increment [of r s s'] by (auto simp: increment_acc_def taken_def elim: inc_access.cases)

lemma take_ledger:
  "take_acc u r s s' \<Longrightarrow> inc_inv s \<Longrightarrow> inc_inv s' \<and> taken s' = taken s + since s \<and> since s' = 0 \<and>
    r = Some (saturated (since s)) \<and> pc s' = pc s"
  using inc_inv_take [of r s s'] by (auto simp: take_acc_def taken_def inc_inv_def elim!: take_access.cases)

text \<open>Each call can run to its end alone.\<close>

lemma take_runs: "runs (take_acc u) s (last (mo s)) (s\<lparr>mo := mo s @ [0], since := 0, takes := takes s @ [(last (mo s), since s)]\<rparr>)"
  by (rule runs.returns) (simp add: take_acc_def take_access.take)

lemma increment_runs:
  assumes inv: "inc_inv s"
  shows "\<exists>s'. runs (increment_acc u) s () s'"
proof -
  have adds: "\<exists>s'. runs (increment_acc u) t () s'" if "pc t = IncAdd" for t
    using inc_access.add [OF that] by (auto simp: increment_acc_def intro: runs.returns)
  have rereads: "\<exists>s'. runs (increment_acc u) t () s'" if c: "pc t = IncLoaded v" for t v
  proof (cases "last (mo t) = u32_MAX")
    case True
    from inc_access.reread_skip [OF c this] show ?thesis by (auto simp: increment_acc_def intro: runs.returns)
  next
    case False
    let ?t = "t\<lparr>mo := mo t @ [last (mo t) OR 0], seen := length (mo t), pc := IncAdd\<rparr>"
    have "increment_acc u None t ?t"
      using inc_access.reread_add [OF c False] by (simp only: increment_acc_def)
    moreover obtain t' where "runs (increment_acc u) ?t () t'" using adds by force
    ultimately show ?thesis by (auto intro: runs.access)
  qed
  show ?thesis
  proof (cases "pc s")
    case IncIdle
    let ?s = "s\<lparr>seen := seen s, pc := (if mo s ! seen s = u32_MAX then IncLoaded (mo s ! seen s) else IncAdd)\<rparr>"
    have "seen s < length (mo s)" using inv by (simp add: inc_inv_def)
    then have "increment_acc u None s ?s"
      by (simp only: increment_acc_def inc_access.load [OF IncIdle order_refl])
    moreover obtain t' where "runs (increment_acc u) ?s () t'"
      using adds [of ?s] rereads [of ?s "mo s ! seen s"] by (cases "mo s ! seen s = u32_MAX") auto
    ultimately show ?thesis by (auto intro: runs.access)
  qed (use adds rereads in blast)+
qed

lemma ucast_saturated:
  assumes "n < 2 ^ 32"
  shows "(ucast (saturated n) :: 64 word) = of_nat n"
proof -
  from assms have "(of_nat (unat (saturated n)) :: 64 word) = of_nat n" by (simp add: unat_saturated)
  then show ?thesis by simp
qed

section \<open>Takes until the producer is done\<close>

definition add_count :: "64 word \<Rightarrow> u32 \<Rightarrow> 64 word" where
  "add_count so_far count = so_far + ucast count"

definition cs_stress_init :: "u32 \<Rightarrow> (inc_state \<times> bool) \<times> loop_pc \<times> 64 word poll_pc \<Rightarrow> bool" where
  "cs_stress_init n = stress_init inc_init n 0"

definition cs_stress_step :: "u32 \<Rightarrow> (inc_state \<times> bool) \<times> loop_pc \<times> 64 word poll_pc \<Rightarrow> (inc_state \<times> bool) \<times> loop_pc \<times> 64 word poll_pc \<Rightarrow> bool" where
  "cs_stress_step n = stress_step increment_acc () take_acc () add_count n"

text \<open>
  The increments made so far are the ones taken and the ones since the last take; the taking thread's sum is
  what was taken. No epoch can saturate, because fewer than \<open>2 ^ 32\<close> increments are made in all.
\<close>

definition cs_stress_inv :: "nat \<Rightarrow> inc_state \<Rightarrow> 64 word \<Rightarrow> bool" where
  "cs_stress_inv k s so_far \<longleftrightarrow> inc_inv s \<and> taken s + since s = k \<and> so_far = of_nat (taken s)"

interpretation cs_stress: stress_test increment_acc "()" take_acc "()" add_count n inc_init 0 cs_stress_inv "\<lambda>s. since s = 0" for n
proof
  show "cs_stress_inv 0 inc_init 0"
    using inc_inv_init by (simp add: cs_stress_inv_def inc_init_def taken_def)
  show "cs_stress_inv (if r = None then k else Suc k) s' a"
    if "cs_stress_inv k s a" "increment_acc () r s s'" for k s a r s'
    using that increment_ledger [OF that(2)] by (auto simp: cs_stress_inv_def)
  show "cs_stress_inv k s' a" if "cs_stress_inv k s a" "take_acc () None s s'" for k s a s'
    using that take_ledger [OF that(2)] by (simp add: cs_stress_inv_def)
  show "cs_stress_inv k s' (add_count a u) \<and> since s' = 0"
    if "cs_stress_inv k s a" "k \<le> unat n" "take_acc () (Some u) s s'" for k s a u s'
  proof -
    have "since s < 2 ^ 32" using that(1,2) unat_u32_less [of n] by (simp add: cs_stress_inv_def)
    from ucast_saturated [OF this] that(1) take_ledger [OF that(3)] show ?thesis
      by (auto simp: cs_stress_inv_def add_count_def)
  qed
  show "\<exists>r s'. runs (increment_acc ()) s r s'" if "cs_stress_inv k s a" for k s a
    using increment_runs that by (auto simp: cs_stress_inv_def)
qed (use take_runs in blast)

text \<open>The test's assertion: when both threads have ended, the sum is the number of increments.\<close>

lemma stress_total:
  assumes "reach (cs_stress_init n) (cs_stress_step n) (x, p, PollEnd so_far)"
  shows "so_far = ucast n"
  using cs_stress.stress_result [of n "fst x" "snd x" p so_far] assms
  by (auto simp: cs_stress_init_def cs_stress_step_def cs_stress_inv_def)

lemma stress_ends:
  assumes "reach (cs_stress_init n) (cs_stress_step n) x"
  shows "\<exists>y so_far. (cs_stress_step n)\<^sup>*\<^sup>* x y \<and> snd y = (LoopEnd, PollEnd so_far)"
  using cs_stress.stress_can_end assms by (simp add: cs_stress_init_def cs_stress_step_def)

section \<open>The model-checked variants\<close>

text \<open>\<open>m\<close> increments against \<open>k\<close> takes from a given count; the test takes once more after joining both.\<close>

definition model_incrementing :: "(unit, unit, nat) thread" where
  "model_incrementing = Thread (\<lambda>p. case p of 0 \<Rightarrow> None | Suc _ \<Rightarrow> Some ()) (\<lambda>p result. p - 1)"

definition model_taking :: "(unit, u32, nat \<times> 64 word) thread" where
  "model_taking = Thread (\<lambda>(k, so_far). case k of 0 \<Rightarrow> None | Suc _ \<Rightarrow> Some ()) (\<lambda>(k, so_far) count. (k - 1, so_far + ucast count))"

definition model_init :: "u32 \<Rightarrow> nat \<Rightarrow> nat \<Rightarrow> inc_state \<times> nat \<times> (nat \<times> 64 word) \<Rightarrow> bool" where
  "model_init seed m k x \<longleftrightarrow> x = (inc_seeded seed, m, (k, 0))"

definition model_inv :: "u32 \<Rightarrow> nat \<Rightarrow> inc_state \<Rightarrow> nat \<Rightarrow> nat \<times> 64 word \<Rightarrow> bool" where
  "model_inv seed m s p q \<longleftrightarrow> inc_inv s \<and> taken s + since s + p = unat seed + m \<and> snd q = of_nat (taken s)"

definition model_step :: "inc_state \<times> nat \<times> (nat \<times> 64 word) \<Rightarrow> inc_state \<times> nat \<times> (nat \<times> 64 word) \<Rightarrow> bool" where
  "model_step = duo_step increment_acc take_acc model_incrementing model_taking"

lemma model_inv_take:
  assumes inv: "model_inv seed m s p q" and small: "unat seed + m < 2 ^ 32" and acc: "take_acc u r s s'"
  shows "model_inv seed m s' p (after_access model_taking q r)"
proof -
  have "since s < 2 ^ 32" using inv small by (simp add: model_inv_def)
  from ucast_saturated [OF this] inv take_ledger [OF acc] show ?thesis
    by (cases q) (auto simp: model_inv_def model_taking_def)
qed

lemma model_inv_increment:
  assumes "model_inv seed m s p q" and "next_call model_incrementing p = Some u" and "increment_acc u r s s'"
  shows "model_inv seed m s' (after_access model_incrementing p r) q"
  using assms increment_ledger [OF assms(3)]
  by (cases p; cases r) (auto simp: model_inv_def model_incrementing_def)

interpretation model: duo_invariant "\<lambda>x. model_init seed m k x \<and> unat seed + m < 2 ^ 32" increment_acc take_acc model_incrementing
  model_taking "\<lambda>s p q. model_inv seed m s p q \<and> unat seed + m < 2 ^ 32" for seed m k
  by unfold_locales
    (auto simp: model_init_def model_inv_def [of _ _ "inc_seeded _"] inc_inv_seeded intro: model_inv_take model_inv_increment)

lemma model_partitions:
  assumes "reach (model_init seed m k) model_step (s, 0, (0, early))" and small: "unat seed + m < 2 ^ 32"
  shows "early + ucast (last (mo s)) = of_nat (unat seed + m)"
proof -
  have "model_init seed m k = (\<lambda>x. model_init seed m k x \<and> unat seed + m < 2 ^ 32)" using small by auto
  with model.duo_reach_inv [of seed m k s 0 "(0, early)"] assms(1) have
    inv: "inc_inv s" "taken s + since s = unat seed + m" "early = of_nat (taken s)"
    by (auto simp: model_step_def model_inv_def)
  then have "last (mo s) = saturated (since s)" "since s < 2 ^ 32" using small by (simp_all add: inc_inv_def)
  with ucast_saturated [of "since s"] inv(2,3) show ?thesis by (metis of_nat_add)
qed

text \<open>
  The increment starts once a Relaxed gate is seen that the taking thread opens after its take. The gate gives
  no visibility, so the increment's first load may still be stale; nothing is lost all the same.
\<close>

datatype gated_pc = Waiting | Entered | Incremented
datatype gate_pc = Taking | Opening u32 | Opened u32

definition gated_increment :: "(unit flag_call, unit flag_result, gated_pc) thread" where
  "gated_increment = Thread
     (\<lambda>p. case p of Waiting \<Rightarrow> Some Load_Flag | Entered \<Rightarrow> Some (Work ()) | Incremented \<Rightarrow> None)
     (\<lambda>p result. case p of Waiting \<Rightarrow> (if result = Loaded True then Entered else Waiting) | _ \<Rightarrow> Incremented)"

definition gate_opener :: "(unit flag_call, u32 flag_result, gate_pc) thread" where
  "gate_opener = Thread
     (\<lambda>q. case q of Taking \<Rightarrow> Some (Work ()) | Opening early \<Rightarrow> Some Store_True | Opened early \<Rightarrow> None)
     (\<lambda>q result. case q of
        Taking \<Rightarrow> (case result of Worked early \<Rightarrow> Opening early | _ \<Rightarrow> Taking)
      | Opening early \<Rightarrow> Opened early
      | Opened early \<Rightarrow> q)"

definition gate_init :: "u32 \<Rightarrow> (inc_state \<times> bool) \<times> gated_pc \<times> gate_pc \<Rightarrow> bool" where
  "gate_init seed x \<longleftrightarrow> x = ((inc_seeded seed, False), Waiting, Taking)"

definition gate_step :: "(inc_state \<times> bool) \<times> gated_pc \<times> gate_pc \<Rightarrow> (inc_state \<times> bool) \<times> gated_pc \<times> gate_pc \<Rightarrow> bool" where
  "gate_step = duo_step (flagged increment_acc id) (flagged take_acc id) gated_increment gate_opener"

definition gate_inv :: "u32 \<Rightarrow> inc_state \<times> bool \<Rightarrow> gated_pc \<Rightarrow> gate_pc \<Rightarrow> bool" where
  "gate_inv seed x p q \<longleftrightarrow> inc_inv (fst x) \<and> (snd x \<longleftrightarrow> (\<exists>early. q = Opened early)) \<and> (\<not> snd x \<longrightarrow> p = Waiting) \<and>
     (case q of Taking \<Rightarrow> since (fst x) = unat seed
      | Opening early \<Rightarrow> early = seed \<and> since (fst x) = 0
      | Opened early \<Rightarrow> early = seed \<and> since (fst x) = (if p = Incremented then 1 else 0))"

lemma gate_inv_left:
  assumes "gate_inv seed x p q" and "next_call gated_increment p = Some c" and "flagged increment_acc id c r x y"
  shows "gate_inv seed y (after_access gated_increment p r) q"
proof (cases p)
  case Entered
  then have "c = Work ()" using assms(2) by (simp add: gated_increment_def)
  with assms(3) obtain s s' f r0 where acc: "r = map_option Worked r0" "x = (s, f)" "y = (s', f)" "increment_acc () r0 s s'"
    by (auto simp: flagged_simps)
  with assms(1) Entered increment_ledger [OF acc(4)] show ?thesis
    by (cases r0; cases q) (auto simp: gate_inv_def gated_increment_def)
qed (use assms in \<open>cases q; auto simp: gate_inv_def gated_increment_def flagged_simps\<close>)+

lemma gate_inv_right:
  assumes "gate_inv seed x p q" and "next_call gate_opener q = Some c" and "flagged take_acc id c r x y"
  shows "gate_inv seed y p (after_access gate_opener q r)"
proof (cases q)
  case Taking
  then have "c = Work ()" using assms(2) by (simp add: gate_opener_def)
  with assms(3) obtain s s' f r0 where acc: "r = map_option Worked r0" "x = (s, f)" "y = (s', f)" "take_acc () r0 s s'"
    by (auto simp: flagged_simps)
  moreover have "saturated (unat seed) = seed"
    using inc_inv_seeded(1) [of seed] by (simp add: inc_inv_def inc_seeded_def)
  ultimately show ?thesis using assms(1) Taking take_ledger [OF acc(4)]
    by (auto simp: gate_inv_def gate_opener_def)
qed (use assms in \<open>auto simp: gate_inv_def gate_opener_def flagged_simps\<close>)

interpretation gate: duo_invariant "gate_init seed" "flagged increment_acc id" "flagged take_acc id"
  gated_increment gate_opener "gate_inv seed" for seed
  by unfold_locales (auto simp: gate_init_def gate_inv_def [of _ "(inc_seeded _, _)"] inc_inv_seeded intro: gate_inv_left gate_inv_right)

lemma gate_observes_reset:
  assumes "reach (gate_init seed) gate_step ((s, f), Incremented, Opened early)"
  shows "early = seed \<and> last (mo s) = 1"
proof -
  have "inc_inv s \<and> early = seed \<and> since s = 1"
    using gate.duo_reach_inv [OF assms [unfolded gate_step_def]] by (simp add: gate_inv_def)
  then show ?thesis by (simp add: inc_inv_def saturated_def)
qed

end
