(* ===== verification/Bringup.thy ===== *)
theory Bringup
  imports EventBuf SeqRing
begin

text \<open>
  \<open>static_spsc!\<close> (\<open>src/macros.rs\<close>): the module it generates has a \<open>static\<close> buffer and a \<open>take()\<close> of
  both handles that is all-or-nothing. The two arms of the macro differ only in the buffer type; the
  contract of a pair of roles is the locale \<open>spsc\<close>, interpreted on both.
\<close>

definition static_take ::
  "('s \<Rightarrow> 'p option \<times> 's) \<Rightarrow> ('s \<Rightarrow> 'c option \<times> 's) \<Rightarrow> ('s \<Rightarrow> 's) \<Rightarrow> 's \<Rightarrow> ('p \<times> 'c) option \<times> 's" where
  "static_take try_producer try_consumer drop_producer s =
     (case try_producer s of
        (None, s1) \<Rightarrow> (None, s1)
      | (Some tx, s1) \<Rightarrow>
          (case try_consumer s1 of
             (Some rx, s2) \<Rightarrow> (Some (tx, rx), s2)
           | (None, s2) \<Rightarrow> (None, drop_producer s2)))"

definition eb_static_take :: "'a event_buf \<Rightarrow> (eb_producer \<times> eb_consumer) option \<times> 'a event_buf" where
  "eb_static_take b = static_take eb_try_producer eb_try_consumer eb_drop_producer b"

definition sr_static_take :: "'a seq_ring \<Rightarrow> (sr_producer \<times> sr_consumer) option \<times> 'a seq_ring" where
  "sr_static_take r = static_take sr_try_producer sr_try_consumer sr_drop_producer r"

locale spsc =
  P: role try_producer drop_producer producer_taken prest +
  C: role try_consumer drop_consumer consumer_taken crest
  for try_producer :: "'s \<Rightarrow> 'p option \<times> 's" and drop_producer :: "'s \<Rightarrow> 's"
    and producer_taken :: "'s \<Rightarrow> bool" and prest :: "'s \<Rightarrow> 's"
    and try_consumer :: "'s \<Rightarrow> 'c option \<times> 's" and drop_consumer :: "'s \<Rightarrow> 's"
    and consumer_taken :: "'s \<Rightarrow> bool" and crest :: "'s \<Rightarrow> 's" +
  assumes producer_keeps: "consumer_taken s = consumer_taken (prest s)"
    and consumer_keeps: "producer_taken s = producer_taken (crest s)"
    and producer_undo: "\<not> producer_taken s \<Longrightarrow> drop_producer (snd (try_producer s)) = s"
begin

abbreviation take_both :: "'s \<Rightarrow> ('p \<times> 'c) option \<times> 's" where
  "take_both s \<equiv> static_take try_producer try_consumer drop_producer s"

lemma take_iff: "fst (take_both s) \<noteq> None \<longleftrightarrow> \<not> producer_taken s \<and> \<not> consumer_taken s"
proof (cases "producer_taken s")
  case True
  then show ?thesis by (simp add: static_take_def P.acq_taken)
next
  case False
  then obtain h s1 where s1: "try_producer s = (Some h, s1)" "prest s1 = prest s" using P.acq_free by blast
  then have "consumer_taken s1 = consumer_taken s" using producer_keeps by metis
  then show ?thesis using False s1 C.acq_taken [of s1] C.acq_free [of s1]
    by (cases "consumer_taken s1") (auto simp: static_take_def)
qed

text \<open>All or nothing: a failed take leaves the state as it was.\<close>

lemma take_fails_unchanged:
  assumes "fst (take_both s) = None"
  shows "take_both s = (None, s)"
proof (cases "producer_taken s")
  case True
  then show ?thesis by (simp add: static_take_def P.acq_taken)
next
  case False
  then obtain h s1 where s1: "try_producer s = (Some h, s1)" "prest s1 = prest s" using P.acq_free by blast
  then have "consumer_taken s1 = consumer_taken s" using producer_keeps by metis
  moreover have "consumer_taken s" using take_iff [of s] False assms by blast
  moreover have "drop_producer s1 = s" using producer_undo [OF False] s1(1) by simp
  ultimately show ?thesis using s1(1) by (simp add: static_take_def C.acq_taken)
qed

lemma take_claims:
  assumes "fst (take_both s) \<noteq> None"
  shows "producer_taken (snd (take_both s)) \<and> consumer_taken (snd (take_both s))"
proof -
  have free: "\<not> producer_taken s" "\<not> consumer_taken s" using take_iff assms by blast+
  then obtain h s1 where s1: "try_producer s = (Some h, s1)" "producer_taken s1" "prest s1 = prest s"
    using P.acq_free by blast
  then have "\<not> consumer_taken s1" using producer_keeps free(2) by metis
  then obtain g s2 where s2: "try_consumer s1 = (Some g, s2)" "consumer_taken s2" "crest s2 = crest s1"
    using C.acq_free by blast
  then have "producer_taken s2" using consumer_keeps s1(2) by metis
  with s1 s2 show ?thesis by (simp add: static_take_def)
qed

text \<open>A second take fails, and succeeds again once both handles are dropped.\<close>

lemma second_take_fails: "fst (take_both s) \<noteq> None \<Longrightarrow> fst (take_both (snd (take_both s))) = None"
  using take_claims take_iff by blast

lemma retake: "fst (take_both (drop_consumer (drop_producer s))) \<noteq> None"
  using take_iff P.rel_taken C.rel_taken C.rel_rest consumer_keeps by metis

end

interpretation eb_spsc: spsc eb_try_producer eb_drop_producer eb_producer_taken
  "\<lambda>b. b\<lparr>eb_producer_taken := False\<rparr>" eb_try_consumer eb_drop_consumer eb_consumer_taken
  "\<lambda>b. b\<lparr>eb_consumer_taken := False\<rparr>"
  by unfold_locales (auto simp: eb_try_producer_def eb_drop_producer_def Let_def)

interpretation sr_spsc: spsc sr_try_producer sr_drop_producer sr_producer_taken
  "\<lambda>r. r\<lparr>sr_producer_taken := False\<rparr>" sr_try_consumer sr_drop_consumer sr_consumer_taken
  "\<lambda>r. r\<lparr>sr_consumer_taken := False\<rparr>"
  by unfold_locales (auto simp: sr_try_producer_def sr_drop_producer_def Let_def)

end
