(* ===== verification/Build.thy ===== *)
theory Build
  imports Prelude
begin

text \<open>
  Which configurations build, and on which atomics: the guard of \<open>build.rs\<close>, the \<open>compile_error!\<close> of
  \<open>src/lib.rs\<close>, the three \<open>use\<close> declarations of \<open>src/sync.rs\<close>, and \<open>Cargo.toml\<close>: its features, two of which
  enable a third, and the optional dependency \<open>portable-atomic\<close> with the features asked of it.

  What is not code of the repository is an argument of \<open>builds\<close>: which environment variables Cargo sets and when it
  fails the build (\<open>env\<close>, \<open>fails\<close>, under \<open>cargo_contract\<close>), and when \<open>portable-atomic\<close> compiles for a target
  (\<open>dep\<close>, under \<open>portable_contract\<close>). The contracts state what their documentation promises, as far as it is needed
  here; \<open>cargo_env\<close>, \<open>build_fails\<close> and \<open>portable_compiles\<close> are an instance.
\<close>

datatype feature = CyclesProbe | PortableAtomic | AssumeSingleCore | CriticalSection

definition all_features :: "feature list" where
  "all_features = [CyclesProbe, PortableAtomic, AssumeSingleCore, CriticalSection]"

text \<open>The \<open>[features]\<close> table: what a feature enables besides itself.\<close>

fun feature_enables :: "feature \<Rightarrow> feature list" where
  "feature_enables AssumeSingleCore = [PortableAtomic]"
| "feature_enables CriticalSection = [PortableAtomic]"
| "feature_enables f = []"

definition enabled :: "feature list \<Rightarrow> feature set" where
  "enabled requested = set requested \<union> set (concat (map feature_enables requested))"

text \<open>\<open>--all-features\<close>.\<close>

lemma all_features_set: "f \<in> set all_features"
  by (cases f) (simp_all add: all_features_def)

section \<open>The build script\<close>

text \<open>The lines \<open>main\<close> prints, given the variables that are set.\<close>

definition build_script :: "string set \<Rightarrow> string list" where
  "build_script env =
     (let single_core = ''CARGO_FEATURE_PORTABLE_ATOMIC_UNSAFE_ASSUME_SINGLE_CORE'' \<in> env;
          critical_section = ''CARGO_FEATURE_PORTABLE_ATOMIC_CRITICAL_SECTION'' \<in> env
      in [''cargo::rerun-if-changed=build.rs''] @
         (if single_core \<and> critical_section then
            [''cargo::error=features `portable-atomic-unsafe-assume-single-core` and '' @
             ''`portable-atomic-critical-section` select different portable-atomic backends '' @
             ''and cannot both be enabled -- pick one.'',
             ''cargo::error=this is why `--all-features` does not work for ph-eventing. Check '' @
             ''feature combinations individually, as scripts/ci.* does.'']
          else []))"

section \<open>The atomics\<close>

text \<open>
  A target has 32-bit atomics, or it lacks them; \<open>portable-atomic\<close> then has a compare-and-swap of its own there, or it
  needs one of its two backend features for it (\<open>thumbv6m-none-eabi\<close>).
\<close>

datatype target = NativeAtomics | DependencyCas | NoCas

record config =
  cfg_loom :: bool
  cfg_has_atomic_32 :: bool
  cfg_features :: "feature set"

datatype backend = LoomAtomics | CoreAtomics | PortableAtomics

text \<open>The \<open>compile_error!\<close> of \<open>src/lib.rs\<close>.\<close>

definition lib_compile_error :: "config \<Rightarrow> bool" where
  "lib_compile_error c \<longleftrightarrow> \<not> cfg_has_atomic_32 c \<and> PortableAtomic \<notin> cfg_features c"

text \<open>The \<open>use\<close> declarations whose \<open>cfg\<close> holds, in the order of \<open>src/sync.rs\<close>.\<close>

definition sync_backends :: "config \<Rightarrow> backend list" where
  "sync_backends c =
     (if cfg_loom c then [LoomAtomics] else []) @
     (if \<not> cfg_loom c \<and> cfg_has_atomic_32 c then [CoreAtomics] else []) @
     (if \<not> cfg_loom c \<and> \<not> cfg_has_atomic_32 c \<and> PortableAtomic \<in> cfg_features c then [PortableAtomics] else [])"

definition config_for :: "bool \<Rightarrow> target \<Rightarrow> feature list \<Rightarrow> config" where
  "config_for loom t requested =
     \<lparr>cfg_loom = loom, cfg_has_atomic_32 = (t = NativeAtomics), cfg_features = enabled requested\<rparr>"

section \<open>The dependency\<close>

text \<open>
  \<open>portable-atomic\<close> is compiled when the feature of its name is enabled: always with \<open>require-cas\<close>, and with the
  backend features that the crate's own features forward.
\<close>

datatype dep_feature = RequireCas | DepAssumeSingleCore | DepCriticalSection

definition dependency_used :: "feature set \<Rightarrow> bool" where
  "dependency_used fs \<longleftrightarrow> PortableAtomic \<in> fs"

definition dep_features :: "feature set \<Rightarrow> dep_feature set" where
  "dep_features fs = {RequireCas} \<union> (if AssumeSingleCore \<in> fs then {DepAssumeSingleCore} else {}) \<union>
     (if CriticalSection \<in> fs then {DepCriticalSection} else {})"

text \<open>
  Its documentation: \<open>require-cas\<close> is a compile error where there is no compare-and-swap; without a backend feature
  there is one except on the \<open>NoCas\<close> targets; \<open>critical-section\<close> supplies one on every target and
  \<open>unsafe-assume-single-core\<close> on those that have no native one; the two exclude each other. (Whether
  \<open>unsafe-assume-single-core\<close> is accepted on a target with native atomics is left open.)
\<close>

definition portable_contract :: "(target \<Rightarrow> dep_feature set \<Rightarrow> bool) \<Rightarrow> bool" where
  "portable_contract dep \<longleftrightarrow>
     (\<forall>t fs. DepAssumeSingleCore \<in> fs \<and> DepCriticalSection \<in> fs \<longrightarrow> \<not> dep t fs) \<and>
     (\<forall>t. dep t {RequireCas} \<longleftrightarrow> t \<noteq> NoCas) \<and>
     (\<forall>t. dep t {RequireCas, DepCriticalSection}) \<and>
     (\<forall>t. t \<noteq> NativeAtomics \<longrightarrow> dep t {RequireCas, DepAssumeSingleCore})"

definition portable_compiles :: "target \<Rightarrow> dep_feature set \<Rightarrow> bool" where
  "portable_compiles t fs \<longleftrightarrow> \<not> (DepAssumeSingleCore \<in> fs \<and> DepCriticalSection \<in> fs) \<and>
     (RequireCas \<in> fs \<longrightarrow> t \<noteq> NoCas \<or> DepAssumeSingleCore \<in> fs \<or> DepCriticalSection \<in> fs)"

lemma portable_contract_instance: "portable_contract portable_compiles"
  by (auto simp: portable_contract_def portable_compiles_def)

section \<open>Cargo\<close>

definition cargo_contract :: "(feature set \<Rightarrow> string set) \<Rightarrow> (string list \<Rightarrow> bool) \<Rightarrow> bool" where
  "cargo_contract env fails \<longleftrightarrow>
     (\<forall>fs. ''CARGO_FEATURE_PORTABLE_ATOMIC_UNSAFE_ASSUME_SINGLE_CORE'' \<in> env fs \<longleftrightarrow> AssumeSingleCore \<in> fs) \<and>
     (\<forall>fs. ''CARGO_FEATURE_PORTABLE_ATOMIC_CRITICAL_SECTION'' \<in> env fs \<longleftrightarrow> CriticalSection \<in> fs) \<and>
     (\<forall>out. fails out \<longleftrightarrow> list_ex (\<lambda>l. take 13 l = ''cargo::error='') out)"

text \<open>The instance: one variable per enabled feature, its upper-case name with \<open>_\<close> for \<open>-\<close>.\<close>

fun env_name :: "feature \<Rightarrow> string" where
  "env_name CyclesProbe = ''CARGO_FEATURE__CYCLES_PROBE''"
| "env_name PortableAtomic = ''CARGO_FEATURE_PORTABLE_ATOMIC''"
| "env_name AssumeSingleCore = ''CARGO_FEATURE_PORTABLE_ATOMIC_UNSAFE_ASSUME_SINGLE_CORE''"
| "env_name CriticalSection = ''CARGO_FEATURE_PORTABLE_ATOMIC_CRITICAL_SECTION''"

definition cargo_env :: "feature set \<Rightarrow> string set" where
  "cargo_env fs = env_name ` fs"

definition build_fails :: "string list \<Rightarrow> bool" where
  "build_fails out \<longleftrightarrow> list_ex (\<lambda>l. take 13 l = ''cargo::error='') out"

lemma env_name_inj: "env_name f = env_name g \<longleftrightarrow> f = g"
  by (cases f; cases g) simp_all

lemma in_cargo_env: "env_name f \<in> cargo_env fs \<longleftrightarrow> f \<in> fs"
  by (auto simp: cargo_env_def env_name_inj)

lemma cargo_contract_instance: "cargo_contract cargo_env build_fails"
  using in_cargo_env [of AssumeSingleCore] in_cargo_env [of CriticalSection]
  by (simp add: cargo_contract_def build_fails_def)

section \<open>What builds\<close>

lemma script_fails_iff:
  "cargo_contract env fails \<Longrightarrow>
   fails (build_script (env fs)) \<longleftrightarrow> AssumeSingleCore \<in> fs \<and> CriticalSection \<in> fs"
  by (simp add: cargo_contract_def build_script_def Let_def)

lemma enabled_backend_features:
  "AssumeSingleCore \<in> enabled req \<longleftrightarrow> AssumeSingleCore \<in> set req"
  "CriticalSection \<in> enabled req \<longleftrightarrow> CriticalSection \<in> set req"
  "PortableAtomic \<in> enabled req \<longleftrightarrow>
     PortableAtomic \<in> set req \<or> AssumeSingleCore \<in> set req \<or> CriticalSection \<in> set req"
proof -
  have "x \<in> set (feature_enables f) \<longleftrightarrow> x = PortableAtomic \<and> (f = AssumeSingleCore \<or> f = CriticalSection)"
    for x f by (cases f) auto
  then show "AssumeSingleCore \<in> enabled req \<longleftrightarrow> AssumeSingleCore \<in> set req"
    "CriticalSection \<in> enabled req \<longleftrightarrow> CriticalSection \<in> set req"
    "PortableAtomic \<in> enabled req \<longleftrightarrow>
       PortableAtomic \<in> set req \<or> AssumeSingleCore \<in> set req \<or> CriticalSection \<in> set req"
    by (auto simp: enabled_def)
qed

lemma backends_of_config:
  "(\<exists>b. sync_backends c = [b]) \<longleftrightarrow> cfg_loom c \<or> \<not> lib_compile_error c"
  by (auto simp: sync_backends_def lib_compile_error_def)

text \<open>
  A requested configuration builds when the script prints no error, the dependency compiles if it is used, and no
  \<open>compile_error!\<close> fires; under Loom the atomics are Loom's.
\<close>

definition builds :: "(feature set \<Rightarrow> string set) \<Rightarrow> (string list \<Rightarrow> bool) \<Rightarrow> (target \<Rightarrow> dep_feature set \<Rightarrow> bool) \<Rightarrow>
    bool \<Rightarrow> target \<Rightarrow> feature list \<Rightarrow> bool" where
  "builds env fails dep loom t requested \<longleftrightarrow> \<not> fails (build_script (env (enabled requested))) \<and>
     (dependency_used (enabled requested) \<longrightarrow> dep t (dep_features (enabled requested))) \<and>
     \<not> lib_compile_error (config_for loom t requested)"

lemmas builds_defs = builds_def lib_compile_error_def config_for_def dependency_used_def dep_features_def
  enabled_backend_features

lemma builds_iff:
  assumes cargo: "cargo_contract env fails" and dep: "portable_contract dep"
  shows "AssumeSingleCore \<in> set req \<and> CriticalSection \<in> set req \<Longrightarrow> \<not> builds env fails dep loom t req"
    and "AssumeSingleCore \<in> set req \<Longrightarrow> CriticalSection \<notin> set req \<Longrightarrow> t \<noteq> NativeAtomics \<Longrightarrow> builds env fails dep loom t req"
    and "CriticalSection \<in> set req \<Longrightarrow> AssumeSingleCore \<notin> set req \<Longrightarrow> builds env fails dep loom t req"
    and "AssumeSingleCore \<notin> set req \<Longrightarrow> CriticalSection \<notin> set req \<Longrightarrow> builds env fails dep loom t req \<longleftrightarrow>
      t = NativeAtomics \<or> t = DependencyCas \<and> PortableAtomic \<in> set req"
  using dep by (cases t; auto simp: builds_defs script_fails_iff [OF cargo] portable_contract_def insert_commute)+

end
