(* ===== verification/Loom_Build.thy ===== *)
theory Loom_Build
  imports Build EventBuf SeqRing LatestBuf EventFlags CountedSignal
begin

text \<open>
  What \<open>--cfg loom\<close> changes besides the atomics: \<open>TrackedCell\<close> of \<open>src/sync.rs\<close> wraps Loom's cell instead of
  \<open>core\<close>'s, the array helpers use \<open>array::from_fn\<close>, and the constructors check their capacity when they run.
  Loom's cell is not code of the repository: its three operations are arguments, and \<open>loom_cell_contract\<close> is
  what its documentation says of them. The models of the other theories are those of the normal build; here
  the Loom build is shown to start from the same states and to see the same cell contents.
\<close>

section \<open>TrackedCell\<close>

text \<open>
  A cell holds its content, or is a Loom cell. \<open>with\<close> gives the closure the content to read and \<open>with_mut\<close>
  to replace; Loom's cell may panic instead, when it sees a conflicting access.
\<close>

datatype ('a, 'l) tracked_cell = CoreCell 'a | LoomCell 'l

definition tc_new :: "bool \<Rightarrow> ('a \<Rightarrow> 'l) \<Rightarrow> 'a \<Rightarrow> ('a, 'l) tracked_cell" where
  "tc_new loom loom_new v = (if loom then LoomCell (loom_new v) else CoreCell v)"

definition tc_with :: "('l \<Rightarrow> ('a \<Rightarrow> 'r) \<Rightarrow> 'r exec) \<Rightarrow> ('a, 'l) tracked_cell \<Rightarrow> ('a \<Rightarrow> 'r) \<Rightarrow> 'r exec" where
  "tc_with loom_with c f = (case c of LoomCell l \<Rightarrow> loom_with l f | CoreCell v \<Rightarrow> Some (f v))"

definition tc_with_mut :: "('l \<Rightarrow> ('a \<Rightarrow> 'r \<times> 'a) \<Rightarrow> ('r \<times> 'l) exec) \<Rightarrow> ('a, 'l) tracked_cell \<Rightarrow>
    ('a \<Rightarrow> 'r \<times> 'a) \<Rightarrow> ('r \<times> ('a, 'l) tracked_cell) exec" where
  "tc_with_mut loom_with_mut c f = (case c of
     LoomCell l \<Rightarrow> do { (r, l') \<leftarrow> loom_with_mut l f; Some (r, LoomCell l') }
   | CoreCell v \<Rightarrow> (let (r, v') = f v in Some (r, CoreCell v')))"

definition loom_cell_contract :: "('l \<Rightarrow> 'a) \<Rightarrow> ('a \<Rightarrow> 'l) \<Rightarrow> ('l \<Rightarrow> ('a \<Rightarrow> 'r) \<Rightarrow> 'r exec) \<Rightarrow>
    ('l \<Rightarrow> ('a \<Rightarrow> 'r \<times> 'a) \<Rightarrow> ('r \<times> 'l) exec) \<Rightarrow> bool" where
  "loom_cell_contract content loom_new loom_with loom_with_mut \<longleftrightarrow>
     (\<forall>v. content (loom_new v) = v) \<and>
     (\<forall>l f r. loom_with l f = Some r \<longrightarrow> r = f (content l)) \<and>
     (\<forall>l f r l'. loom_with_mut l f = Some (r, l') \<longrightarrow> (r, content l') = f (content l))"

text \<open>The content of a cell, and the cell of the normal build with the same content.\<close>

definition tc_content :: "('l \<Rightarrow> 'a) \<Rightarrow> ('a, 'l) tracked_cell \<Rightarrow> 'a" where
  "tc_content content c = (case c of LoomCell l \<Rightarrow> content l | CoreCell v \<Rightarrow> v)"

lemma tc_new_content:
  assumes "loom_cell_contract content loom_new loom_with loom_with_mut"
  shows "tc_content content (tc_new loom loom_new v) = v"
  using assms by (simp add: tc_new_def tc_content_def loom_cell_contract_def)

text \<open>Where Loom's cell does not report a conflict, it is the plain cell.\<close>

lemma tc_with_refines:
  assumes "loom_cell_contract content loom_new loom_with loom_with_mut" and "tc_with loom_with c f = Some r"
  shows "tc_with loom_with' (CoreCell (tc_content content c)) f = Some r"
  using assms by (cases c) (auto simp: tc_with_def tc_content_def loom_cell_contract_def)

lemma tc_with_mut_refines:
  assumes contract: "loom_cell_contract content loom_new loom_with loom_with_mut"
    and run: "tc_with_mut loom_with_mut c f = Some (r, c')"
  shows "tc_with_mut loom_with_mut' (CoreCell (tc_content content c)) f = Some (r, CoreCell (tc_content content c'))"
proof (cases c)
  case (CoreCell v)
  with run show ?thesis by (auto simp: tc_with_mut_def tc_content_def split: prod.splits)
next
  case (LoomCell l)
  with run obtain l' where l': "loom_with_mut l f = Some (r, l')" "c' = LoomCell l'"
    by (auto simp: tc_with_mut_def elim!: option_bind_SomeE)
  then have "f (content l) = (r, content l')" using contract by (metis loom_cell_contract_def)
  then show ?thesis by (simp add: tc_with_mut_def tc_content_def LoomCell l')
qed

lemma tc_core_never_panics:
  "tc_with loom_with (CoreCell v) f = Some (f v)"
  "tc_with_mut loom_with_mut (CoreCell v) f = Some (fst (f v), CoreCell (snd (f v)))"
  by (simp_all add: tc_with_def tc_with_mut_def split_beta Let_def)

section \<open>Arrays and constructors\<close>

text \<open>\<open>core::array::from_fn\<close>.\<close>

definition array_from_fn :: "nat \<Rightarrow> (nat \<Rightarrow> 'a) \<Rightarrow> 'a list" where
  "array_from_fn n f = map f [0..<n]"

lemma array_from_fn_const: "array_from_fn n (\<lambda>_. v) = replicate n v"
  by (simp add: array_from_fn_def map_replicate_const)

definition eb_slot_array_loom :: "nat \<Rightarrow> 'a slots" where
  "eb_slot_array_loom N = array_from_fn N (\<lambda>_. None)"

definition eb_new_loom :: "nat \<Rightarrow> 'a event_buf exec" where
  "eb_new_loom N = (if 0 < N then Some \<lparr>eb_head = 0, eb_tail = 0, eb_slots = eb_slot_array_loom N,
     eb_producer_taken = False, eb_consumer_taken = False\<rparr> else None)"

definition sr_atomic_u32_array_loom :: "nat \<Rightarrow> u32 list" where
  "sr_atomic_u32_array_loom N = array_from_fn N (\<lambda>_. 0)"

definition sr_unsafe_cell_array_loom :: "nat \<Rightarrow> 'a slots" where
  "sr_unsafe_cell_array_loom N = array_from_fn N (\<lambda>_. None)"

definition sr_new_loom :: "nat \<Rightarrow> 'a seq_ring exec" where
  "sr_new_loom N = (if 0 < N then Some \<lparr>sr_next_seq = 0, sr_published_seq = 0,
     sr_slot_seq = sr_atomic_u32_array_loom N, sr_slots = sr_unsafe_cell_array_loom N,
     sr_producer_taken = False, sr_consumer_taken = False\<rparr> else None)"

definition lb_slot_array_loom :: "'a lb_entry slots" where
  "lb_slot_array_loom = array_from_fn 3 (\<lambda>_. None)"

definition lb_new_loom :: "'a latest_buf" where
  "lb_new_loom = \<lparr>lb_exchange = 0, lb_slots = lb_slot_array_loom,
     lb_producer = \<lparr>back_encoded = 0, next_generation = 0\<rparr>,
     lb_consumer = \<lparr>front_encoded = 0, last_generation = 0\<rparr>,
     lb_producer_taken = False, lb_consumer_taken = False\<rparr>"

definition ef_new_loom :: event_flags where
  "ef_new_loom = \<lparr>ef_pending = 0, ef_producer_taken = False, ef_consumer_taken = False\<rparr>"

definition cs_new_loom :: counted_signal where
  "cs_new_loom = \<lparr>cs_count = 0, cs_producer_taken = False, cs_consumer_taken = False\<rparr>"

definition cs_with_count_for_model :: "u32 \<Rightarrow> counted_signal" where
  "cs_with_count_for_model count = \<lparr>cs_count = count, cs_producer_taken = False, cs_consumer_taken = False\<rparr>"

text \<open>Both builds start alike; a zero capacity, which the normal build rejects, panics.\<close>

lemma loom_constructors:
  "eb_new_loom N = (if 0 < N then Some (eb_new N) else None)"
  "sr_new_loom N = (if 0 < N then Some (sr_new N) else None)"
  "(lb_new_loom :: 'a latest_buf) = lb_new" "ef_new_loom = ef_new" "cs_new_loom = cs_new"
  by (simp_all add: eb_new_loom_def eb_new_def eb_slot_array_loom_def eb_slot_array_def sr_new_loom_def sr_new_def
      sr_atomic_u32_array_loom_def sr_atomic_u32_array_def sr_unsafe_cell_array_loom_def sr_unsafe_cell_array_def
      lb_new_loom_def lb_new_def lb_slot_array_loom_def lb_slot_array_def ef_new_loom_def ef_new_def
      cs_new_loom_def cs_new_def array_from_fn_const uninit_slots_def)

section \<open>The scale of the stress tests\<close>

text \<open>\<open>test_support::iterations\<close>: 200 under Miri, else as asked.\<close>

definition iterations :: "bool \<Rightarrow> u32 \<Rightarrow> u32" where
  "iterations miri native = (if miri then 200 else native)"

end
