(* ===== verification/Auto_Traits.thy ===== *)
theory Auto_Traits
  imports Prelude
begin

text \<open>
  Which types of the crate may cross contexts. \<open>Send\<close> and \<open>Sync\<close> are auto traits: the compiler derives
  them from the fields of a type, except where an \<open>unsafe impl\<close> states them. The type declarations of
  \<open>src/*.rs\<close> are values of \<open>rust_type\<close> here, the derivation is the pair \<open>is_send\<close>, \<open>is_sync\<close>, and what the
  tests \<open>handles_are_send\<close> and the \<open>compile_fail\<close> doctests sample is proved for every payload type.
  The payload is the type parameter \<open>T\<close>, of which only its own two traits matter.
\<close>

section \<open>Types and the derivation\<close>

text \<open>
  \<open>Plain\<close> is any integer, \<open>bool\<close> or \<open>()\<close>, \<open>Atomic\<close> one of the atomic types, and \<open>Struct\<close> a declared type:
  the condition of its \<open>unsafe impl Sync\<close>, if it has one, and its fields.
\<close>

datatype sync_impl = Derived | Unsafe_if_send

datatype rust_type =
    Plain
  | Param
  | Atomic
  | Cell_of rust_type
  | Unsafe_cell rust_type
  | Maybe_uninit rust_type
  | Phantom_of rust_type
  | Shared_ref rust_type
  | Array_of rust_type
  | Struct sync_impl "rust_type list"

text \<open>The rules of the standard library, for a payload that is \<open>Send\<close> if \<open>s\<close> and \<open>Sync\<close> if \<open>y\<close>.\<close>

fun is_send :: "bool \<Rightarrow> bool \<Rightarrow> rust_type \<Rightarrow> bool"
  and is_sync :: "bool \<Rightarrow> bool \<Rightarrow> rust_type \<Rightarrow> bool" where
  "is_send s y Plain = True"
| "is_send s y Param = s"
| "is_send s y Atomic = True"
| "is_send s y (Cell_of t) = is_send s y t"
| "is_send s y (Unsafe_cell t) = is_send s y t"
| "is_send s y (Maybe_uninit t) = is_send s y t"
| "is_send s y (Phantom_of t) = is_send s y t"
| "is_send s y (Shared_ref t) = is_sync s y t"
| "is_send s y (Array_of t) = is_send s y t"
| "is_send s y (Struct i ts) = (\<forall>t \<in> set ts. is_send s y t)"
| "is_sync s y Plain = True"
| "is_sync s y Param = y"
| "is_sync s y Atomic = True"
| "is_sync s y (Cell_of t) = False"
| "is_sync s y (Unsafe_cell t) = False"
| "is_sync s y (Maybe_uninit t) = is_sync s y t"
| "is_sync s y (Phantom_of t) = is_sync s y t"
| "is_sync s y (Shared_ref t) = is_sync s y t"
| "is_sync s y (Array_of t) = is_sync s y t"
| "is_sync s y (Struct i ts) = (case i of Derived \<Rightarrow> (\<forall>t \<in> set ts. is_sync s y t) | Unsafe_if_send \<Rightarrow> s)"

section \<open>The declarations\<close>

definition tracked_cell_type :: "rust_type \<Rightarrow> rust_type" where
  "tracked_cell_type t = Struct Derived [Unsafe_cell t]"

text \<open>The shared containers, field by field.\<close>

definition event_buf_type :: rust_type where
  "event_buf_type = Struct Unsafe_if_send
     [Atomic, Atomic, Array_of (tracked_cell_type (Maybe_uninit Param)), Atomic, Atomic]"

definition seq_ring_type :: rust_type where
  "seq_ring_type = Struct Unsafe_if_send
     [Atomic, Atomic, Array_of Atomic, Array_of (Unsafe_cell (Maybe_uninit Param)), Atomic, Atomic]"

definition latest_entry_type :: rust_type where
  "latest_entry_type = Struct Derived [Plain, Param]"

definition latest_producer_state_type :: rust_type where
  "latest_producer_state_type = Struct Derived [Plain, Plain]"

definition latest_consumer_state_type :: rust_type where
  "latest_consumer_state_type = Struct Derived [Plain, Plain]"

definition latest_buf_type :: rust_type where
  "latest_buf_type = Struct Unsafe_if_send
     [Atomic, Array_of (tracked_cell_type (Maybe_uninit latest_entry_type)),
      tracked_cell_type latest_producer_state_type, tracked_cell_type latest_consumer_state_type, Atomic, Atomic]"

definition event_flags_type :: rust_type where
  "event_flags_type = Struct Derived [Atomic, Atomic, Atomic]"

definition counted_signal_type :: rust_type where
  "counted_signal_type = Struct Derived [Atomic, Atomic, Atomic]"

text \<open>The handles: a shared reference and the marker \<open>PhantomData<Cell<()>>\<close>.\<close>

definition not_sync_marker :: rust_type where
  "not_sync_marker = Phantom_of (Cell_of Plain)"

definition event_buf_producer_type :: rust_type where
  "event_buf_producer_type = Struct Derived [Shared_ref event_buf_type, not_sync_marker]"

definition event_buf_consumer_type :: rust_type where
  "event_buf_consumer_type = Struct Derived [Shared_ref event_buf_type, not_sync_marker]"

definition seq_ring_producer_type :: rust_type where
  "seq_ring_producer_type = Struct Derived [Shared_ref seq_ring_type, not_sync_marker]"

definition seq_ring_consumer_type :: rust_type where
  "seq_ring_consumer_type = Struct Derived [Shared_ref seq_ring_type, Plain, Plain, not_sync_marker]"

definition latest_buf_producer_type :: rust_type where
  "latest_buf_producer_type = Struct Derived [Shared_ref latest_buf_type, not_sync_marker]"

definition latest_buf_consumer_type :: rust_type where
  "latest_buf_consumer_type = Struct Derived [Shared_ref latest_buf_type, not_sync_marker]"

definition event_flags_producer_type :: rust_type where
  "event_flags_producer_type = Struct Derived [Shared_ref event_flags_type, not_sync_marker]"

definition event_flags_consumer_type :: rust_type where
  "event_flags_consumer_type = Struct Derived [Shared_ref event_flags_type, not_sync_marker]"

definition counted_signal_producer_type :: rust_type where
  "counted_signal_producer_type = Struct Derived [Shared_ref counted_signal_type, not_sync_marker]"

definition counted_signal_consumer_type :: rust_type where
  "counted_signal_consumer_type = Struct Derived [Shared_ref counted_signal_type, not_sync_marker]"

text \<open>The single-owner types.\<close>

definition ring_buf_type :: rust_type where
  "ring_buf_type = Struct Derived [Array_of (Maybe_uninit Param), Plain, Plain]"

definition ring_iter_type :: rust_type where
  "ring_iter_type = Struct Derived [Shared_ref ring_buf_type, Plain]"

definition block_type :: rust_type where
  "block_type = Struct Derived [Plain, Plain, Array_of Param]"

definition block_builder_type :: rust_type where
  "block_builder_type = Struct Derived [Array_of (Maybe_uninit Param), Plain, Plain, Plain]"

lemmas container_types = event_buf_type_def seq_ring_type_def latest_buf_type_def latest_entry_type_def
  latest_producer_state_type_def latest_consumer_state_type_def event_flags_type_def
  counted_signal_type_def tracked_cell_type_def

lemmas handle_types = event_buf_producer_type_def event_buf_consumer_type_def seq_ring_producer_type_def
  seq_ring_consumer_type_def latest_buf_producer_type_def latest_buf_consumer_type_def
  event_flags_producer_type_def event_flags_consumer_type_def counted_signal_producer_type_def
  counted_signal_consumer_type_def not_sync_marker_def

lemmas owned_types = ring_buf_type_def ring_iter_type_def block_type_def block_builder_type_def

section \<open>What follows\<close>

definition payload_containers :: "rust_type list" where
  "payload_containers = [event_buf_type, seq_ring_type, latest_buf_type]"

definition payload_handles :: "rust_type list" where
  "payload_handles = [event_buf_producer_type, event_buf_consumer_type, seq_ring_producer_type,
     seq_ring_consumer_type, latest_buf_producer_type, latest_buf_consumer_type]"

definition signal_handles :: "rust_type list" where
  "signal_handles = [event_flags_producer_type, event_flags_consumer_type,
     counted_signal_producer_type, counted_signal_consumer_type]"

lemma container_traits:
  "t \<in> set payload_containers \<Longrightarrow> is_sync s y t \<longleftrightarrow> s"
  "t \<in> set payload_containers \<Longrightarrow> is_send s y t \<longleftrightarrow> s"
  by (auto simp: payload_containers_def container_types)

lemma handle_traits:
  "t \<in> set payload_handles \<Longrightarrow> is_send s y t \<longleftrightarrow> s"
  "t \<in> set signal_handles \<Longrightarrow> is_send s y t"
  "t \<in> set payload_handles \<union> set signal_handles \<Longrightarrow> \<not> is_sync s y t"
  by (auto simp: payload_handles_def signal_handles_def container_types handle_types)

lemma signal_container_traits:
  "is_sync s y event_flags_type" "is_send s y event_flags_type"
  "is_sync s y counted_signal_type" "is_send s y counted_signal_type"
  by (simp_all add: container_types)

text \<open>
  Without the \<open>unsafe impl\<close> no container with slots could be shared at all, so the statement about \<open>T: Send\<close>
  rests on it alone; without the marker every handle could be shared.
\<close>

fun derive_only :: "rust_type \<Rightarrow> rust_type" where
  "derive_only (Struct i ts) = Struct Derived ts"
| "derive_only t = t"

lemma unsafe_impl_needed: "t \<in> set payload_containers \<Longrightarrow> \<not> is_sync s y (derive_only t)"
  by (auto simp: payload_containers_def container_types)

fun without_marker :: "rust_type \<Rightarrow> rust_type" where
  "without_marker (Struct i ts) = Struct i (filter (\<lambda>t. t \<noteq> not_sync_marker) ts)"
| "without_marker t = t"

lemma marker_needed: "t \<in> set payload_handles \<union> set signal_handles \<Longrightarrow> is_sync True y (without_marker t)"
  by (auto simp: payload_handles_def signal_handles_def container_types handle_types)

text \<open>The single-owner types have the traits of their payload.\<close>

lemma owned_traits:
  "is_send s y ring_buf_type \<longleftrightarrow> s" "is_sync s y ring_buf_type \<longleftrightarrow> y" "is_send s y ring_iter_type \<longleftrightarrow> y"
  "is_send s y block_type \<longleftrightarrow> s" "is_sync s y block_type \<longleftrightarrow> y"
  "is_send s y block_builder_type \<longleftrightarrow> s" "is_sync s y block_builder_type \<longleftrightarrow> y"
  by (simp_all add: owned_types)

section \<open>The tests\<close>

text \<open>\<open>fn assert_send<T: Send>() {}\<close> at a type compiles iff the type is \<open>Send\<close>; the payload there is \<open>u32\<close>.\<close>

definition assert_send :: "rust_type \<Rightarrow> bool" where
  "assert_send t = is_send True True t"

definition assert_sync :: "rust_type \<Rightarrow> bool" where
  "assert_sync t = is_sync True True t"

definition eb_test_handles_are_send :: bool where
  "eb_test_handles_are_send \<longleftrightarrow> assert_send event_buf_producer_type \<and> assert_send event_buf_consumer_type"

definition ef_test_handles_are_send_and_container_is_sync :: bool where
  "ef_test_handles_are_send_and_container_is_sync \<longleftrightarrow> assert_send event_flags_producer_type \<and>
     assert_send event_flags_consumer_type \<and> assert_sync event_flags_type"

definition cs_test_handles_are_send :: bool where
  "cs_test_handles_are_send \<longleftrightarrow> assert_send counted_signal_producer_type \<and> assert_send counted_signal_consumer_type"

text \<open>The macro's aliases \<open>Tx\<close> and \<open>Rx\<close> are the handles of its container.\<close>

definition mac_test_handles_are_send :: bool where
  "mac_test_handles_are_send \<longleftrightarrow> assert_send event_buf_producer_type \<and> assert_send event_buf_consumer_type \<and>
     assert_send seq_ring_producer_type \<and> assert_send seq_ring_consumer_type"

lemma trait_tests:
  "eb_test_handles_are_send" "ef_test_handles_are_send_and_container_is_sync"
  "cs_test_handles_are_send" "mac_test_handles_are_send"
  by (simp_all add: eb_test_handles_are_send_def ef_test_handles_are_send_and_container_is_sync_def
      cs_test_handles_are_send_def mac_test_handles_are_send_def assert_send_def assert_sync_def
      container_types handle_types)

end
