(* ===== verification/Formatting.thy ===== *)
theory Formatting
  imports EventBuf SeqRing LatestBuf Ring Block EventFlags CountedSignal
begin

text \<open>
  The \<open>Debug\<close> implementations. \<open>debug_struct\<close> and its \<open>finish\<close> are the standard library's builder in the
  form that \<open>{:?}\<close> prints, integers are printed in decimal, and a mask with \<open>{:#010x}\<close>. What is shown is
  that the text carries the state: the mask is read back from it, and so are the numbers of the structs.
\<close>

section \<open>Numbers\<close>

definition digit_char :: "nat \<Rightarrow> char" where
  "digit_char d = ''0123456789abcdef'' ! d"

fun radix :: "nat \<Rightarrow> nat \<Rightarrow> string" where
  "radix b n = (if b < 2 \<or> n < b then [digit_char n] else radix b (n div b) @ [digit_char (n mod b)])"

declare radix.simps [simp del]

abbreviation decimal :: "nat \<Rightarrow> string" where
  "decimal \<equiv> radix 10"

text \<open>\<open>{:#0<width>x}\<close>: the prefix counts towards the width, zeroes fill it.\<close>

definition hex_padded :: "nat \<Rightarrow> nat \<Rightarrow> string" where
  "hex_padded width n = (let s = radix 16 n in ''0x'' @ replicate (width - 2 - length s) CHR ''0'' @ s)"

text \<open>Reading a number.\<close>

definition digit_value :: "char \<Rightarrow> nat" where
  "digit_value c = length (takeWhile (\<lambda>d. d \<noteq> c) ''0123456789abcdef'')"

definition radix_value :: "nat \<Rightarrow> string \<Rightarrow> nat" where
  "radix_value b s = foldl (\<lambda>a c. a * b + digit_value c) 0 s"

lemma digit_cases: "d < 16 \<Longrightarrow> d \<in> {0, 1, 2, 3, 4, 5, 6, 7, 8, 9, 10, 11, 12, 13, 14, 15}" for d :: nat
  by simp presburger

lemma digit_value_char: "d < 16 \<Longrightarrow> digit_value (digit_char d) = d"
  by (drule digit_cases) (auto simp: digit_value_def digit_char_def)

lemma radix_value_snoc: "radix_value b (s @ [c]) = radix_value b s * b + digit_value c"
  by (simp add: radix_value_def)

lemma radix_round_trip:
  assumes "2 \<le> b" and "b \<le> 16"
  shows "radix_value b (radix b n) = n"
proof (induction n rule: less_induct)
  case (less n)
  show ?case
  proof (cases "n < b")
    case True
    with assms have "digit_value (digit_char n) = n" by (intro digit_value_char) simp
    with True show ?thesis by (simp add: radix.simps [of b n] radix_value_def)
  next
    case False
    with assms have "n div b < n" "n mod b < 16"
      by (simp_all add: less_le_trans [OF mod_less_divisor])
    with less.IH False assms show ?thesis
      by (simp add: radix.simps [of b n] radix_value_snoc digit_value_char)
  qed
qed

lemma radix_value_zeroes: "radix_value b (replicate k CHR ''0'' @ s) = radix_value b s"
proof -
  have "digit_value CHR ''0'' = 0" by (simp add: digit_value_def)
  then have "foldl (\<lambda>a c. a * b + digit_value c) 0 (replicate k CHR ''0'') = 0" by (induction k) simp_all
  then show ?thesis by (simp add: radix_value_def)
qed

lemma length_radix:
  assumes "2 \<le> b"
  shows "0 < k \<Longrightarrow> n < b ^ k \<Longrightarrow> length (radix b n) \<le> k"
proof (induction k arbitrary: n)
  case (Suc k)
  show ?case
  proof (cases "n < b")
    case True
    then show ?thesis by (simp add: radix.simps [of b n])
  next
    case False
    have "0 < k" using False Suc.prems(2) by (cases k) auto
    moreover have "n div b < b ^ k"
      using Suc.prems(2) assms by (simp add: less_mult_imp_div_less mult.commute)
    ultimately have "length (radix b (n div b)) \<le> k" by (rule Suc.IH)
    then show ?thesis using False assms by (simp add: radix.simps [of b n])
  qed
qed simp

lemma radix_nonempty: "radix b n \<noteq> []"
  by (simp add: radix.simps [of b n])

lemma radix_digits: "2 \<le> b \<Longrightarrow> c \<in> set (radix b n) \<Longrightarrow> \<exists>d < b. c = digit_char d"
proof (induction b n rule: radix.induct)
  case (1 b n)
  then have last: "\<exists>d < b. digit_char (n mod b) = digit_char d" by (intro exI [of _ "n mod b"]) simp
  with 1 show ?case by (cases "n < b") (auto simp: radix.simps [of b n])
qed

section \<open>The struct builder\<close>

datatype debug_struct = DebugStruct (ds_name: string) (ds_fields: "(string \<times> string) list")

definition ds_field :: "string \<Rightarrow> string \<Rightarrow> debug_struct \<Rightarrow> debug_struct" where
  "ds_field name value d = DebugStruct (ds_name d) (ds_fields d @ [(name, value)])"

fun ds_join :: "(string \<times> string) list \<Rightarrow> string" where
  "ds_join [] = ''''"
| "ds_join [(n, v)] = n @ '': '' @ v"
| "ds_join ((n, v) # fs) = n @ '': '' @ v @ '', '' @ ds_join fs"

definition ds_finish :: "debug_struct \<Rightarrow> string" where
  "ds_finish d = ds_name d @ (if ds_fields d = [] then '''' else '' { '' @ ds_join (ds_fields d) @ '' }'')"

definition ds_finish_non_exhaustive :: "debug_struct \<Rightarrow> string" where
  "ds_finish_non_exhaustive d = ds_name d @
     (if ds_fields d = [] then '' { .. }'' else '' { '' @ ds_join (ds_fields d) @ '', .. }'')"

section \<open>The implementations\<close>

definition debug_event_buf :: "'a event_buf \<Rightarrow> string" where
  "debug_event_buf b = ds_finish (ds_field ''capacity'' (decimal (eb_capacity b))
     (ds_field ''len'' (decimal (eb_len b)) (DebugStruct ''EventBuf'' [])))"

definition debug_event_buf_producer :: "'a event_buf \<Rightarrow> string" where
  "debug_event_buf_producer b = ds_finish (ds_field ''capacity'' (decimal (eb_capacity b))
     (DebugStruct ''event_buf::Producer'' []))"

definition debug_event_buf_consumer :: "'a event_buf \<Rightarrow> string" where
  "debug_event_buf_consumer b = ds_finish (ds_field ''capacity'' (decimal (eb_capacity b))
     (DebugStruct ''event_buf::Consumer'' []))"

definition debug_seq_ring :: "'a seq_ring \<Rightarrow> string" where
  "debug_seq_ring r = ds_finish (ds_field ''published_seq'' (decimal (unat (sr_published_seq r)))
     (ds_field ''capacity'' (decimal (sr_capacity r)) (DebugStruct ''SeqRing'' [])))"

definition debug_seq_ring_producer :: "'a seq_ring \<Rightarrow> string" where
  "debug_seq_ring_producer r = ds_finish (ds_field ''capacity'' (decimal (sr_capacity r))
     (DebugStruct ''seq_ring::Producer'' []))"

definition debug_seq_ring_consumer :: "'a seq_ring \<Rightarrow> sr_consumer \<Rightarrow> string" where
  "debug_seq_ring_consumer r c = ds_finish (ds_field ''dropped'' (decimal (sc_dropped_accum c))
     (ds_field ''last_seq'' (decimal (unat (sc_last_seq c)))
        (ds_field ''capacity'' (decimal (sr_capacity r)) (DebugStruct ''seq_ring::Consumer'' []))))"

definition debug_ring_buf :: "'a ring_buf \<Rightarrow> string" where
  "debug_ring_buf r = ds_finish (ds_field ''capacity'' (decimal (ring_capacity r))
     (ds_field ''len'' (decimal (rb_len r)) (DebugStruct ''RingBuf'' [])))"

definition debug_ring_iter :: "'a ring_iter \<Rightarrow> string" where
  "debug_ring_iter it = ds_finish (ds_field ''remaining'' (decimal (ring_len (ri_ring it) - ri_pos it))
     (DebugStruct ''RingIter'' []))"

definition debug_block_builder :: "'a block_builder \<Rightarrow> string" where
  "debug_block_builder b = ds_finish_non_exhaustive
     (ds_field ''last_sequence'' (decimal (unat (bb_last_sequence b)))
       (ds_field ''first_sequence'' (decimal (unat (bb_first_sequence b)))
         (ds_field ''capacity'' (decimal (bb_capacity b))
           (ds_field ''len'' (decimal (bb_length b)) (DebugStruct ''BlockBuilder'' [])))))"

definition debug_event_mask :: "event_mask \<Rightarrow> string" where
  "debug_event_mask m = ''EventMask('' @ hex_padded 10 (unat (mask_word m)) @ '')''"

definition debug_event_flags :: "event_flags \<Rightarrow> string" where
  "debug_event_flags f = ds_finish_non_exhaustive (DebugStruct ''EventFlags'' [])"

definition debug_event_flags_producer :: "ef_producer \<Rightarrow> string" where
  "debug_event_flags_producer p = ds_finish (DebugStruct ''event_flags::Producer'' [])"

definition debug_event_flags_consumer :: "ef_consumer \<Rightarrow> string" where
  "debug_event_flags_consumer c = ds_finish (DebugStruct ''event_flags::Consumer'' [])"

definition debug_counted_signal :: "counted_signal \<Rightarrow> string" where
  "debug_counted_signal c = ds_finish_non_exhaustive (DebugStruct ''CountedSignal'' [])"

definition debug_counted_signal_producer :: "cs_producer \<Rightarrow> string" where
  "debug_counted_signal_producer p = ds_finish (DebugStruct ''counted_signal::Producer'' [])"

definition debug_counted_signal_consumer :: "cs_consumer \<Rightarrow> string" where
  "debug_counted_signal_consumer c = ds_finish (DebugStruct ''counted_signal::Consumer'' [])"

definition debug_latest_buf :: "'a latest_buf \<Rightarrow> string" where
  "debug_latest_buf b = ds_finish_non_exhaustive (DebugStruct ''LatestBuf'' [])"

definition debug_latest_buf_producer :: "lb_producer_handle \<Rightarrow> string" where
  "debug_latest_buf_producer p = ds_finish (DebugStruct ''latest_buf::Producer'' [])"

definition debug_latest_buf_consumer :: "lb_consumer_handle \<Rightarrow> string" where
  "debug_latest_buf_consumer c = ds_finish (DebugStruct ''latest_buf::Consumer'' [])"

lemmas debug_defs = debug_event_buf_def debug_event_buf_producer_def debug_event_buf_consumer_def
  debug_seq_ring_def debug_seq_ring_producer_def debug_seq_ring_consumer_def debug_ring_buf_def
  debug_ring_iter_def debug_block_builder_def ds_field_def ds_finish_def ds_finish_non_exhaustive_def

section \<open>Reading the text back\<close>

definition parse_mask :: "string \<Rightarrow> event_mask option" where
  "parse_mask s = (if length s = 21 \<and> take 12 s = ''EventMask(0x'' \<and> drop 20 s = '')''
     then Some (EventMask (of_nat (radix_value 16 (take 8 (drop 12 s))))) else None)"

lemma mask_text: "\<exists>s. debug_event_mask m = ''EventMask(0x'' @ s @ '')'' \<and> length s = 8 \<and>
  radix_value 16 s = unat (mask_word m)"
proof -
  let ?n = "unat (mask_word m)"
  have "length (radix 16 ?n) \<le> 8" by (rule length_radix) (use unat_u32_less [of "mask_word m"] in simp_all)
  then show ?thesis
    by (intro exI [of _ "replicate (8 - length (radix 16 ?n)) CHR ''0'' @ radix 16 ?n"])
       (simp add: debug_event_mask_def hex_padded_def Let_def radix_value_zeroes radix_round_trip)
qed

lemma parse_mask_debug: "parse_mask (debug_event_mask m) = Some m"
proof -
  obtain s where s: "debug_event_mask m = ''EventMask(0x'' @ s @ '')''" "length s = 8"
    "radix_value 16 s = unat (mask_word m)" using mask_text by blast
  then show ?thesis by (cases m) (simp add: parse_mask_def eval_nat_numeral)
qed

text \<open>The numbers in a text: its maximal runs of decimal digits.\<close>

definition is_digit :: "char \<Rightarrow> bool" where
  "is_digit c \<longleftrightarrow> c \<in> set ''0123456789''"

function numbers_in :: "string \<Rightarrow> nat list" where
  "numbers_in [] = []"
| "numbers_in (c # s) = (if is_digit c
     then radix_value 10 (takeWhile is_digit (c # s)) # numbers_in (dropWhile is_digit s) else numbers_in s)"
  by pat_completeness auto
termination by (relation "measure length") (auto simp: length_dropWhile_le less_Suc_eq_le)

lemma digit_char_is_digit: "d < 10 \<Longrightarrow> is_digit (digit_char d)"
  using digit_cases [of d] by (auto simp: is_digit_def digit_char_def)

lemma decimal_digits: "\<forall>c \<in> set (decimal n). is_digit c"
  using radix_digits [of 10 _ n] digit_char_is_digit by fastforce

lemma numbers_in_decimal:
  assumes "\<not> is_digit c"
  shows "numbers_in (decimal n @ c # s) = n # numbers_in (c # s)"
proof -
  obtain d ds where d: "decimal n = d # ds" using radix_nonempty by (meson neq_Nil_conv)
  have digits: "\<forall>x \<in> set (d # ds). is_digit x" using decimal_digits [of n] d by simp
  then have "takeWhile is_digit (d # ds @ c # s) = d # ds" "dropWhile is_digit (ds @ c # s) = c # s"
    using assms by (simp_all add: takeWhile_append2 dropWhile_append2)
  moreover have "radix_value 10 (d # ds) = n" using radix_round_trip [of 10 n] d by simp
  ultimately show ?thesis using digits by (simp add: d)
qed

lemma numbers_in_plain: "\<not> is_digit c \<Longrightarrow> numbers_in (c # s) = numbers_in s"
  by simp

lemmas numbers_in_text = numbers_in_decimal numbers_in_plain is_digit_def

lemma debug_numbers:
  "numbers_in (debug_event_buf b) = [eb_len b, eb_capacity b]"
  "numbers_in (debug_seq_ring r) = [sr_capacity r, unat (sr_published_seq r)]"
  "numbers_in (debug_seq_ring_consumer r c) = [sr_capacity r, unat (sc_last_seq c), sc_dropped_accum c]"
  "numbers_in (debug_ring_buf rb) = [rb_len rb, ring_capacity rb]"
  "numbers_in (debug_ring_iter it) = [ring_len (ri_ring it) - ri_pos it]"
  "numbers_in (debug_block_builder fill) =
     [bb_length fill, bb_capacity fill, unat (bb_first_sequence fill), unat (bb_last_sequence fill)]"
  by (simp_all add: debug_defs numbers_in_text del: numbers_in.simps(2))

lemma debug_handle_numbers:
  "numbers_in (debug_event_buf_producer b) = [eb_capacity b]"
  "numbers_in (debug_event_buf_consumer b) = [eb_capacity b]"
  "numbers_in (debug_seq_ring_producer r) = [sr_capacity r]"
  by (simp_all add: debug_defs numbers_in_text del: numbers_in.simps(2))

end
