(* ===== verification/BlockShape.thy ===== *)
theory BlockShape
  imports Block
begin

text \<open>
  The structural twins of \<open>Block\<close> and \<open>BlockBuilder\<close> that the probes measure
  (\<open>scripts/probes/block_shape.rs\<close>): a second, separate implementation, pinned at an earlier revision. The
  theory shows that it still is a twin: every operation answers as the one of \<open>src/block.rs\<close>.
\<close>

record 'a block_shape =
  bsh_first_sequence :: u32
  bsh_last_sequence :: u32
  bsh_samples :: "'a list"

definition bsh_filled :: "nat \<Rightarrow> 'a \<Rightarrow> 'a block_shape" where
  "bsh_filled N sample = \<lparr>bsh_first_sequence = 1, bsh_last_sequence = of_nat N, bsh_samples = replicate N sample\<rparr>"

record 'a block_builder_shape =
  bbs_samples :: "'a slots"
  bbs_len :: usize
  bbs_first_sequence :: u32
  bbs_last_sequence :: u32

datatype 'a fill_error_shape =
    ReservedSequenceShape 'a
  | DiscontinuousShape u32 u32 'a

definition bbs_new :: "nat \<Rightarrow> 'a block_builder_shape" where
  "bbs_new N = \<lparr>bbs_samples = uninit_slots N, bbs_len = 0, bbs_first_sequence = 0, bbs_last_sequence = 0\<rparr>"

definition bbs_next_sequence :: "u32 \<Rightarrow> u32" where
  "bbs_next_sequence sequence = (if sequence = u32_MAX then 1 else sequence + 1)"

definition bbs_clear :: "'a block_builder_shape \<Rightarrow> 'a block_builder_shape" where
  "bbs_clear b = b\<lparr>bbs_len := 0, bbs_first_sequence := 0, bbs_last_sequence := 0\<rparr>"

text \<open>\<open>push\<close>: the two guards, then \<open>bbs_store\<close>, the rest of the function.\<close>

definition bbs_store :: "'a block_builder_shape \<Rightarrow> u32 \<Rightarrow> 'a \<Rightarrow>
    (('a fill_error_shape + 'a block_shape option) \<times> 'a block_builder_shape) exec" where
  "bbs_store b sequence sample = do {
     cells \<leftarrow> slot_write (bbs_samples b) (bbs_len b) sample;
     let b = b\<lparr>bbs_samples := cells, bbs_len := bbs_len b + 1, bbs_last_sequence := sequence\<rparr>;
     if bbs_len b \<noteq> length (bbs_samples b) then Some (Inr None, b)
     else do {
       samples \<leftarrow> those (bbs_samples b);
       Some (Inr (Some \<lparr>bsh_first_sequence = bbs_first_sequence b, bsh_last_sequence = bbs_last_sequence b,
         bsh_samples = samples\<rparr>), bbs_clear b)
     }
   }"

definition bbs_push :: "'a block_builder_shape \<Rightarrow> u32 \<Rightarrow> 'a \<Rightarrow>
    (('a fill_error_shape + 'a block_shape option) \<times> 'a block_builder_shape) exec" where
  "bbs_push b sequence sample =
     (if sequence = 0 then Some (Inl (ReservedSequenceShape sample), b)
      else if bbs_len b \<noteq> 0 then
        let expected = bbs_next_sequence (bbs_last_sequence b) in
        if sequence \<noteq> expected then Some (Inl (DiscontinuousShape expected sequence sample), b)
        else bbs_store b sequence sample
      else bbs_store (b\<lparr>bbs_first_sequence := sequence\<rparr>) sequence sample)"

section \<open>The correspondence with src/block.rs\<close>

definition twin_block :: "'a block_shape \<Rightarrow> 'a block" where
  "twin_block b = \<lparr>blk_first_sequence = bsh_first_sequence b, blk_last_sequence = bsh_last_sequence b,
     blk_samples = bsh_samples b\<rparr>"

fun twin_error :: "'a fill_error_shape \<Rightarrow> 'a fill_error" where
  "twin_error (ReservedSequenceShape x) = ReservedSequence x"
| "twin_error (DiscontinuousShape e r x) = Discontinuous e r x"

definition twin_result :: "'a fill_error_shape + 'a block_shape option \<Rightarrow> 'a fill_error + 'a block option" where
  "twin_result = map_sum twin_error (map_option twin_block)"

definition twin_builder :: "'a block_builder_shape \<Rightarrow> 'a block_builder" where
  "twin_builder b = \<lparr>bb_samples = bbs_samples b, bb_length = bbs_len b,
     bb_first_sequence = bbs_first_sequence b, bb_last_sequence = bbs_last_sequence b\<rparr>"

lemma twin_error_inj: "twin_error e = twin_error e' \<longleftrightarrow> e = e'"
  by (cases e; cases e') auto

lemma twin_block_inj: "twin_block b = twin_block b' \<longleftrightarrow> b = b'"
  by (cases b; cases b') (auto simp: twin_block_def)

lemma twin_result_inj: "twin_result r = twin_result r' \<longleftrightarrow> r = r'"
proof -
  have "inj twin_error" "inj twin_block" by (auto intro: injI simp: twin_error_inj twin_block_inj)
  then have "inj twin_result" unfolding twin_result_def by (intro sum.inj_map option.inj_map)
  then show ?thesis by (rule inj_eq)
qed

lemma twin_builder_new: "twin_builder (bbs_new N) = bb_new N"
  by (simp add: twin_builder_def bbs_new_def bb_new_def)

lemma twin_builder_clear: "twin_builder (bbs_clear b) = bb_clear (twin_builder b)"
  by (simp add: twin_builder_def bbs_clear_def bb_clear_def)

lemma twin_next_sequence: "bbs_next_sequence s = bb_next_sequence s"
  by (simp add: bbs_next_sequence_def bb_next_sequence_def)

text \<open>One push, on every state, reachable or not: what follows the guards, and the whole.\<close>

lemma bind_map_option: "Option.bind (map_option f m) g = Option.bind m (g \<circ> f)"
  by (cases m) simp_all

lemma twin_store:
  "map_option (map_prod twin_result twin_builder) (bbs_store b s x) = do {
     cells \<leftarrow> slot_write (bbs_samples b) (bbs_len b) x;
     let b2 = (twin_builder b)\<lparr>bb_samples := cells, bb_length := bbs_len b + 1, bb_last_sequence := s\<rparr>;
     if bb_length b2 \<noteq> bb_capacity b2 then Some (Inr None, b2)
     else do {
       samples \<leftarrow> those (bb_samples b2);
       let block = \<lparr>blk_first_sequence = bb_first_sequence b2, blk_last_sequence = bb_last_sequence b2,
         blk_samples = samples\<rparr>;
       Some (Inr (Some block), bb_clear b2)
     }
   }"
proof (cases "slot_write (bbs_samples b) (bbs_len b) x")
  case (Some cells)
  show ?thesis
    by (cases "those cells"; cases "Suc (bbs_len b) = length cells")
      (simp_all add: Some bbs_store_def twin_builder_def twin_result_def twin_block_def bb_capacity_def
        bbs_clear_def bb_clear_def Let_def)
qed (simp add: bbs_store_def)

lemma twin_push:
  "bb_push (twin_builder b) s x = map_option (map_prod twin_result twin_builder) (bbs_push b s x)"
proof -
  have fields: "bb_length (twin_builder b) = bbs_len b" "bb_samples (twin_builder b) = bbs_samples b"
    "bb_last_sequence (twin_builder b) = bbs_last_sequence b"
    "(twin_builder b)\<lparr>bb_first_sequence := s\<rparr> = twin_builder (b\<lparr>bbs_first_sequence := s\<rparr>)"
    "bb_length (twin_builder (b\<lparr>bbs_first_sequence := s\<rparr>)) = bbs_len b"
    "bb_samples (twin_builder (b\<lparr>bbs_first_sequence := s\<rparr>)) = bbs_samples b"
    by (simp_all add: twin_builder_def)
  consider "s = 0" | "s \<noteq> 0" "bbs_len b \<noteq> 0" "s \<noteq> bb_next_sequence (bbs_last_sequence b)"
    | "s \<noteq> 0" "bbs_len b \<noteq> 0" "s = bb_next_sequence (bbs_last_sequence b)" | "s \<noteq> 0" "bbs_len b = 0" by blast
  then show ?thesis
  proof cases
    case 3
    then have "bbs_push b s x = bbs_store b s x" by (simp add: bbs_push_def twin_next_sequence)
    then show ?thesis using 3 by (simp add: twin_store bb_push_def fields)
  next
    case 4
    then have "bbs_push b s x = bbs_store (b\<lparr>bbs_first_sequence := s\<rparr>) s x" by (simp add: bbs_push_def)
    then show ?thesis using 4 by (simp add: twin_store bb_push_def fields Let_def cong: if_cong)
  qed (simp_all add: bb_push_def bbs_push_def fields twin_next_sequence twin_result_def)
qed

section \<open>Runs\<close>

fun bbs_run :: "'a block_builder_shape \<Rightarrow> 'a fill_op list \<Rightarrow>
    (('a fill_error_shape + 'a block_shape option) list \<times> 'a block_builder_shape) exec" where
  "bbs_run b [] = Some ([], b)"
| "bbs_run b (Fill s x # ops) = do {
     (r, b') \<leftarrow> bbs_push b s x;
     (rs, b'') \<leftarrow> bbs_run b' ops;
     Some (r # rs, b'')
   }"
| "bbs_run b (ClearWindow # ops) = do {
     (rs, b'') \<leftarrow> bbs_run (bbs_clear b) ops;
     Some (Inr None # rs, b'')
   }"

lemma twin_run:
  "bb_run (twin_builder b) ops = map_option (map_prod (map twin_result) twin_builder) (bbs_run b ops)"
proof (induction ops arbitrary: b)
  case (Cons op ops)
  show ?case
  proof (cases op)
    case (Fill s x)
    then show ?thesis
      by (cases "bbs_push b s x") (auto simp: twin_push Cons.IH split: bind_split)
  next
    case ClearWindow
    then show ?thesis
      by (auto simp: Cons.IH twin_result_def simp flip: twin_builder_clear split: bind_split)
  qed
qed simp

end
