(* ===== verification/Probes.thy ===== *)
theory Probes
  imports EventBuf EventFlags CountedSignal LatestBuf BlockShape
begin

text \<open>
  The code-size probes (\<open>scripts/codesize/src/lib.rs\<close>): the exported functions whose sections the size
  budget measures. Each composes operations of the library the way an application would, so what it
  returns in every state of the channel is a composition theorem of the components: the bring-up
  functions of the queue and the flags, a block that is completed and published in one call, through the
  queue or through the latest-value exchange, and the acquisition of roles. The macro parameters (sample
  type, block length) are the type variable and the length of the builder's slots.
\<close>

section \<open>Bring-up\<close>

text \<open>
  A handle that goes out of scope is dropped, the last declared first: the early return \<open>-2\<close> drops the
  producer, the later returns drop consumer and producer.
\<close>

definition bringup_two_calls :: "u32 event_buf \<Rightarrow> (int \<times> u32 event_buf) exec" where
  "bringup_two_calls b =
     (case eb_try_producer b of
        (None, b) \<Rightarrow> Some (- 1, b)
      | (Some p, b) \<Rightarrow>
          (case eb_try_consumer b of
             (None, b) \<Rightarrow> Some (- 2, eb_drop_producer b)
           | (Some c, b) \<Rightarrow> do {
               (r, b) \<leftarrow> eb_push b 1;
               (case r of
                  Inl e \<Rightarrow> Some (- 3, eb_drop_producer (eb_drop_consumer b))
                | Inr _ \<Rightarrow> do {
                    (v, b) \<leftarrow> eb_pop b;
                    Some (case v of Some _ \<Rightarrow> 0 | None \<Rightarrow> - 4, eb_drop_producer (eb_drop_consumer b))
                  })
             }))"

text \<open>\<open>forget\<close> keeps both handles: no role is released on success.\<close>

definition event_flags_acquire_roles :: "event_flags \<Rightarrow> int \<times> event_flags" where
  "event_flags_acquire_roles f =
     (case ef_try_producer f of
        (None, f) \<Rightarrow> (- 1, f)
      | (Some producer, f) \<Rightarrow>
          (case ef_try_consumer f of
             (None, f) \<Rightarrow> (- 2, ef_drop_producer f)
           | (Some consumer, f) \<Rightarrow> (0, f)))"

section \<open>Single operations through an acquired handle\<close>

definition event_flags_raise :: "event_flags \<Rightarrow> u32 \<Rightarrow> event_flags" where
  "event_flags_raise f bits = ef_raise f (mask_from_bits bits)"

definition event_flags_take :: "event_flags \<Rightarrow> u32 \<times> event_flags" where
  "event_flags_take f = (let (m, f) = ef_take_all f in (mask_bits m, f))"

definition counted_increment :: "counted_signal \<Rightarrow> counted_signal" where
  "counted_increment s = cs_increment s"

definition counted_take :: "counted_signal \<Rightarrow> u32 \<times> counted_signal" where
  "counted_take s = (let (n, s) = cs_take_count s in (snap_count_of n, s))"

definition latest_probe_publish :: "'a latest_buf \<Rightarrow> 'a \<Rightarrow> (publish_report \<times> 'a latest_buf) exec" where
  "latest_probe_publish producer value = lb_publish producer value"

definition latest_probe_take :: "'a latest_buf \<Rightarrow> ('a latest_item option \<times> 'a latest_buf) exec" where
  "latest_probe_take consumer = lb_take_latest consumer"

definition latest_producer_reacquire :: "u32 latest_buf \<Rightarrow> bool \<times> u32 latest_buf" where
  "latest_producer_reacquire channel =
     (case lb_try_producer channel of
        (Some producer, channel) \<Rightarrow> (True, lb_drop_producer channel)
      | (None, channel) \<Rightarrow> (False, channel))"

definition latest_consumer_reacquire :: "u32 latest_buf \<Rightarrow> bool \<times> u32 latest_buf" where
  "latest_consumer_reacquire channel =
     (case lb_try_consumer channel of
        (Some consumer, channel) \<Rightarrow> (True, lb_drop_consumer channel)
      | (None, channel) \<Rightarrow> (False, channel))"

section \<open>Completing a block and publishing it\<close>

definition block_publish_probe ::
  "'a block_builder \<Rightarrow> 'a block event_buf \<Rightarrow> u32 \<Rightarrow> 'a \<Rightarrow> (bool \<times> 'a block_builder \<times> 'a block event_buf) exec" where
  "block_publish_probe fill tx sequence sample = do {
     (r, fill) \<leftarrow> bb_push fill sequence sample;
     (case r of
        Inr (Some block) \<Rightarrow> do {
          (res, tx) \<leftarrow> eb_push tx block;
          Some (res = Inr (), fill, tx)
        }
      | Inr None \<Rightarrow> Some (False, fill, tx)
      | Inl _ \<Rightarrow> Some (False, fill, tx))
   }"

definition latest_complete_probe ::
  "'a block_builder_shape \<Rightarrow> 'a block_shape latest_buf \<Rightarrow> u32 \<Rightarrow> 'a \<Rightarrow>
   (bool \<times> 'a block_builder_shape \<times> 'a block_shape latest_buf) exec" where
  "latest_complete_probe fill producer sequence sample = do {
     (r, fill) \<leftarrow> bbs_push fill sequence sample;
     (case r of
        Inr (Some block) \<Rightarrow> do {
          (report, producer) \<leftarrow> lb_publish producer block;
          Some (pr_replaced_unread report, fill, producer)
        }
      | Inr None \<Rightarrow> Some (False, fill, producer)
      | Inl _ \<Rightarrow> Some (False, fill, producer))
   }"

section \<open>What bring-up returns\<close>

lemma eb_handles_simps [simp]:
  "eb_fifo_ok (b\<lparr>eb_producer_taken := p\<rparr>) = eb_fifo_ok b" "eb_fifo_ok (b\<lparr>eb_consumer_taken := c\<rparr>) = eb_fifo_ok b"
  "eb_contents (b\<lparr>eb_producer_taken := p\<rparr>) = eb_contents b" "eb_contents (b\<lparr>eb_consumer_taken := c\<rparr>) = eb_contents b"
  "eb_capacity (b\<lparr>eb_producer_taken := p\<rparr>) = eb_capacity b" "eb_capacity (b\<lparr>eb_consumer_taken := c\<rparr>) = eb_capacity b"
  by (simp_all add: eb_fifo_ok_def eb_wf_def eb_contents_def eb_slot_def eb_count_def eb_capacity_def)

lemma eb_flag_as_it_was:
  "\<not> eb_producer_taken b \<Longrightarrow> b\<lparr>eb_producer_taken := False\<rparr> = b"
  "\<not> eb_consumer_taken b \<Longrightarrow> b\<lparr>eb_consumer_taken := False\<rparr> = b"
  "eb_producer_taken b \<Longrightarrow> b\<lparr>eb_producer_taken := True\<rparr> = b"
  "eb_consumer_taken b \<Longrightarrow> b\<lparr>eb_consumer_taken := True\<rparr> = b"
  "\<lbrakk>\<not> eb_producer_taken b; \<not> eb_consumer_taken b\<rbrakk> \<Longrightarrow> b\<lparr>eb_producer_taken := False, eb_consumer_taken := False\<rparr> = b"
  "\<lbrakk>\<not> eb_producer_taken b; eb_consumer_taken b\<rbrakk> \<Longrightarrow> b\<lparr>eb_producer_taken := False, eb_consumer_taken := True\<rparr> = b"
  by (cases b; simp)+

text \<open>A push followed by a pop: the new value goes in behind the queued ones and the oldest comes out.\<close>

lemma push_then_pop:
  assumes "eb_fifo_ok b" and "length (eb_contents b) < eb_capacity b"
  obtains b1 b2 where "eb_push b v = Some (Inr (), b1)" "eb_pop b1 = Some (Some (hd (eb_contents b @ [v])), b2)"
    "eb_fifo_ok b2" "eb_contents b2 = tl (eb_contents b @ [v])" "eb_capacity b2 = eb_capacity b"
proof -
  from eb_fifo.push_room [OF assms, of v] obtain b1 where
    b1: "eb_push b v = Some (Inr (), b1)" "eb_fifo_ok b1" "eb_capacity b1 = eb_capacity b"
      "eb_contents b1 = eb_contents b @ [v]" by blast
  have "eb_contents b1 = hd (eb_contents b @ [v]) # tl (eb_contents b @ [v])" using b1(4) by simp
  from eb_fifo.pop_some [OF b1(2) this] b1(1,3) that show thesis by auto
qed

text \<open>
  The result code tells which step failed, in the order of the code, and every failure leaves the queue
  as it was; success moves the queue on by one value and frees both roles. The code \<open>-4\<close> is never returned.
\<close>

lemma bringup_codes:
  assumes ok: "eb_fifo_ok b"
  shows "\<exists>code b'. bringup_two_calls b = Some (code, b') \<and>
    code = (if eb_producer_taken b then - 1 else if eb_consumer_taken b then - 2
            else if eb_capacity b \<le> length (eb_contents b) then - 3 else 0) \<and>
    (if code = 0 then eb_contents b' = tl (eb_contents b @ [1]) \<and> eb_fifo_ok b' \<and> eb_capacity b' = eb_capacity b \<and>
       \<not> eb_producer_taken b' \<and> \<not> eb_consumer_taken b'
     else b' = b)"
proof -
  let ?c = "b\<lparr>eb_producer_taken := True, eb_consumer_taken := True\<rparr>"
  have claim: "eb_try_producer b = (if eb_producer_taken b then None else Some EbProducer, b\<lparr>eb_producer_taken := True\<rparr>)"
    "eb_try_consumer (b\<lparr>eb_producer_taken := True\<rparr>)
      = (if eb_consumer_taken b then None else Some EbConsumer, ?c)"
    by (simp_all add: eb_try_producer_def eb_try_consumer_def)
  note same = eb_flag_as_it_was [of b]
  consider "eb_producer_taken b" | "\<not> eb_producer_taken b" "eb_consumer_taken b"
    | "\<not> eb_producer_taken b" "\<not> eb_consumer_taken b" "eb_capacity b \<le> length (eb_contents b)"
    | "\<not> eb_producer_taken b" "\<not> eb_consumer_taken b" "length (eb_contents b) < eb_capacity b" by linarith
  then show ?thesis
  proof cases
    case 1
    then show ?thesis by (simp add: bringup_two_calls_def claim same)
  next
    case 2
    then show ?thesis by (simp add: bringup_two_calls_def claim same eb_drop_producer_def)
  next
    case 3
    have "eb_push ?c 1 = Some (Inl 1, ?c)" using 3(3) ok by (intro eb_fifo.push_full) simp_all
    then show ?thesis using 3
      by (simp add: bringup_two_calls_def claim same eb_drop_producer_def eb_drop_consumer_def)
  next
    case 4
    have "eb_fifo_ok ?c" "length (eb_contents ?c) < eb_capacity ?c" using ok 4 by simp_all
    then obtain b1 b2 where b2: "eb_push ?c 1 = Some (Inr (), b1)"
      "eb_pop b1 = Some (Some (hd (eb_contents ?c @ [1])), b2)" "eb_fifo_ok b2"
      "eb_contents b2 = tl (eb_contents ?c @ [1])" "eb_capacity b2 = eb_capacity ?c"
      by (rule push_then_pop)
    then show ?thesis using 4
      by (simp add: bringup_two_calls_def claim eb_drop_producer_def eb_drop_consumer_def)
  qed
qed

lemma acquire_roles_codes:
  "event_flags_acquire_roles f =
     (if ef_producer_taken f then (- 1, f) else if ef_consumer_taken f then (- 2, f)
      else (0, f\<lparr>ef_producer_taken := True, ef_consumer_taken := True\<rparr>))"
  by (cases f) (simp add: event_flags_acquire_roles_def ef_try_producer_def ef_try_consumer_def ef_drop_producer_def)

lemma producer_reacquire_result: "latest_producer_reacquire b = (\<not> lb_producer_taken b, b)"
  by (cases b) (simp add: latest_producer_reacquire_def lb_try_producer_def lb_drop_producer_def Let_def)

lemma consumer_reacquire_result: "latest_consumer_reacquire b = (\<not> lb_consumer_taken b, b)"
  by (cases b) (simp add: latest_consumer_reacquire_def lb_try_consumer_def lb_drop_consumer_def Let_def)

section \<open>What a publication returns\<close>

text \<open>The sample \<open>s\<close> is accepted after the window \<open>w\<close> and is the last of a block of \<open>N\<close>.\<close>

definition completes :: "nat \<Rightarrow> (u32 \<times> 'a) list \<Rightarrow> u32 \<Rightarrow> bool" where
  "completes N w s \<longleftrightarrow> s \<noteq> 0 \<and> (w \<noteq> [] \<longrightarrow> s = number_after (fst (last w))) \<and> length w + 1 = N"

lemma fill_spec_completes:
  "completes N w s \<Longrightarrow> fill_spec N w s x = (Inr (Some (block_of (w @ [(s, x)]))), [])"
  by (auto simp: completes_def fill_spec_def)

lemma fill_spec_incomplete: "\<not> completes N w s \<Longrightarrow> fst (fill_spec N w s x) \<noteq> Inr (Some block)"
  by (auto simp: completes_def fill_spec_def)

text \<open>
  Through the queue: the call answers \<open>true\<close> exactly if the sample completed the block and the queue took
  it. A full queue drops the completed block, and the builder has already begun the next window.
\<close>

lemma block_publish_result:
  fixes s :: u32
  assumes fill: "bb_holds fill w" and tx: "eb_fifo_ok tx"
  defines "sent \<equiv> completes (bb_capacity fill) w s \<and> length (eb_contents tx) < eb_capacity tx"
  shows "\<exists>fill' tx'. block_publish_probe fill tx s x = Some (sent, fill', tx') \<and>
    bb_holds fill' (snd (fill_spec (bb_capacity fill) w s x)) \<and> eb_fifo_ok tx' \<and>
    eb_contents tx' = (if sent then eb_contents tx @ [block_of (w @ [(s, x)])] else eb_contents tx)"
proof -
  from bb_push_refines [OF fill, of s x] obtain fill' where
    push: "bb_push fill s x = Some (fst (fill_spec (bb_capacity fill) w s x), fill')"
      "bb_holds fill' (snd (fill_spec (bb_capacity fill) w s x))" by blast
  show ?thesis
  proof (cases "completes (bb_capacity fill) w s")
    case True
    let ?block = "block_of (w @ [(s, x)])"
    note spec = fill_spec_completes [OF True, of x]
    show ?thesis
    proof (cases "length (eb_contents tx) < eb_capacity tx")
      case room: True
      from eb_fifo.push_room [OF tx room, of ?block] obtain tx' where
        "eb_push tx ?block = Some (Inr (), tx')" "eb_fifo_ok tx'" "eb_contents tx' = eb_contents tx @ [?block]" by blast
      then show ?thesis using True push room by (simp add: block_publish_probe_def spec sent_def)
    next
      case full: False
      then have "eb_push tx ?block = Some (Inl ?block, tx)" using tx by (intro eb_fifo.push_full) simp_all
      then show ?thesis using True push full tx by (simp add: block_publish_probe_def spec sent_def)
    qed
  next
    case False
    then have "block_publish_probe fill tx s x = Some (False, fill', tx)"
      using push(1) fill_spec_incomplete [OF False, of x]
      by (cases "fst (fill_spec (bb_capacity fill) w s x)") (auto simp: block_publish_probe_def split: option.splits)
    then show ?thesis using push(2) tx False by (simp add: sent_def)
  qed
qed

text \<open>
  Through the latest-value exchange, with the structural twin as builder: every completed block is
  published, and the answer says whether it displaced one that had not been taken.
\<close>

lemma latest_complete_result:
  fixes s :: u32
  assumes fill: "bb_holds (twin_builder fill) w" and rep: "lb_rep producer hist c"
  defines "whole \<equiv> completes (length (bbs_samples fill)) w s"
  shows "\<exists>fill' producer' block. latest_complete_probe fill producer s x
      = Some (whole \<and> c < length hist, fill', producer') \<and>
    bb_holds (twin_builder fill') (snd (fill_spec (length (bbs_samples fill)) w s x)) \<and>
    lb_rep producer' (if whole then hist @ [block] else hist) c \<and>
    (whole \<longrightarrow> twin_block block = block_of (w @ [(s, x)]))"
proof -
  let ?N = "length (bbs_samples fill)"
  have cap: "bb_capacity (twin_builder fill) = ?N" by (simp add: twin_builder_def bb_capacity_def)
  from bb_push_refines [OF fill, of s x] obtain r fill' where
    push: "bbs_push fill s x = Some (r, fill')" "twin_result r = fst (fill_spec ?N w s x)"
      "bb_holds (twin_builder fill') (snd (fill_spec ?N w s x))" unfolding twin_push cap by auto
  show ?thesis
  proof (cases "completes ?N w s")
    case True
    from push(2) obtain block where
      r: "r = Inr (Some block)" "twin_block block = block_of (w @ [(s, x)])"
      by (cases r) (auto simp: fill_spec_completes [OF True] twin_result_def)
    from lb_publish_rep [OF rep, of block] obtain producer' where
      "lb_publish producer block = Some (\<lparr>pr_generation = seq_at (Suc (length hist)),
        pr_replaced_unread = (c < length hist)\<rparr>, producer')" "lb_rep producer' (hist @ [block]) c" by blast
    then show ?thesis using True push r by (auto simp: latest_complete_probe_def whole_def)
  next
    case False
    have "\<nexists>block. r = Inr (Some block)"
    proof
      assume "\<exists>block. r = Inr (Some block)"
      then obtain block where "r = Inr (Some block)" ..
      with push(2) fill_spec_incomplete [OF False, of x "twin_block block"] show False
        by (simp add: twin_result_def)
    qed
    then have "latest_complete_probe fill producer s x = Some (False, fill', producer)"
      using push(1) by (cases r) (auto simp: latest_complete_probe_def split: option.splits)
    then show ?thesis using push(3) rep False by (simp add: whole_def)
  qed
qed

end
