(* ===== verification/Probe_Cycles.thy ===== *)
theory Probe_Cycles
  imports Probes Ring SeqRing_Api "HOL-Library.Multiset"
begin

text \<open>
  The instruction-cost probe (\<open>scripts/cycles/src/main.rs\<close>). Its figures mean something only if each
  measured region runs the path its label names, and if no two markers of a build can be confused. Both
  are facts about the library's semantics, and both are proved here: the program is run on the models of
  the containers, and what a label says is checked (\<open>label_ok\<close>) against the state each region starts in and what its
  operation then does.

  A region is \<open>m_label(); operation; m_end();\<close>. It is modelled as its marker, what it finds (\<open>scene\<close>), and what
  the operation returned; \<open>black_box\<close> is the identity. \<open>expect\<close> panics (\<open>None\<close>) on a missing value. The
  markers whose names the source spells out by width, length and path have these as arguments.
\<close>

section \<open>Markers\<close>

datatype row = RowAccepted | RowRejected | RowFirst | RowReplace | RowPending | RowEmpty

datatype lb_payload = LbU32 | LbW16 | LbBlock128

datatype marker =
    m_end | m_overhead
  | m_eb_push_empty | m_eb_push_nearly_full | m_eb_push_full_rejected | m_eb_pop_full | m_eb_pop_empty
  | m_eb_peek | m_eb_len
  | m_sr_push_empty | m_sr_push_overwriting | m_sr_poll_value | m_sr_poll_empty | m_sr_poll_lagged | m_sr_latest
  | m_rb_push_empty | m_rb_push_overwriting | m_rb_get | m_rb_latest | m_sr_poll_lagged_far
  | m_cs_increment | m_cs_take_count | m_cs_increment_saturated
  | m_ef_raise_clear | m_ef_raise_already_set | m_ef_take_nonempty | m_ef_take_empty
  | m_bp nat nat row
  | m_lc_sample nat row | m_lc_block nat nat row | m_lc_complete nat nat row
  | m_lb lb_payload row | m_lb_producer_drop | m_lb_producer_reacquire | m_lb_consumer_drop | m_lb_consumer_reacquire

text \<open>The four \<open>markers!\<close> invocations, each with the immediate that its marker's body embeds.\<close>

definition default_markers :: "(nat \<times> marker) list" where
  "default_markers =
    [(0, m_end), (1, m_overhead),
     (2, m_eb_push_empty), (3, m_eb_push_nearly_full), (4, m_eb_push_full_rejected), (5, m_eb_pop_full),
     (6, m_eb_pop_empty), (7, m_eb_peek), (8, m_eb_len),
     (9, m_sr_push_empty), (10, m_sr_push_overwriting), (11, m_sr_poll_value), (12, m_sr_poll_empty),
     (13, m_sr_poll_lagged), (14, m_sr_latest),
     (15, m_rb_push_empty), (16, m_rb_push_overwriting), (17, m_rb_get), (18, m_rb_latest), (19, m_sr_poll_lagged_far),
     (20, m_cs_increment), (21, m_cs_take_count), (22, m_cs_increment_saturated),
     (23, m_ef_raise_clear), (24, m_ef_raise_already_set), (25, m_ef_take_nonempty), (26, m_ef_take_empty)]"

definition block_markers :: "(nat \<times> marker) list" where
  "block_markers =
    [(0, m_end), (1, m_overhead),
     (20, m_bp 2 8 RowAccepted), (21, m_bp 2 8 RowRejected), (22, m_bp 2 32 RowAccepted), (23, m_bp 2 32 RowRejected),
     (24, m_bp 2 128 RowAccepted), (25, m_bp 2 128 RowRejected), (26, m_bp 8 8 RowAccepted), (27, m_bp 8 8 RowRejected),
     (28, m_bp 8 32 RowAccepted), (29, m_bp 8 32 RowRejected), (30, m_bp 8 128 RowAccepted), (31, m_bp 8 128 RowRejected),
     (32, m_bp 16 8 RowAccepted), (33, m_bp 16 8 RowRejected), (34, m_bp 16 32 RowAccepted), (35, m_bp 16 32 RowRejected),
     (36, m_bp 16 128 RowAccepted), (37, m_bp 16 128 RowRejected)]"

definition latest_block_markers :: "(nat \<times> marker) list" where
  "latest_block_markers =
    [(0, m_end), (1, m_overhead),
     (50, m_lc_sample 2 RowFirst), (51, m_lc_sample 2 RowReplace), (52, m_lc_sample 2 RowPending), (53, m_lc_sample 2 RowEmpty),
     (54, m_lc_sample 8 RowFirst), (55, m_lc_sample 8 RowReplace), (56, m_lc_sample 8 RowPending), (57, m_lc_sample 8 RowEmpty),
     (58, m_lc_sample 16 RowFirst), (59, m_lc_sample 16 RowReplace), (60, m_lc_sample 16 RowPending), (61, m_lc_sample 16 RowEmpty),
     (62, m_lc_block 2 8 RowFirst), (63, m_lc_block 2 8 RowReplace), (64, m_lc_block 2 8 RowPending), (65, m_lc_block 2 8 RowEmpty),
     (66, m_lc_block 2 32 RowFirst), (67, m_lc_block 2 32 RowReplace), (68, m_lc_block 2 32 RowPending), (69, m_lc_block 2 32 RowEmpty),
     (70, m_lc_block 2 128 RowFirst), (71, m_lc_block 2 128 RowReplace), (72, m_lc_block 2 128 RowPending), (73, m_lc_block 2 128 RowEmpty),
     (74, m_lc_block 8 8 RowFirst), (75, m_lc_block 8 8 RowReplace), (76, m_lc_block 8 8 RowPending), (77, m_lc_block 8 8 RowEmpty),
     (78, m_lc_block 8 32 RowFirst), (79, m_lc_block 8 32 RowReplace), (80, m_lc_block 8 32 RowPending), (81, m_lc_block 8 32 RowEmpty),
     (82, m_lc_block 8 128 RowFirst), (83, m_lc_block 8 128 RowReplace), (84, m_lc_block 8 128 RowPending), (85, m_lc_block 8 128 RowEmpty),
     (86, m_lc_block 16 8 RowFirst), (87, m_lc_block 16 8 RowReplace), (88, m_lc_block 16 8 RowPending), (89, m_lc_block 16 8 RowEmpty),
     (90, m_lc_block 16 32 RowFirst), (91, m_lc_block 16 32 RowReplace), (92, m_lc_block 16 32 RowPending), (93, m_lc_block 16 32 RowEmpty),
     (94, m_lc_block 16 128 RowFirst), (95, m_lc_block 16 128 RowReplace), (96, m_lc_block 16 128 RowPending), (97, m_lc_block 16 128 RowEmpty),
     (100, m_lc_complete 2 8 RowFirst), (101, m_lc_complete 2 8 RowReplace), (102, m_lc_complete 2 32 RowFirst), (103, m_lc_complete 2 32 RowReplace),
     (104, m_lc_complete 2 128 RowFirst), (105, m_lc_complete 2 128 RowReplace), (106, m_lc_complete 8 8 RowFirst), (107, m_lc_complete 8 8 RowReplace),
     (108, m_lc_complete 8 32 RowFirst), (109, m_lc_complete 8 32 RowReplace), (110, m_lc_complete 8 128 RowFirst), (111, m_lc_complete 8 128 RowReplace),
     (112, m_lc_complete 16 8 RowFirst), (113, m_lc_complete 16 8 RowReplace), (114, m_lc_complete 16 32 RowFirst), (115, m_lc_complete 16 32 RowReplace),
     (116, m_lc_complete 16 128 RowFirst), (117, m_lc_complete 16 128 RowReplace)]"

definition latest_markers :: "(nat \<times> marker) list" where
  "latest_markers =
    [(0, m_end), (1, m_overhead),
     (20, m_lb LbU32 RowFirst), (21, m_lb LbU32 RowReplace), (22, m_lb LbU32 RowPending), (23, m_lb LbU32 RowEmpty),
     (24, m_lb LbW16 RowFirst), (25, m_lb LbW16 RowReplace), (26, m_lb LbW16 RowPending), (27, m_lb LbW16 RowEmpty),
     (28, m_lb LbBlock128 RowFirst), (29, m_lb LbBlock128 RowReplace), (30, m_lb LbBlock128 RowPending), (31, m_lb LbBlock128 RowEmpty),
     (32, m_lb_producer_drop), (33, m_lb_producer_reacquire), (34, m_lb_consumer_drop), (35, m_lb_consumer_reacquire)]"

section \<open>Regions\<close>

text \<open>
  What the operation of a region returned. For an operation that returns nothing, an increment or a raise
  is read by the word it leaves in the shared state, a push of the ring by the length it leaves, the drop of a
  handle by the claim flag it leaves.
\<close>

datatype 'a reading =
    ReadUnit
  | ReadPush "'a + unit"
  | ReadValue "'a option"
  | ReadLen usize
  | ReadWord u32
  | ReadSeq u32
  | ReadNumbered "(u32 \<times> 'a) option"
  | ReadMask event_mask
  | ReadCount count_snapshot
  | ReadReport publish_report
  | ReadItem "'a latest_item option"
  | ReadClaim bool
  | ReadTaken bool

text \<open>
  What a region finds: the elements of a container and its capacity; the newest sequence number, the consumer's and
  the capacity; a shared word; how many generations a channel has published and whether the last one is unread;
  a claim flag. \<open>Carrying\<close> adds the bytes of a sample and the number of samples of the payload; \<open>Completing\<close> adds the
  bytes of a sample, the samples a builder holds and its capacity.
\<close>

datatype scene =
    NoScene
  | Elements usize usize
  | Sequences u32 u32 usize
  | SharedWord u32
  | Channel u32 bool
  | RoleFlag bool
  | Carrying "nat \<times> nat" scene
  | Completing nat usize usize scene

definition queue_scene :: "'a event_buf \<Rightarrow> scene" where
  "queue_scene b = Elements (eb_len b) (eb_capacity b)"

definition seq_scene :: "'a seq_ring \<Rightarrow> sr_consumer \<Rightarrow> scene" where
  "seq_scene r c = Sequences (sr_newest_seq r) (sc_last_seq c) (sr_capacity r)"

definition ring_scene :: "'a ring_buf \<Rightarrow> scene" where
  "ring_scene r = Elements (ring_len r) (ring_capacity r)"

definition channel_scene :: "'a latest_buf \<Rightarrow> scene" where
  "channel_scene c = Channel (next_generation (lb_producer c)) (lb_ready (lb_exchange c))"

text \<open>\<open>size_of\<close> for the sample types of the matrices, and what a payload consists of.\<close>

definition word_bytes :: "'w::len word \<Rightarrow> nat" where
  "word_bytes w = size w div 8"

definition array_bytes :: "'w::len word list \<Rightarrow> nat" where
  "array_bytes ws = sum_list (map word_bytes ws)"

definition sample_dims :: "('a \<Rightarrow> nat) \<Rightarrow> 'a \<Rightarrow> nat \<times> nat" where
  "sample_dims bytes v = (bytes v, 1)"

definition block_dims :: "('a \<Rightarrow> nat) \<Rightarrow> 'a block_shape \<Rightarrow> nat \<times> nat" where
  "block_dims bytes b = (bytes (hd (bsh_samples b)), length (bsh_samples b))"

type_synonym 'a regions = "(marker \<times> scene \<times> 'a reading) list"

text \<open>\<open>while rx.pop().is_some() {}\<close>: each round takes a value or stops.\<close>

partial_function (option) pop_all :: "'a event_buf \<Rightarrow> 'a event_buf exec" where
  "pop_all b = do {
     (v, b) \<leftarrow> eb_pop b;
     (if v \<noteq> None then pop_all b else Some b)
   }"

text \<open>\<open>for i in vs { tx.push(i).ok(); }\<close>: rejections are ignored.\<close>

fun push_ok_each :: "'a event_buf \<Rightarrow> 'a list \<Rightarrow> 'a event_buf exec" where
  "push_ok_each b [] = Some b"
| "push_ok_each b (v # vs) = do { (r, b) \<leftarrow> eb_push b v; push_ok_each b vs }"

definition event_buf_costs :: "u32 regions exec" where
  "event_buf_costs = do {
     let buf = eb_new 8;
     buf \<leftarrow> claim (eb_try_producer buf);
     buf \<leftarrow> claim (eb_try_consumer buf);
     let s1 = queue_scene buf;
     (r1, buf) \<leftarrow> eb_push buf 1;
     buf \<leftarrow> push_ok_each buf (map of_nat [2..<8]);
     let s2 = queue_scene buf;
     (r2, buf) \<leftarrow> eb_push buf 8;
     let s3 = queue_scene buf;
     (r3, buf) \<leftarrow> eb_push buf 99;
     let s4 = queue_scene buf;
     r4 \<leftarrow> eb_peek buf;
     let s5 = queue_scene buf;
     let r5 = eb_len buf;
     let s6 = queue_scene buf;
     (r6, buf) \<leftarrow> eb_pop buf;
     buf \<leftarrow> pop_all buf;
     let s7 = queue_scene buf;
     (r7, buf) \<leftarrow> eb_pop buf;
     Some [(m_eb_push_empty, s1, ReadPush r1), (m_eb_push_nearly_full, s2, ReadPush r2),
       (m_eb_push_full_rejected, s3, ReadPush r3), (m_eb_peek, s4, ReadValue r4), (m_eb_len, s5, ReadLen r5),
       (m_eb_pop_full, s6, ReadValue r6), (m_eb_pop_empty, s7, ReadValue r7)]
   }"

definition seq_ring_costs :: "usize \<Rightarrow> u32 regions exec" where
  "seq_ring_costs U = do {
     let ring = sr_new 8;
     ring \<leftarrow> claim (sr_try_producer ring);
     let acquired = sr_try_consumer ring;
     ring \<leftarrow> claim acquired;
     rx \<leftarrow> fst acquired;
     let s1 = seq_scene ring rx;
     (r1, ring) \<leftarrow> sr_push ring 1;
     let s2 = seq_scene ring rx;
     (r2, rx, ring) \<leftarrow> sr_poll_one_value U rx ring;
     let s3 = seq_scene ring rx;
     (r3, rx, ring) \<leftarrow> sr_poll_one_value U rx ring;
     ring \<leftarrow> sr_push_all ring (map of_nat [0..<16]);
     let s4 = seq_scene ring rx;
     (r4, ring) \<leftarrow> sr_push ring 99;
     let s5 = seq_scene ring rx;
     r5 \<leftarrow> sr_latest_value ring;
     let s6 = seq_scene ring rx;
     (r6, rx, ring) \<leftarrow> sr_poll_one_value U rx ring;
     ring \<leftarrow> sr_push_all ring (map of_nat [0..<2000]);
     let s7 = seq_scene ring rx;
     (r7, rx, ring) \<leftarrow> sr_poll_one_value U rx ring;
     Some [(m_sr_push_empty, s1, ReadSeq r1), (m_sr_poll_value, s2, ReadNumbered r2), (m_sr_poll_empty, s3, ReadNumbered r3),
       (m_sr_push_overwriting, s4, ReadSeq r4), (m_sr_latest, s5, ReadNumbered r5), (m_sr_poll_lagged, s6, ReadNumbered r6),
       (m_sr_poll_lagged_far, s7, ReadNumbered r7)]
   }"

fun ring_push_each :: "usize \<Rightarrow> 'a ring_buf \<Rightarrow> 'a list \<Rightarrow> 'a ring_buf exec" where
  "ring_push_each U r [] = Some r"
| "ring_push_each U r (v # vs) = do { r \<leftarrow> ring_push U r v; ring_push_each U r vs }"

definition ring_buf_costs :: "usize \<Rightarrow> u32 regions exec" where
  "ring_buf_costs U = do {
     let ring = ring_new 8;
     let s1 = ring_scene ring;
     ring \<leftarrow> ring_push U ring 1;
     let r1 = ring_len ring;
     ring \<leftarrow> ring_push_each U ring (map of_nat [2..<9]);
     let s2 = ring_scene ring;
     ring \<leftarrow> ring_push U ring 9;
     let r2 = ring_len ring;
     let s3 = ring_scene ring;
     r3 \<leftarrow> ring_get ring 3;
     let s4 = ring_scene ring;
     r4 \<leftarrow> ring_latest ring;
     Some [(m_rb_push_empty, s1, ReadLen r1), (m_rb_push_overwriting, s2, ReadLen r2), (m_rb_get, s3, ReadValue r3),
       (m_rb_latest, s4, ReadValue r4)]
   }"

definition counted_signal_costs :: "u32 regions exec" where
  "counted_signal_costs = do {
     let signal = cs_new;
     signal \<leftarrow> claim (cs_try_producer signal);
     signal \<leftarrow> claim (cs_try_consumer signal);
     let s1 = SharedWord (cs_count signal);
     let signal = cs_increment signal;
     let r1 = cs_count signal;
     let s2 = SharedWord (cs_count signal);
     let (n, signal) = cs_take_count signal;
     Some [(m_cs_increment, s1, ReadWord r1), (m_cs_take_count, s2, ReadCount n)]
   }"

definition counted_signal_saturated_costs :: "u32 regions exec" where
  "counted_signal_saturated_costs = do {
     let saturated = cs_with_count_for_probe u32_MAX;
     saturated \<leftarrow> claim (cs_try_producer saturated);
     let s1 = SharedWord (cs_count saturated);
     let saturated = cs_increment saturated;
     Some [(m_cs_increment_saturated, s1, ReadWord (cs_count saturated))]
   }"

definition event_flags_costs :: "u32 regions exec" where
  "event_flags_costs = do {
     let flags = ef_new;
     flags \<leftarrow> claim (ef_try_producer flags);
     flags \<leftarrow> claim (ef_try_consumer flags);
     let condition = mask_from_bits (push_bit 7 1);
     let s1 = SharedWord (ef_pending flags);
     let flags = ef_raise flags condition;
     let r1 = ef_pending flags;
     let s2 = SharedWord (ef_pending flags);
     let flags = ef_raise flags condition;
     let r2 = ef_pending flags;
     let s3 = SharedWord (ef_pending flags);
     let (r3, flags) = ef_take_all flags;
     let s4 = SharedWord (ef_pending flags);
     let (r4, flags) = ef_take_all flags;
     Some [(m_ef_raise_clear, s1, ReadWord r1), (m_ef_raise_already_set, s2, ReadWord r2),
       (m_ef_take_nonempty, s3, ReadMask r3), (m_ef_take_empty, s4, ReadMask r4)]
   }"

text \<open>
  \<open>measure_block_shape!\<close>: a builder is filled up to its last sample, the region completes the block and
  publishes it through a queue of one block; a second builder then meets the full queue.
\<close>

fun fill_each :: "'a block_builder \<Rightarrow> (u32 \<times> 'a) list \<Rightarrow> 'a block_builder exec" where
  "fill_each fill [] = Some fill"
| "fill_each fill ((s, x) # w) = do { (r, fill) \<leftarrow> bb_push fill s x; fill_each fill w }"

definition expect_block :: "('e + 'b option) \<times> 's \<Rightarrow> ('b \<times> 's) exec" where
  "expect_block rs = (case fst rs of Inr (Some block) \<Rightarrow> Some (block, snd rs) | _ \<Rightarrow> None)"

definition measure_block_shape :: "('a \<Rightarrow> nat) \<Rightarrow> nat \<Rightarrow> 'a \<Rightarrow> marker \<Rightarrow> marker \<Rightarrow> 'a block regions exec" where
  "measure_block_shape bytes n v m_accepted m_rejected = do {
     accepted_fill \<leftarrow> fill_each (bb_new n) (map (\<lambda>k. (of_nat k, v)) [1..<n]);
     let queue = eb_new 1;
     tx \<leftarrow> claim (eb_try_producer queue);
     let s1 = Completing (bytes v) (bb_len accepted_fill) (bb_capacity accepted_fill) (queue_scene tx);
     res \<leftarrow> bb_push accepted_fill (of_nat n) v;
     (block, accepted_fill) \<leftarrow> expect_block res;
     (r1, tx) \<leftarrow> eb_push tx block;
     rejected_fill \<leftarrow> fill_each (bb_new n) (map (\<lambda>k. (of_nat k, v)) [1..<n]);
     let s2 = Completing (bytes v) (bb_len rejected_fill) (bb_capacity rejected_fill) (queue_scene tx);
     res \<leftarrow> bb_push rejected_fill (of_nat n) v;
     (block, rejected_fill) \<leftarrow> expect_block res;
     (r2, tx) \<leftarrow> eb_push tx block;
     Some [(m_accepted, s1, ReadPush r1), (m_rejected, s2, ReadPush r2)]
   }"

definition measure_latest_payload ::
  "('a \<Rightarrow> nat \<times> nat) \<Rightarrow> 'a \<Rightarrow> 'a \<Rightarrow> marker \<Rightarrow> marker \<Rightarrow> marker \<Rightarrow> marker \<Rightarrow> 'a regions exec" where
  "measure_latest_payload dims v1 v2 publish_first publish_replace take_pending take_empty = do {
     let channel = lb_new;
     channel \<leftarrow> claim (lb_try_producer channel);
     channel \<leftarrow> claim (lb_try_consumer channel);
     let s1 = Carrying (dims v1) (channel_scene channel);
     (r1, channel) \<leftarrow> lb_publish channel v1;
     let s2 = Carrying (dims v2) (channel_scene channel);
     (r2, channel) \<leftarrow> lb_publish channel v2;
     let s3 = Carrying (dims v2) (channel_scene channel);
     (r3, channel) \<leftarrow> lb_take_latest channel;
     let s4 = Carrying (dims v2) (channel_scene channel);
     (r4, channel) \<leftarrow> lb_take_latest channel;
     Some [(publish_first, s1, ReadReport r1), (publish_replace, s2, ReadReport r2), (take_pending, s3, ReadItem r3),
       (take_empty, s4, ReadItem r4)]
   }"

fun fill_shape_each :: "'a block_builder_shape \<Rightarrow> (u32 \<times> 'a) list \<Rightarrow> 'a block_builder_shape exec" where
  "fill_shape_each fill [] = Some fill"
| "fill_shape_each fill ((s, x) # w) = do { (r, fill) \<leftarrow> bbs_push fill s x; fill_shape_each fill w }"

definition measure_complete_publication :: "('a \<Rightarrow> nat) \<Rightarrow> nat \<Rightarrow> 'a \<Rightarrow> marker \<Rightarrow> marker \<Rightarrow> 'a block_shape regions exec" where
  "measure_complete_publication bytes n v publish_first publish_replace = do {
     let channel = lb_new;
     channel \<leftarrow> claim (lb_try_producer channel);
     first_fill \<leftarrow> fill_shape_each (bbs_new n) (map (\<lambda>k. (of_nat k, v)) [1..<n]);
     let s1 = Completing (bytes v) (bbs_len first_fill) (length (bbs_samples first_fill)) (channel_scene channel);
     res \<leftarrow> bbs_push first_fill (of_nat n) v;
     (block, first_fill) \<leftarrow> expect_block res;
     (r1, channel) \<leftarrow> lb_publish channel block;
     replacement_fill \<leftarrow> fill_shape_each (bbs_new n) (map (\<lambda>k. (of_nat k, v)) [1..<n]);
     let s2 = Completing (bytes v) (bbs_len replacement_fill) (length (bbs_samples replacement_fill)) (channel_scene channel);
     res \<leftarrow> bbs_push replacement_fill (of_nat n) v;
     (block, replacement_fill) \<leftarrow> expect_block res;
     (r2, channel) \<leftarrow> lb_publish channel block;
     Some [(publish_first, s1, ReadReport r1), (publish_replace, s2, ReadReport r2)]
   }"

text \<open>The role rows of \<open>latest_buf_costs\<close>.\<close>

definition latest_role_costs :: "u32 regions exec" where
  "latest_role_costs = do {
     let channel = (lb_new :: u32 latest_buf);
     channel \<leftarrow> claim (lb_try_producer channel);
     channel \<leftarrow> claim (lb_try_consumer channel);
     let s1 = RoleFlag (lb_producer_taken channel);
     let channel = lb_drop_producer channel;
     let r1 = lb_producer_taken channel;
     let s2 = RoleFlag (lb_producer_taken channel);
     let (producer, channel) = lb_try_producer channel;
     channel \<leftarrow> claim (producer, channel);
     let channel = lb_drop_producer channel;
     let s3 = RoleFlag (lb_consumer_taken channel);
     let channel = lb_drop_consumer channel;
     let r3 = lb_consumer_taken channel;
     let s4 = RoleFlag (lb_consumer_taken channel);
     let (consumer, channel) = lb_try_consumer channel;
     channel \<leftarrow> claim (consumer, channel);
     let channel = lb_drop_consumer channel;
     Some [(m_lb_producer_drop, s1, ReadTaken r1), (m_lb_producer_reacquire, s2, ReadClaim (producer \<noteq> None)),
       (m_lb_consumer_drop, s3, ReadTaken r3), (m_lb_consumer_reacquire, s4, ReadClaim (consumer \<noteq> None))]
   }"

section \<open>The matrices and the main program\<close>

text \<open>
  The rows of a matrix have different sample types, so the main program keeps of each region only the kind
  of value it read: \<open>erase\<close>.
\<close>

fun erase_reading :: "'a reading \<Rightarrow> unit reading" where
  "erase_reading ReadUnit = ReadUnit"
| "erase_reading (ReadPush r) = ReadPush (map_sum (\<lambda>_. ()) id r)"
| "erase_reading (ReadValue v) = ReadValue (map_option (\<lambda>_. ()) v)"
| "erase_reading (ReadLen n) = ReadLen n"
| "erase_reading (ReadWord w) = ReadWord w"
| "erase_reading (ReadSeq s) = ReadSeq s"
| "erase_reading (ReadNumbered v) = ReadNumbered (map_option (map_prod id (\<lambda>_. ())) v)"
| "erase_reading (ReadMask m) = ReadMask m"
| "erase_reading (ReadCount n) = ReadCount n"
| "erase_reading (ReadReport r) = ReadReport r"
| "erase_reading (ReadItem i) = ReadItem (map_option
     (\<lambda>i. \<lparr>li_value = (), li_generation = li_generation i, li_skipped = li_skipped i\<rparr>) i)"
| "erase_reading (ReadClaim c) = ReadClaim c"
| "erase_reading (ReadTaken c) = ReadTaken c"

definition erase :: "'a regions \<Rightarrow> unit regions" where
  "erase rs = map (map_prod id (map_prod id erase_reading)) rs"

definition block_publication_costs :: "unit regions exec" where
  "block_publication_costs = do {
     r1 \<leftarrow> measure_block_shape word_bytes 8 (1 :: 16 word) (m_bp 2 8 RowAccepted) (m_bp 2 8 RowRejected);
     r2 \<leftarrow> measure_block_shape word_bytes 32 (1 :: 16 word) (m_bp 2 32 RowAccepted) (m_bp 2 32 RowRejected);
     r3 \<leftarrow> measure_block_shape word_bytes 128 (1 :: 16 word) (m_bp 2 128 RowAccepted) (m_bp 2 128 RowRejected);
     r4 \<leftarrow> measure_block_shape word_bytes 8 (1 :: 64 word) (m_bp 8 8 RowAccepted) (m_bp 8 8 RowRejected);
     r5 \<leftarrow> measure_block_shape word_bytes 32 (1 :: 64 word) (m_bp 8 32 RowAccepted) (m_bp 8 32 RowRejected);
     r6 \<leftarrow> measure_block_shape word_bytes 128 (1 :: 64 word) (m_bp 8 128 RowAccepted) (m_bp 8 128 RowRejected);
     r7 \<leftarrow> measure_block_shape array_bytes 8 [1 :: 64 word, 1] (m_bp 16 8 RowAccepted) (m_bp 16 8 RowRejected);
     r8 \<leftarrow> measure_block_shape array_bytes 32 [1 :: 64 word, 1] (m_bp 16 32 RowAccepted) (m_bp 16 32 RowRejected);
     r9 \<leftarrow> measure_block_shape array_bytes 128 [1 :: 64 word, 1] (m_bp 16 128 RowAccepted) (m_bp 16 128 RowRejected);
     Some (erase r1 @ erase r2 @ erase r3 @ erase r4 @ erase r5 @ erase r6 @ erase r7 @ erase r8 @ erase r9)
   }"

definition latest_block_composition_costs :: "unit regions exec" where
  "latest_block_composition_costs = do {
     s1 \<leftarrow> measure_latest_payload (sample_dims word_bytes) (1 :: 16 word) 2 (m_lc_sample 2 RowFirst) (m_lc_sample 2 RowReplace)
       (m_lc_sample 2 RowPending) (m_lc_sample 2 RowEmpty);
     s2 \<leftarrow> measure_latest_payload (sample_dims word_bytes) (1 :: 64 word) 2 (m_lc_sample 8 RowFirst) (m_lc_sample 8 RowReplace)
       (m_lc_sample 8 RowPending) (m_lc_sample 8 RowEmpty);
     s3 \<leftarrow> measure_latest_payload (sample_dims array_bytes) [1 :: 64 word, 1] [2, 2] (m_lc_sample 16 RowFirst) (m_lc_sample 16 RowReplace)
       (m_lc_sample 16 RowPending) (m_lc_sample 16 RowEmpty);
     b1 \<leftarrow> measure_latest_payload (block_dims word_bytes) (bsh_filled 8 (1 :: 16 word)) (bsh_filled 8 2) (m_lc_block 2 8 RowFirst)
       (m_lc_block 2 8 RowReplace) (m_lc_block 2 8 RowPending) (m_lc_block 2 8 RowEmpty);
     b2 \<leftarrow> measure_latest_payload (block_dims word_bytes) (bsh_filled 32 (1 :: 16 word)) (bsh_filled 32 2) (m_lc_block 2 32 RowFirst)
       (m_lc_block 2 32 RowReplace) (m_lc_block 2 32 RowPending) (m_lc_block 2 32 RowEmpty);
     b3 \<leftarrow> measure_latest_payload (block_dims word_bytes) (bsh_filled 128 (1 :: 16 word)) (bsh_filled 128 2) (m_lc_block 2 128 RowFirst)
       (m_lc_block 2 128 RowReplace) (m_lc_block 2 128 RowPending) (m_lc_block 2 128 RowEmpty);
     b4 \<leftarrow> measure_latest_payload (block_dims word_bytes) (bsh_filled 8 (1 :: 64 word)) (bsh_filled 8 2) (m_lc_block 8 8 RowFirst)
       (m_lc_block 8 8 RowReplace) (m_lc_block 8 8 RowPending) (m_lc_block 8 8 RowEmpty);
     b5 \<leftarrow> measure_latest_payload (block_dims word_bytes) (bsh_filled 32 (1 :: 64 word)) (bsh_filled 32 2) (m_lc_block 8 32 RowFirst)
       (m_lc_block 8 32 RowReplace) (m_lc_block 8 32 RowPending) (m_lc_block 8 32 RowEmpty);
     b6 \<leftarrow> measure_latest_payload (block_dims word_bytes) (bsh_filled 128 (1 :: 64 word)) (bsh_filled 128 2) (m_lc_block 8 128 RowFirst)
       (m_lc_block 8 128 RowReplace) (m_lc_block 8 128 RowPending) (m_lc_block 8 128 RowEmpty);
     b7 \<leftarrow> measure_latest_payload (block_dims array_bytes) (bsh_filled 8 [1 :: 64 word, 1]) (bsh_filled 8 [2, 2]) (m_lc_block 16 8 RowFirst)
       (m_lc_block 16 8 RowReplace) (m_lc_block 16 8 RowPending) (m_lc_block 16 8 RowEmpty);
     b8 \<leftarrow> measure_latest_payload (block_dims array_bytes) (bsh_filled 32 [1 :: 64 word, 1]) (bsh_filled 32 [2, 2]) (m_lc_block 16 32 RowFirst)
       (m_lc_block 16 32 RowReplace) (m_lc_block 16 32 RowPending) (m_lc_block 16 32 RowEmpty);
     b9 \<leftarrow> measure_latest_payload (block_dims array_bytes) (bsh_filled 128 [1 :: 64 word, 1]) (bsh_filled 128 [2, 2]) (m_lc_block 16 128 RowFirst)
       (m_lc_block 16 128 RowReplace) (m_lc_block 16 128 RowPending) (m_lc_block 16 128 RowEmpty);
     c1 \<leftarrow> measure_complete_publication word_bytes 8 (1 :: 16 word) (m_lc_complete 2 8 RowFirst) (m_lc_complete 2 8 RowReplace);
     c2 \<leftarrow> measure_complete_publication word_bytes 32 (1 :: 16 word) (m_lc_complete 2 32 RowFirst) (m_lc_complete 2 32 RowReplace);
     c3 \<leftarrow> measure_complete_publication word_bytes 128 (1 :: 16 word) (m_lc_complete 2 128 RowFirst) (m_lc_complete 2 128 RowReplace);
     c4 \<leftarrow> measure_complete_publication word_bytes 8 (1 :: 64 word) (m_lc_complete 8 8 RowFirst) (m_lc_complete 8 8 RowReplace);
     c5 \<leftarrow> measure_complete_publication word_bytes 32 (1 :: 64 word) (m_lc_complete 8 32 RowFirst) (m_lc_complete 8 32 RowReplace);
     c6 \<leftarrow> measure_complete_publication word_bytes 128 (1 :: 64 word) (m_lc_complete 8 128 RowFirst) (m_lc_complete 8 128 RowReplace);
     c7 \<leftarrow> measure_complete_publication array_bytes 8 [1 :: 64 word, 1] (m_lc_complete 16 8 RowFirst) (m_lc_complete 16 8 RowReplace);
     c8 \<leftarrow> measure_complete_publication array_bytes 32 [1 :: 64 word, 1] (m_lc_complete 16 32 RowFirst) (m_lc_complete 16 32 RowReplace);
     c9 \<leftarrow> measure_complete_publication array_bytes 128 [1 :: 64 word, 1] (m_lc_complete 16 128 RowFirst) (m_lc_complete 16 128 RowReplace);
     Some (erase s1 @ erase s2 @ erase s3
       @ erase b1 @ erase b2 @ erase b3 @ erase b4 @ erase b5 @ erase b6 @ erase b7 @ erase b8 @ erase b9
       @ erase c1 @ erase c2 @ erase c3 @ erase c4 @ erase c5 @ erase c6 @ erase c7 @ erase c8 @ erase c9)
   }"

definition latest_buf_costs :: "unit regions exec" where
  "latest_buf_costs = do {
     p1 \<leftarrow> measure_latest_payload (sample_dims word_bytes) (1 :: u32) 2 (m_lb LbU32 RowFirst) (m_lb LbU32 RowReplace)
       (m_lb LbU32 RowPending) (m_lb LbU32 RowEmpty);
     p2 \<leftarrow> measure_latest_payload (sample_dims array_bytes) (replicate 4 (1 :: u32)) (replicate 4 2) (m_lb LbW16 RowFirst) (m_lb LbW16 RowReplace)
       (m_lb LbW16 RowPending) (m_lb LbW16 RowEmpty);
     p3 \<leftarrow> measure_latest_payload (sample_dims array_bytes) (replicate 32 (1 :: u32)) (replicate 32 2) (m_lb LbBlock128 RowFirst)
       (m_lb LbBlock128 RowReplace) (m_lb LbBlock128 RowPending) (m_lb LbBlock128 RowEmpty);
     roles \<leftarrow> latest_role_costs;
     Some (erase p1 @ erase p2 @ erase p3 @ erase roles)
   }"

text \<open>
  The features of the probe's own manifest. A build declares the markers of every \<open>markers!\<close> invocation
  whose \<open>cfg\<close> holds, and runs the matching cost functions after the \<open>m_overhead\<close> region.
\<close>

record probe_features =
  block_matrix :: bool
  latest_matrix :: bool
  latest_block_matrix :: bool

definition default_probe :: "probe_features \<Rightarrow> bool" where
  "default_probe f \<longleftrightarrow> \<not> (block_matrix f \<or> latest_matrix f \<or> latest_block_matrix f)"

definition probe_compile_error :: "probe_features \<Rightarrow> bool" where
  "probe_compile_error f \<longleftrightarrow> latest_matrix f \<and> latest_block_matrix f"

definition declared_markers :: "probe_features \<Rightarrow> (nat \<times> marker) list" where
  "declared_markers f =
     (if default_probe f then default_markers else []) @
     (if block_matrix f then block_markers else []) @
     (if latest_block_matrix f then latest_block_markers else []) @
     (if latest_matrix f then latest_markers else [])"

definition standing_probe :: "usize \<Rightarrow> unit regions exec" where
  "standing_probe U = do {
     r1 \<leftarrow> event_buf_costs;
     r2 \<leftarrow> seq_ring_costs U;
     r3 \<leftarrow> ring_buf_costs U;
     r4 \<leftarrow> counted_signal_costs;
     r5 \<leftarrow> counted_signal_saturated_costs;
     r6 \<leftarrow> event_flags_costs;
     Some (erase r1 @ erase r2 @ erase r3 @ erase r4 @ erase r5 @ erase r6)
   }"

definition probe_main :: "usize \<Rightarrow> probe_features \<Rightarrow> unit regions exec" where
  "probe_main U f = do {
     r1 \<leftarrow> (if default_probe f then standing_probe U else Some []);
     r2 \<leftarrow> (if block_matrix f then block_publication_costs else Some []);
     r3 \<leftarrow> (if latest_matrix f then latest_buf_costs else Some []);
     r4 \<leftarrow> (if latest_block_matrix f then latest_block_composition_costs else Some []);
     Some ([(m_overhead, NoScene, ReadUnit)] @ r1 @ r2 @ r3 @ r4)
   }"

section \<open>Every region runs the path of its label\<close>

text \<open>The queue, through the laws of \<open>fifo\<close>: filling ignores no value while there is room, the loop empties.\<close>

lemma push_ok_each_room:
  "\<lbrakk>eb_fifo_ok b; length (eb_contents b) + length vs \<le> eb_capacity b\<rbrakk> \<Longrightarrow>
   \<exists>b'. push_ok_each b vs = Some b' \<and> eb_fifo_ok b' \<and> eb_capacity b' = eb_capacity b \<and>
     eb_contents b' = eb_contents b @ vs"
proof (induction vs arbitrary: b)
  case (Cons v vs)
  from eb_fifo.push_room [OF Cons.prems(1), of v] Cons.prems(2) obtain b1 where
    b1: "eb_push b v = Some (Inr (), b1)" "eb_fifo_ok b1" "eb_capacity b1 = eb_capacity b"
      "eb_contents b1 = eb_contents b @ [v]" by auto
  have "length (eb_contents b1) + length vs \<le> eb_capacity b1" using Cons.prems(2) unfolding b1(3,4) by simp
  from Cons.IH [OF b1(2) this] b1 show ?case by auto
qed simp

lemma pop_all_empties:
  "eb_fifo_ok b \<Longrightarrow> \<exists>b'. pop_all b = Some b' \<and> eb_fifo_ok b' \<and> eb_capacity b' = eb_capacity b \<and> eb_contents b' = []"
proof (induction "eb_contents b" arbitrary: b)
  case Nil
  then show ?case using eb_fifo.pop_empty [OF Nil.prems] by (subst pop_all.simps) auto
next
  case (Cons x q)
  from eb_fifo.pop_some [OF Cons.prems Cons.hyps(2) [symmetric]] obtain b1 where
    b1: "eb_pop b = Some (Some x, b1)" "eb_fifo_ok b1" "eb_contents b1 = q" "eb_capacity b1 = eb_capacity b" by blast
  with Cons.hyps(1) [OF b1(3) [symmetric] b1(2)] show ?case by (subst pop_all.simps) auto
qed

lemma eb_claims:
  "claim (eb_try_producer (eb_new N)) = Some ((eb_new N)\<lparr>eb_producer_taken := True\<rparr>)"
  "claim (eb_try_consumer ((eb_new N)\<lparr>eb_producer_taken := True\<rparr>))
    = Some ((eb_new N)\<lparr>eb_producer_taken := True, eb_consumer_taken := True\<rparr>)"
  by (simp_all add: claim_def eb_try_producer_def eb_try_consumer_def eb_new_def)

lemma queue_scene_eq: "eb_fifo_ok b \<Longrightarrow> queue_scene b = Elements (length (eb_contents b)) (eb_capacity b)"
  by (simp add: queue_scene_def eb_len_count eb_fifo_ok_def)

lemma event_buf_regions:
  "event_buf_costs = Some
    [(m_eb_push_empty, Elements 0 8, ReadPush (Inr ())), (m_eb_push_nearly_full, Elements 7 8, ReadPush (Inr ())),
     (m_eb_push_full_rejected, Elements 8 8, ReadPush (Inl 99)), (m_eb_peek, Elements 8 8, ReadValue (Some 1)),
     (m_eb_len, Elements 8 8, ReadLen 8), (m_eb_pop_full, Elements 8 8, ReadValue (Some 1)),
     (m_eb_pop_empty, Elements 0 8, ReadValue None)]"
proof -
  define b0 :: "u32 event_buf" where "b0 = (eb_new 8)\<lparr>eb_producer_taken := True, eb_consumer_taken := True\<rparr>"
  have b0: "eb_fifo_ok b0" "eb_capacity b0 = 8" "eb_contents b0 = []"
    using eb_wf_new [of 8] by (simp_all add: b0_def flip: eb_fifo_ok_def) (simp add: eb_fifo_ok_def)
  from eb_fifo.push_room [OF b0(1), of 1] b0 obtain b1 where
    b1: "eb_push b0 1 = Some (Inr (), b1)" "eb_fifo_ok b1" "eb_capacity b1 = 8" "eb_contents b1 = [1]" by auto
  from push_ok_each_room [OF b1(2), of "map of_nat [2..<8]"] b1 obtain b2 where
    b2: "push_ok_each b1 (map of_nat [2..<8]) = Some b2" "eb_fifo_ok b2" "eb_capacity b2 = 8"
      "eb_contents b2 = 1 # map of_nat [2..<8]" by auto
  have "length (eb_contents b2) < eb_capacity b2" unfolding b2(3,4) by simp
  from eb_fifo.push_room [OF b2(2) this, of 8] b2 obtain b3 where
    b3: "eb_push b2 8 = Some (Inr (), b3)" "eb_fifo_ok b3" "eb_capacity b3 = 8"
      "eb_contents b3 = 1 # map of_nat [2..<8] @ [8]" by auto
  have len: "length (eb_contents b3) = 8" unfolding b3(4) by simp
  have full: "eb_push b3 99 = Some (Inl 99, b3)" by (rule eb_fifo.push_full [OF b3(2)]) (use len b3(3) in simp)
  have peek: "eb_peek b3 = Some (Some 1)" using eb_fifo.peek_eq [OF b3(2)] b3(4) by simp
  from eb_fifo.pop_some [OF b3(2,4)] obtain b4 where
    b4: "eb_pop b3 = Some (Some 1, b4)" "eb_fifo_ok b4" "eb_capacity b4 = eb_capacity b3" by blast
  from pop_all_empties [OF b4(2)] b4(3) b3(3) obtain b5 where
    b5: "pop_all b4 = Some b5" "eb_fifo_ok b5" "eb_contents b5 = []" "eb_capacity b5 = 8" by auto
  have "length (eb_contents b2) = 7" unfolding b2(4) by simp
  then have scenes: "queue_scene b0 = Elements 0 8" "queue_scene b2 = Elements 7 8" "queue_scene b3 = Elements 8 8"
    "queue_scene b5 = Elements 0 8"
    using b0 b2 b3 b5 len by (simp_all only: queue_scene_eq list.size)
  have "eb_pop b5 = Some (None, b5)" by (rule eb_fifo.pop_empty [OF b5(2,3)])
  moreover have "eb_len b3 = 8" using len by (simp add: eb_len_count)
  ultimately show ?thesis using b1(1) b2(1) b3(1) b4(1) b5(1) full peek scenes
    by (simp add: event_buf_costs_def eb_claims Let_def flip: b0_def del: push_ok_each.simps)
qed

text \<open>
  The sequence ring, through its history. The lagged polls skip 9 and then 1999 items; how many they skip
  is not in what they return, and their cost does not depend on it.
\<close>

lemma sr_rep_handles [simp]:
  "sr_rep (r\<lparr>sr_producer_taken := p\<rparr>) hist = sr_rep r hist"
  "sr_rep (r\<lparr>sr_consumer_taken := c\<rparr>) hist = sr_rep r hist"
  "sr_capacity (r\<lparr>sr_producer_taken := p\<rparr>) = sr_capacity r"
  "sr_capacity (r\<lparr>sr_consumer_taken := c\<rparr>) = sr_capacity r"
  by (simp_all add: sr_rep_def sr_capacity_def cong: option.case_cong)

text \<open>One poll of a ring of 8 below the wrap of the numbers: the oldest of the last 8 items not yet read.\<close>

lemma poll_of_eight:
  assumes "sr_rep r hist" "sr_capacity r = 8" and "sc_last_seq con = of_nat c" "c < length hist" "length hist < 4096"
    and "SPAN \<le> U"
  shows "\<exists>con'. sr_poll_one_value U con r
      = Some (Some (of_nat (Suc (max c (length hist - 8))), hist ! max c (length hist - 8)), con', r) \<and>
    sc_last_seq con' = of_nat (Suc (max c (length hist - 8)))"
proof -
  let ?n = "length hist" and ?j = "max c (length hist - 8)"
  have small: "?n \<le> SPAN" "c \<le> SPAN" "Suc ?j \<le> SPAN" "?n - c < SPAN" using assms(4,5) by (auto simp: SPAN_eq)
  have "(?n - 1) mod SPAN = ?n - 1" using assms(5) by (intro mod_less) (auto simp: SPAN_eq)
  then have "sr_start 8 c ?n = ?j" using assms(4) by (auto simp: sr_start_def sr_resume_def)
  moreover have "cursor_at c (sc_last_seq con)" using assms(3) small by (simp add: cursor_at_def seq_at_small)
  moreover have "sr_seamless 8 ?n" using small by (simp add: sr_seamless_def)
  ultimately have "sr_poll_one_value U con r = Some (Some (seq_at (Suc ?j), hist ! ?j),
      con\<lparr>sc_last_seq := seq_at (Suc ?j), sc_dropped_accum := sat_add U (sc_dropped_accum con) (?j - c)\<rparr>, r)"
    using sr_poll_one_value_exact [OF assms(1) refl _ _ assms(4) small(4) _ assms(6), unfolded assms(2)] by blast
  then show ?thesis using seq_at_small [OF small(3)] by simp
qed

lemma seq_ring_regions:
  assumes U: "SPAN \<le> U"
  shows "seq_ring_costs U = Some
    [(m_sr_push_empty, Sequences 0 0 8, ReadSeq 1), (m_sr_poll_value, Sequences 1 0 8, ReadNumbered (Some (1, 1))),
     (m_sr_poll_empty, Sequences 1 1 8, ReadNumbered None), (m_sr_push_overwriting, Sequences 17 1 8, ReadSeq 18),
     (m_sr_latest, Sequences 18 1 8, ReadNumbered (Some (18, 99))),
     (m_sr_poll_lagged, Sequences 18 1 8, ReadNumbered (Some (11, 9))),
     (m_sr_poll_lagged_far, Sequences 2018 11 8, ReadNumbered (Some (2011, 1992)))]"
proof -
  define r0 :: "u32 seq_ring" where "r0 = (sr_new 8)\<lparr>sr_producer_taken := True, sr_consumer_taken := True\<rparr>"
  define con where "con = \<lparr>sc_last_seq = 0, sc_dropped_accum = 0\<rparr>"
  have small: "seq_at k = of_nat k" if "k < 4096" for k using that by (intro seq_at_small) (simp add: SPAN_eq)
  have handles: "claim (sr_try_producer (sr_new 8)) = Some ((sr_new 8)\<lparr>sr_producer_taken := True\<rparr>)"
    "sr_try_consumer ((sr_new 8)\<lparr>sr_producer_taken := True\<rparr>) = (Some con, r0)" "claim (Some con, r0) = Some r0"
    by (simp_all add: claim_def sr_try_producer_def sr_try_consumer_def sr_new_def r0_def con_def)
  have r0: "sr_rep r0 []" "sr_capacity r0 = 8" using sr_rep_new [of 8]
    by (simp_all add: r0_def) (simp add: sr_new_def sr_capacity_def)
  from sr_push_rep [OF r0(1), of 1] r0(2) obtain r1 where
    r1: "sr_push r0 1 = Some (1, r1)" "sr_rep r1 [1]" "sr_capacity r1 = 8" by (auto simp: small)
  from poll_of_eight [OF r1(2,3), of con 0] U obtain con1 where
    p1: "sr_poll_one_value U con r1 = Some (Some (1, 1), con1, r1)" "sc_last_seq con1 = 1" by (auto simp: con_def)
  have p2: "sr_poll_one_value U con1 r1 = Some (None, con1, r1)"
    by (rule sr_poll_one_value_nothing) (simp add: sr_rep_newest [OF r1(2)] p1(2) small)
  from sr_push_all_from [OF r1(2), of "map of_nat [0..<16]"] r1(3) obtain r2 where
    r2: "sr_push_all r1 (map of_nat [0..<16]) = Some r2" "sr_rep r2 (1 # map of_nat [0..<16])" "sr_capacity r2 = 8"
    by auto
  let ?h = "1 # map of_nat [0..<16] @ [99 :: u32]"
  from sr_push_rep [OF r2(2), of 99] r2(3) obtain r3 where
    r3: "sr_push r2 99 = Some (18, r3)" "sr_rep r3 ?h" "sr_capacity r3 = 8" by (auto simp: small)
  have latest: "sr_latest_value r3 = Some (Some (18, 99))"
    using sr_latest_value_exact [OF r3(2)] by (simp add: small)
  from poll_of_eight [OF r3(2,3), of con1 1] U p1(2) obtain con2 where
    p3: "sr_poll_one_value U con1 r3 = Some (Some (11, 9), con2, r3)" "sc_last_seq con2 = 11"
    by (auto simp: nth_append)
  from sr_push_all_from [OF r3(2), of "map of_nat [0..<2000]"] r3(3) obtain r4 where
    r4: "sr_push_all r3 (map of_nat [0..<2000]) = Some r4" "sr_rep r4 (?h @ map of_nat [0..<2000])" "sr_capacity r4 = 8"
    by auto
  from poll_of_eight [OF r4(2,3), of con2 11] U p3(2) obtain con3 where
    "sr_poll_one_value U con2 r4 = Some (Some (2011, 1992), con3, r4)"
    by (auto simp: nth_append nth_Cons')
  moreover have "seq_scene r0 con = Sequences 0 0 8" "seq_scene r1 con = Sequences 1 0 8" "seq_scene r1 con1 = Sequences 1 1 8"
    "seq_scene r2 con1 = Sequences 17 1 8" "seq_scene r3 con1 = Sequences 18 1 8" "seq_scene r4 con2 = Sequences 2018 11 8"
    using sr_rep_newest [OF r0(1)] sr_rep_newest [OF r1(2)] sr_rep_newest [OF r2(2)] sr_rep_newest [OF r3(2)]
      sr_rep_newest [OF r4(2)] r0 r1(3) r2(3) r3(3) r4(3) p1(2) p3(2)
    by (simp_all add: seq_scene_def con_def small)
  ultimately show ?thesis
    using r1(1) p1(1) p2 r2(1) r3(1) latest p3(1) r4(1) by (simp add: seq_ring_costs_def handles Let_def)
qed

text \<open>The ring, the counter and the flags, by execution.\<close>

lemma ring_regions:
  assumes "8 \<le> U"
  shows "ring_buf_costs U = Some
    [(m_rb_push_empty, Elements 0 8, ReadLen 1), (m_rb_push_overwriting, Elements 8 8, ReadLen 8),
     (m_rb_get, Elements 8 8, ReadValue (Some 5)), (m_rb_latest, Elements 8 8, ReadValue (Some 9))]"
proof -
  have slots: "uninit_slots 8 = [None, None, None, None, None, None, None, None :: u32 option]"
    by (simp add: uninit_slots_def eval_nat_numeral)
  have "[2..<9] = [2, 3, 4, 5, 6, 7, 8 :: nat]" by (simp add: upt_rec)
  then show ?thesis using assms
    by (simp add: ring_buf_costs_def ring_scene_def ring_exec_defs slots usize_add_def usize_sub_def slot_write_def slot_read_def Let_def)
qed

lemma counted_signal_regions:
  "counted_signal_costs = Some [(m_cs_increment, SharedWord 0, ReadWord 1),
     (m_cs_take_count, SharedWord 1, ReadCount (CountSnapshot 1))]"
  "counted_signal_saturated_costs = Some [(m_cs_increment_saturated, SharedWord u32_MAX, ReadWord u32_MAX)]"
  by (simp_all add: counted_signal_costs_def counted_signal_saturated_costs_def cs_with_count_for_probe_def
      cs_increment_count cs_take_count_def snap_from_raw_def cs_new_def cs_try_producer_def cs_try_consumer_def
      cs_increment_def cs_fetch_or_def cs_fetch_add_def claim_def Let_def)

lemma event_flags_regions:
  "event_flags_costs = Some
    [(m_ef_raise_clear, SharedWord 0, ReadWord 128), (m_ef_raise_already_set, SharedWord 128, ReadWord 128),
     (m_ef_take_nonempty, SharedWord 128, ReadMask (EventMask 128)), (m_ef_take_empty, SharedWord 0, ReadMask (EventMask 0))]"
  by (simp add: event_flags_costs_def ef_op_defs claim_def Let_def)

text \<open>The latest-value rows: any two payloads of one type give the same paths.\<close>

lemma latest_payload_regions:
  "measure_latest_payload dims v1 v2 m1 m2 m3 m4 = Some
    [(m1, Carrying (dims v1) (Channel 0 False), ReadReport \<lparr>pr_generation = 1, pr_replaced_unread = False\<rparr>),
     (m2, Carrying (dims v2) (Channel 1 True), ReadReport \<lparr>pr_generation = 2, pr_replaced_unread = True\<rparr>),
     (m3, Carrying (dims v2) (Channel 2 True), ReadItem (Some \<lparr>li_value = v2, li_generation = 2, li_skipped = 1\<rparr>)),
     (m4, Carrying (dims v2) (Channel 2 False), ReadItem None)]"
  by (simp add: measure_latest_payload_def channel_scene_def lb_op_defs claim_def Let_def uninit_slots_def numeral_3_eq_3
      slot_write_def slot_read_def)

lemma latest_role_regions:
  "latest_role_costs = Some
    [(m_lb_producer_drop, RoleFlag True, ReadTaken False), (m_lb_producer_reacquire, RoleFlag False, ReadClaim True),
     (m_lb_consumer_drop, RoleFlag True, ReadTaken False), (m_lb_consumer_reacquire, RoleFlag False, ReadClaim True)]"
  by (simp add: latest_role_costs_def lb_op_defs claim_def Let_def)

text \<open>
  The block rows: filling any builder with the numbers from 1 leaves the window \<open>window n v\<close>, and the
  push of number \<open>n\<close> completes it.
\<close>

definition window :: "nat \<Rightarrow> 'a \<Rightarrow> (u32 \<times> 'a) list" where
  "window n v = map (\<lambda>k. (of_nat k, v)) [1..<n]"

lemma window_simps [simp]:
  "window (Suc 0) v = []" "0 < n \<Longrightarrow> window (Suc n) v = window n v @ [(of_nat n, v)]" "length (window n v) = n - 1"
  by (simp_all add: window_def)

lemma window_fill:
  assumes "0 < m" "m \<le> n" "n < 2 ^ 32"
  shows "fill_spec n (window m v) (of_nat m) v
    = (if m = n then (Inr (Some (block_of (window (Suc n) v))), []) else (Inr None, window (Suc m) v))"
proof -
  have nonzero: "(of_nat m :: u32) \<noteq> 0" using of_nat_u32_eq_iff [of m 0] assms by auto
  have next_seq: "of_nat m = bb_next_sequence (fst (last (window m v)))" if "window m v \<noteq> []"
  proof -
    from that obtain k where k: "m = Suc k" "0 < k" by (cases m; cases "m - 1") (auto simp: window_def)
    have "(of_nat k :: u32) \<noteq> u32_MAX"
      using k assms by (metis Suc_lessD le_less_trans less_irrefl nonzero of_nat_Suc ab_left_minus add.commute)
    then show ?thesis using k by (simp add: bb_next_sequence_def)
  qed
  show ?thesis using assms nonzero next_seq by (cases "m = n") (auto simp: fill_spec_code)
qed

lemma fill_each_window:
  assumes "0 < m" "m \<le> n" "n < 2 ^ 32" and "bb_holds fill (window m v)" "bb_capacity fill = n"
  shows "\<exists>fill'. fill_each fill (map (\<lambda>k. (of_nat k, v)) [m..<n]) = Some fill' \<and>
    bb_holds fill' (window n v) \<and> bb_capacity fill' = n"
  using assms(2,1,3-)
proof (induction m arbitrary: fill rule: inc_induct)
  case (step m)
  from bb_push_refines [OF step.prems(3), of "of_nat m" v] window_fill [of m n v] step.hyps step.prems
  obtain fill1 where "bb_push fill (of_nat m) v = Some (Inr None, fill1)"
    "bb_holds fill1 (window (Suc m) v)" "bb_capacity fill1 = n" by auto
  with step.IH [of fill1] step show ?case by (simp add: upt_conv_Cons)
qed simp

text \<open>So the measured push returns the block of the \<open>n\<close> samples, which the twin calls \<open>filled\<close>.\<close>

lemma block_of_window: "0 < n \<Longrightarrow> block_of (window (Suc n) v) = twin_block (bsh_filled n v)"
proof -
  assume n: "0 < n"
  have "map snd (window (Suc n) v) = replicate n v"
    unfolding window_def by (simp add: map_replicate_const comp_def)
  moreover have "fst (hd (window (Suc n) v)) = 1" using n by (simp add: window_def upt_conv_Cons del: upt_Suc)
  ultimately show ?thesis using n by (simp add: block_of_def twin_block_def bsh_filled_def del: window_simps(1))
qed

lemma complete_window:
  assumes "0 < n" "n < 2 ^ 32"
  obtains fill fill' where "fill_each (bb_new n) (map (\<lambda>k. (of_nat k, v)) [1..<n]) = Some fill"
    "bb_len fill = n - 1" "bb_capacity fill = n"
    "bb_push fill (of_nat n) v = Some (Inr (Some (twin_block (bsh_filled n v))), fill')"
proof -
  have "bb_holds (bb_new n) (window 1 v)" "bb_capacity (bb_new n) = n"
    using assms bb_holds_new [of n] by (simp_all add: bb_new_def bb_capacity_def)
  from fill_each_window [OF _ _ assms(2) this] assms(1) obtain fill where
    fill: "fill_each (bb_new n) (map (\<lambda>k. (of_nat k, v)) [1..<n]) = Some fill" "bb_holds fill (window n v)"
      "bb_capacity fill = n" by auto
  have "bb_len fill = n - 1" using fill(2) by (simp add: bb_holds_def bb_len_def)
  with bb_push_refines [OF fill(2), of "of_nat n" v] fill(3) window_fill [OF assms(1) order_refl assms(2), of v]
    block_of_window [OF assms(1), of v] fill(1) that show thesis by auto
qed

lemma twin_fill_each: "fill_each (twin_builder fill) w = map_option twin_builder (fill_shape_each fill w)"
proof (induction w arbitrary: fill)
  case (Cons sx w)
  then show ?case by (cases sx; cases "bbs_push fill (fst sx) (snd sx)") (auto simp: twin_push)
qed simp

lemma complete_window_shape:
  assumes "0 < n" "n < 2 ^ 32"
  obtains fill fill' where "fill_shape_each (bbs_new n) (map (\<lambda>k. (of_nat k, v)) [1..<n]) = Some fill"
    "bbs_len fill = n - 1" "length (bbs_samples fill) = n"
    "bbs_push fill (of_nat n) v = Some (Inr (Some (bsh_filled n v)), fill')"
proof -
  from complete_window [OF assms, of v] obtain bfill bfill' where
    b: "fill_each (twin_builder (bbs_new n)) (map (\<lambda>k. (of_nat k, v)) [1..<n]) = Some bfill"
      "bb_len bfill = n - 1" "bb_capacity bfill = n"
      "bb_push bfill (of_nat n) v = Some (Inr (Some (twin_block (bsh_filled n v))), bfill')"
    unfolding twin_builder_new by blast
  from b(1) obtain fill where
    fill: "fill_shape_each (bbs_new n) (map (\<lambda>k. (of_nat k, v)) [1..<n]) = Some fill" "bfill = twin_builder fill"
    unfolding twin_fill_each by auto
  from b(4) obtain r fill' where push: "bbs_push fill (of_nat n) v = Some (r, fill')"
    "twin_result r = twin_result (Inr (Some (bsh_filled n v)))"
    unfolding fill(2) twin_push by (auto simp: twin_result_def)
  then show thesis using fill b(2,3) that by (auto simp: twin_result_inj twin_builder_def bb_len_def bb_capacity_def)
qed

lemma block_shape_regions:
  assumes "0 < n" "n < 2 ^ 32"
  shows "measure_block_shape bytes n v m1 m2 = Some
    [(m1, Completing (bytes v) (n - 1) n (Elements 0 1), ReadPush (Inr ())),
     (m2, Completing (bytes v) (n - 1) n (Elements 1 1), ReadPush (Inl (twin_block (bsh_filled n v))))]"
proof -
  let ?block = "twin_block (bsh_filled n v)"
  define b0 :: "'a block event_buf" where "b0 = (eb_new 1)\<lparr>eb_producer_taken := True\<rparr>"
  have b0: "eb_fifo_ok b0" "eb_capacity b0 = 1" "eb_contents b0 = []" using eb_wf_new [of 1]
    by (simp_all add: b0_def flip: eb_fifo_ok_def) (simp add: eb_fifo_ok_def)
  from eb_fifo.push_room [OF b0(1), of ?block] b0 obtain b1 where
    b1: "eb_push b0 ?block = Some (Inr (), b1)" "eb_fifo_ok b1" "eb_capacity b1 = 1" "eb_contents b1 = [?block]" by auto
  have "eb_push b1 ?block = Some (Inl ?block, b1)"
    by (rule eb_fifo.push_full [OF b1(2)]) (use b1(3,4) in simp)
  moreover from complete_window [OF assms, of v] obtain fill fill' where
    "fill_each (bb_new n) (map (\<lambda>k. (of_nat k, v)) [1..<n]) = Some fill" "bb_len fill = n - 1" "bb_capacity fill = n"
    "bb_push fill (of_nat n) v = Some (Inr (Some ?block), fill')" .
  moreover have "queue_scene b0 = Elements 0 1" "queue_scene b1 = Elements 1 1"
    using b0 b1 by (simp_all only: queue_scene_eq list.size) simp
  ultimately show ?thesis using b1(1)
    by (simp add: measure_block_shape_def eb_claims(1) expect_block_def b0_def Let_def)
qed

lemma complete_publication_regions:
  assumes "0 < n" "n < 2 ^ 32"
  shows "measure_complete_publication bytes n v m1 m2 = Some
    [(m1, Completing (bytes v) (n - 1) n (Channel 0 False), ReadReport \<lparr>pr_generation = 1, pr_replaced_unread = False\<rparr>),
     (m2, Completing (bytes v) (n - 1) n (Channel 1 True), ReadReport \<lparr>pr_generation = 2, pr_replaced_unread = True\<rparr>)]"
proof -
  let ?block = "bsh_filled n v"
  from complete_window_shape [OF assms, of v] obtain fill fill' where
    fill: "fill_shape_each (bbs_new n) (map (\<lambda>k. (of_nat k, v)) [1..<n]) = Some fill"
      "bbs_len fill = n - 1" "length (bbs_samples fill) = n"
      "bbs_push fill (of_nat n) v = Some (Inr (Some ?block), fill')" .
  define c0 :: "'a block_shape latest_buf" where "c0 = lb_new\<lparr>lb_producer_taken := True\<rparr>"
  have claim: "claim (lb_try_producer lb_new) = Some c0"
    by (simp add: claim_def lb_try_producer_def lb_new_def c0_def)
  have c0: "lb_rep c0 [] 0" using lb_rep_new [where ?'a = "'a block_shape"]
    by (auto simp: c0_def lb_rep_def lb_roles_def)
  from lb_publish_rep [OF c0, of ?block] obtain c1 where
    c1: "lb_publish c0 ?block = Some (\<lparr>pr_generation = 1, pr_replaced_unread = False\<rparr>, c1)" "lb_rep c1 [?block] 0"
    by (auto simp: seq_at_def)
  from lb_publish_rep [OF c1(2), of ?block] obtain c2 where
    "lb_publish c1 ?block = Some (\<lparr>pr_generation = 2, pr_replaced_unread = True\<rparr>, c2)"
    by (auto simp: seq_at_def SPAN_eq)
  moreover have "channel_scene c0 = Channel 0 False" "channel_scene c1 = Channel 1 True"
    using c0 c1(2) by (simp_all add: channel_scene_def lb_rep_def seq_at_def)
  ultimately show ?thesis using fill c1(1)
    by (simp add: measure_complete_publication_def expect_block_def claim Let_def)
qed

section \<open>The whole program\<close>

text \<open>
  What a label says of its region, whatever the program around it: what the operation finds and what it then does.
  An accepted push has room and a rejected one finds a full queue; a publication is the first of its channel or replaces
  an unread one; a poll finds nothing new, something in reach of its cursor, or a backlog beyond the capacity (\<open>far\<close>:
  more than a hundred times beyond), from which it resumes at the oldest item left.
\<close>

definition on_elements :: "scene \<Rightarrow> (usize \<Rightarrow> usize \<Rightarrow> bool) \<Rightarrow> bool" where
  "on_elements s P \<longleftrightarrow> (case s of Elements n c \<Rightarrow> P n c | _ \<Rightarrow> False)"

definition on_sequences :: "scene \<Rightarrow> (u32 \<Rightarrow> u32 \<Rightarrow> usize \<Rightarrow> bool) \<Rightarrow> bool" where
  "on_sequences s P \<longleftrightarrow> (case s of Sequences newest cursor c \<Rightarrow> P newest cursor c | _ \<Rightarrow> False)"

definition on_word :: "scene \<Rightarrow> (u32 \<Rightarrow> bool) \<Rightarrow> bool" where
  "on_word s P \<longleftrightarrow> (case s of SharedWord w \<Rightarrow> P w | _ \<Rightarrow> False)"

definition on_channel :: "scene \<Rightarrow> (u32 \<Rightarrow> bool \<Rightarrow> bool) \<Rightarrow> bool" where
  "on_channel s P \<longleftrightarrow> (case s of Channel g unread \<Rightarrow> P g unread | _ \<Rightarrow> False)"

definition on_completing :: "scene \<Rightarrow> (nat \<Rightarrow> usize \<Rightarrow> usize \<Rightarrow> scene \<Rightarrow> bool) \<Rightarrow> bool" where
  "on_completing s P \<longleftrightarrow> (case s of Completing b k c s' \<Rightarrow> P b k c s' | _ \<Rightarrow> False)"

definition on_carrying :: "scene \<Rightarrow> (nat \<times> nat \<Rightarrow> scene \<Rightarrow> bool) \<Rightarrow> bool" where
  "on_carrying s P \<longleftrightarrow> (case s of Carrying d s' \<Rightarrow> P d s' | _ \<Rightarrow> False)"

lemma on_scene [simp]:
  "on_elements (Elements n c) P = P n c" "on_sequences (Sequences a b c) P' = P' a b c" "on_word (SharedWord w) Q = Q w"
  "on_channel (Channel g unread) Q' = Q' g unread" "on_completing (Completing x k c s) R = R x k c s"
  "on_carrying (Carrying d s) R' = R' d s"
  by (simp_all add: on_elements_def on_sequences_def on_word_def on_channel_def on_completing_def on_carrying_def)

fun path_ok :: "row \<Rightarrow> scene \<Rightarrow> unit reading \<Rightarrow> bool" where
  "path_ok RowAccepted s r \<longleftrightarrow> on_elements s (\<lambda>n c. n < c) \<and> r = ReadPush (Inr ())"
| "path_ok RowRejected s r \<longleftrightarrow> on_elements s (\<lambda>n c. n = c) \<and> r = ReadPush (Inl ())"
| "path_ok RowFirst s r \<longleftrightarrow> on_channel s (\<lambda>g unread. g = 0 \<and> \<not> unread) \<and>
     (\<exists>report. r = ReadReport report \<and> \<not> pr_replaced_unread report)"
| "path_ok RowReplace s r \<longleftrightarrow> on_channel s (\<lambda>g unread. unread) \<and> (\<exists>report. r = ReadReport report \<and> pr_replaced_unread report)"
| "path_ok RowPending s r \<longleftrightarrow> on_channel s (\<lambda>g unread. unread \<and> (\<exists>item. r = ReadItem (Some item) \<and> li_generation item = g))"
| "path_ok RowEmpty s r \<longleftrightarrow> on_channel s (\<lambda>g unread. \<not> unread) \<and> r = ReadItem None"

fun payload_dims :: "lb_payload \<Rightarrow> nat \<times> nat" where
  "payload_dims LbU32 = (4, 1)"
| "payload_dims LbW16 = (16, 1)"
| "payload_dims LbBlock128 = (128, 1)"

fun label_ok :: "marker \<Rightarrow> scene \<Rightarrow> unit reading \<Rightarrow> bool" where
  "label_ok m_end s r \<longleftrightarrow> False"
| "label_ok m_overhead s r \<longleftrightarrow> s = NoScene \<and> r = ReadUnit"
| "label_ok m_eb_push_empty s r \<longleftrightarrow> on_elements s (\<lambda>n c. n = 0 \<and> r = ReadPush (Inr ()))"
| "label_ok m_eb_push_nearly_full s r \<longleftrightarrow> on_elements s (\<lambda>n c. Suc n = c \<and> r = ReadPush (Inr ()))"
| "label_ok m_eb_push_full_rejected s r \<longleftrightarrow> on_elements s (\<lambda>n c. n = c \<and> r = ReadPush (Inl ()))"
| "label_ok m_eb_pop_full s r \<longleftrightarrow> on_elements s (\<lambda>n c. n = c \<and> r = ReadValue (Some ()))"
| "label_ok m_eb_pop_empty s r \<longleftrightarrow> on_elements s (\<lambda>n c. n = 0 \<and> r = ReadValue None)"
| "label_ok m_eb_peek s r \<longleftrightarrow> on_elements s (\<lambda>n c. 0 < n \<and> r = ReadValue (Some ()))"
| "label_ok m_eb_len s r \<longleftrightarrow> on_elements s (\<lambda>n c. r = ReadLen n)"
| "label_ok m_sr_push_empty s r \<longleftrightarrow> on_sequences s (\<lambda>newest cursor c.
     newest = 0 \<and> r = ReadSeq 1)"
| "label_ok m_sr_push_overwriting s r \<longleftrightarrow> on_sequences s (\<lambda>newest cursor c.
     c \<le> unat newest \<and> r = ReadSeq (number_after newest))"
| "label_ok m_sr_poll_value s r \<longleftrightarrow> on_sequences s (\<lambda>newest cursor c.
     cursor < newest \<and> unat (newest - cursor) \<le> c \<and> r = ReadNumbered (Some (number_after cursor, ())))"
| "label_ok m_sr_poll_empty s r \<longleftrightarrow> on_sequences s (\<lambda>newest cursor c.
     newest = cursor \<and> r = ReadNumbered None)"
| "label_ok m_sr_poll_lagged s r \<longleftrightarrow> on_sequences s (\<lambda>newest cursor c.
     cursor < newest \<and> c < unat (newest - cursor) \<and> r = ReadNumbered (Some (newest - of_nat (c - 1), ())))"
| "label_ok m_sr_poll_lagged_far s r \<longleftrightarrow> on_sequences s (\<lambda>newest cursor c.
     cursor < newest \<and> 100 * c < unat (newest - cursor) \<and> r = ReadNumbered (Some (newest - of_nat (c - 1), ())))"
| "label_ok m_sr_latest s r \<longleftrightarrow> on_sequences s (\<lambda>newest cursor c.
     0 < newest \<and> r = ReadNumbered (Some (newest, ())))"
| "label_ok m_rb_push_empty s r \<longleftrightarrow> on_elements s (\<lambda>n c. n = 0 \<and> r = ReadLen 1)"
| "label_ok m_rb_push_overwriting s r \<longleftrightarrow> on_elements s (\<lambda>n c. n = c \<and> r = ReadLen c)"
| "label_ok m_rb_get s r \<longleftrightarrow> on_elements s (\<lambda>n c. 0 < n \<and> r = ReadValue (Some ()))"
| "label_ok m_rb_latest s r \<longleftrightarrow> on_elements s (\<lambda>n c. 0 < n \<and> r = ReadValue (Some ()))"
| "label_ok m_cs_increment s r \<longleftrightarrow> on_word s (\<lambda>w. w \<noteq> u32_MAX \<and> r = ReadWord (w + 1))"
| "label_ok m_cs_take_count s r \<longleftrightarrow> on_word s (\<lambda>w. w \<noteq> 0 \<and> r = ReadCount (CountSnapshot w))"
| "label_ok m_cs_increment_saturated s r \<longleftrightarrow> on_word s (\<lambda>w. w = u32_MAX \<and> r = ReadWord w)"
| "label_ok m_ef_raise_clear s r \<longleftrightarrow> on_word s (\<lambda>w. w = 0 \<and> (\<exists>w'. r = ReadWord w' \<and> w' \<noteq> 0))"
| "label_ok m_ef_raise_already_set s r \<longleftrightarrow> on_word s (\<lambda>w. w \<noteq> 0 \<and> r = ReadWord w)"
| "label_ok m_ef_take_nonempty s r \<longleftrightarrow> on_word s (\<lambda>w. w \<noteq> 0 \<and> r = ReadMask (EventMask w))"
| "label_ok m_ef_take_empty s r \<longleftrightarrow> on_word s (\<lambda>w. w = 0 \<and> r = ReadMask (EventMask 0))"
| "label_ok (m_bp w n row) s r \<longleftrightarrow>
     on_completing s (\<lambda>b k c s'. b = w \<and> Suc k = c \<and> c = n \<and> path_ok row s' r)"
| "label_ok (m_lc_complete w n row) s r \<longleftrightarrow>
     on_completing s (\<lambda>b k c s'. b = w \<and> Suc k = c \<and> c = n \<and> path_ok row s' r)"
| "label_ok (m_lc_sample w row) s r \<longleftrightarrow> on_carrying s (\<lambda>d s'. d = (w, 1) \<and> path_ok row s' r)"
| "label_ok (m_lc_block w n row) s r \<longleftrightarrow> on_carrying s (\<lambda>d s'. d = (w, n) \<and> path_ok row s' r)"
| "label_ok (m_lb p row) s r \<longleftrightarrow> on_carrying s (\<lambda>d s'. d = payload_dims p \<and> path_ok row s' r)"
| "label_ok m_lb_producer_drop s r \<longleftrightarrow> s = RoleFlag True \<and> r = ReadTaken False"
| "label_ok m_lb_producer_reacquire s r \<longleftrightarrow> s = RoleFlag False \<and> r = ReadClaim True"
| "label_ok m_lb_consumer_drop s r \<longleftrightarrow> s = RoleFlag True \<and> r = ReadTaken False"
| "label_ok m_lb_consumer_reacquire s r \<longleftrightarrow> s = RoleFlag False \<and> r = ReadClaim True"

definition region_ok :: "marker \<times> scene \<times> unit reading \<Rightarrow> bool" where
  "region_ok region = (case region of (m, s, r) \<Rightarrow> label_ok m s r)"

text \<open>A cost function that runs to its end, passes the markers \<open>ms\<close> and keeps what they say.\<close>

definition measures :: "unit regions exec \<Rightarrow> marker list \<Rightarrow> bool" where
  "measures program ms \<longleftrightarrow> (\<exists>rs. program = Some rs \<and> map fst rs = ms \<and> list_all region_ok rs)"

lemma dims_simps [simp]:
  "word_bytes (w :: 16 word) = 2" "word_bytes (x :: 64 word) = 8" "word_bytes (y :: u32) = 4"
  "array_bytes [x, x'] = 16" "array_bytes (replicate 4 y) = 16" "array_bytes (replicate 32 y) = 128"
  "sample_dims bytes v = (bytes v, 1)" "0 < n \<Longrightarrow> block_dims bytes (bsh_filled n v) = (bytes v, n)"
  by (simp_all add: word_bytes_def word_size array_bytes_def sample_dims_def block_dims_def bsh_filled_def sum_list_replicate)

text \<open>The markers the standing probe passes, in its order.\<close>

definition standing_order :: "marker list" where
  "standing_order = [m_eb_push_empty, m_eb_push_nearly_full, m_eb_push_full_rejected, m_eb_peek, m_eb_len,
     m_eb_pop_full, m_eb_pop_empty, m_sr_push_empty, m_sr_poll_value, m_sr_poll_empty, m_sr_push_overwriting,
     m_sr_latest, m_sr_poll_lagged, m_sr_poll_lagged_far, m_rb_push_empty, m_rb_push_overwriting, m_rb_get,
     m_rb_latest, m_cs_increment, m_cs_take_count, m_cs_increment_saturated, m_ef_raise_clear,
     m_ef_raise_already_set, m_ef_take_nonempty, m_ef_take_empty]"

lemma standing_probe_measures: "SPAN \<le> U \<Longrightarrow> measures (standing_probe U) standing_order"
  by (simp add: measures_def standing_probe_def event_buf_regions seq_ring_regions ring_regions [of U] SPAN_eq
      counted_signal_regions event_flags_regions erase_def standing_order_def region_ok_def number_after_def seq_at_def)

lemma block_publication_measures: "measures block_publication_costs (map snd (drop 2 block_markers))"
  by (simp add: measures_def block_publication_costs_def block_shape_regions block_markers_def erase_def region_ok_def)

lemma latest_buf_measures: "measures latest_buf_costs (map snd (drop 2 latest_markers))"
  by (simp add: measures_def latest_buf_costs_def latest_payload_regions latest_role_regions latest_markers_def
      erase_def region_ok_def)

lemma latest_block_measures: "measures latest_block_composition_costs (map snd (drop 2 latest_block_markers))"
  by (simp add: measures_def latest_block_composition_costs_def latest_payload_regions complete_publication_regions
      latest_block_markers_def erase_def region_ok_def)

text \<open>Tags and names are distinct exactly in the builds with at most one matrix.\<close>

lemma marker_tables_distinct:
  "distinct (map fst default_markers)" "distinct (map snd default_markers)"
  "distinct (map fst block_markers)" "distinct (map snd block_markers)"
  "distinct (map fst latest_block_markers)" "distinct (map snd latest_block_markers)"
  "distinct (map fst latest_markers)" "distinct (map snd latest_markers)"
  by (simp_all add: default_markers_def block_markers_def latest_block_markers_def latest_markers_def)

definition at_most_one_matrix :: "probe_features \<Rightarrow> bool" where
  "at_most_one_matrix f \<longleftrightarrow> \<not> (block_matrix f \<and> latest_matrix f) \<and> \<not> (block_matrix f \<and> latest_block_matrix f) \<and>
     \<not> (latest_matrix f \<and> latest_block_matrix f)"

lemma tables_share_m_end:
  "(0, m_end) \<in> set block_markers" "(0, m_end) \<in> set latest_markers" "(0, m_end) \<in> set latest_block_markers"
  by (simp_all add: block_markers_def latest_markers_def latest_block_markers_def)

lemma declared_markers_cases:
  "at_most_one_matrix f \<Longrightarrow> declared_markers f
     = (if block_matrix f then block_markers else if latest_matrix f then latest_markers
        else if latest_block_matrix f then latest_block_markers else default_markers)"
  by (auto simp: at_most_one_matrix_def declared_markers_def default_probe_def)

lemma many_matrices_clash: "\<not> at_most_one_matrix f \<Longrightarrow> \<not> distinct (map h (declared_markers f))"
  using tables_share_m_end by (auto simp: at_most_one_matrix_def declared_markers_def)

lemma distinct_declared:
  "distinct (map fst (declared_markers f)) \<longleftrightarrow> at_most_one_matrix f"
  "distinct (map snd (declared_markers f)) \<longleftrightarrow> at_most_one_matrix f"
  using many_matrices_clash [of f fst] many_matrices_clash [of f snd]
  by (cases "at_most_one_matrix f"; simp add: declared_markers_cases marker_tables_distinct)+

text \<open>The markers a run passes: the declared ones but \<open>m_end\<close>, each in front of one region.\<close>

definition run_order :: "probe_features \<Rightarrow> marker list" where
  "run_order f = m_overhead #
     (if block_matrix f then map snd (drop 2 block_markers)
      else if latest_matrix f then map snd (drop 2 latest_markers)
      else if latest_block_matrix f then map snd (drop 2 latest_block_markers)
      else standing_order)"

lemma standing_order_mset: "mset (m_end # m_overhead # standing_order) = mset (map snd default_markers)"
  by (simp add: standing_order_def default_markers_def)

lemma run_order_mset: "at_most_one_matrix f \<Longrightarrow> mset (m_end # run_order f) = mset (map snd (declared_markers f))"
  using standing_order_mset
  by (simp add: declared_markers_cases run_order_def block_markers_def latest_markers_def latest_block_markers_def)

lemma measures_after_overhead:
  "measures program ms \<Longrightarrow> measures (do { r \<leftarrow> program; Some ((m_overhead, NoScene, ReadUnit) # r) }) (m_overhead # ms)"
  by (auto simp: measures_def region_ok_def)

lemma probe_main_measures:
  assumes "SPAN \<le> U" and "at_most_one_matrix f"
  shows "measures (probe_main U f) (run_order f)"
proof -
  have "probe_main U f = do { r \<leftarrow> (if block_matrix f then block_publication_costs else if latest_matrix f then latest_buf_costs
      else if latest_block_matrix f then latest_block_composition_costs else standing_probe U);
      Some ((m_overhead, NoScene, ReadUnit) # r) }"
    using assms(2) by (auto simp: probe_main_def default_probe_def at_most_one_matrix_def)
  with measures_after_overhead [OF standing_probe_measures [OF assms(1)]] measures_after_overhead [OF block_publication_measures]
    measures_after_overhead [OF latest_buf_measures] measures_after_overhead [OF latest_block_measures]
  show ?thesis by (simp add: run_order_def)
qed

end
