(* ===== verification/Probe_Matrix.thy ===== *)
theory Probe_Matrix
  imports Probes Bringup Formatting
begin

text \<open>
  What \<open>scripts/codesize/src/lib.rs\<close> instantiates. The probe functions of \<open>Probes\<close> are macro bodies; here are
  the statics and the tables of invocations, with their exported names and payload types, the features that
  select them, and the bring-up that only a branch with \<open>try_split\<close> compiles. A size budget compares rows
  across a full matrix of sample widths and block lengths, so the tables must be complete, name what they
  measure and agree with each other.
\<close>

section \<open>Features\<close>

datatype codesize_feature = Split | BlockMatrix | LatestMatrix | LatestBlockMatrix

definition codesize_compile_error :: "codesize_feature set \<Rightarrow> bool" where
  "codesize_compile_error fs \<longleftrightarrow> LatestMatrix \<in> fs \<and> LatestBlockMatrix \<in> fs"

section \<open>Statics\<close>

definition BUF :: "u32 event_buf" where
  "BUF = eb_new 64"

definition FLAGS :: event_flags where
  "FLAGS = ef_new"

definition SEQ_BUF :: "u32 seq_ring" where
  "SEQ_BUF = sr_new 64"

definition SPLIT_BUF :: "u32 event_buf" where
  "SPLIT_BUF = eb_new 64"

definition LATEST_U32_BUF :: "u32 latest_buf" where
  "LATEST_U32_BUF = lb_new"

text \<open>An array payload is a list of its elements.\<close>

definition LATEST_W16_BUF :: "u32 list latest_buf" where
  "LATEST_W16_BUF = lb_new"

definition LATEST_BLOCK_BUF :: "u32 list latest_buf" where
  "LATEST_BLOCK_BUF = lb_new"

text \<open>The roles of the statics are free, so bring-up succeeds on them.\<close>

lemma bringup_on_static: "fst (the (bringup_two_calls BUF)) = 0" "fst (event_flags_acquire_roles FLAGS) = 0"
proof -
  have ok: "eb_fifo_ok BUF" and len: "length (eb_contents BUF) = 0" and cap: "eb_capacity BUF = 64"
    unfolding BUF_def by (simp_all add: eb_fifo_ok_def eb_wf_new dvd_eq_mod_eq_0)
  moreover have "\<not> eb_producer_taken BUF" "\<not> eb_consumer_taken BUF" by (simp_all add: BUF_def eb_new_def)
  ultimately show "fst (the (bringup_two_calls BUF)) = 0"
    using bringup_codes [OF ok] by (auto simp del: length_0_conv)
  show "fst (event_flags_acquire_roles FLAGS) = 0" by (simp add: acquire_roles_codes FLAGS_def ef_new_def)
qed

section \<open>Bring-up through one call\<close>

text \<open>\<open>try_split\<close> is not a method of this revision of the crate, so it is an argument.\<close>

definition bringup_split :: "(u32 event_buf \<Rightarrow> (eb_producer \<times> eb_consumer) option \<times> u32 event_buf) \<Rightarrow>
    u32 event_buf \<Rightarrow> (int \<times> u32 event_buf) exec" where
  "bringup_split try_split b =
     (case try_split b of
        (None, b) \<Rightarrow> Some (- 1, b)
      | (Some (p, c), b) \<Rightarrow> do {
          (r, b) \<leftarrow> eb_push b 1;
          (case r of
             Inl e \<Rightarrow> Some (- 3, eb_drop_producer (eb_drop_consumer b))
           | Inr _ \<Rightarrow> do {
               (v, b) \<leftarrow> eb_pop b;
               Some (case v of Some _ \<Rightarrow> 0 | None \<Rightarrow> - 4, eb_drop_producer (eb_drop_consumer b))
             })
        })"

text \<open>With the all-or-nothing take of \<open>static_spsc!\<close> in its place it differs from two calls in one code.\<close>

lemma bringup_split_two_calls:
  assumes "bringup_two_calls b = Some (code, b')"
  shows "bringup_split eb_static_take b = Some (if code = - 2 then - 1 else code, b')"
  using assms
  by (auto simp: bringup_split_def bringup_two_calls_def eb_static_take_def static_take_def
      split: prod.splits option.splits sum.splits bind_splits elim!: option_bind_SomeE)

section \<open>The tables\<close>

datatype sample_type = U16 | U32 | U64 | Words sample_type nat

datatype payload_type = Sample sample_type | Block_of sample_type nat | Builder_of sample_type nat

fun sample_bytes :: "sample_type \<Rightarrow> nat" where
  "sample_bytes U16 = 2"
| "sample_bytes U32 = 4"
| "sample_bytes U64 = 8"
| "sample_bytes (Words t n) = n * sample_bytes t"

definition composition_statics :: "(string \<times> payload_type) list" where
  "composition_statics =
    [(''LATEST_SAMPLE_W2_BUF'', Sample U16),
     (''LATEST_SAMPLE_W8_BUF'', Sample U64),
     (''LATEST_SAMPLE_W16_BUF'', Sample (Words U64 2)),
     (''LATEST_BLOCK_W2_N8_BUF'', Block_of U16 8),
     (''LATEST_BLOCK_W2_N32_BUF'', Block_of U16 32),
     (''LATEST_BLOCK_W2_N128_BUF'', Block_of U16 128),
     (''LATEST_BLOCK_W8_N8_BUF'', Block_of U64 8),
     (''LATEST_BLOCK_W8_N32_BUF'', Block_of U64 32),
     (''LATEST_BLOCK_W8_N128_BUF'', Block_of U64 128),
     (''LATEST_BLOCK_W16_N8_BUF'', Block_of (Words U64 2) 8),
     (''LATEST_BLOCK_W16_N32_BUF'', Block_of (Words U64 2) 32),
     (''LATEST_BLOCK_W16_N128_BUF'', Block_of (Words U64 2) 128)]"

definition builder_statics :: "(string \<times> payload_type) list" where
  "builder_statics =
    [(''LATEST_BUILDER_W2_N8'', Builder_of U16 8),
     (''LATEST_BUILDER_W2_N32'', Builder_of U16 32),
     (''LATEST_BUILDER_W2_N128'', Builder_of U16 128),
     (''LATEST_BUILDER_W8_N8'', Builder_of U64 8),
     (''LATEST_BUILDER_W8_N32'', Builder_of U64 32),
     (''LATEST_BUILDER_W8_N128'', Builder_of U64 128),
     (''LATEST_BUILDER_W16_N8'', Builder_of (Words U64 2) 8),
     (''LATEST_BUILDER_W16_N32'', Builder_of (Words U64 2) 32),
     (''LATEST_BUILDER_W16_N128'', Builder_of (Words U64 2) 128)]"

definition matrix_operation_probes :: "(string \<times> string \<times> payload_type) list" where
  "matrix_operation_probes =
    [(''latest_u32_publish'', ''latest_u32_take'', Sample U32),
     (''latest_w16_publish'', ''latest_w16_take'', Sample (Words U32 4)),
     (''latest_block_publish'', ''latest_block_take'', Sample (Words U32 32))]"

definition sample_operation_probes :: "(string \<times> string \<times> payload_type) list" where
  "sample_operation_probes =
    [(''latest_sample_w2_publish'', ''latest_sample_w2_take'', Sample U16),
     (''latest_sample_w8_publish'', ''latest_sample_w8_take'', Sample U64),
     (''latest_sample_w16_publish'', ''latest_sample_w16_take'', Sample (Words U64 2))]"

definition take_probes :: "(string \<times> payload_type) list" where
  "take_probes =
    [(''latest_block_w2_n8_take'', Block_of U16 8),
     (''latest_block_w2_n32_take'', Block_of U16 32),
     (''latest_block_w2_n128_take'', Block_of U16 128),
     (''latest_block_w8_n8_take'', Block_of U64 8),
     (''latest_block_w8_n32_take'', Block_of U64 32),
     (''latest_block_w8_n128_take'', Block_of U64 128),
     (''latest_block_w16_n8_take'', Block_of (Words U64 2) 8),
     (''latest_block_w16_n32_take'', Block_of (Words U64 2) 32),
     (''latest_block_w16_n128_take'', Block_of (Words U64 2) 128)]"

definition block_publish_probes :: "(string \<times> sample_type \<times> nat) list" where
  "block_publish_probes =
    [(''block_w2_n8_publish'', U16, 8),
     (''block_w2_n32_publish'', U16, 32),
     (''block_w2_n128_publish'', U16, 128),
     (''block_w8_n8_publish'', U64, 8),
     (''block_w8_n32_publish'', U64, 32),
     (''block_w8_n128_publish'', U64, 128),
     (''block_w16_n8_publish'', Words U64 2, 8),
     (''block_w16_n32_publish'', Words U64 2, 32),
     (''block_w16_n128_publish'', Words U64 2, 128)]"

definition latest_complete_probes :: "(string \<times> sample_type \<times> nat) list" where
  "latest_complete_probes =
    [(''latest_complete_w2_n8_publish'', U16, 8),
     (''latest_complete_w2_n32_publish'', U16, 32),
     (''latest_complete_w2_n128_publish'', U16, 128),
     (''latest_complete_w8_n8_publish'', U64, 8),
     (''latest_complete_w8_n32_publish'', U64, 32),
     (''latest_complete_w8_n128_publish'', U64, 128),
     (''latest_complete_w16_n8_publish'', Words U64 2, 8),
     (''latest_complete_w16_n32_publish'', Words U64 2, 32),
     (''latest_complete_w16_n128_publish'', Words U64 2, 128)]"

section \<open>What the tables must satisfy\<close>

text \<open>The names: \<open>w\<close> and the bytes of a sample, \<open>n\<close> and the length of a block.\<close>

definition matrix :: "(sample_type \<times> nat) list" where
  "matrix = List.product [U16, U64, Words U64 2] [8, 32, 128]"

fun cell_name :: "string \<Rightarrow> string \<Rightarrow> string \<Rightarrow> sample_type \<times> nat \<Rightarrow> string" where
  "cell_name W N suffix (t, n) = W @ decimal (sample_bytes t) @ N @ decimal n @ suffix"

lemma decimal_values:
  "decimal 2 = ''2''" "decimal 4 = ''4''" "decimal 8 = ''8''" "decimal 16 = ''16''" "decimal 32 = ''32''" "decimal 128 = ''128''"
  by (simp_all add: radix.simps digit_char_def)

lemma matrix_cells: "matrix = [(U16, 8), (U16, 32), (U16, 128), (U64, 8), (U64, 32), (U64, 128),
    (Words U64 2, 8), (Words U64 2, 32), (Words U64 2, 128)]"
  by (simp add: matrix_def)

lemma publish_probes_complete:
  "block_publish_probes = map (\<lambda>c. (cell_name ''block_w'' ''_n'' ''_publish'' c, c)) matrix"
  "latest_complete_probes = map (\<lambda>c. (cell_name ''latest_complete_w'' ''_n'' ''_publish'' c, c)) matrix"
  by (simp_all add: matrix_cells decimal_values block_publish_probes_def latest_complete_probes_def)

lemma take_probes_complete:
  "take_probes = map (\<lambda>c. (cell_name ''latest_block_w'' ''_n'' ''_take'' c, Block_of (fst c) (snd c))) matrix"
  by (simp add: matrix_cells decimal_values take_probes_def)

lemma statics_complete:
  "drop 3 composition_statics =
     map (\<lambda>c. (cell_name ''LATEST_BLOCK_W'' ''_N'' ''_BUF'' c, Block_of (fst c) (snd c))) matrix"
  "builder_statics = map (\<lambda>c. (cell_name ''LATEST_BUILDER_W'' ''_N'' '''' c, Builder_of (fst c) (snd c))) matrix"
  by (simp_all add: matrix_cells decimal_values composition_statics_def builder_statics_def)

lemma samples_complete:
  "take 3 composition_statics =
     map (\<lambda>t. (''LATEST_SAMPLE_W'' @ decimal (sample_bytes t) @ ''_BUF'', Sample t)) [U16, U64, Words U64 2]"
  "sample_operation_probes =
     map (\<lambda>t. (''latest_sample_w'' @ decimal (sample_bytes t) @ ''_publish'',
       ''latest_sample_w'' @ decimal (sample_bytes t) @ ''_take'', Sample t)) [U16, U64, Words U64 2]"
  by (simp_all add: decimal_values composition_statics_def sample_operation_probes_def)

text \<open>The names exported under each feature; an exported name must be unique in the library.\<close>

definition exported :: "codesize_feature set \<Rightarrow> string list" where
  "exported fs = [''SEQ_BUF'', ''bringup_two_calls'', ''event_flags_acquire_roles'', ''event_flags_raise'',
       ''event_flags_take'', ''counted_increment'', ''counted_take''] @
     (if Split \<in> fs then [''bringup_split''] else []) @
     (if BlockMatrix \<in> fs then map fst block_publish_probes else []) @
     (if LatestMatrix \<in> fs then [''LATEST_U32_BUF'', ''LATEST_W16_BUF'', ''LATEST_BLOCK_BUF''] @
        concat (map (\<lambda>(p, t, _). [p, t]) matrix_operation_probes) @
        [''latest_producer_reacquire'', ''latest_consumer_reacquire''] else []) @
     (if LatestBlockMatrix \<in> fs then map fst composition_statics @ map fst builder_statics @
        concat (map (\<lambda>(p, t, _). [p, t]) sample_operation_probes) @ map fst take_probes @
        map fst latest_complete_probes else [])"

lemma exported_distinct: "distinct (exported {Split, BlockMatrix, LatestMatrix, LatestBlockMatrix})"
  by (simp add: exported_def block_publish_probes_def matrix_operation_probes_def composition_statics_def
      builder_statics_def sample_operation_probes_def take_probes_def latest_complete_probes_def)

end
