(* ===== verification/Conformance.thy ===== *)
theory Conformance
  imports EventBuf Ring Block
begin

text \<open>
  The unit tests that stand at the end of \<open>src/event_buf.rs\<close>, \<open>src/ring.rs\<close> and \<open>src/block.rs\<close>,
  run on the model. A test is a program of type \<open>unit exec\<close>: a failed assertion, an \<open>unwrap\<close> of
  nothing and a \<open>panic!\<close> in a hook are \<open>None\<close>, so \<open>test = Some ()\<close> says that the test passes. They
  tie the definitions to the behaviour the authors wrote down. Tests that spawn threads or check
  only auto traits have no counterpart here; the concurrent models state what the former sample.
\<close>

section \<open>Assertions\<close>

definition check :: "bool \<Rightarrow> unit exec" where
  "check P = (if P then Some () else None)"

definition accepted_push :: "(('e + unit) \<times> 's) exec \<Rightarrow> 's exec" where
  "accepted_push m = do { (r, s) \<leftarrow> m; (case r of Inr u \<Rightarrow> Some s | Inl e \<Rightarrow> None) }"

text \<open>\<open>for v in vs { p.push(v).unwrap(); }\<close>\<close>

fun push_each :: "('s \<Rightarrow> 'a \<Rightarrow> (('e + unit) \<times> 's) exec) \<Rightarrow> 's \<Rightarrow> 'a list \<Rightarrow> 's exec" where
  "push_each push s [] = Some s"
| "push_each push s (v # vs) = do { s' \<leftarrow> accepted_push (push s v); push_each push s' vs }"

text \<open>Evaluation in program order: the continuation of a bind waits for its first argument.\<close>

lemma bind_in_order: "m = m' \<Longrightarrow> Option.bind m f = Option.bind m' f"
  by simp

lemma uninit_slots_small:
  "uninit_slots (Suc 0) = [None]" "uninit_slots 2 = [None, None]" "uninit_slots 3 = [None, None, None]"
  "uninit_slots 4 = [None, None, None, None]"
  "uninit_slots 8 = [None, None, None, None, None, None, None, None]"
  by (simp_all add: uninit_slots_def eval_nat_numeral)

text \<open>The numbers next to \<open>u32::MAX\<close>, for the tests that cross the wrap.\<close>

lemma u32_near_MAX: "(- 1 :: u32) = 4294967295" "(- numeral k :: u32) = 4294967296 - numeral k"
proof -
  have zero: "(4294967296 :: u32) = 0" by simp
  show "(- numeral k :: u32) = 4294967296 - numeral k" by (simp only: zero diff_0)
  have "(- 1 :: u32) = 4294967296 - 1" by (simp only: zero diff_0)
  then show "(- 1 :: u32) = 4294967295" by simp
qed

lemmas run_defs [op_defs] = Let_def check_def claim_def accepted_push_def uninit_slots_small
  slot_read_def slot_write_def array_read_def array_write_def

section \<open>EventBuf\<close>

definition eb_test_new_buf_is_empty :: "unit exec" where
  "eb_test_new_buf_is_empty = do {
     let buf = (eb_new 4 :: u32 event_buf);
     check (eb_is_empty buf);
     check (\<not> eb_is_full buf);
     check (eb_len buf = 0);
     check (eb_capacity buf = 4)
   }"

definition eb_test_push_and_pop_fifo :: "unit exec" where
  "eb_test_push_and_pop_fifo = do {
     let buf = (eb_new 4 :: u32 event_buf);
     buf \<leftarrow> claim (eb_try_producer buf);
     buf \<leftarrow> claim (eb_try_consumer buf);
     buf \<leftarrow> accepted_push (eb_push buf 10);
     buf \<leftarrow> accepted_push (eb_push buf 20);
     buf \<leftarrow> accepted_push (eb_push buf 30);
     (v, buf) \<leftarrow> eb_pop buf; check (v = Some 10);
     (v, buf) \<leftarrow> eb_pop buf; check (v = Some 20);
     (v, buf) \<leftarrow> eb_pop buf; check (v = Some 30);
     (v, buf) \<leftarrow> eb_pop buf; check (v = None)
   }"

definition eb_test_push_rejects_when_full :: "unit exec" where
  "eb_test_push_rejects_when_full = do {
     let buf = (eb_new 2 :: u32 event_buf);
     buf \<leftarrow> claim (eb_try_producer buf);
     buf \<leftarrow> claim (eb_try_consumer buf);
     buf \<leftarrow> accepted_push (eb_push buf 1);
     buf \<leftarrow> accepted_push (eb_push buf 2);
     (r, buf) \<leftarrow> eb_push buf 3; check (r = Inl 3);
     (v, buf) \<leftarrow> eb_pop buf; check (v = Some 1);
     buf \<leftarrow> accepted_push (eb_push buf 3);
     Some ()
   }"

definition eb_test_drain_returns_count :: "unit exec" where
  "eb_test_drain_returns_count = do {
     let buf = (eb_new 8 :: u32 event_buf);
     buf \<leftarrow> claim (eb_try_producer buf);
     buf \<leftarrow> claim (eb_try_consumer buf);
     buf \<leftarrow> push_each eb_push buf [0, 1, 2, 3, 4];
     (n, buf, out) \<leftarrow> eb_drain buf 3 (\<lambda>v (b, out). Some (b, out @ [v])) [];
     check (n = 3);
     check (out = [0, 1, 2]);
     (n, buf, out) \<leftarrow> eb_drain buf 100 (\<lambda>v (b, out). Some (b, out @ [v])) out;
     check (n = 2);
     check (out = [0, 1, 2, 3, 4])
   }"

definition eb_test_drain_on_empty_returns_zero :: "unit exec" where
  "eb_test_drain_on_empty_returns_zero = do {
     let buf = (eb_new 4 :: u32 event_buf);
     buf \<leftarrow> claim (eb_try_producer buf);
     buf \<leftarrow> claim (eb_try_consumer buf);
     (n, buf, u) \<leftarrow> eb_drain buf 10 (\<lambda>v bh. None) ();
     check (n = 0)
   }"

definition eb_test_producer_consumer_can_be_recreated :: "unit exec" where
  "eb_test_producer_consumer_can_be_recreated = do {
     let buf = (eb_new 4 :: u32 event_buf);
     buf \<leftarrow> claim (eb_try_producer buf);
     buf \<leftarrow> accepted_push (eb_push buf 1);
     let buf = eb_drop_producer buf;
     buf \<leftarrow> claim (eb_try_producer buf);
     buf \<leftarrow> accepted_push (eb_push buf 2);
     buf \<leftarrow> claim (eb_try_consumer buf);
     (v, buf) \<leftarrow> eb_pop buf; check (v = Some 1);
     let buf = eb_drop_consumer buf;
     buf \<leftarrow> claim (eb_try_consumer buf);
     (v, buf) \<leftarrow> eb_pop buf; check (v = Some 2);
     (v, buf) \<leftarrow> eb_pop buf; check (v = None)
   }"

text \<open>One round: fill with \<open>base\<close>, \<open>base + 1\<close>, \<open>base + 2\<close>, refuse 99, pop the three, find it empty.\<close>

definition eb_test_round :: "u32 event_buf \<Rightarrow> u32 \<Rightarrow> u32 event_buf exec" where
  "eb_test_round buf base = do {
     buf \<leftarrow> push_each eb_push buf [base, base + 1, base + 2];
     (r, buf) \<leftarrow> eb_push buf 99; check (r = Inl 99);
     (v, buf) \<leftarrow> eb_pop buf; check (v = Some base);
     (v, buf) \<leftarrow> eb_pop buf; check (v = Some (base + 1));
     (v, buf) \<leftarrow> eb_pop buf; check (v = Some (base + 2));
     (v, buf) \<leftarrow> eb_pop buf; check (v = None);
     Some buf
   }"

definition eb_test_wraps_around_correctly :: "unit exec" where
  "eb_test_wraps_around_correctly = do {
     let buf = (eb_new 3 :: u32 event_buf);
     buf \<leftarrow> claim (eb_try_producer buf);
     buf \<leftarrow> claim (eb_try_consumer buf);
     buf \<leftarrow> eb_test_round buf 0;
     buf \<leftarrow> eb_test_round buf 3;
     buf \<leftarrow> eb_test_round buf 6;
     buf \<leftarrow> eb_test_round buf 9;
     Some ()
   }"

definition eb_test_len_and_full_track_state :: "unit exec" where
  "eb_test_len_and_full_track_state = do {
     let buf = (eb_new 3 :: u32 event_buf);
     buf \<leftarrow> claim (eb_try_producer buf);
     buf \<leftarrow> claim (eb_try_consumer buf);
     check (eb_len buf = 0);
     check (eb_is_empty buf);
     buf \<leftarrow> accepted_push (eb_push buf 1);
     check (eb_len buf = 1);
     buf \<leftarrow> accepted_push (eb_push buf 2);
     buf \<leftarrow> accepted_push (eb_push buf 3);
     check (eb_len buf = 3);
     check (eb_is_full buf);
     (v, buf) \<leftarrow> eb_pop buf;
     check (eb_len buf = 2);
     check (\<not> eb_is_full buf)
   }"

definition eb_test_try_producer_and_try_consumer :: "unit exec" where
  "eb_test_try_producer_and_try_consumer = do {
     let buf = (eb_new 4 :: u32 event_buf);
     buf \<leftarrow> claim (eb_try_producer buf);
     check (fst (eb_try_producer buf) = None); let buf = snd (eb_try_producer buf);
     buf \<leftarrow> claim (eb_try_consumer buf);
     check (fst (eb_try_consumer buf) = None); let buf = snd (eb_try_consumer buf);
     buf \<leftarrow> accepted_push (eb_push buf 1);
     (v, buf) \<leftarrow> eb_pop buf; check (v = Some 1);
     let buf = eb_drop_consumer (eb_drop_producer buf);
     buf \<leftarrow> claim (eb_try_producer buf);
     buf \<leftarrow> claim (eb_try_consumer buf);
     Some ()
   }"

definition eb_test_peek_copies_without_advancing :: "unit exec" where
  "eb_test_peek_copies_without_advancing = do {
     let buf = (eb_new 4 :: u32 event_buf);
     buf \<leftarrow> claim (eb_try_producer buf);
     buf \<leftarrow> claim (eb_try_consumer buf);
     v \<leftarrow> eb_peek buf; check (v = None);
     buf \<leftarrow> accepted_push (eb_push buf 10);
     buf \<leftarrow> accepted_push (eb_push buf 20);
     v \<leftarrow> eb_peek buf; check (v = Some 10);
     v \<leftarrow> eb_peek buf; check (v = Some 10);
     check (eb_len buf = 2);
     (v, buf) \<leftarrow> eb_pop buf; check (v = Some 10);
     v \<leftarrow> eb_peek buf; check (v = Some 20);
     (v, buf) \<leftarrow> eb_pop buf; check (v = Some 20);
     v \<leftarrow> eb_peek buf; check (v = None)
   }"

lemma eb_test_1: "eb_test_new_buf_is_empty = Some ()"
  by (simp add: eb_test_new_buf_is_empty_def op_defs)

lemma eb_test_2: "eb_test_push_and_pop_fifo = Some ()"
  by (simp add: eb_test_push_and_pop_fifo_def op_defs cong: bind_in_order)

lemma eb_test_3: "eb_test_push_rejects_when_full = Some ()"
  by (simp add: eb_test_push_rejects_when_full_def op_defs cong: bind_in_order)

lemma eb_test_4: "eb_test_drain_returns_count = Some ()"
  by (simp add: eb_test_drain_returns_count_def op_defs eb_drain_loop.simps cong: bind_in_order)

lemma eb_test_5: "eb_test_drain_on_empty_returns_zero = Some ()"
  by (simp add: eb_test_drain_on_empty_returns_zero_def op_defs eb_drain_loop.simps cong: bind_in_order)

lemma eb_test_6: "eb_test_producer_consumer_can_be_recreated = Some ()"
  by (simp add: eb_test_producer_consumer_can_be_recreated_def op_defs cong: bind_in_order)

lemma eb_test_7: "eb_test_wraps_around_correctly = Some ()"
  by (simp add: eb_test_wraps_around_correctly_def eb_test_round_def op_defs cong: bind_in_order)

lemma eb_test_8: "eb_test_len_and_full_track_state = Some ()"
  by (simp add: eb_test_len_and_full_track_state_def op_defs cong: bind_in_order)

lemma eb_test_9: "eb_test_try_producer_and_try_consumer = Some ()"
  by (simp add: eb_test_try_producer_and_try_consumer_def op_defs cong: bind_in_order)

lemma eb_test_10: "eb_test_peek_copies_without_advancing = Some ()"
  by (simp add: eb_test_peek_copies_without_advancing_def op_defs cong: bind_in_order)

section \<open>RingBuf\<close>

definition ring_test_new_ring_is_empty :: "usize \<Rightarrow> unit exec" where
  "ring_test_new_ring_is_empty U = do {
     let r = (ring_new 4 :: u32 ring_buf);
     check (ring_is_empty r);
     check (\<not> ring_is_full r);
     check (ring_len r = 0);
     v \<leftarrow> ring_latest r; check (v = None);
     v \<leftarrow> ring_get r 0; check (v = None)
   }"

definition ring_test_push_and_get :: "usize \<Rightarrow> unit exec" where
  "ring_test_push_and_get U = do {
     let r = (ring_new 4 :: u32 ring_buf);
     r \<leftarrow> ring_push U r 10;
     r \<leftarrow> ring_push U r 20;
     r \<leftarrow> ring_push U r 30;
     check (ring_len r = 3);
     v \<leftarrow> ring_get r 0; check (v = Some 10);
     v \<leftarrow> ring_get r 1; check (v = Some 20);
     v \<leftarrow> ring_get r 2; check (v = Some 30);
     v \<leftarrow> ring_get r 3; check (v = None);
     v \<leftarrow> ring_latest r; check (v = Some 30)
   }"

definition ring_test_overwrite_oldest_when_full :: "usize \<Rightarrow> unit exec" where
  "ring_test_overwrite_oldest_when_full U = do {
     let r = (ring_new 3 :: u32 ring_buf);
     r \<leftarrow> ring_push U r 1;
     r \<leftarrow> ring_push U r 2;
     r \<leftarrow> ring_push U r 3;
     check (ring_is_full r);
     r \<leftarrow> ring_push U r 4;
     check (ring_len r = 3);
     v \<leftarrow> ring_get r 0; check (v = Some 2);
     v \<leftarrow> ring_get r 1; check (v = Some 3);
     v \<leftarrow> ring_get r 2; check (v = Some 4);
     v \<leftarrow> ring_latest r; check (v = Some 4)
   }"

definition ring_test_clear_resets_state :: "usize \<Rightarrow> unit exec" where
  "ring_test_clear_resets_state U = do {
     let r = (ring_new 4 :: u32 ring_buf);
     r \<leftarrow> ring_push U r 1;
     r \<leftarrow> ring_push U r 2;
     let r = ring_clear r;
     check (ring_is_empty r);
     check (ring_len r = 0);
     v \<leftarrow> ring_latest r; check (v = None)
   }"

definition ring_test_iter_oldest_to_newest :: "usize \<Rightarrow> unit exec" where
  "ring_test_iter_oldest_to_newest U = do {
     let r = (ring_new 4 :: u32 ring_buf);
     r \<leftarrow> ring_push U r 1; r \<leftarrow> ring_push U r 2; r \<leftarrow> ring_push U r 3;
     r \<leftarrow> ring_push U r 4; r \<leftarrow> ring_push U r 5; r \<leftarrow> ring_push U r 6;
     v \<leftarrow> ring_collect U (ring_iter_of r);
     check (v = [3, 4, 5, 6])
   }"

definition ring_test_iter_exact_size :: "usize \<Rightarrow> unit exec" where
  "ring_test_iter_exact_size U = do {
     let r = (ring_new 4 :: u32 ring_buf);
     r \<leftarrow> ring_push U r 1;
     r \<leftarrow> ring_push U r 2;
     check (ring_iter_size_hint (ring_iter_of r) = (2, Some 2))
   }"

text \<open>Capacity \<open>usize::MAX\<close> with a zero-sized element: no intermediate sum leaves \<open>usize\<close>.\<close>

definition ring_test_huge_capacity :: "usize \<Rightarrow> unit exec" where
  "ring_test_huge_capacity U = do {
     let r = (ring_new U :: unit ring_buf);
     r \<leftarrow> ring_push U r ();
     check (ring_len r = 1);
     v \<leftarrow> ring_get r 0; check (v = Some ());
     v \<leftarrow> ring_latest r; check (v = Some ());
     r \<leftarrow> ring_push U r ();
     v \<leftarrow> ring_get r 1; check (v = Some ());
     v \<leftarrow> ring_latest r; check (v = Some ())
   }"

definition ring_test_into_iter_for_ref :: "usize \<Rightarrow> unit exec" where
  "ring_test_into_iter_for_ref U = do {
     let r = (ring_new 4 :: u32 ring_buf);
     r \<leftarrow> ring_push U r 1;
     r \<leftarrow> ring_push U r 2;
     r \<leftarrow> ring_push U r 3;
     v \<leftarrow> ring_collect U (ring_into_iter r);
     check (v = [1, 2, 3])
   }"

lemma ring_test_1: "ring_test_new_ring_is_empty U = Some ()"
  by (simp add: ring_test_new_ring_is_empty_def op_defs cong: bind_in_order)

lemma ring_test_2: "4 \<le> U \<Longrightarrow> ring_test_push_and_get U = Some ()"
  by (simp add: ring_test_push_and_get_def op_defs cong: bind_in_order)

lemma ring_test_3: "3 \<le> U \<Longrightarrow> ring_test_overwrite_oldest_when_full U = Some ()"
  by (simp add: ring_test_overwrite_oldest_when_full_def op_defs cong: bind_in_order)

lemma ring_test_4: "4 \<le> U \<Longrightarrow> ring_test_clear_resets_state U = Some ()"
  by (simp add: ring_test_clear_resets_state_def op_defs cong: bind_in_order)

lemma ring_test_5: "4 \<le> U \<Longrightarrow> ring_test_iter_oldest_to_newest U = Some ()"
  by (simp add: ring_test_iter_oldest_to_newest_def op_defs ring_collect.simps cong: bind_in_order)

lemma ring_test_6: "4 \<le> U \<Longrightarrow> ring_test_iter_exact_size U = Some ()"
  by (simp add: ring_test_iter_exact_size_def op_defs cong: bind_in_order)

lemma ring_test_7: "4 \<le> U \<Longrightarrow> ring_test_into_iter_for_ref U = Some ()"
  by (simp add: ring_test_into_iter_for_ref_def op_defs ring_collect.simps cong: bind_in_order)

lemma ring_test_8:
  assumes "3 \<le> U"
  shows "ring_test_huge_capacity U = Some ()"
proof -
  obtain n where "U = Suc (Suc (Suc n))"
    using assms by (metis Suc_le_D numeral_3_eq_3 Suc_le_mono)
  then show ?thesis
    by (simp add: ring_test_huge_capacity_def op_defs uninit_slots_def cong: bind_in_order)
qed

section \<open>BlockBuilder\<close>

text \<open>\<open>fill.push(s, x).unwrap().unwrap()\<close>: the completed block, or a panic.\<close>

definition completed :: "(('a fill_error + 'a block option) \<times> 'a block_builder) exec \<Rightarrow>
    ('a block \<times> 'a block_builder) exec" where
  "completed m = do {
     (r, fill) \<leftarrow> m;
     (case r of Inr (Some blk) \<Rightarrow> Some (blk, fill) | _ \<Rightarrow> None)
   }"

definition bb_test_completes_only_after_n :: "unit exec" where
  "bb_test_completes_only_after_n = do {
     let fill = (bb_new 3 :: 16 word block_builder);
     (r, fill) \<leftarrow> bb_push fill 41 4; check (r = Inr None);
     (r, fill) \<leftarrow> bb_push fill 42 5; check (r = Inr None);
     (blk, fill) \<leftarrow> completed (bb_push fill 43 6);
     check (block_first_sequence blk = 41);
     check (block_last_sequence blk = 43);
     check (block_samples blk = [4, 5, 6]);
     check (bb_is_empty fill)
   }"

definition bb_test_discontinuity_is_modular :: "unit exec" where
  "bb_test_discontinuity_is_modular = do {
     let fill = (bb_new 2 :: 16 word block_builder);
     (r, fill) \<leftarrow> bb_push fill u32_MAX 1; check (r = Inr None);
     (r, fill) \<leftarrow> bb_push fill 2 9;
     check (case r of Inl (Discontinuous expected received sample) \<Rightarrow> expected = 1 \<and> received = 2 | _ \<Rightarrow> False);
     (blk, fill) \<leftarrow> completed (bb_push fill 1 2);
     check (block_samples blk = [1, 2])
   }"

definition bb_test_completion_resets :: "unit exec" where
  "bb_test_completion_resets = do {
     let fill = (bb_new 1 :: 8 word block_builder);
     (blk, fill) \<leftarrow> completed (bb_push fill 7 9);
     check (block_into_samples blk = [9]);
     (blk, fill) \<leftarrow> completed (bb_push fill 8 10);
     check (block_into_samples blk = [10])
   }"

definition bb_test_rejects_reserved_zero :: "unit exec" where
  "bb_test_rejects_reserved_zero = do {
     let fill = (bb_new 2 :: 8 word block_builder);
     (r, fill) \<leftarrow> bb_push fill 9 1; check (r = Inr None);
     (r, fill) \<leftarrow> bb_push fill 0 2; check (r = Inl (ReservedSequence 2));
     check (bb_len fill = 1);
     check (bb_expected_sequence fill = Some 10)
   }"

definition bb_test_rejects_gap :: "unit exec" where
  "bb_test_rejects_gap = do {
     let fill = (bb_new 2 :: 8 word block_builder);
     (r, fill) \<leftarrow> bb_push fill 9 1; check (r = Inr None);
     (r, fill) \<leftarrow> bb_push fill 11 2; check (r = Inl (Discontinuous 10 11 2));
     check (bb_len fill = 1)
   }"

definition bb_test_clear_discards_a_partial_block :: "unit exec" where
  "bb_test_clear_discards_a_partial_block = do {
     let fill = (bb_new 4 :: 8 word block_builder);
     (r, fill) \<leftarrow> bb_push fill 1 1; check (r = Inr None);
     let fill = bb_clear fill;
     check (bb_is_empty fill);
     check (bb_expected_sequence fill = None);
     (r, fill) \<leftarrow> bb_push fill 20 2; check (r = Inr None)
   }"

definition bb_test_sequence_wrap_skips_zero :: "unit exec" where
  "bb_test_sequence_wrap_skips_zero = do {
     let fill = (bb_new 2 :: 8 word block_builder);
     (r, fill) \<leftarrow> bb_push fill u32_MAX 1; check (r = Inr None);
     (blk, fill) \<leftarrow> completed (bb_push fill 1 2);
     check (block_first_sequence blk = u32_MAX);
     check (block_last_sequence blk = 1)
   }"

definition bb_test_default_and_capacity_match_new :: "unit exec" where
  "bb_test_default_and_capacity_match_new = do {
     let fill = (bb_default 8 :: 8 word block_builder);
     check (bb_capacity fill = 8);
     check (bb_len fill = 0)
   }"

definition bb_test_event_buf_composition :: "unit exec" where
  "bb_test_event_buf_composition = do {
     let fill = (bb_new 2 :: 8 word block_builder);
     (r, fill) \<leftarrow> bb_push fill 1 10; check (r = Inr None);
     (first, fill) \<leftarrow> completed (bb_push fill 2 11);
     (r, fill) \<leftarrow> bb_push fill 3 12; check (r = Inr None);
     (second, fill) \<leftarrow> completed (bb_push fill 4 13);
     let queue = eb_new 1;
     queue \<leftarrow> claim (eb_try_producer queue);
     queue \<leftarrow> claim (eb_try_consumer queue);
     (r, queue) \<leftarrow> eb_push queue first; check (r = Inr ());
     (r, queue) \<leftarrow> eb_push queue second; check (r = Inl second);
     (v, queue) \<leftarrow> eb_pop queue; check (v = Some first)
   }"

lemmas bb_test_defs [op_defs] = completed_def

lemma bb_test_1: "bb_test_completes_only_after_n = Some ()"
  by (simp add: bb_test_completes_only_after_n_def op_defs cong: bind_in_order)

lemma bb_test_2: "bb_test_discontinuity_is_modular = Some ()"
  by (simp add: bb_test_discontinuity_is_modular_def op_defs cong: bind_in_order)

lemma bb_test_3: "bb_test_completion_resets = Some ()"
  by (simp add: bb_test_completion_resets_def op_defs cong: bind_in_order)

lemma bb_test_4: "bb_test_rejects_reserved_zero = Some ()"
  by (simp add: bb_test_rejects_reserved_zero_def op_defs cong: bind_in_order)

lemma bb_test_5: "bb_test_rejects_gap = Some ()"
  by (simp add: bb_test_rejects_gap_def op_defs cong: bind_in_order)

lemma bb_test_6: "bb_test_clear_discards_a_partial_block = Some ()"
  by (simp add: bb_test_clear_discards_a_partial_block_def op_defs cong: bind_in_order)

lemma bb_test_7: "bb_test_sequence_wrap_skips_zero = Some ()"
  by (simp add: bb_test_sequence_wrap_skips_zero_def op_defs cong: bind_in_order)

lemma bb_test_8: "bb_test_default_and_capacity_match_new = Some ()"
  by (simp add: bb_test_default_and_capacity_match_new_def op_defs cong: bind_in_order)

lemma bb_test_9: "bb_test_event_buf_composition = Some ()"
  by (simp add: bb_test_event_buf_composition_def op_defs cong: bind_in_order)

end
