(* ===== verification/Conformance_SeqRing.thy ===== *)
theory Conformance_SeqRing
  imports Conformance Bringup
begin

text \<open>
  The unit tests of \<open>src/seq_ring.rs\<close>, and those of \<open>src/traits.rs\<close> and \<open>src/macros.rs\<close>, run on the
  model. \<open>U\<close> is \<open>usize::MAX\<close>, at least \<open>2 ^ 32 - 1\<close>.
\<close>

section \<open>Helpers of the tests\<close>

text \<open>\<open>try_consumer().unwrap()\<close> of a SeqRing hands out the consumer's own state.\<close>

definition claim_consumer :: "sr_consumer option \<times> 'a seq_ring \<Rightarrow> (sr_consumer \<times> 'a seq_ring) exec" where
  "claim_consumer cr = (case fst cr of Some c \<Rightarrow> Some (c, snd cr) | None \<Rightarrow> None)"

text \<open>The hook that collects what it is given, \<open>|seq, v| seen.push((seq, *v))\<close>.\<close>

definition collect_hook :: "u32 \<Rightarrow> 'a \<Rightarrow> 'a seq_ring \<times> (u32 \<times> 'a) list \<Rightarrow>
    ('a seq_ring \<times> (u32 \<times> 'a) list) exec" where
  "collect_hook s v rh = Some (fst rh, snd rh @ [(s, v)])"

fun sr_push_each :: "'a seq_ring \<Rightarrow> 'a list \<Rightarrow> (u32 list \<times> 'a seq_ring) exec" where
  "sr_push_each r [] = Some ([], r)"
| "sr_push_each r (v # vs) = do {
     (s, r') \<leftarrow> sr_push r v;
     (ss, r'') \<leftarrow> sr_push_each r' vs;
     Some (s # ss, r'')
   }"

section \<open>SeqRing\<close>

definition sr_test_poll_one_empty :: "usize \<Rightarrow> unit exec" where
  "sr_test_poll_one_empty U = do {
     let ring = (sr_new 4 :: u32 seq_ring);
     (consumer, ring) \<leftarrow> claim_consumer (sr_try_consumer ring);
     (ok, consumer, ring, seen) \<leftarrow> sr_poll_one U consumer ring collect_hook [];
     check (\<not> ok)
   }"

definition sr_test_polls_in_order :: "usize \<Rightarrow> unit exec" where
  "sr_test_polls_in_order U = do {
     let ring = (sr_new 8 :: u32 seq_ring);
     ring \<leftarrow> claim (sr_try_producer ring);
     (consumer, ring) \<leftarrow> claim_consumer (sr_try_consumer ring);
     (s, ring) \<leftarrow> sr_push ring 10;
     (s, ring) \<leftarrow> sr_push ring 11;
     (s, ring) \<leftarrow> sr_push ring 12;
     (stats, consumer, ring, seen) \<leftarrow> sr_poll_up_to U consumer ring 10 collect_hook [];
     check (ps_read stats = 3);
     check (ps_dropped stats = 0);
     check (ps_newest stats = 3);
     check (seen = [(1, 10), (2, 11), (3, 12)])
   }"

definition sr_test_drops_when_consumer_lags :: "usize \<Rightarrow> unit exec" where
  "sr_test_drops_when_consumer_lags U = do {
     let ring = (sr_new 4 :: u32 seq_ring);
     ring \<leftarrow> claim (sr_try_producer ring);
     (consumer, ring) \<leftarrow> claim_consumer (sr_try_consumer ring);
     (ss, ring) \<leftarrow> sr_push_each ring [0, 1, 2, 3, 4, 5, 6, 7, 8, 9];
     (stats, consumer, ring, seen) \<leftarrow> sr_poll_up_to U consumer ring 10 collect_hook [];
     check (ps_read stats = 4);
     check (ps_dropped stats = 6);
     check (ps_newest stats = 10);
     check (seen = [(7, 6), (8, 7), (9, 8), (10, 9)])
   }"

definition sr_test_latest_reads_newest :: "unit exec" where
  "sr_test_latest_reads_newest = do {
     let ring = (sr_new 8 :: u32 seq_ring);
     ring \<leftarrow> claim (sr_try_producer ring);
     (consumer, ring) \<leftarrow> claim_consumer (sr_try_consumer ring);
     (s, ring) \<leftarrow> sr_push ring 1;
     (s, ring) \<leftarrow> sr_push ring 2;
     (ok, ring, got) \<leftarrow> sr_latest ring collect_hook [];
     check ok;
     check (got = [(2, 2)])
   }"

definition sr_test_skip_to_latest :: "usize \<Rightarrow> unit exec" where
  "sr_test_skip_to_latest U = do {
     let ring = (sr_new 8 :: u32 seq_ring);
     ring \<leftarrow> claim (sr_try_producer ring);
     (consumer, ring) \<leftarrow> claim_consumer (sr_try_consumer ring);
     (s, ring) \<leftarrow> sr_push ring 10;
     (s, ring) \<leftarrow> sr_push ring 11;
     (s, ring) \<leftarrow> sr_push ring 12;
     let consumer = sr_skip_to_latest consumer ring;
     (ok, consumer, ring, got) \<leftarrow> sr_poll_one U consumer ring collect_hook [];
     check ok;
     check (got = [(3, 12)])
   }"

text \<open>A hook that panics shows that a poll with limit zero runs none.\<close>

definition sr_test_poll_up_to_zero :: "usize \<Rightarrow> unit exec" where
  "sr_test_poll_up_to_zero U = do {
     let ring = (sr_new 4 :: u32 seq_ring);
     ring \<leftarrow> claim (sr_try_producer ring);
     (consumer, ring) \<leftarrow> claim_consumer (sr_try_consumer ring);
     (s, ring) \<leftarrow> sr_push ring 42;
     (stats, consumer, ring, u) \<leftarrow> sr_poll_up_to U consumer ring 0 (\<lambda>s v rh. None) ();
     check (ps_read stats = 0);
     check (ps_dropped stats = 0);
     check (ps_newest stats = 1)
   }"

definition sr_test_dropped_counter_can_reset :: "usize \<Rightarrow> unit exec" where
  "sr_test_dropped_counter_can_reset U = do {
     let ring = (sr_new 2 :: u32 seq_ring);
     ring \<leftarrow> claim (sr_try_producer ring);
     (consumer, ring) \<leftarrow> claim_consumer (sr_try_consumer ring);
     (ss, ring) \<leftarrow> sr_push_each ring [0, 1, 2, 3, 4];
     (stats, consumer, ring, seen) \<leftarrow> sr_poll_up_to U consumer ring 10 collect_hook [];
     check (sr_dropped consumer = ps_dropped stats);
     let consumer = sr_reset_dropped consumer;
     check (sr_dropped consumer = 0)
   }"

definition sr_test_latest_empty_returns_false :: "unit exec" where
  "sr_test_latest_empty_returns_false = do {
     let ring = (sr_new 4 :: u32 seq_ring);
     (consumer, ring) \<leftarrow> claim_consumer (sr_try_consumer ring);
     (ok, ring, seen) \<leftarrow> sr_latest ring collect_hook [];
     check (\<not> ok)
   }"

definition sr_test_latest_slot_missing :: "unit exec" where
  "sr_test_latest_slot_missing = do {
     let ring = (sr_new 4 :: u32 seq_ring);
     (consumer, ring) \<leftarrow> claim_consumer (sr_try_consumer ring);
     let ring = ring\<lparr>sr_published_seq := 1\<rparr>;
     (ok, ring, seen) \<leftarrow> sr_latest ring collect_hook [];
     check (\<not> ok)
   }"

definition sr_test_poll_counts_missing_slot :: "usize \<Rightarrow> unit exec" where
  "sr_test_poll_counts_missing_slot U = do {
     let ring = (sr_new 4 :: u32 seq_ring);
     (consumer, ring) \<leftarrow> claim_consumer (sr_try_consumer ring);
     let ring = ring\<lparr>sr_published_seq := 1\<rparr>;
     (stats, consumer, ring, u) \<leftarrow> sr_poll_up_to U consumer ring 1 (\<lambda>s v rh. None) ();
     check (ps_read stats = 0);
     check (ps_dropped stats = 1);
     check (sr_dropped consumer = 1)
   }"

definition sr_test_push_wraps_seq :: "unit exec" where
  "sr_test_push_wraps_seq = do {
     let ring = (sr_new 4 :: u32 seq_ring)\<lparr>sr_next_seq := u32_MAX\<rparr>;
     ring \<leftarrow> claim (sr_try_producer ring);
     (s, ring) \<leftarrow> sr_push ring 1;
     check (s = 1);
     check (sr_next_seq ring = 1)
   }"

definition sr_test_read_rejects_invalidated_slot :: "unit exec" where
  "sr_test_read_rejects_invalidated_slot = do {
     let ring = (sr_new 4 :: u32 seq_ring);
     ring \<leftarrow> claim (sr_try_producer ring);
     (s, ring) \<leftarrow> sr_push ring 7;
     seqs \<leftarrow> array_write (sr_slot_seq ring) (sr_idx_for 4 s) 0;
     let ring = ring\<lparr>sr_slot_seq := seqs\<rparr>;
     got \<leftarrow> sr_read_seq_inner ring s;
     check (got = None)
   }"

definition sr_test_skips_reserved_zero_on_wrap :: "usize \<Rightarrow> unit exec" where
  "sr_test_skips_reserved_zero_on_wrap U = do {
     let ring = (sr_new 4 :: u32 seq_ring);
     ring \<leftarrow> claim (sr_try_producer ring);
     (consumer, ring) \<leftarrow> claim_consumer (sr_try_consumer ring);
     let ring = ring\<lparr>sr_next_seq := u32_MAX - 1\<rparr>;
     (s, ring) \<leftarrow> sr_push ring 10; check (s = u32_MAX);
     let consumer = sr_skip_to_latest consumer ring;
     (ok, consumer, ring, got) \<leftarrow> sr_poll_one U consumer ring collect_hook [];
     check ok;
     check (got = [(u32_MAX, 10)]);
     (s, ring) \<leftarrow> sr_push ring 20; check (s = 1);
     (stats, consumer, ring, got) \<leftarrow> sr_poll_up_to U consumer ring 4 collect_hook [];
     check (ps_read stats = 1);
     check (ps_dropped stats = 0);
     check (got = [(1, 20)])
   }"

text \<open>The hook publishes 30 while it is given item 1: the window of the running poll stays frozen.\<close>

definition publishing_hook :: "u32 \<Rightarrow> u32 \<Rightarrow> u32 seq_ring \<times> (u32 \<times> u32) list \<Rightarrow>
    (u32 seq_ring \<times> (u32 \<times> u32) list) exec" where
  "publishing_hook s v rh =
     (if s = 1 then do { (s', r) \<leftarrow> sr_push (fst rh) 30; Some (r, snd rh @ [(s, v)]) }
      else Some (fst rh, snd rh @ [(s, v)]))"

definition sr_test_poll_window_is_frozen :: "usize \<Rightarrow> unit exec" where
  "sr_test_poll_window_is_frozen U = do {
     let ring = (sr_new 4 :: u32 seq_ring);
     ring \<leftarrow> claim (sr_try_producer ring);
     (consumer, ring) \<leftarrow> claim_consumer (sr_try_consumer ring);
     (s, ring) \<leftarrow> sr_push ring 10;
     (s, ring) \<leftarrow> sr_push ring 20;
     (stats, consumer, ring, seen) \<leftarrow> sr_poll_up_to U consumer ring 4 publishing_hook [];
     check (ps_read stats = 2);
     check (ps_dropped stats = 0);
     check (ps_newest stats = 2);
     check (seen = [(1, 10), (2, 20)]);
     (stats, consumer, ring, seen) \<leftarrow> sr_poll_up_to U consumer ring 4 collect_hook [];
     check (seen = [(3, 30)]);
     check (ps_read stats = 1);
     check (ps_dropped stats = 0);
     check (ps_newest stats = 3)
   }"

definition sr_test_lag_across_wrap :: "usize \<Rightarrow> unit exec" where
  "sr_test_lag_across_wrap U = do {
     let ring = (sr_new 4 :: u32 seq_ring);
     ring \<leftarrow> claim (sr_try_producer ring);
     (consumer, ring) \<leftarrow> claim_consumer (sr_try_consumer ring);
     let ring = ring\<lparr>sr_next_seq := u32_MAX - 6\<rparr>;
     (s, ring) \<leftarrow> sr_push ring 100; check (s = u32_MAX - 5);
     (ok, consumer, ring, got) \<leftarrow> sr_poll_one U consumer ring collect_hook [];
     check ok;
     check (got = [(u32_MAX - 5, 100)]);
     let consumer = sr_reset_dropped consumer;
     (pushed, ring) \<leftarrow> sr_push_each ring [0, 1, 2, 3, 4, 5, 6, 7, 8, 9, 10, 11, 12, 13, 14];
     check (last pushed = 10);
     (stats, consumer, ring, seen) \<leftarrow> sr_poll_up_to U consumer ring 16 collect_hook [];
     check (ps_read stats = 4);
     check (ps_dropped stats = 11);
     check (ps_read stats + ps_dropped stats = length pushed);
     check (map fst seen = [7, 8, 9, 10])
   }"

definition sr_test_seq_distance :: "unit exec" where
  "sr_test_seq_distance = do {
     check (sr_seq_distance 0 0 = 0);
     check (sr_seq_distance 0 5 = 5);
     check (sr_seq_distance 5 9 = 4);
     check (sr_seq_distance u32_MAX 1 = 1);
     check (sr_seq_distance (u32_MAX - 5) 6 = 11);
     check (sr_seq_distance u32_MAX u32_MAX = 0)
   }"

definition sr_test_try_producer_and_try_consumer :: "usize \<Rightarrow> unit exec" where
  "sr_test_try_producer_and_try_consumer U = do {
     let ring = (sr_new 4 :: u32 seq_ring);
     ring \<leftarrow> claim (sr_try_producer ring);
     check (fst (sr_try_producer ring) = None); let ring = snd (sr_try_producer ring);
     (c, ring) \<leftarrow> claim_consumer (sr_try_consumer ring);
     check (fst (sr_try_consumer ring) = None); let ring = snd (sr_try_consumer ring);
     (s, ring) \<leftarrow> sr_push ring 7;
     (ok, c, ring, got) \<leftarrow> sr_poll_one U c ring collect_hook [];
     check ok;
     check (got = [(1, 7)]);
     let ring = sr_drop_consumer (sr_drop_producer ring);
     ring \<leftarrow> claim (sr_try_producer ring);
     (c, ring) \<leftarrow> claim_consumer (sr_try_consumer ring);
     Some ()
   }"

definition sr_test_poll_one_value_and_latest_value :: "usize \<Rightarrow> unit exec" where
  "sr_test_poll_one_value_and_latest_value U = do {
     let ring = (sr_new 8 :: u32 seq_ring);
     ring \<leftarrow> claim (sr_try_producer ring);
     (consumer, ring) \<leftarrow> claim_consumer (sr_try_consumer ring);
     (v, consumer, ring) \<leftarrow> sr_poll_one_value U consumer ring; check (v = None);
     v \<leftarrow> sr_latest_value ring; check (v = None);
     (s, ring) \<leftarrow> sr_push ring 10;
     (s, ring) \<leftarrow> sr_push ring 20;
     v \<leftarrow> sr_latest_value ring; check (v = Some (2, 20));
     (v, consumer, ring) \<leftarrow> sr_poll_one_value U consumer ring; check (v = Some (1, 10));
     (v, consumer, ring) \<leftarrow> sr_poll_one_value U consumer ring; check (v = Some (2, 20));
     (v, consumer, ring) \<leftarrow> sr_poll_one_value U consumer ring; check (v = None);
     v \<leftarrow> sr_latest_value ring; check (v = Some (2, 20))
   }"

lemma repeat_zero_small:
  "sr_atomic_u32_array 2 = [0, 0]" "sr_atomic_u32_array 4 = [0, 0, 0, 0]"
  "sr_atomic_u32_array 8 = [0, 0, 0, 0, 0, 0, 0, 0]"
  by (simp_all add: sr_atomic_u32_array_def eval_nat_numeral)

lemmas sr_test_defs [op_defs] = claim_consumer_def collect_hook_def repeat_zero_small sr_poll_loop.simps

lemma sr_test_0: "4294967295 \<le> U \<Longrightarrow> sr_test_poll_one_empty U = Some ()"
  by (simp add: sr_test_poll_one_empty_def op_defs cong: bind_in_order)

lemma sr_test_1: "4294967295 \<le> U \<Longrightarrow> sr_test_polls_in_order U = Some ()"
  by (simp add: sr_test_polls_in_order_def op_defs cong: bind_in_order)

lemma sr_test_2: "4294967295 \<le> U \<Longrightarrow> sr_test_drops_when_consumer_lags U = Some ()"
  by (simp add: sr_test_drops_when_consumer_lags_def op_defs cong: bind_in_order)

lemma sr_test_3: "sr_test_latest_reads_newest = Some ()"
  by (simp add: sr_test_latest_reads_newest_def op_defs cong: bind_in_order)

lemma sr_test_4: "4294967295 \<le> U \<Longrightarrow> sr_test_skip_to_latest U = Some ()"
  by (simp add: sr_test_skip_to_latest_def op_defs cong: bind_in_order)

lemma sr_test_5: "4294967295 \<le> U \<Longrightarrow> sr_test_poll_up_to_zero U = Some ()"
  by (simp add: sr_test_poll_up_to_zero_def op_defs cong: bind_in_order)

lemma sr_test_6: "4294967295 \<le> U \<Longrightarrow> sr_test_dropped_counter_can_reset U = Some ()"
  by (simp add: sr_test_dropped_counter_can_reset_def op_defs numeral_2_eq_2 [symmetric] cong: bind_in_order)

lemma sr_test_7: "sr_test_latest_empty_returns_false = Some ()"
  by (simp add: sr_test_latest_empty_returns_false_def op_defs cong: bind_in_order)

lemma sr_test_8: "sr_test_latest_slot_missing = Some ()"
  by (simp add: sr_test_latest_slot_missing_def op_defs cong: bind_in_order)

lemma sr_test_9: "4294967295 \<le> U \<Longrightarrow> sr_test_poll_counts_missing_slot U = Some ()"
  by (simp add: sr_test_poll_counts_missing_slot_def op_defs cong: bind_in_order)

lemma sr_test_10: "sr_test_push_wraps_seq = Some ()"
  by (simp add: sr_test_push_wraps_seq_def op_defs u32_near_MAX cong: bind_in_order)

lemma sr_test_11: "sr_test_read_rejects_invalidated_slot = Some ()"
  by (simp add: sr_test_read_rejects_invalidated_slot_def op_defs cong: bind_in_order)

lemma sr_test_12: "4294967295 \<le> U \<Longrightarrow> sr_test_skips_reserved_zero_on_wrap U = Some ()"
  by (simp add: sr_test_skips_reserved_zero_on_wrap_def op_defs u32_near_MAX cong: bind_in_order)

lemma sr_test_13: "4294967295 \<le> U \<Longrightarrow> sr_test_poll_window_is_frozen U = Some ()"
  by (simp add: sr_test_poll_window_is_frozen_def op_defs publishing_hook_def cong: bind_in_order)

lemma sr_test_14: "4294967295 \<le> U \<Longrightarrow> sr_test_lag_across_wrap U = Some ()"
  by (simp add: sr_test_lag_across_wrap_def op_defs u32_near_MAX cong: bind_in_order)

lemma sr_test_15: "sr_test_seq_distance = Some ()"
  by (simp add: sr_test_seq_distance_def op_defs u32_near_MAX cong: bind_in_order)

lemma sr_test_16: "4294967295 \<le> U \<Longrightarrow> sr_test_try_producer_and_try_consumer U = Some ()"
  by (simp add: sr_test_try_producer_and_try_consumer_def op_defs cong: bind_in_order)

lemma sr_test_17: "4294967295 \<le> U \<Longrightarrow> sr_test_poll_one_value_and_latest_value U = Some ()"
  by (simp add: sr_test_poll_one_value_and_latest_value_def op_defs cong: bind_in_order)

section \<open>Sinks, sources and forward\<close>

text \<open>The error type of the two sinks that never refuse is \<open>Infallible\<close>; here it is that of the items.\<close>

abbreviation ring_sink_push :: "usize \<Rightarrow> u32 ring_buf \<Rightarrow> u32 \<Rightarrow> ((u32 + unit) \<times> u32 ring_buf) exec" where
  "ring_sink_push \<equiv> ring_try_push"

abbreviation sr_sink_push :: "u32 seq_ring \<Rightarrow> u32 \<Rightarrow> ((u32 + unit) \<times> u32 seq_ring) exec" where
  "sr_sink_push \<equiv> sr_try_push"

definition tr_test_ringbuf_as_sink :: "usize \<Rightarrow> unit exec" where
  "tr_test_ringbuf_as_sink U = do {
     let ring = (ring_new 4 :: u32 ring_buf);
     ring \<leftarrow> accepted_push (ring_sink_push U ring 1);
     ring \<leftarrow> accepted_push (ring_sink_push U ring 2);
     check (ring_len ring = 2)
   }"

definition tr_test_seq_producer_as_sink :: "unit exec" where
  "tr_test_seq_producer_as_sink = do {
     let ring = (sr_new 4 :: u32 seq_ring);
     ring \<leftarrow> claim (sr_try_producer ring);
     ring \<leftarrow> accepted_push (sr_sink_push ring 10);
     ring \<leftarrow> accepted_push (sr_sink_push ring 20);
     Some ()
   }"

definition tr_test_event_producer_as_sink :: "unit exec" where
  "tr_test_event_producer_as_sink = do {
     let buf = (eb_new 2 :: u32 event_buf);
     buf \<leftarrow> claim (eb_try_producer buf);
     buf \<leftarrow> accepted_push (eb_try_push buf 1);
     buf \<leftarrow> accepted_push (eb_try_push buf 2);
     (r, buf) \<leftarrow> eb_try_push buf 3; check (r = Inl 3)
   }"

definition tr_test_seq_consumer_as_source :: "usize \<Rightarrow> unit exec" where
  "tr_test_seq_consumer_as_source U = do {
     let ring = (sr_new 4 :: u32 seq_ring);
     ring \<leftarrow> claim (sr_try_producer ring);
     (c, ring) \<leftarrow> claim_consumer (sr_try_consumer ring);
     (ss, ring) \<leftarrow> sr_push_each ring [10, 20];
     (v, c, ring) \<leftarrow> sr_try_pop U (c, ring); check (v = Some 10);
     (v, c, ring) \<leftarrow> sr_try_pop U (c, ring); check (v = Some 20);
     (v, c, ring) \<leftarrow> sr_try_pop U (c, ring); check (v = None)
   }"

definition tr_test_event_consumer_as_source :: "unit exec" where
  "tr_test_event_consumer_as_source = do {
     let buf = (eb_new 4 :: u32 event_buf);
     buf \<leftarrow> claim (eb_try_producer buf);
     buf \<leftarrow> claim (eb_try_consumer buf);
     buf \<leftarrow> push_each eb_push buf [10, 20];
     (v, buf) \<leftarrow> eb_try_pop buf; check (v = Some 10);
     (v, buf) \<leftarrow> eb_try_pop buf; check (v = Some 20);
     (v, buf) \<leftarrow> eb_try_pop buf; check (v = None)
   }"

definition tr_test_forward_seq_to_event :: "usize \<Rightarrow> unit exec" where
  "tr_test_forward_seq_to_event U = do {
     let seq = (sr_new 8 :: u32 seq_ring);
     seq \<leftarrow> claim (sr_try_producer seq);
     (sc, seq) \<leftarrow> claim_consumer (sr_try_consumer seq);
     (ss, seq) \<leftarrow> sr_push_each seq [1, 2, 3];
     let eb = (eb_new 8 :: u32 event_buf);
     eb \<leftarrow> claim (eb_try_producer eb);
     ((n, err), (sc, seq), eb) \<leftarrow> forward (sr_try_pop U) eb_try_push (sc, seq) eb 10;
     check (n = 3);
     check (err = None);
     eb \<leftarrow> claim (eb_try_consumer eb);
     (v, eb) \<leftarrow> eb_pop eb; check (v = Some 1);
     (v, eb) \<leftarrow> eb_pop eb; check (v = Some 2);
     (v, eb) \<leftarrow> eb_pop eb; check (v = Some 3)
   }"

definition tr_test_forward_event_to_ringbuf :: "usize \<Rightarrow> unit exec" where
  "tr_test_forward_event_to_ringbuf U = do {
     let eb = (eb_new 8 :: u32 event_buf);
     eb \<leftarrow> claim (eb_try_producer eb);
     eb \<leftarrow> claim (eb_try_consumer eb);
     eb \<leftarrow> push_each eb_push eb [10, 20];
     let ring = (ring_new 4 :: u32 ring_buf);
     ((n, err), eb, ring) \<leftarrow> forward eb_try_pop (ring_sink_push U) eb ring 10;
     check (n = 2);
     check (err = None);
     v \<leftarrow> ring_get ring 0; check (v = Some 10);
     v \<leftarrow> ring_get ring 1; check (v = Some 20)
   }"

definition tr_test_forward_stops_when_sink_full :: "unit exec" where
  "tr_test_forward_stops_when_sink_full = do {
     let src = (eb_new 8 :: u32 event_buf);
     src \<leftarrow> claim (eb_try_producer src);
     src \<leftarrow> claim (eb_try_consumer src);
     src \<leftarrow> push_each eb_push src [0, 1, 2, 3, 4];
     let dst = (eb_new 2 :: u32 event_buf);
     dst \<leftarrow> claim (eb_try_producer dst);
     ((n, err), src, dst) \<leftarrow> forward eb_try_pop eb_try_push src dst 10;
     check (n = 2);
     check (err = Some 2)
   }"

definition tr_test_forward_empty_source :: "usize \<Rightarrow> unit exec" where
  "tr_test_forward_empty_source U = do {
     let seq = (sr_new 4 :: u32 seq_ring);
     seq \<leftarrow> claim (sr_try_producer seq);
     (sc, seq) \<leftarrow> claim_consumer (sr_try_consumer seq);
     let eb = (eb_new 4 :: u32 event_buf);
     eb \<leftarrow> claim (eb_try_producer eb);
     ((n, err), src, eb) \<leftarrow> forward (sr_try_pop U) eb_try_push (sc, seq) eb 10;
     check (n = 0);
     check (err = None)
   }"

partial_function (option) drain_all_into_vec ::
  "('s \<Rightarrow> ('a option \<times> 's) exec) \<Rightarrow> 's \<Rightarrow> 'a list \<Rightarrow> ('a list \<times> 's) exec" where
  "drain_all_into_vec try_pop src out = do {
     (got, src') \<leftarrow> try_pop src;
     (case got of
        Some v \<Rightarrow> drain_all_into_vec try_pop src' (out @ [v])
      | None \<Rightarrow> Some (out, src'))
   }"

definition tr_test_generic_drain_seq :: "usize \<Rightarrow> unit exec" where
  "tr_test_generic_drain_seq U = do {
     let ring = (sr_new 4 :: u32 seq_ring);
     ring \<leftarrow> claim (sr_try_producer ring);
     (c, ring) \<leftarrow> claim_consumer (sr_try_consumer ring);
     (ss, ring) \<leftarrow> sr_push_each ring [1, 2, 3];
     (v, src) \<leftarrow> drain_all_into_vec (sr_try_pop U) (c, ring) [];
     check (v = [1, 2, 3])
   }"

definition tr_test_generic_drain_event :: "unit exec" where
  "tr_test_generic_drain_event = do {
     let buf = (eb_new 4 :: u32 event_buf);
     buf \<leftarrow> claim (eb_try_producer buf);
     buf \<leftarrow> claim (eb_try_consumer buf);
     buf \<leftarrow> push_each eb_push buf [1, 2];
     (v, buf) \<leftarrow> drain_all_into_vec eb_try_pop buf [];
     check (v = [1, 2])
   }"

lemmas tr_op_defs [op_defs] = sr_try_pop_def sr_try_push_def eb_try_pop_def eb_try_push_def
  ring_try_push_def forward_def forward_loop.simps drain_all_into_vec.simps

lemma tr_test_1: "4294967295 \<le> U \<Longrightarrow> tr_test_ringbuf_as_sink U = Some ()"
  by (simp add: tr_test_ringbuf_as_sink_def op_defs cong: bind_in_order)

lemma tr_test_2: "tr_test_seq_producer_as_sink = Some ()"
  by (simp add: tr_test_seq_producer_as_sink_def op_defs cong: bind_in_order)

lemma tr_test_3: "tr_test_event_producer_as_sink = Some ()"
  by (simp add: tr_test_event_producer_as_sink_def op_defs cong: bind_in_order)

lemma tr_test_4: "4294967295 \<le> U \<Longrightarrow> tr_test_seq_consumer_as_source U = Some ()"
  by (simp add: tr_test_seq_consumer_as_source_def op_defs cong: bind_in_order)

lemma tr_test_5: "tr_test_event_consumer_as_source = Some ()"
  by (simp add: tr_test_event_consumer_as_source_def op_defs cong: bind_in_order)

lemma tr_test_6: "4294967295 \<le> U \<Longrightarrow> tr_test_forward_seq_to_event U = Some ()"
  by (simp add: tr_test_forward_seq_to_event_def op_defs cong: bind_in_order)

lemma tr_test_7: "4294967295 \<le> U \<Longrightarrow> tr_test_forward_event_to_ringbuf U = Some ()"
  by (simp add: tr_test_forward_event_to_ringbuf_def op_defs cong: bind_in_order)

lemma tr_test_8: "tr_test_forward_stops_when_sink_full = Some ()"
  by (simp add: tr_test_forward_stops_when_sink_full_def op_defs cong: bind_in_order)

lemma tr_test_9: "4294967295 \<le> U \<Longrightarrow> tr_test_forward_empty_source U = Some ()"
  by (simp add: tr_test_forward_empty_source_def op_defs cong: bind_in_order)

lemma tr_test_10: "4294967295 \<le> U \<Longrightarrow> tr_test_generic_drain_seq U = Some ()"
  by (simp add: tr_test_generic_drain_seq_def op_defs cong: bind_in_order)

lemma tr_test_11: "tr_test_generic_drain_event = Some ()"
  by (simp add: tr_test_generic_drain_event_def op_defs cong: bind_in_order)

section \<open>static_spsc!\<close>

text \<open>The generated \<open>take()\<close>: both handles of the static, or a panic of the test's \<open>expect\<close>.\<close>

definition mac_test_event_buf_round_trips :: "unit exec" where
  "mac_test_event_buf_round_trips = do {
     buf \<leftarrow> claim (eb_static_take (eb_new 4 :: u32 event_buf));
     buf \<leftarrow> accepted_push (eb_push buf 7);
     (v, buf) \<leftarrow> eb_pop buf; check (v = Some 7);
     check (eb_capacity buf = 4)
   }"

definition mac_test_take_is_once_only :: "unit exec" where
  "mac_test_take_is_once_only = do {
     buf \<leftarrow> claim (eb_static_take (eb_new 4 :: u32 event_buf));
     check (fst (eb_static_take buf) = None); let buf = snd (eb_static_take buf);
     let buf = eb_drop_consumer (eb_drop_producer buf);
     buf \<leftarrow> claim (eb_static_take buf);
     Some ()
   }"

definition mac_test_seq_ring_round_trips :: "usize \<Rightarrow> unit exec" where
  "mac_test_seq_ring_round_trips U = do {
     let (handles, ring) = sr_static_take (sr_new 4 :: u32 seq_ring);
     (tx, rx) \<leftarrow> handles;
     (s, ring) \<leftarrow> sr_push ring 9;
     (v, rx, ring) \<leftarrow> sr_poll_one_value U rx ring; check (v = Some (1, 9));
     check (sr_capacity ring = 4)
   }"

definition mac_test_failed_take_strands_nothing :: "unit exec" where
  "mac_test_failed_take_strands_nothing = do {
     buf \<leftarrow> claim (eb_try_consumer (eb_new 2 :: u32 event_buf));
     check (fst (eb_static_take buf) = None); let buf = snd (eb_static_take buf);
     buf \<leftarrow> claim (eb_try_producer buf);
     buf \<leftarrow> accepted_push (eb_push buf 1);
     (v, buf) \<leftarrow> eb_pop buf; check (v = Some 1)
   }"

lemma mac_test_1: "mac_test_event_buf_round_trips = Some ()"
  by (simp add: mac_test_event_buf_round_trips_def eb_static_take_def static_take_def op_defs cong: bind_in_order)

lemma mac_test_2: "mac_test_take_is_once_only = Some ()"
  by (simp add: mac_test_take_is_once_only_def eb_static_take_def static_take_def op_defs cong: bind_in_order)

lemma mac_test_3: "4294967295 \<le> U \<Longrightarrow> mac_test_seq_ring_round_trips U = Some ()"
  by (simp add: mac_test_seq_ring_round_trips_def sr_static_take_def static_take_def op_defs cong: bind_in_order)

lemma mac_test_4: "mac_test_failed_take_strands_nothing = Some ()"
  by (simp add: mac_test_failed_take_strands_nothing_def eb_static_take_def static_take_def op_defs cong: bind_in_order)

end
