(* ===== verification/Corollaries.thy ===== *)
theory Corollaries
  imports Pipeline EventBuf_Conc EventFlags LatestBuf Probes Conformance_SeqRing
begin

text \<open>
  Further facts about the components, each with an instance: consequences of their refinements that a user of the
  library may want by name, and the run of the unit tests of the sequence ring.
\<close>

section \<open>EventBuf\<close>

text \<open>
  \<open>drain(max, hook)\<close> hands the hook the oldest \<open>min max len\<close> items, oldest first, each once, returns
  their number, and leaves the rest in the queue.
\<close>

theorem event_buf_drain:
  assumes "eb_wf b"
  shows "\<exists>b'. eb_drain b limit (eb_pure_hook f) h = Some (min limit (length (eb_contents b)), b',
      fold f (take limit (eb_contents b)) h) \<and> eb_wf b' \<and> eb_contents b' = drop limit (eb_contents b)"
proof -
  have "take (min limit (eb_count b)) (eb_contents b) = take limit (eb_contents b)"
    and "drop (min limit (eb_count b)) (eb_contents b) = drop limit (eb_contents b)"
    by (metis length_eb_contents min.commute take_all_iff take_take nle_le min_def,
        metis drop_all length_eb_contents min_def nle_le)
  with eb_drain_loop_pure [OF assms, of "min limit (eb_count b)" limit 0 f h] show ?thesis
    by (simp add: eb_drain_def)
qed

theorem event_buf_drain_witness:
  "\<exists>b'. eb_drain \<lparr>eb_head = 1, eb_tail = u32_MAX, eb_slots = [Some (8 :: nat), Some 7],
      eb_producer_taken = False, eb_consumer_taken = True\<rparr> 1 (eb_pure_hook (\<lambda>v h. h @ [v])) []
    = Some (1, b', [7]) \<and> eb_wf b' \<and> eb_contents b' = [8]"
proof -
  let ?b = "\<lparr>eb_head = 1, eb_tail = u32_MAX, eb_slots = [Some (8 :: nat), Some 7],
      eb_producer_taken = False, eb_consumer_taken = True\<rparr>"
  have two: "eb_count ?b = 2" by (simp add: eb_count_def)
  have slots: "eb_slot ?b 0 = 1" "eb_slot ?b 1 = 0"
    by (simp_all add: eb_slot_def eb_slot_index_def eb_capacity_def numeral_2_eq_2 [symmetric])
  have wf: "eb_wf ?b" unfolding eb_wf_def two
    using slots by (auto simp: eb_capacity_def less_2_cases_iff)
  have "eb_contents ?b = [7, 8]"
    unfolding eb_contents_def two using slots by (simp add: upt_rec numeral_2_eq_2)
  with event_buf_drain [OF wf, of 1 "\<lambda>v h. h @ [v]" "[]"] show ?thesis by simp
qed

text \<open>
  Any capacity below \<open>2 ^ 32\<close>, dividing it or not, is a FIFO queue as long as the cursors stay below
  the wrap: every run of at most \<open>2 ^ 32 - N\<close> operations of a new EventBuf.
\<close>

theorem event_buf_is_fifo_before_the_wrap:
  assumes "0 < N" and "N + length ops \<le> 2 ^ 32" and "N < 2 ^ 32"
  shows "\<exists>b. chan_run eb_push eb_pop eb_peek (eb_new N) ops = Some (fst (fifo_run N [] ops), b) \<and>
    eb_contents b = snd (fifo_run N [] ops)"
proof -
  have "eb_tail (eb_new N :: 'a event_buf) = 0" by (simp add: eb_new_def)
  with eb_run_aligned [OF eb_wf_new [OF assms(1,3)], of ops] assms(2) show ?thesis by simp
qed

theorem event_buf_is_fifo_before_the_wrap_witness:
  "\<exists>b. chan_run eb_push eb_pop eb_peek (eb_new 3) [Put (7 :: nat), Put 8, Take]
    = Some ([Accepted, Accepted, Got (Some 7)], b) \<and> eb_contents b = [8]"
  using event_buf_is_fifo_before_the_wrap [of 3 "[Put (7 :: nat), Put 8, Take]"] by auto

text \<open>
  Conservation: in every run of a new EventBuf the accepted values are, in order, the values
  popped followed by the values still queued. Nothing is lost, duplicated or reordered, and at most
  \<open>N\<close> values are ever queued.
\<close>

theorem event_buf_conserves_items:
  assumes "0 < N" and "N < 2 ^ 32" and "N dvd 2 ^ 32"
  shows "\<exists>rs b. chan_run eb_push eb_pop eb_peek (eb_new N) ops = Some (rs, b) \<and>
    accepted ops rs = taken_values ops rs @ eb_contents b \<and> length (eb_contents b) \<le> N"
proof -
  have "eb_fifo_ok (eb_new N :: 'a event_buf)" using assms by (simp add: eb_fifo_ok_def eb_wf_new)
  from eb_fifo.run_refines [OF this, of ops] fifo_run_conserves [of "[]" ops N] fifo_run_bounded [of "[]" N ops]
  show ?thesis by (auto simp del: length_eb_contents)
qed

theorem event_buf_conserves_items_witness:
  "\<exists>rs b. chan_run eb_push eb_pop eb_peek (eb_new 4) [Put True, Take, Put False] = Some (rs, b) \<and>
    accepted [Put True, Take, Put False] rs = taken_values [Put True, Take, Put False] rs @ eb_contents b \<and>
    length (eb_contents b) \<le> 4"
  by (rule event_buf_conserves_items) simp_all

text \<open>
  On a buffer no other handle is working on, \<open>len\<close>, \<open>is_empty\<close> and \<open>is_full\<close> are exact: the two
  samples of \<open>len\<close> agree at once and give the number of queued items, and \<open>peek\<close> shows the oldest.
\<close>

theorem event_buf_observers:
  assumes "eb_wf b"
  shows "eb_len b = length (eb_contents b) \<and> (eb_is_empty b \<longleftrightarrow> eb_contents b = []) \<and>
    (eb_is_full b \<longleftrightarrow> length (eb_contents b) = eb_capacity b) \<and>
    eb_peek b = Some (if eb_contents b = [] then None else Some (hd (eb_contents b)))"
proof -
  have "eb_contents b = [] \<longleftrightarrow> eb_count b = 0" by (metis length_eb_contents length_0_conv)
  moreover have "eb_count b \<le> eb_capacity b" using assms by (simp add: eb_wf_def)
  ultimately show ?thesis
    using eb_peek_eq [OF assms] by (auto simp: eb_is_empty_def eb_is_full_def eb_len_count hd_conv_nth)
qed

theorem event_buf_observers_witness:
  "eb_len (eb_new 3 :: bool event_buf) = 0 \<and> eb_is_empty (eb_new 3 :: bool event_buf) \<and>
    \<not> eb_is_full (eb_new 3 :: bool event_buf) \<and> eb_peek (eb_new 3 :: bool event_buf) = Some None"
proof -
  have "eb_wf (eb_new 3 :: bool event_buf)" by (rule eb_wf_new) simp_all
  from event_buf_observers [OF this] show ?thesis by simp
qed

text \<open>
  In every concurrent execution at most \<open>N\<close> values are in flight, and the wrapped difference of the two cursors
  is exactly their number; while no cursor has wrapped, and for ever if \<open>N\<close> divides \<open>2 ^ 32\<close>, the consumer has received
  a prefix of what the producer published, in order and without gaps.
\<close>

theorem event_buf_concurrent_in_order:
  assumes "reach (ebc_init N) ebc_step (Running s)" and "0 < N" and "N < 2 ^ 32"
  shows "length (sent s) \<le> length (received s) + N \<and>
    unat (eb_head (c_buf s) - eb_tail (c_buf s)) = length (sent s) - length (received s) \<and>
    (N dvd 2 ^ 32 \<or> pushes s < 2 ^ 32 \<longrightarrow> received s @ drop (pops s) (sent s) = sent s)"
  using ebc_in_order [OF assms] by blast

theorem event_buf_concurrent_in_order_witness:
  "length [True] \<le> length ([] :: bool list) + 1 \<and>
    unat (eb_head ((eb_new 1 :: bool event_buf)\<lparr>eb_slots := [Some True], eb_head := 1\<rparr>)
      - eb_tail ((eb_new 1 :: bool event_buf)\<lparr>eb_slots := [Some True], eb_head := 1\<rparr>)) = 1"
  using event_buf_concurrent_in_order [OF ebc_one_push] by simp

text \<open>
  A refusal is honest: when the producer, on whatever tail value \<open>t\<close> its Acquire load returned, finds
  the buffer full, exactly \<open>N\<close> published values lie above that position; none of them was popped at it.
\<close>

theorem event_buf_refuses_only_when_full:
  assumes "reach (ebc_init N) ebc_step (Running s)" and "0 < N" and "N < 2 ^ 32" and "tail_view s \<le> t" and "t \<le> pops s"
    and "eb_capacity (c_buf s) \<le> unat (eb_head (c_buf s) - of_nat t)"
  shows "length (sent s) = t + N"
  using assms by (rule ebc_refusal)

theorem event_buf_refuses_only_when_full_witness: "length [True] = 0 + 1"
  using event_buf_refuses_only_when_full [OF ebc_one_push, of 0] by (simp add: eb_capacity_def)

section \<open>SeqRing\<close>

text \<open>
  Delivery is sound at every capacity: a poll hands its hook an increasing list of sequence numbers
  after the cursor, each with the very item that was pushed under it, each still unoverwritten.
\<close>

theorem seq_ring_poll_delivers_what_was_pushed:
  assumes "sr_push_all (sr_new N) vs = Some r" and "0 < N" and "cursor_at c (sc_last_seq con)"
    and "c < length vs" and "length vs - c < SPAN" and "0 < limit" and "SPAN \<le> U"
  shows "\<exists>d st con'. sr_poll_up_to U con r limit (sr_pure_hook f) h
      = Some (st, con', r, fold (\<lambda>(m, v). f (seq_at m) v) d h) \<and>
    ps_read st = length d \<and> sorted_wrt (<) (map fst d) \<and>
    (\<forall>(m, v) \<in> set d. c < m \<and> m \<le> length vs \<and> v = vs ! (m - 1) \<and> sr_live N (length vs) m)"
proof -
  obtain r' where r': "sr_push_all (sr_new N) vs = Some r'" "sr_rep r' vs" "sr_capacity r' = N"
    using assms(2) by (rule sr_push_all_rep)
  with assms(1) have "r = r'" by simp
  with sr_poll_sound [OF r'(2) refl assms(3-7), of f h] r'(3) show ?thesis by blast
qed

theorem seq_ring_poll_delivers_what_was_pushed_witness:
  "\<exists>r d st con'. sr_push_all (sr_new 3) [True, False] = Some r \<and>
    sr_poll_up_to SPAN \<lparr>sc_last_seq = 0, sc_dropped_accum = 0\<rparr> r 5 (sr_pure_hook (\<lambda>s v h. h @ [(s, v)])) []
      = Some (st, con', r, fold (\<lambda>(m, v) h. h @ [(seq_at m, v)]) d []) \<and> ps_read st = length d"
proof -
  obtain r where r: "sr_push_all (sr_new 3) [True, False] = Some r" by (rule sr_push_all_rep [of 3]) simp
  have "\<exists>d st con'. sr_poll_up_to SPAN \<lparr>sc_last_seq = 0, sc_dropped_accum = 0\<rparr> r 5
        (sr_pure_hook (\<lambda>s v h. h @ [(s, v)])) [] = Some (st, con', r, fold (\<lambda>(m, v). (\<lambda>h. h @ [(seq_at m, v)])) d []) \<and>
      ps_read st = length d \<and> sorted_wrt (<) (map fst d) \<and>
      (\<forall>(m, v) \<in> set d. 0 < m \<and> m \<le> length [True, False] \<and> v = [True, False] ! (m - 1) \<and>
        sr_live 3 (length [True, False]) m)" (is "\<exists>d st con'. ?A d st con' \<and> ?B d st \<and> ?C d \<and> ?D d")
    by (rule seq_ring_poll_delivers_what_was_pushed [OF r]) (simp_all add: SPAN_eq)
  then obtain d st con' where "?A d st con'" "?B d st" by (elim exE conjE) (rule that)
  with r show ?thesis by blast
qed

text \<open>
  A consumer that lags by a whole number of spans cannot tell: its poll reports nothing read and
  nothing dropped, whatever the ring holds.
\<close>

theorem seq_ring_whole_span_is_invisible:
  assumes "sr_newest_seq r = seq_at n" and "sc_last_seq con = seq_at c" and "0 < c" and "n = c + k * SPAN"
  shows "sr_poll_up_to U con r limit hook h
    = Some (\<lparr>ps_read = 0, ps_dropped = 0, ps_newest = sr_newest_seq r\<rparr>, con, r, h)"
  using assms by (rule sr_poll_alias)

theorem seq_ring_whole_span_is_invisible_witness:
  "\<exists>r. sr_push_all (sr_new 4) (replicate (5 + 1 * SPAN) True) = Some r \<and>
    sr_poll_up_to SPAN \<lparr>sc_last_seq = seq_at 5, sc_dropped_accum = 0\<rparr> r 9 (sr_pure_hook (\<lambda>s v h. h @ [s])) []
      = Some (\<lparr>ps_read = 0, ps_dropped = 0, ps_newest = sr_newest_seq r\<rparr>,
          \<lparr>sc_last_seq = seq_at 5, sc_dropped_accum = 0\<rparr>, r, [])"
proof -
  obtain r where r: "sr_push_all (sr_new 4) (replicate (5 + 1 * SPAN) True) = Some r"
    "sr_rep r (replicate (5 + 1 * SPAN) True)" by (rule sr_push_all_rep [of 4]) simp
  have "sr_newest_seq r = seq_at (5 + 1 * SPAN)" using sr_rep_newest [OF r(2)] by (simp only: length_replicate)
  from seq_ring_whole_span_is_invisible [OF this, of "\<lparr>sc_last_seq = seq_at 5, sc_dropped_accum = 0\<rparr>" 5 1] r(1)
  show ?thesis by auto
qed

text \<open>
  \<open>latest_value\<close> gives the item pushed last, with its number, and so does the first poll after
  \<open>skip_to_latest\<close>, which moves the cursor behind every other item without counting it as dropped.
\<close>

theorem seq_ring_latest:
  assumes "sr_push_all (sr_new N) vs = Some r" and "0 < N" and "vs \<noteq> []" and "SPAN \<le> U"
  shows "sr_latest_value r = Some (Some (seq_at (length vs), last vs)) \<and>
    (\<exists>con'. sr_poll_one_value U (sr_skip_to_latest con r) r = Some (Some (seq_at (length vs), last vs), con', r) \<and>
      sc_last_seq con' = seq_at (length vs) \<and> sr_dropped con' = sat_add U (sr_dropped con) 0)"
proof -
  obtain r' where "sr_push_all (sr_new N) vs = Some r'" "sr_rep r' vs" using assms(2) by (rule sr_push_all_rep)
  with assms(1) have "sr_rep r vs" by simp
  with sr_latest_value_exact sr_skip_then_poll assms(3,4) show ?thesis by (fastforce simp: sr_dropped_def)
qed

theorem seq_ring_latest_witness:
  "\<exists>r. sr_push_all (sr_new 1) [True, False] = Some r \<and> sr_latest_value r = Some (Some (seq_at (length [True, False]), False))"
proof -
  obtain r where r: "sr_push_all (sr_new 1) [True, False] = Some r" by (rule sr_push_all_rep [of 1]) simp
  from seq_ring_latest [OF r, of SPAN] r show ?thesis by auto
qed

text \<open>
  As a sink a SeqRing whose capacity divides \<open>2 ^ 32 - 1\<close> holds exactly the last \<open>N\<close> items pushed,
  oldest first in the order of its slots, also when their numbers straddle the wrap.
\<close>

theorem seq_ring_window:
  assumes "sr_push_all (sr_new N) vs = Some r" and "0 < N" and "N dvd SPAN"
  shows "sr_window r = keep_last N vs"
proof -
  obtain r' where "sr_push_all (sr_new N) vs = Some r'" "sr_rep r' vs" "sr_capacity r' = N"
    using assms(2) by (rule sr_push_all_rep)
  with assms(1,3) sr_window_eq [of r vs] show ?thesis by simp
qed

theorem seq_ring_window_witness:
  "\<exists>r. sr_push_all (sr_new 3) (replicate SPAN True @ [False, True]) = Some r \<and>
    sr_window r = keep_last 3 (replicate SPAN True @ [False, True])"
proof -
  obtain r where r: "sr_push_all (sr_new 3) (replicate SPAN True @ [False, True]) = Some r"
    by (rule sr_push_all_rep [of 3]) simp
  from seq_ring_window [OF r] r show ?thesis by (simp add: SPAN_eq)
qed

text \<open>
  The sequence numbers: the successor skips the reserved 0 and follows the numbering of the pushes, and
  the distance between the numbers of two items fewer than \<open>2 ^ 32 - 1\<close> apart is the number of items
  between them, across the wrap too.
\<close>

theorem seq_numbers_are_exact:
  assumes "c \<le> n" and "n - c < SPAN"
  shows "sr_next_after (seq_at n) = seq_at (Suc n) \<and> sr_next_after (seq_at n) \<noteq> 0 \<and>
    unat (sr_seq_distance (seq_at c) (seq_at n)) = n - c"
  using sr_seq.nxt_seq_at sr_seq.nxt_nonzero sr_seq.dist_seq_at [OF assms] by simp

theorem seq_numbers_are_exact_witness:
  "unat (sr_seq_distance (seq_at (SPAN - 2)) (seq_at (SPAN + 3))) = SPAN + 3 - (SPAN - 2)"
  using seq_numbers_are_exact [of "SPAN - 2" "SPAN + 3"] by (simp add: SPAN_eq)

section \<open>Composition and signals\<close>

text \<open>
  Every block is contiguous: fed with samples of an increasing sequence of ordinals, with gaps and clears
  anywhere, over less than a whole span of numbers, each completed block holds exactly the samples of \<open>N\<close>
  consecutive ordinals, all of them among those fed.
\<close>

theorem blocks_are_contiguous:
  assumes "0 < N" and "sorted_wrt (<) (ordinals ms)" and "\<forall>m \<in> set (ordinals ms). 0 < m"
    and "\<forall>m \<in> set (ordinals ms). \<forall>m' \<in> set (ordinals ms). m' - m < SPAN"
    and "bb_run (bb_new N) (feed val ms) = Some (rs, b)" and "Inr (Some blk) \<in> set rs"
  shows "\<exists>c. blk = block_of (numbered val [c..<c + N]) \<and> set [c..<c + N] \<subseteq> set (ordinals ms)"
proof -
  have "bb_capacity (bb_new N :: 'a block_builder) = N" by (simp add: bb_new_def bb_capacity_def)
  with bb_run_refines [OF bb_holds_new [OF assms(1)], of "feed val ms"] assms(5,6)
  have "Inr (Some blk) \<in> set (fst (fill_run N (numbered val [0..<0 + 0]) (feed val ms)))"
    by (auto simp: numbered_def)
  from fill_run_contiguous [OF assms(2,1) _ assms(4) this] assms(3) show ?thesis by simp
qed

theorem blocks_are_contiguous_witness:
  "\<exists>rs b c. bb_run (bb_new 2) (feed (\<lambda>m. m) [Some 5, Some 6]) = Some (rs, b) \<and>
    Inr (Some (block_of [(seq_at 5, 5), (seq_at 6, 6)])) \<in> set rs \<and>
    block_of [(seq_at 5, 5), (seq_at 6, 6)] = block_of (numbered (\<lambda>m. m) [c..<c + 2])"
proof -
  have seq: "seq_at 6 = bb_next_sequence (seq_at 5)" by (subst next_ordinal) (simp_all add: SPAN_eq)
  have "bb_capacity (bb_new 2 :: nat block_builder) = 2" by (simp add: bb_new_def bb_capacity_def)
  with bb_run_refines [OF bb_holds_new [of 2], of "feed (\<lambda>m. m) [Some 5, Some 6]"] obtain b where
    b: "bb_run (bb_new 2) (feed (\<lambda>m. m) [Some 5, Some 6])
      = Some ([Inr None, Inr (Some (block_of [(seq_at 5, 5), (seq_at 6, 6)]))], b)"
    by (auto simp: fill_spec_code seq bb_seq.nxt_nonzero)
  from blocks_are_contiguous [OF _ _ _ _ b, of "block_of [(seq_at 5, 5), (seq_at 6, 6)]"] b
  show ?thesis by (auto simp: SPAN_eq)
qed

text \<open>
  The composition of builder and channel that the size probes export: the call through the queue answers true
  exactly if the sample was the last of its block and the queue had room, and then the queue holds that block last
  (a full queue drops the block, and the builder starts anew either way); the call through the latest-value
  exchange publishes every completed block and answers whether it displaced one that was not taken.
\<close>

theorem probes_publish_the_completed_block:
  fixes s :: u32
  assumes "bb_holds fill w" and "eb_fifo_ok tx" and "bb_holds (twin_builder shape) w" and "lb_rep channel past c"
    and "N = bb_capacity fill" and "N = length (bbs_samples shape)"
  shows "(\<exists>fill' tx'. block_publish_probe fill tx s x
      = Some (completes N w s \<and> length (eb_contents tx) < eb_capacity tx, fill', tx') \<and>
      bb_holds fill' (snd (fill_spec N w s x)) \<and>
      eb_contents tx' = (if completes N w s \<and> length (eb_contents tx) < eb_capacity tx
        then eb_contents tx @ [block_of (w @ [(s, x)])] else eb_contents tx)) \<and>
    (\<exists>shape' channel' block. latest_complete_probe shape channel s x
      = Some (completes N w s \<and> c < length past, shape', channel') \<and>
      lb_rep channel' (if completes N w s then past @ [block] else past) c \<and>
      (completes N w s \<longrightarrow> twin_block block = block_of (w @ [(s, x)])))"
  using block_publish_result [OF assms(1,2), of s x, folded assms(5)]
    latest_complete_result [OF assms(3,4), of s x, folded assms(6)] by (elim exE conjE) (intro conjI exI; assumption)

theorem probes_publish_the_completed_block_witness:
  "\<exists>fill' tx'. block_publish_probe (bb_new 1) (eb_new 1) 7 True = Some (True, fill', tx') \<and>
    eb_contents tx' = [\<lparr>blk_first_sequence = 7, blk_last_sequence = 7, blk_samples = [True]\<rparr>]"
proof -
  have "bb_holds (twin_builder (bbs_new 1)) ([] :: (u32 \<times> bool) list)" by (simp add: twin_builder_new bb_holds_new)
  moreover have "eb_fifo_ok (eb_new 1 :: bool block event_buf)" by (simp add: eb_fifo_ok_def eb_wf_new)
  moreover have "1 = bb_capacity (bb_new 1 :: bool block_builder)" by (simp add: bb_new_def bb_capacity_def)
  moreover have "1 = length (bbs_samples (bbs_new 1 :: bool block_builder_shape))" by (simp add: bbs_new_def)
  ultimately show ?thesis
    using probes_publish_the_completed_block [OF bb_holds_new [of 1] _ _ lb_rep_new, of "eb_new 1" "bbs_new 1" 1 7 True]
    by (auto simp: completes_def block_of_def)
qed

text \<open>
  A builder that publishes into a LatestBuf: after any feed that completed a block, the consumer's next
  take returns the last completed block, with the generation of its publication and the number of
  publications it skipped; the publications in between all succeed.
\<close>

theorem last_block_reaches_the_consumer:
  assumes "bb_holds b w" and "lb_rep ch published c" and "blocks_of (fst (fill_run (bb_capacity b) w ops)) \<noteq> []"
  shows "\<exists>rs b' pr ch1 ch2. bb_run b ops = Some (rs, b') \<and>
    lb_latest.publish_all ch (blocks_of rs) = Some (pr, ch1) \<and>
    lb_try_take_latest ch1 = Some (Some \<lparr>li_value = last (blocks_of rs),
      li_generation = seq_at (length published + length (blocks_of rs)),
      li_skipped = of_nat (lb_skips c (length published + length (blocks_of rs)))\<rparr>, ch2)"
  using assms by (rule builder_into_latest)

theorem last_block_reaches_the_consumer_witness:
  "\<exists>rs b' pr ch1 ch2. bb_run (bb_new 1) [Fill 7 True, Fill 8 False] = Some (rs, b') \<and>
    lb_latest.publish_all lb_new (blocks_of rs) = Some (pr, ch1) \<and>
    lb_try_take_latest ch1 = Some (Some \<lparr>li_value = last (blocks_of rs),
      li_generation = seq_at (length ([] :: bool block list) + length (blocks_of rs)),
      li_skipped = of_nat (lb_skips 0 (length ([] :: bool block list) + length (blocks_of rs)))\<rparr>, ch2)"
  by (rule last_block_reaches_the_consumer [OF bb_holds_new lb_rep_new])
    (simp_all add: bb_capacity_def bb_new_def fill_spec_code)

text \<open>
  A mask is the set of its conditions, numbers below 32: two masks are equal when the sets are, the operators
  are union and intersection, the tests are emptiness, inclusion and overlap, and \<open>from_index\<close> gives the
  singleton for an index below 32 and nothing from 32 on.
\<close>

theorem masks_are_sets:
  "conditions m \<subseteq> {..<32} \<and> (conditions m = conditions m' \<longleftrightarrow> m = m') \<and>
   conditions (mask_bitor m m') = conditions m \<union> conditions m' \<and>
   conditions (mask_bitand m m') = conditions m \<inter> conditions m' \<and>
   (mask_is_empty m \<longleftrightarrow> conditions m = {}) \<and> (mask_contains m m' \<longleftrightarrow> conditions m' \<subseteq> conditions m) \<and>
   (mask_intersects m m' \<longleftrightarrow> conditions m \<inter> conditions m' \<noteq> {}) \<and>
   map_option conditions (mask_from_index i) = (if unat i < 32 then Some {unat i} else None)"
proof -
  have "map_option conditions (mask_from_index i) = (if unat i < 32 then Some {unat i} else None)"
    using mask_from_index_conditions(1) [of i] mask_from_index_conditions(2) [of i] by simp
  then show ?thesis
    using conditions_bound [of m] conditions_inj [of m m'] mask_is_empty_iff [of m] mask_contains_iff [of m m']
      mask_intersects_iff [of m m'] by simp
qed

text \<open>
  The encodings of the exchange round trip: a slot and its ready bit are read back from the exchange word, every
  3-bit word is the encoding of what is read from it, and the role indices are read back from their XOR
  encodings, in both directions. These encodings make the image of a new LatestBuf all zero, so that it can be
  placed in \<open>.bss\<close>, although the producer then owns slot 1, the consumer slot 2 and the exchange slot 0.
\<close>

theorem latest_buf_words_round_trip:
  "(if s < 3 then lb_slot (lb_encode s r) = unat s \<and> lb_ready (lb_encode s r) = r else True) \<and>
   (if w < 8 then lb_encode (w AND SLOT_MASK) (lb_ready w) = w else True) \<and>
   lb_producer_slot (lb_encode_producer_slot x) = x \<and> lb_encode_producer_slot (lb_producer_slot x) = x \<and>
   lb_consumer_slot (lb_encode_consumer_slot x) = x \<and> lb_encode_consumer_slot (lb_consumer_slot x) = x \<and>
   (lb_exchange lb_new, back_encoded (lb_producer lb_new), next_generation (lb_producer lb_new),
     front_encoded (lb_consumer lb_new), last_generation (lb_consumer lb_new)) = (0, 0, 0, 0, 0) \<and>
   lb_producer_slot (back_encoded (lb_producer lb_new)) = 1 \<and>
   lb_consumer_slot (front_encoded (lb_consumer lb_new)) = 2 \<and>
   lb_slot (lb_exchange lb_new) = 0 \<and> \<not> lb_ready (lb_exchange lb_new)"
proof -
  have "lb_encode_producer_slot (lb_producer_slot x) = x" "lb_encode_consumer_slot (lb_consumer_slot x) = x"
    by (simp_all add: lb_producer_slot_def lb_encode_producer_slot_def lb_consumer_slot_def
        lb_encode_consumer_slot_def xor.assoc)
  then show ?thesis by (simp add: lb_encode_decode lb_new_roles) (simp add: lb_new_def)
qed

text \<open>
  \<open>forward\<close> from an EventBuf to a RingBuf, a sink that cannot fail, always moves \<open>min max len\<close> items
  and reports no error; the ring then shows the newest of what it held and what arrived.
\<close>

theorem forward_event_buf_to_ring_buf:
  assumes "eb_fifo_ok b" and "ring_wf V r"
  shows "\<exists>b' r'. forward eb_try_pop (ring_try_push V) b r limit
      = Some ((min limit (length (eb_contents b)), None :: 'e option), b', r') \<and>
    eb_contents b' = drop limit (eb_contents b) \<and>
    ring_contents r' = keep_last (ring_capacity r) (ring_contents r @ take limit (eb_contents b))"
  using assms by (rule forward_eb_ring)

theorem forward_event_buf_to_ring_buf_witness:
  "\<exists>b b' r'. chan_run eb_push eb_pop eb_peek (eb_new 4) [Put True, Put False, Put True] = Some ([Accepted, Accepted, Accepted], b) \<and>
    forward eb_try_pop (ring_try_push 9) b (ring_new 2) 7 = Some ((3, None :: bool option), b', r') \<and>
    ring_contents r' = [False, True]"
proof -
  have "eb_fifo_ok (eb_new 4 :: bool event_buf)" by (simp add: eb_fifo_ok_def eb_wf_new dvd_eq_mod_eq_0)
  from eb_fifo.run_refines [OF this, of "[Put True, Put False, Put True]"] obtain b where
    b: "chan_run eb_push eb_pop eb_peek (eb_new 4) [Put True, Put False, Put True] = Some ([Accepted, Accepted, Accepted], b)"
      "eb_fifo_ok b" "eb_contents b = [True, False, True]" by auto
  have wf: "ring_wf 9 (ring_new 2 :: bool ring_buf)" by (rule ring_wf_new) simp_all
  have cap: "ring_capacity (ring_new 2 :: bool ring_buf) = 2" by (simp add: ring_capacity_def ring_new_def)
  from forward_event_buf_to_ring_buf [OF b(2) wf, of 7, where 'e = bool] obtain b' r' where
    "forward eb_try_pop (ring_try_push 9) b (ring_new 2) 7 = Some ((3, None :: bool option), b', r')"
    "ring_contents r' = [False, True]" by (auto simp: b(3) cap keep_last_def)
  with b(1) show ?thesis by blast
qed

text \<open>
  A take returns exactly the conditions raised since the take before it: each at most once however often
  it was raised, none that was not raised, and none from before.
\<close>

theorem event_flags_take_returns_its_window:
  assumes "TakeAll \<notin> set window"
  shows "map conditions (fst (ef_run f (earlier @ TakeAll # window @ TakeAll # later)))
    = fst (ef_spec (ef_pending_set f) earlier) @ [snd (ef_spec (ef_pending_set f) earlier)] @
      [raised window] @ fst (ef_spec {} later)"
proof -
  have "map conditions (fst (ef_run f (earlier @ TakeAll # window @ TakeAll # later)))
    = fst (ef_spec (ef_pending_set f) (earlier @ TakeAll # window @ TakeAll # later))"
    by (simp only: ef_run_refines fst_conv)
  then show ?thesis by (simp add: ef_spec_take_window [OF assms] split_beta Let_def)
qed

theorem event_flags_take_returns_its_window_witness:
  "map conditions (fst (ef_run ef_new ([] @ TakeAll # [Raise mask_ALL, Raise mask_EMPTY] @ TakeAll # [])))
    = [ef_pending_set ef_new, {..<32}]"
  by (subst event_flags_take_returns_its_window) simp_all

text \<open>
  Exact accounting: as long as fewer than \<open>2 ^ 32 - 1\<close> values were published, the items taken, each with
  the publications it reports as skipped, add up to the publications up to the last take.
\<close>

theorem latest_buf_accounts:
  assumes "length (lb_publications ops) < SPAN"
  shows "\<exists>rs b c. lb_run lb_new ops = Some (rs, b) \<and> lb_accounted rs = c \<and> lb_rep b (lb_publications ops) c"
  using lb_run_refines [OF lb_rep_new, of ops] lb_spec_accounts [of 0 "[]" ops] assms by auto

theorem latest_buf_accounts_witness:
  "\<exists>rs b c. lb_run lb_new [Publish True, Publish False, TakeLatest] = Some (rs, b) \<and> lb_accounted rs = c \<and>
    lb_rep b (lb_publications [Publish True, Publish False, TakeLatest]) c"
  by (rule latest_buf_accounts) (simp add: SPAN_eq)

section \<open>Conformance\<close>

text \<open>
  The model passes the repository's own unit tests of the sequence ring: each of the tests of
  \<open>src/seq_ring.rs\<close> that has a sequential meaning runs on the model without a failed assertion.
\<close>

theorem seq_ring_unit_tests_pass:
  assumes "4294967295 \<le> U"
  shows "set [sr_test_poll_one_empty U, sr_test_polls_in_order U, sr_test_drops_when_consumer_lags U,
    sr_test_latest_reads_newest, sr_test_skip_to_latest U, sr_test_poll_up_to_zero U,
    sr_test_dropped_counter_can_reset U, sr_test_latest_empty_returns_false, sr_test_latest_slot_missing,
    sr_test_poll_counts_missing_slot U, sr_test_push_wraps_seq, sr_test_read_rejects_invalidated_slot,
    sr_test_skips_reserved_zero_on_wrap U, sr_test_poll_window_is_frozen U, sr_test_lag_across_wrap U,
    sr_test_seq_distance, sr_test_try_producer_and_try_consumer U, sr_test_poll_one_value_and_latest_value U]
    = {Some ()}"
  by (simp add: assms sr_test_0 sr_test_1 sr_test_2 sr_test_3 sr_test_4 sr_test_5 sr_test_6 sr_test_7 sr_test_8
      sr_test_9 sr_test_10 sr_test_11 sr_test_12 sr_test_13 sr_test_14 sr_test_15 sr_test_16 sr_test_17)

theorem seq_ring_unit_tests_pass_witness: "sr_test_lag_across_wrap 18446744073709551615 = Some ()"
  using seq_ring_unit_tests_pass [of 18446744073709551615] by simp

end
