(* ===== verification/Conformance_Signals.thy ===== *)
theory Conformance_Signals
  imports Conformance EventFlags CountedSignal LatestBuf
begin

text \<open>
  The unit tests of \<open>src/event_flags.rs\<close>, \<open>src/counted_signal.rs\<close> and \<open>src/latest_buf.rs\<close>, run on
  the model in the same way as those of theory \<open>Conformance\<close>.
\<close>

unbundle bit_operations_syntax

section \<open>EventFlags\<close>

definition DATA_READY :: event_mask where
  "DATA_READY = mask_from_bits 1"

definition OVERFLOW :: event_mask where
  "OVERFLOW = mask_from_bits 2"

definition ef_test_event_mask_is_a_set :: "unit exec" where
  "ef_test_event_mask_is_a_set = do {
     check (mask_is_empty mask_EMPTY);
     check (mask_bits mask_ALL = u32_MAX);
     check (mask_from_index 0 = Some DATA_READY);
     m \<leftarrow> mask_from_index 31; check (mask_bits m = push_bit 31 1);
     check (mask_from_index 32 = None);
     check (mask_from_index u32_MAX = None);
     let both = mask_bitor DATA_READY OVERFLOW;
     check (mask_contains both DATA_READY);
     check (mask_intersects both OVERFLOW);
     check (mask_bits (mask_bitand both OVERFLOW) = mask_bits OVERFLOW)
   }"

definition ef_test_duplicate_raises_coalesce :: "unit exec" where
  "ef_test_duplicate_raises_coalesce = do {
     let flags = ef_new;
     flags \<leftarrow> claim (ef_try_producer flags);
     flags \<leftarrow> claim (ef_try_consumer flags);
     let flags = ef_raise flags DATA_READY;
     let flags = ef_raise flags DATA_READY;
     let (m, flags) = ef_take_all flags; check (m = DATA_READY);
     let (m, flags) = ef_take_all flags; check (m = mask_EMPTY)
   }"

definition ef_test_masks_round_trip :: "unit exec" where
  "ef_test_masks_round_trip = do {
     let flags = ef_new;
     flags \<leftarrow> claim (ef_try_producer flags);
     flags \<leftarrow> claim (ef_try_consumer flags);
     let flags = ef_raise flags (mask_bitor DATA_READY OVERFLOW);
     let (m, flags) = ef_take_all flags; check (m = mask_bitor DATA_READY OVERFLOW);
     let flags = ef_raise flags mask_ALL;
     let (m, flags) = ef_take_all flags; check (m = mask_ALL)
   }"

definition ef_test_empty_raise_and_take :: "unit exec" where
  "ef_test_empty_raise_and_take = do {
     let flags = ef_new;
     flags \<leftarrow> claim (ef_try_producer flags);
     flags \<leftarrow> claim (ef_try_consumer flags);
     let flags = ef_raise flags mask_EMPTY;
     let (m, flags) = ef_take_all flags; check (mask_is_empty m)
   }"

definition ef_test_handles_exclusive_and_reusable :: "unit exec" where
  "ef_test_handles_exclusive_and_reusable = do {
     let flags = ef_new;
     flags \<leftarrow> claim (ef_try_producer flags);
     flags \<leftarrow> claim (ef_try_consumer flags);
     check (fst (ef_try_producer flags) = None); let flags = snd (ef_try_producer flags);
     check (fst (ef_try_consumer flags) = None); let flags = snd (ef_try_consumer flags);
     let flags = ef_raise flags DATA_READY;
     let flags = ef_drop_consumer (ef_drop_producer flags);
     flags \<leftarrow> claim (ef_try_producer flags);
     flags \<leftarrow> claim (ef_try_consumer flags);
     let (m, flags) = ef_take_all flags; check (m = DATA_READY);
     let flags = ef_raise flags OVERFLOW;
     let (m, flags) = ef_take_all flags; check (m = OVERFLOW)
   }"

lemmas ef_test_defs [op_defs] = DATA_READY_def OVERFLOW_def

lemma ef_test_1: "ef_test_event_mask_is_a_set = Some ()"
  by (simp add: ef_test_event_mask_is_a_set_def op_defs cong: bind_in_order)

lemma ef_test_2: "ef_test_duplicate_raises_coalesce = Some ()"
  by (simp add: ef_test_duplicate_raises_coalesce_def op_defs cong: bind_in_order)

lemma ef_test_3: "ef_test_masks_round_trip = Some ()"
  by (simp add: ef_test_masks_round_trip_def op_defs cong: bind_in_order)

lemma ef_test_4: "ef_test_empty_raise_and_take = Some ()"
  by (simp add: ef_test_empty_raise_and_take_def op_defs cong: bind_in_order)

lemma ef_test_5: "ef_test_handles_exclusive_and_reusable = Some ()"
  by (simp add: ef_test_handles_exclusive_and_reusable_def op_defs cong: bind_in_order)

section \<open>CountedSignal\<close>

definition cs_test_increments_accumulate :: "unit exec" where
  "cs_test_increments_accumulate = do {
     let signal = cs_new;
     signal \<leftarrow> claim (cs_try_producer signal);
     signal \<leftarrow> claim (cs_try_consumer signal);
     let signal = cs_increment (cs_increment signal);
     let (s, signal) = cs_take_count signal; check (s = CountSnapshot 2);
     let (s, signal) = cs_take_count signal; check (snap_count_of s = 0)
   }"

definition cs_test_saturates :: "unit exec" where
  "cs_test_saturates = do {
     let signal = cs_new\<lparr>cs_count := u32_MAX - 1\<rparr>;
     signal \<leftarrow> claim (cs_try_producer signal);
     signal \<leftarrow> claim (cs_try_consumer signal);
     let signal = cs_increment (cs_increment signal);
     let (s, signal) = cs_take_count signal;
     check (snap_count_of s = u32_MAX);
     check (snap_is_saturated s);
     let (s, signal) = cs_take_count signal; check (snap_count_of s = 0)
   }"

definition cs_test_handles_exclusive_and_reusable :: "unit exec" where
  "cs_test_handles_exclusive_and_reusable = do {
     let signal = cs_new;
     signal \<leftarrow> claim (cs_try_producer signal);
     signal \<leftarrow> claim (cs_try_consumer signal);
     check (fst (cs_try_producer signal) = None); let signal = snd (cs_try_producer signal);
     check (fst (cs_try_consumer signal) = None); let signal = snd (cs_try_consumer signal);
     let signal = cs_increment signal;
     let signal = cs_drop_consumer (cs_drop_producer signal);
     signal \<leftarrow> claim (cs_try_producer signal);
     signal \<leftarrow> claim (cs_try_consumer signal);
     let (s, signal) = cs_take_count signal; check (snap_count_of s = 1);
     let signal = cs_increment signal;
     let (s, signal) = cs_take_count signal; check (snap_count_of s = 1)
   }"

lemma cs_test_1: "cs_test_increments_accumulate = Some ()"
  by (simp add: cs_test_increments_accumulate_def op_defs cong: bind_in_order)

lemma cs_test_2: "cs_test_saturates = Some ()"
  by (simp add: cs_test_saturates_def op_defs cong: bind_in_order)

lemma cs_test_3: "cs_test_handles_exclusive_and_reusable = Some ()"
  by (simp add: cs_test_handles_exclusive_and_reusable_def op_defs cong: bind_in_order)

section \<open>LatestBuf\<close>

definition lb_test_starts_empty :: "unit exec" where
  "lb_test_starts_empty = do {
     let channel = (lb_new :: u32 latest_buf);
     channel \<leftarrow> claim (lb_try_producer channel);
     channel \<leftarrow> claim (lb_try_consumer channel);
     (i, channel) \<leftarrow> lb_take_latest channel; check (i = None);
     (r, channel) \<leftarrow> lb_publish channel 7; check (pr_generation r = 1);
     (i, channel) \<leftarrow> lb_take_latest channel;
     check (i = Some \<lparr>li_value = 7, li_generation = 1, li_skipped = 0\<rparr>);
     (i, channel) \<leftarrow> lb_take_latest channel; check (i = None)
   }"

definition lb_test_replacement_is_reported :: "unit exec" where
  "lb_test_replacement_is_reported = do {
     let channel = (lb_new :: u32 latest_buf);
     channel \<leftarrow> claim (lb_try_producer channel);
     channel \<leftarrow> claim (lb_try_consumer channel);
     (r, channel) \<leftarrow> lb_publish channel 10; check (\<not> pr_replaced_unread r);
     (r, channel) \<leftarrow> lb_publish channel 20; check (pr_replaced_unread r);
     (r, channel) \<leftarrow> lb_publish channel 30; check (pr_replaced_unread r);
     (i, channel) \<leftarrow> lb_take_latest channel;
     check (i = Some \<lparr>li_value = 30, li_generation = 3, li_skipped = 2\<rparr>)
   }"

definition lb_test_reacquisition_continues :: "unit exec" where
  "lb_test_reacquisition_continues = do {
     let channel = (lb_new :: u32 latest_buf);
     channel \<leftarrow> claim (lb_try_producer channel);
     (r, channel) \<leftarrow> lb_publish channel 1; check (pr_generation r = 1);
     let channel = lb_drop_producer channel;
     channel \<leftarrow> claim (lb_try_producer channel);
     (r, channel) \<leftarrow> lb_publish channel 2;
     check (r = \<lparr>pr_generation = 2, pr_replaced_unread = True\<rparr>);
     channel \<leftarrow> claim (lb_try_consumer channel);
     (i, channel) \<leftarrow> lb_take_latest channel; check (map_option li_skipped i = Some 1);
     let channel = lb_drop_consumer channel;
     (r, channel) \<leftarrow> lb_publish channel 3;
     (r, channel) \<leftarrow> lb_publish channel 4;
     channel \<leftarrow> claim (lb_try_consumer channel);
     (i, channel) \<leftarrow> lb_take_latest channel;
     check (i = Some \<lparr>li_value = 4, li_generation = 4, li_skipped = 1\<rparr>)
   }"

definition lb_test_role_acquisition_is_unique :: "unit exec" where
  "lb_test_role_acquisition_is_unique = do {
     let channel = (lb_new :: u32 latest_buf);
     channel \<leftarrow> claim (lb_try_producer channel);
     channel \<leftarrow> claim (lb_try_consumer channel);
     check (fst (lb_try_producer channel) = None); let channel = snd (lb_try_producer channel);
     check (fst (lb_try_consumer channel) = None); let channel = snd (lb_try_consumer channel);
     let channel = lb_drop_consumer (lb_drop_producer channel);
     channel \<leftarrow> claim (lb_try_producer channel);
     channel \<leftarrow> claim (lb_try_consumer channel);
     Some ()
   }"

text \<open>The two tests below seed the role state, as their originals do through \<open>with_mut\<close>.\<close>

definition lb_seeded :: "u32 \<Rightarrow> u32 \<Rightarrow> u32 latest_buf" where
  "lb_seeded gen upto_gen = lb_new\<lparr>
     lb_producer := (lb_producer (lb_new :: u32 latest_buf))\<lparr>next_generation := gen\<rparr>,
     lb_consumer := (lb_consumer (lb_new :: u32 latest_buf))\<lparr>last_generation := upto_gen\<rparr>\<rparr>"

definition lb_test_generation_wrap :: "unit exec" where
  "lb_test_generation_wrap = do {
     let channel = lb_seeded (u32_MAX - 1) (u32_MAX - 1);
     channel \<leftarrow> claim (lb_try_producer channel);
     channel \<leftarrow> claim (lb_try_consumer channel);
     (r, channel) \<leftarrow> lb_publish channel 1; check (pr_generation r = u32_MAX);
     (r, channel) \<leftarrow> lb_publish channel 2; check (pr_generation r = 1);
     (i, channel) \<leftarrow> lb_take_latest channel;
     check (i = Some \<lparr>li_value = 2, li_generation = 1, li_skipped = 1\<rparr>);
     check (lb_generation_distance u32_MAX 1 = 1)
   }"

definition lb_test_full_generation_cycle :: "unit exec" where
  "lb_test_full_generation_cycle = do {
     check (lb_generation_distance 17 17 = 0);
     let channel = lb_seeded 16 17;
     channel \<leftarrow> claim (lb_try_producer channel);
     channel \<leftarrow> claim (lb_try_consumer channel);
     (r, channel) \<leftarrow> lb_publish channel 99; check (pr_generation r = 17);
     (i, channel) \<leftarrow> lb_take_latest channel;
     check (i = Some \<lparr>li_value = 99, li_generation = 17, li_skipped = 0\<rparr>)
   }"

definition lb_test_payload_can_be_a_block :: "unit exec" where
  "lb_test_payload_can_be_a_block = do {
     let channel = (lb_new :: 16 word list latest_buf);
     channel \<leftarrow> claim (lb_try_producer channel);
     channel \<leftarrow> claim (lb_try_consumer channel);
     (r, channel) \<leftarrow> lb_publish channel [1, 2, 3, 4];
     (i, channel) \<leftarrow> lb_take_latest channel; check (map_option li_value i = Some [1, 2, 3, 4])
   }"

lemma lb_test_1: "lb_test_starts_empty = Some ()"
  by (simp add: lb_test_starts_empty_def op_defs cong: bind_in_order)

lemma lb_test_2: "lb_test_replacement_is_reported = Some ()"
  by (simp add: lb_test_replacement_is_reported_def op_defs cong: bind_in_order)

lemma lb_test_3: "lb_test_reacquisition_continues = Some ()"
  by (simp add: lb_test_reacquisition_continues_def op_defs cong: bind_in_order)

lemma lb_test_4: "lb_test_role_acquisition_is_unique = Some ()"
  by (simp add: lb_test_role_acquisition_is_unique_def op_defs cong: bind_in_order)

lemma lb_test_5: "lb_test_generation_wrap = Some ()"
  by (simp add: lb_test_generation_wrap_def lb_seeded_def op_defs u32_near_MAX cong: bind_in_order)

lemma lb_test_6: "lb_test_full_generation_cycle = Some ()"
  by (simp add: lb_test_full_generation_cycle_def lb_seeded_def op_defs cong: bind_in_order)

lemma lb_test_7: "lb_test_payload_can_be_a_block = Some ()"
  by (simp add: lb_test_payload_can_be_a_block_def op_defs cong: bind_in_order)

end
