(* ===== verification/Conformance_Rest.thy ===== *)
theory Conformance_Rest
  imports Conformance_SeqRing Conformance_Signals
begin

text \<open>
  The unit tests that are about how values are made rather than about one operation: defaults, constants and
  statics, payloads without a \<open>Default\<close>, the hook that the test build adds to \<open>read_seq_inner\<close>, and the
  modules that the tests of \<open>static_spsc!\<close> declare.
\<close>

section \<open>Defaults, constants and statics\<close>

text \<open>The payload \<open>NoDefault\<close> has no zero value that the containers could fall back on.\<close>

datatype no_default = NoDefault u32

definition eb_test_default_is_new :: "unit exec" where
  "eb_test_default_is_new = do { let buf = (eb_default 4 :: 8 word event_buf); check (eb_is_empty buf) }"

definition eb_test_const_new :: "unit exec" where
  "eb_test_const_new = do {
     let BUF = (eb_new 4 :: u32 event_buf);
     check (eb_is_empty BUF);
     check (eb_capacity BUF = 4)
   }"

definition eb_test_static_buf :: "unit exec" where
  "eb_test_static_buf = do {
     let BUF = (eb_new 4 :: u32 event_buf);
     BUF \<leftarrow> claim (eb_try_producer BUF);
     BUF \<leftarrow> claim (eb_try_consumer BUF);
     BUF \<leftarrow> accepted_push (eb_push BUF 7);
     (v, BUF) \<leftarrow> eb_pop BUF; check (v = Some 7)
   }"

definition ring_test_default_is_new :: "unit exec" where
  "ring_test_default_is_new = do { let r = (ring_default 8 :: 8 word ring_buf); check (ring_is_empty r) }"

text \<open>Using the constant \<open>EMPTY\<close> copies it, so pushing to the copy leaves the constant alone.\<close>

definition ring_test_const_new :: "usize \<Rightarrow> unit exec" where
  "ring_test_const_new U = do {
     let EMPTY = (ring_new 4 :: u32 ring_buf);
     let LOG = (ring_new 8 :: u32 ring_buf);
     check (ring_is_empty EMPTY);
     check (ring_capacity EMPTY = 4);
     check (ring_is_empty LOG);
     check (ring_capacity LOG = 8);
     let r = EMPTY;
     r \<leftarrow> ring_push U r 1;
     v \<leftarrow> ring_get r 0; check (v = Some 1)
   }"

definition ring_test_works_without_default :: "usize \<Rightarrow> unit exec" where
  "ring_test_works_without_default U = do {
     let r = ring_new 2;
     r \<leftarrow> ring_push U r (NoDefault 1);
     r \<leftarrow> ring_push U r (NoDefault 2);
     v \<leftarrow> ring_get r 0; check (v = Some (NoDefault 1));
     v \<leftarrow> ring_latest r; check (v = Some (NoDefault 2));
     r \<leftarrow> ring_push U r (NoDefault 3);
     v \<leftarrow> ring_get r 0; check (v = Some (NoDefault 2));
     v \<leftarrow> ring_latest r; check (v = Some (NoDefault 3))
   }"

definition ring_test_capacity_returns_n :: "unit exec" where
  "ring_test_capacity_returns_n = check (ring_capacity (ring_new 8 :: u32 ring_buf) = 8)"

definition bb_test_works_without_default :: "unit exec" where
  "bb_test_works_without_default = do {
     let fill = bb_new 1;
     (block, fill) \<leftarrow> completed (bb_push fill 1 (NoDefault 3));
     check (block_samples block = [NoDefault 3])
   }"

definition sr_test_capacity_returns_n :: "unit exec" where
  "sr_test_capacity_returns_n = check (sr_capacity (sr_new 8 :: u32 seq_ring) = 8)"

definition sr_test_const_new :: "unit exec" where
  "sr_test_const_new = do { let RING = (sr_new 4 :: u32 seq_ring); check (sr_capacity RING = 4) }"

definition sr_test_static_ring :: "usize \<Rightarrow> unit exec" where
  "sr_test_static_ring U = do {
     let RING = (sr_new 4 :: u32 seq_ring);
     RING \<leftarrow> claim (sr_try_producer RING);
     (c, RING) \<leftarrow> claim_consumer (sr_try_consumer RING);
     (s, RING) \<leftarrow> sr_push RING 9;
     (v, c, RING) \<leftarrow> sr_poll_one_value U c RING; check (v = Some (1, 9))
   }"

definition ef_test_const_new :: "unit exec" where
  "ef_test_const_new = do {
     let FLAGS = ef_new;
     FLAGS \<leftarrow> claim (ef_try_producer FLAGS);
     FLAGS \<leftarrow> claim (ef_try_consumer FLAGS);
     let FLAGS = ef_raise FLAGS DATA_READY;
     let (m, FLAGS) = ef_take_all FLAGS;
     check (m = DATA_READY)
   }"

definition cs_test_const_new :: "unit exec" where
  "cs_test_const_new = do {
     let SIGNAL = cs_new;
     SIGNAL \<leftarrow> claim (cs_try_producer SIGNAL);
     SIGNAL \<leftarrow> claim (cs_try_consumer SIGNAL);
     let SIGNAL = cs_increment SIGNAL;
     let (s, SIGNAL) = cs_take_count SIGNAL;
     check (snap_count_of s = 1)
   }"

definition lb_test_static_channel :: "unit exec" where
  "lb_test_static_channel = do {
     let CHANNEL = (lb_new :: u32 latest_buf);
     CHANNEL \<leftarrow> claim (lb_try_producer CHANNEL);
     CHANNEL \<leftarrow> claim (lb_try_consumer CHANNEL);
     (r, CHANNEL) \<leftarrow> lb_publish CHANNEL 42;
     (item, CHANNEL) \<leftarrow> lb_take_latest CHANNEL;
     got \<leftarrow> item;
     check (li_value got = 42)
   }"

lemma construction_tests:
  "eb_test_default_is_new = Some ()" "eb_test_const_new = Some ()" "eb_test_static_buf = Some ()"
  "ring_test_default_is_new = Some ()" "ring_test_capacity_returns_n = Some ()"
  "bb_test_works_without_default = Some ()" "sr_test_capacity_returns_n = Some ()" "sr_test_const_new = Some ()"
  "ef_test_const_new = Some ()" "cs_test_const_new = Some ()" "lb_test_static_channel = Some ()"
  by (simp_all add: eb_test_default_is_new_def eb_test_const_new_def eb_test_static_buf_def
      ring_test_default_is_new_def ring_test_capacity_returns_n_def bb_test_works_without_default_def
      sr_test_capacity_returns_n_def sr_test_const_new_def ef_test_const_new_def cs_test_const_new_def
      lb_test_static_channel_def eb_default_def ring_default_def op_defs cong: bind_in_order)

lemma construction_tests_usize:
  assumes "4294967295 \<le> U"
  shows "ring_test_const_new U = Some ()" "ring_test_works_without_default U = Some ()" "sr_test_static_ring U = Some ()"
  using assms by (simp_all add: ring_test_const_new_def ring_test_works_without_default_def
      sr_test_static_ring_def op_defs cong: bind_in_order)

section \<open>The hook of the test build\<close>

text \<open>
  In the test build \<open>read_seq_inner\<close> calls \<open>test_after_read_hook\<close> between its copy and its re-check. The hook
  is armed for the ring at one address and then stores a number to the slot. \<open>self\<close> is the ring's address.
\<close>

record read_hook =
  hook_target :: usize
  hook_seq :: u32

definition sr_test_after_read_hook :: "usize \<Rightarrow> read_hook \<Rightarrow> 'a seq_ring \<Rightarrow> usize \<Rightarrow> ('a seq_ring \<times> read_hook) exec" where
  "sr_test_after_read_hook self h r idx =
     (if hook_target h = self then do {
        seqs \<leftarrow> array_write (sr_slot_seq r) idx (hook_seq h);
        Some (r\<lparr>sr_slot_seq := seqs\<rparr>, h\<lparr>hook_target := 0\<rparr>)
      } else Some (r, h))"

definition sr_read_seq_inner_tested :: "usize \<Rightarrow> read_hook \<Rightarrow> 'a seq_ring \<Rightarrow> u32 \<Rightarrow>
    ('a option \<times> 'a seq_ring \<times> read_hook) exec" where
  "sr_read_seq_inner_tested self h r seq = do {
     let idx = sr_idx_for (sr_capacity r) seq;
     s1 \<leftarrow> array_read (sr_slot_seq r) idx;
     if s1 \<noteq> seq then Some (None, r, h)
     else do {
       raw \<leftarrow> array_read (sr_slots r) idx;
       (r, h) \<leftarrow> sr_test_after_read_hook self h r idx;
       s2 \<leftarrow> array_read (sr_slot_seq r) idx;
       if s2 \<noteq> seq then Some (None, r, h)
       else do { v \<leftarrow> raw; Some (Some v, r, h) }
     }
   }"

text \<open>Unarmed, it is \<open>read_seq_inner\<close>; armed with another number, it makes the read fail.\<close>

lemma read_hook_unarmed:
  "hook_target h \<noteq> self \<Longrightarrow>
     sr_read_seq_inner_tested self h r seq = do { got \<leftarrow> sr_read_seq_inner r seq; Some (got, r, h) }"
  by (simp add: sr_read_seq_inner_tested_def sr_read_seq_inner_def sr_test_after_read_hook_def Let_def
      split: bind_splits)

lemma read_hook_armed:
  assumes "sr_read_seq_inner_tested self h r seq = Some (got, r', h')" and "hook_target h = self"
    and "hook_seq h \<noteq> seq"
  shows "got = None"
  using assms by (auto simp: sr_read_seq_inner_tested_def sr_test_after_read_hook_def array_write_def
      array_read_def Let_def split: if_splits bind_splits elim!: option_bind_SomeE)

definition sr_test_detects_overwrite_during_read :: "usize \<Rightarrow> unit exec" where
  "sr_test_detects_overwrite_during_read self = do {
     let ring = (sr_new 4 :: u32 seq_ring);
     ring \<leftarrow> claim (sr_try_producer ring);
     (seq, ring) \<leftarrow> sr_push ring 7;
     let hook = \<lparr>hook_target = self, hook_seq = seq + 1\<rparr>;
     (got, ring, hook) \<leftarrow> sr_read_seq_inner_tested self hook ring seq;
     check (got = None)
   }"

lemma sr_test_18: "sr_test_detects_overwrite_during_read self = Some ()"
  by (simp add: sr_test_detects_overwrite_during_read_def sr_read_seq_inner_tested_def
      sr_test_after_read_hook_def op_defs cong: bind_in_order)

section \<open>The saturating drop counter\<close>

text \<open>\<open>|_, _| {}\<close>.\<close>

definition ignore_hook :: "u32 \<Rightarrow> 'a \<Rightarrow> 'a seq_ring \<times> unit \<Rightarrow> ('a seq_ring \<times> unit) exec" where
  "ignore_hook s v rh = Some rh"

fun push_and_poll :: "usize \<Rightarrow> nat \<Rightarrow> sr_consumer \<Rightarrow> u32 seq_ring \<Rightarrow> (sr_consumer \<times> u32 seq_ring) exec" where
  "push_and_poll U 0 consumer ring = Some (consumer, ring)"
| "push_and_poll U (Suc n) consumer ring = do {
     (s, ring) \<leftarrow> sr_push ring 2;
     (stats, consumer, ring, u) \<leftarrow> sr_poll_up_to U consumer ring 4 ignore_hook ();
     push_and_poll U n consumer ring
   }"

definition sr_test_dropped_accum_saturates :: "usize \<Rightarrow> unit exec" where
  "sr_test_dropped_accum_saturates U = do {
     let ring = (sr_new 4 :: u32 seq_ring);
     ring \<leftarrow> claim (sr_try_producer ring);
     (consumer, ring) \<leftarrow> claim_consumer (sr_try_consumer ring);
     let ring = ring\<lparr>sr_next_seq := u32_MAX - 2\<rparr>;
     (s, ring) \<leftarrow> sr_push ring 1;
     (stats, consumer, ring, u) \<leftarrow> sr_poll_up_to U consumer ring 4 ignore_hook ();
     let after_first = sr_dropped consumer;
     check (0 < after_first);
     (consumer, ring) \<leftarrow> push_and_poll U 8 consumer ring;
     check (after_first \<le> sr_dropped consumer)
   }"

lemma push_and_poll_8: "push_and_poll U 8 = push_and_poll U (Suc (Suc (Suc (Suc (Suc (Suc (Suc (Suc 0))))))))"
  by (simp add: eval_nat_numeral)

lemma sr_test_19: "4294967295 \<le> U \<Longrightarrow> sr_test_dropped_accum_saturates U = Some ()"
  by (simp add: sr_test_dropped_accum_saturates_def ignore_hook_def push_and_poll_8 op_defs u32_near_MAX
      cong: bind_in_order)

section \<open>The modules of the macro's tests\<close>

text \<open>Each invocation of \<open>static_spsc!\<close> makes a module with a static of its own.\<close>

definition eb_round_trip :: "u32 event_buf" where
  "eb_round_trip = eb_new 4"

definition eb_once :: "u32 event_buf" where
  "eb_once = eb_new 4"

definition eb_partial :: "u32 event_buf" where
  "eb_partial = eb_new 2"

definition sr_round_trip :: "u32 seq_ring" where
  "sr_round_trip = sr_new 4"

definition send_check :: "u32 event_buf" where
  "send_check = eb_new 4"

definition send_check_sr :: "u32 seq_ring" where
  "send_check_sr = sr_new 4"

lemma test_modules_can_be_taken:
  "fst (eb_static_take eb_round_trip) \<noteq> None" "fst (eb_static_take eb_once) \<noteq> None"
  "fst (eb_static_take eb_partial) \<noteq> None" "fst (sr_static_take sr_round_trip) \<noteq> None"
  "fst (eb_static_take send_check) \<noteq> None" "fst (sr_static_take send_check_sr) \<noteq> None"
  unfolding eb_static_take_def sr_static_take_def eb_spsc.take_iff sr_spsc.take_iff
  by (simp_all add: eb_round_trip_def eb_once_def eb_partial_def sr_round_trip_def send_check_def
      send_check_sr_def eb_new_def sr_new_def)

end
