(* ===== verification/Conformance_Docs.thy ===== *)
theory Conformance_Docs
  imports Conformance_SeqRing Conformance_Signals Auto_Traits Loom_Build
begin

text \<open>
  The examples in the crate's documentation, which its test run compiles and executes, as programs over the model:
  the quick starts of \<open>src/lib.rs\<close> and the example of each module. \<open>expect\<close> on nothing and a failed
  assertion are \<open>None\<close>. The examples marked \<open>compile_fail\<close> state that a handle is not \<open>Sync\<close> (E0277) or that a
  container of capacity 0 is rejected when its constructor is evaluated (E0080).
\<close>

section \<open>The quick starts\<close>

definition lib_doc_static_spsc :: "unit exec" where
  "lib_doc_static_spsc = do {
     let on_sample = (\<lambda>telemetry v. do { (r, telemetry) \<leftarrow> eb_push telemetry v; Some telemetry });
     telemetry \<leftarrow> claim (eb_static_take (eb_new 64 :: u32 event_buf));
     telemetry \<leftarrow> on_sample telemetry 1;
     (v, telemetry) \<leftarrow> eb_pop telemetry; check (v = Some 1)
   }"

definition lib_doc_ring_buf :: "usize \<Rightarrow> unit exec" where
  "lib_doc_ring_buf U = do {
     let ring = (ring_new 4 :: u32 ring_buf);
     ring \<leftarrow> ring_push U ring 1;
     ring \<leftarrow> ring_push U ring 2;
     ring \<leftarrow> ring_push U ring 3;
     v \<leftarrow> ring_latest ring; check (v = Some 3)
   }"

text \<open>The hook asserts what it is given; that it has run is asserted after the poll.\<close>

definition lib_doc_seq_ring :: "usize \<Rightarrow> unit exec" where
  "lib_doc_seq_ring U = do {
     let ring = (sr_new 64 :: u32 seq_ring);
     ring \<leftarrow> claim (sr_try_producer ring);
     (consumer, ring) \<leftarrow> claim_consumer (sr_try_consumer ring);
     (s, ring) \<leftarrow> sr_push ring 42;
     (delivered, consumer, ring, u) \<leftarrow> sr_poll_one U consumer ring
       (\<lambda>seq v rh. do { check (seq = 1); check (v = 42); Some rh }) ();
     check delivered
   }"

definition lib_doc_event_buf :: "unit exec" where
  "lib_doc_event_buf = do {
     let buf = (eb_new 4 :: u32 event_buf);
     buf \<leftarrow> claim (eb_try_producer buf);
     buf \<leftarrow> claim (eb_try_consumer buf);
     (r, buf) \<leftarrow> eb_push buf 1; check (r = Inr ());
     (r, buf) \<leftarrow> eb_push buf 2; check (r = Inr ());
     (v, buf) \<leftarrow> eb_pop buf; check (v = Some 1)
   }"

section \<open>The examples of the modules\<close>

definition traits_doc_forward :: "usize \<Rightarrow> unit exec" where
  "traits_doc_forward U = do {
     let seq = (sr_new 8 :: u32 seq_ring);
     seq \<leftarrow> claim (sr_try_producer seq);
     (sc, seq) \<leftarrow> claim_consumer (sr_try_consumer seq);
     (s, seq) \<leftarrow> sr_push seq 1;
     (s, seq) \<leftarrow> sr_push seq 2;
     let eb = (eb_new 8 :: u32 event_buf);
     eb \<leftarrow> claim (eb_try_producer eb);
     ((n, err), (sc, seq), eb) \<leftarrow> forward (sr_try_pop U) eb_try_push (sc, seq) eb 10;
     check (n = 2);
     check (err = None)
   }"

text \<open>The quick start for \<open>forward\<close> is the same program.\<close>

definition lib_doc_forward :: "usize \<Rightarrow> unit exec" where
  "lib_doc_forward U = traits_doc_forward U"

text \<open>\<open>push(...).expect("contiguous").is_none()\<close> for each pair.\<close>

fun not_complete_each :: "'a block_builder \<Rightarrow> (u32 \<times> 'a) list \<Rightarrow> 'a block_builder exec" where
  "not_complete_each fill [] = Some fill"
| "not_complete_each fill ((sequence, sample) # rest) = do {
     (r, fill) \<leftarrow> bb_push fill sequence sample;
     check (case r of Inr None \<Rightarrow> True | _ \<Rightarrow> False);
     not_complete_each fill rest
   }"

definition block_doc_example :: "unit exec" where
  "block_doc_example = do {
     let fill = (bb_new 4 :: 16 word block_builder);
     fill \<leftarrow> not_complete_each fill [(10, 1), (11, 2), (12, 3)];
     (block, fill) \<leftarrow> completed (bb_push fill 13 4);
     let queue = eb_new 2;
     queue \<leftarrow> claim (eb_try_producer queue);
     queue \<leftarrow> claim (eb_try_consumer queue);
     (r, queue) \<leftarrow> eb_push queue block; check (r = Inr ());
     (got, queue) \<leftarrow> eb_pop queue;
     block \<leftarrow> got;
     check (block_samples block = [1, 2, 3, 4])
   }"

definition event_buf_doc_example :: "unit exec" where
  "event_buf_doc_example = do {
     let buf = (eb_new 4 :: u32 event_buf);
     buf \<leftarrow> claim (eb_try_producer buf);
     buf \<leftarrow> claim (eb_try_consumer buf);
     (r, buf) \<leftarrow> eb_push buf 1; check (r = Inr ());
     (r, buf) \<leftarrow> eb_push buf 2; check (r = Inr ());
     v \<leftarrow> eb_peek buf; check (v = Some 1);
     (v, buf) \<leftarrow> eb_pop buf; check (v = Some 1);
     (v, buf) \<leftarrow> eb_pop buf; check (v = Some 2);
     (v, buf) \<leftarrow> eb_pop buf; check (v = None)
   }"

definition latest_buf_doc_example :: "unit exec" where
  "latest_buf_doc_example = do {
     let channel = (lb_new :: u32 latest_buf);
     channel \<leftarrow> claim (lb_try_producer channel);
     channel \<leftarrow> claim (lb_try_consumer channel);
     (r, channel) \<leftarrow> lb_publish channel 10; check (\<not> pr_replaced_unread r);
     (r, channel) \<leftarrow> lb_publish channel 20; check (pr_replaced_unread r);
     (got, channel) \<leftarrow> lb_take_latest channel;
     item \<leftarrow> got;
     check ((li_value item, li_generation item, li_skipped item) = (20, 2, 1))
   }"

definition ring_doc_example :: "usize \<Rightarrow> unit exec" where
  "ring_doc_example U = do {
     let r = (ring_new 4 :: u32 ring_buf);
     r \<leftarrow> ring_push U r 10;
     r \<leftarrow> ring_push U r 20;
     v \<leftarrow> ring_latest r; check (v = Some 20);
     v \<leftarrow> ring_get r 0; check (v = Some 10)
   }"

definition macros_doc_event_buf :: "unit exec" where
  "macros_doc_event_buf = do {
     let on_sample = (\<lambda>telemetry v. do { (r, telemetry) \<leftarrow> eb_push telemetry v; Some telemetry });
     telemetry \<leftarrow> claim (eb_static_take (eb_new 64 :: u32 event_buf));
     telemetry \<leftarrow> on_sample telemetry 7;
     (v, telemetry) \<leftarrow> eb_pop telemetry; check (v = Some 7);
     check (fst (eb_static_take telemetry) = None)
   }"

definition macros_doc_seq_ring :: "usize \<Rightarrow> unit exec" where
  "macros_doc_seq_ring U = do {
     let (handles, events) = sr_static_take (sr_new 32 :: u32 seq_ring);
     (tx, rx) \<leftarrow> handles;
     (s, events) \<leftarrow> sr_push events 1;
     (v, rx, events) \<leftarrow> sr_poll_one_value U rx events; check (v = Some (1, 1))
   }"

section \<open>The examples that must not compile\<close>

definition latest_doc_producer_not_sync :: bool where
  "latest_doc_producer_not_sync \<longleftrightarrow> \<not> assert_sync latest_buf_producer_type"

definition latest_doc_consumer_not_sync :: bool where
  "latest_doc_consumer_not_sync \<longleftrightarrow> \<not> assert_sync latest_buf_consumer_type"

definition signal_doc_producer_not_sync :: bool where
  "signal_doc_producer_not_sync \<longleftrightarrow> \<not> assert_sync counted_signal_producer_type"

definition signal_doc_consumer_not_sync :: bool where
  "signal_doc_consumer_not_sync \<longleftrightarrow> \<not> assert_sync counted_signal_consumer_type"

definition flags_doc_producer_not_sync :: bool where
  "flags_doc_producer_not_sync \<longleftrightarrow> \<not> assert_sync event_flags_producer_type"

definition flags_doc_consumer_not_sync :: bool where
  "flags_doc_consumer_not_sync \<longleftrightarrow> \<not> assert_sync event_flags_consumer_type"

text \<open>
  \<open>const { assert!(N > 0) }\<close> stands before the initialisation in \<open>new\<close>; if it fails, the instance of \<open>new\<close> does
  not compile, which is \<open>None\<close> here.
\<close>

definition eb_const_new :: "nat \<Rightarrow> 'a event_buf exec" where
  "eb_const_new N = do { check (0 < N); Some (eb_new N) }"

definition sr_const_new :: "nat \<Rightarrow> 'a seq_ring exec" where
  "sr_const_new N = do { check (0 < N); Some (sr_new N) }"

definition ring_const_new :: "nat \<Rightarrow> 'a ring_buf exec" where
  "ring_const_new N = do { check (0 < N); Some (ring_new N) }"

definition bb_const_new :: "nat \<Rightarrow> 'a block_builder exec" where
  "bb_const_new N = do { check (0 < N); Some (bb_new N) }"

definition eb_doc_zero_capacity :: bool where
  "eb_doc_zero_capacity \<longleftrightarrow> Option.is_none (eb_const_new 0 :: u32 event_buf exec)"

definition sr_doc_zero_capacity :: bool where
  "sr_doc_zero_capacity \<longleftrightarrow> Option.is_none (sr_const_new 0 :: u32 seq_ring exec)"

definition ring_doc_zero_capacity :: bool where
  "ring_doc_zero_capacity \<longleftrightarrow> Option.is_none (ring_const_new 0 :: u32 ring_buf exec)"

definition block_doc_zero_capacity :: bool where
  "block_doc_zero_capacity \<longleftrightarrow> Option.is_none (bb_const_new 0 :: 8 word block_builder exec)"

section \<open>They all hold\<close>

lemmas docs_defs = op_defs eb_static_take_def sr_static_take_def static_take_def

lemma lib_doc_1: "lib_doc_static_spsc = Some ()"
  by (simp add: lib_doc_static_spsc_def docs_defs cong: bind_in_order)

lemma lib_doc_2: "4 \<le> U \<Longrightarrow> lib_doc_ring_buf U = Some ()"
  by (simp add: lib_doc_ring_buf_def op_defs cong: bind_in_order)

lemma lib_doc_3: "4294967295 \<le> U \<Longrightarrow> lib_doc_seq_ring U = Some ()"
  by (simp add: lib_doc_seq_ring_def op_defs cong: bind_in_order)

lemma lib_doc_4: "lib_doc_event_buf = Some ()"
  by (simp add: lib_doc_event_buf_def op_defs cong: bind_in_order)

lemma lib_doc_5: "4294967295 \<le> U \<Longrightarrow> lib_doc_forward U = Some ()"
  by (simp add: lib_doc_forward_def traits_doc_forward_def op_defs cong: bind_in_order)

lemma module_doc_1: "4294967295 \<le> U \<Longrightarrow> traits_doc_forward U = Some ()"
  by (simp add: traits_doc_forward_def op_defs cong: bind_in_order)

lemma module_doc_2: "block_doc_example = Some ()"
  by (simp add: block_doc_example_def op_defs cong: bind_in_order)

lemma module_doc_3: "event_buf_doc_example = Some ()"
  by (simp add: event_buf_doc_example_def op_defs cong: bind_in_order)

lemma module_doc_4: "latest_buf_doc_example = Some ()"
  by (simp add: latest_buf_doc_example_def op_defs cong: bind_in_order)

lemma module_doc_5: "4 \<le> U \<Longrightarrow> ring_doc_example U = Some ()"
  by (simp add: ring_doc_example_def op_defs cong: bind_in_order)

lemma module_doc_6: "macros_doc_event_buf = Some ()"
  by (simp add: macros_doc_event_buf_def docs_defs cong: bind_in_order)

lemma module_doc_7: "4294967295 \<le> U \<Longrightarrow> macros_doc_seq_ring U = Some ()"
  by (simp add: macros_doc_seq_ring_def docs_defs cong: bind_in_order)

lemma handle_docs:
  "latest_doc_producer_not_sync" "latest_doc_consumer_not_sync" "signal_doc_producer_not_sync"
  "signal_doc_consumer_not_sync" "flags_doc_producer_not_sync" "flags_doc_consumer_not_sync"
  by (simp_all add: latest_doc_producer_not_sync_def latest_doc_consumer_not_sync_def signal_doc_producer_not_sync_def
      signal_doc_consumer_not_sync_def flags_doc_producer_not_sync_def flags_doc_consumer_not_sync_def
      assert_sync_def handle_types)

text \<open>The normal build rejects at compile time exactly the capacities at which the Loom build panics.\<close>

lemma const_assert_agrees_with_loom:
  "eb_const_new N = eb_new_loom N" "sr_const_new N = sr_new_loom N"
  by (simp_all add: eb_const_new_def sr_const_new_def loom_constructors check_def)

lemma zero_capacity_docs:
  "eb_doc_zero_capacity" "sr_doc_zero_capacity" "ring_doc_zero_capacity" "block_doc_zero_capacity"
  by (simp_all add: eb_doc_zero_capacity_def sr_doc_zero_capacity_def ring_doc_zero_capacity_def
      block_doc_zero_capacity_def eb_const_new_def sr_const_new_def ring_const_new_def bb_const_new_def check_def)

end
