(* ===== verification/Spec2Isabelle.thy ===== *)
theory Spec2Isabelle
  imports Pipeline EventBuf_Safety EventBuf_Wrap_Race EventBuf_Threads SeqRing_Models LatestBuf_Models LatestBuf_Handover
    EventFlags_Threads CountedSignal_Threads Bringup Build Loom_Build Auto_Traits Formatting Probe_Cycles Probe_Matrix
    Corollaries Conformance_Rest Conformance_Docs
begin

text \<open>
  A verification development of \<open>ph-eventing\<close>, a Rust library of fixed-capacity, allocation-free event
  containers for one producer and one consumer on \<open>no_std\<close> targets.

  \<^bold>\<open>The program and the theories.\<close> Every container of \<open>src/\<close> is a record of its fields and one definition per
  operation, in the order of the source, with the source's guards and early returns.

  \<^item> \<open>src/event_buf.rs\<close>, the bounded queue: \<open>EventBuf\<close> (record \<open>event_buf\<close>; \<open>eb_push\<close>, \<open>eb_pop\<close>, \<open>eb_peek\<close>,
    \<open>eb_drain\<close>, \<open>eb_len\<close> and the roles), \<open>EventBuf_Safety\<close> (memory safety at every capacity), \<open>EventBuf_Conc\<close>
    (the same operations access by access: \<open>ebc_push\<close>, \<open>ebc_pop\<close>), \<open>EventBuf_Progress\<close> (either side alone gets
    on), \<open>EventBuf_Wrap_Race\<close> (the race at the wrap of the cursors, at capacities that do not divide \<open>2 ^ 32\<close>) and
    \<open>EventBuf_Threads\<close> (the threaded tests).
  \<^item> \<open>src/seq_ring.rs\<close>, the overwrite ring with sequence numbers: \<open>SeqRing\<close> (record \<open>seq_ring\<close> and \<open>sr_consumer\<close>;
    \<open>sr_push\<close>, \<open>sr_read_seq_inner\<close>, \<open>sr_poll_up_to\<close>, \<open>sr_latest\<close>, \<open>sr_skip_to_latest\<close>), \<open>SeqRing_History\<close> (the
    ring against the list of all items ever pushed), \<open>SeqRing_Poll\<close> (the poll loop), \<open>SeqRing_Api\<close> (the other
    consumer calls, and the ring as a source and as a sink), \<open>SeqRing_Conc\<close> (the seqlock word by word: \<open>push_step\<close>
    for \<open>push_inner\<close>, \<open>read_step\<close> for \<open>read_seq_inner\<close>), \<open>SeqRing_Conc_Poll\<close> (whole polls and \<open>latest\<close> over these
    accesses: \<open>spc_step\<close>) and \<open>SeqRing_Conc_Progress\<close> (how long a poll can take).
  \<^item> \<open>src/ring.rs\<close>: \<open>Ring\<close>, the single-owner ring and its iterator, on checked \<open>usize\<close> arithmetic.
  \<^item> \<open>src/latest_buf.rs\<close>: \<open>LatestBuf\<close>, the three-slot exchange of the latest value; \<open>LatestBuf_Conc\<close>, access by
    access (\<open>lbc_publish\<close>, \<open>lbc_take\<close>); \<open>LatestBuf_Reports\<close>, what publishers are told; \<open>LatestBuf_Progress\<close>.
  \<^item> \<open>src/block.rs\<close>: \<open>Block\<close>, the builder of contiguous blocks. \<open>src/event_flags.rs\<close>: \<open>EventFlags\<close>.
    \<open>src/counted_signal.rs\<close>: \<open>CountedSignal\<close>. \<open>src/traits.rs\<close>: \<open>Traits\<close>, with \<open>forward\<close>. \<open>src/macros.rs\<close>:
    \<open>Bringup\<close>, the \<open>take()\<close> that \<open>static_spsc!\<close> generates.
  \<^item> \<open>build.rs\<close>, the \<open>compile_error!\<close> of \<open>src/lib.rs\<close>, the imports of \<open>src/sync.rs\<close> and the feature table: \<open>Build\<close>.
    What Cargo does and when \<open>portable-atomic\<close> compiles are parameters, with \<open>cargo_contract\<close> and \<open>portable_contract\<close> as
    their documented behaviour. \<open>Loom_Build\<close>: \<open>TrackedCell\<close>
    and the constructors of the Loom build, with Loom's cell as a parameter under \<open>loom_cell_contract\<close>.
  \<^item> \<open>Auto_Traits\<close>: the type declarations of the public types and what \<open>Send\<close> and \<open>Sync\<close> they have.
    \<open>Formatting\<close>: the text every \<open>Debug\<close> implementation prints.
  \<^item> \<open>Threads\<close>: programs of two threads over a component modelled access by access; \<open>Stress\<close>: the shape that the
    stress tests of the signals share; \<open>EventBuf_Threads\<close>, \<open>CountedSignal_Threads\<close>, \<open>EventFlags_Threads\<close>,
    \<open>LatestBuf_Threads\<close>, \<open>LatestBuf_Models\<close>, \<open>SeqRing_Feed\<close>, \<open>SeqRing_Threads\<close>, \<open>SeqRing_Models\<close>: the threaded unit
    tests and the Loom models of these components as such programs.
  \<^item> \<open>Handover\<close>: a role claimed, used and dropped by any number of contexts, and what its claim flag makes visible
    to the next one (\<open>ho_step\<close>); \<open>Handover_Roles\<close>: the roles of the three buffers that keep state between handles;
    \<open>LatestBuf_Handover\<close>: the two Loom models in which a role of \<open>LatestBuf\<close> passes from one thread to another.
  \<^item> \<open>Pipeline\<close> puts them together: \<open>forward\<close> between every kind of source and sink, blocks as payloads.
  \<^item> The measuring programs of \<open>scripts/\<close>: \<open>BlockShape\<close> (\<open>probes/block_shape.rs\<close>, a second implementation of
    the builder), \<open>Probes\<close> and \<open>Probe_Matrix\<close> (\<open>codesize/src/lib.rs\<close>: the probe functions; the statics and tables) and \<open>Probe_Cycles\<close> (\<open>cycles/src/main.rs\<close>: marker tables,
    the regions with the state each starts in, \<open>main\<close>, and \<open>label_ok\<close>, what each label says of its region).
  \<^item> \<open>Conformance\<close>, \<open>Conformance_Signals\<close>, \<open>Conformance_SeqRing\<close> and \<open>Conformance_Rest\<close> run the repository's own unit tests,
    \<open>Conformance_Docs\<close> the examples of its documentation;
    \<open>Corollaries\<close> names further consequences and the run of the ring's tests.

  \<^bold>\<open>Interfaces.\<close> \<open>Fifo\<close> states what a bounded queue promises (locale \<open>fifo\<close>) and proves once that every run then
  answers as the list queue; \<open>Roles\<close> (locale \<open>role\<close>) that a claim flag keeps a role exclusive; \<open>Handover\<close> (\<open>handed_role\<close>) that it also carries the role's
  state to the next holder, and \<open>LatestBuf_Handover\<close> (\<open>handover_test\<close>) what a hand-over test needs of a component; \<open>Sequence\<close>
  (\<open>seq_next\<close>, \<open>seq_cycle\<close>) the numbering that skips the reserved 0, of which the code has three copies; \<open>Traits\<close>
  (\<open>source\<close>, \<open>sink\<close>, \<open>infallible_sink\<close>, \<open>bridge\<close>, \<open>latest_channel\<close>) the contracts of the public traits;
  \<open>Transition\<close> reachability (\<open>inductive_invariant\<close>, \<open>forward_simulation\<close>) and, as \<open>bounded_operation\<close>, an operation
  whose own steps are bounded by a measure that the other side cannot raise; \<open>Threads\<close> (\<open>duo_invariant\<close>) an
  invariant of two threads, kept by each access of either; \<open>Stress\<close> (\<open>stress_test\<close>) what a component must promise
  for the stress test to pass and to end. Each is interpreted on the model of
  the code, and the properties below rest on those interpretations.

  \<^bold>\<open>How code is modelled.\<close> \<open>u32\<close> is \<open>32 word\<close>, so \<open>wrapping_add\<close> and \<open>wrapping_sub\<close> are \<open>+\<close> and \<open>-\<close>. \<open>usize\<close> is \<open>nat\<close>
  with \<open>usize::MAX\<close> as a parameter \<open>U\<close> where its range matters; the sequence ring asks for \<open>U \<ge> 2 ^ 32 - 1\<close>, the
  ring buffer only for \<open>N \<le> U\<close>. A panic, an out-of-range index and a read of an uninitialised slot are \<open>None\<close> of
  \<open>'a exec\<close>; every theorem of the form \<open>... = Some ...\<close> excludes them. A closure is a function on the state of
  the container and its own state, so a hook may push into the ring it is called from. \<open>const N\<close> is the length of
  the slot array. A handle that goes out of scope is dropped where the source's scope ends. Four loops are
  a \<open>partial_function\<close>: that the poll loop returns is C10, that collecting the ring's iterator does is part of C18, that
  the probe's emptying loop does is part of C40, and the draining loop of a unit test is run on the test's inputs; all
  other loops terminate by their definition. No fuel is used.

  \<^bold>\<open>Concurrency.\<close> A concurrent model is a step relation with one step per shared access. An Acquire load may
  return any value not older than the last one seen; whether a plain slot access has a happens-before edge to the
  accesses of the other side is tracked by ghost views, and a race or an uninitialised read leads to the state
  \<open>Undefined\<close>, proved unreachable (for \<open>EventBuf\<close> under the condition of C4). The pending word of the flags is updated by
  \<open>rmw\<close>, which takes the ordering of the read-modify-write as an argument. Accesses of one thread are taken in program order, and the total order of the
  modifications of one atomic is the order of the steps. The ghost \<open>sp_lapped\<close> records that \<open>2 ^ 32 - 1\<close> or more
  items were published past the cursor of one poll: sequence numbers then repeat, and the claims on polls
  are for executions in which this has not happened. A progress claim lets one side run alone from any
  reachable state (\<open>consumer_alone\<close>, \<open>taker_alone\<close>, ...) or bounds its own steps in any interleaving (\<open>own_steps\<close>).

  \<^bold>\<open>Threaded programs.\<close> A thread is a local state, the call it is in and what it becomes when the call returns; each
  access of a call is one step, and nothing else orders two threads. A failed assertion of a test is a local state
  that is shown unreachable, and that a test can end is a path of steps from every reachable state; that a fair
  scheduler takes such a path is not stated. \<open>yield_now\<close> and \<open>join\<close> are no steps: what a test does after joining both
  threads is stated of the states in which both have ended. A flag with Release store and Acquire load
  (\<open>flagged\<close>) may be seen late but never early; a Relaxed one (\<open>LatestBuf_Handover\<close>) makes nothing else visible. Where
  roles pass between contexts, a use of a role is one step: its accesses are those of the concurrent models.

  \<^bold>\<open>What the theorems show.\<close> C1 to C3: the queue is a FIFO for capacities that divide \<open>2 ^ 32\<close>, memory safe for
  all, and loses items across the wrap for the others. C4 to C8: under concurrency, at every capacity while fewer than
  \<open>2 ^ 32\<close> values were published and for ever where the capacity divides \<open>2 ^ 32\<close>, it is race free, a queue in every
  interleaving and never blocked by the other side; at the wrap every other capacity has an execution that races
  (C4). \<open>len\<close> is bounded by every capacity unless \<open>2 ^ 32\<close> pops fall between two of its loads (C7), and between two threads
  everything is delivered (C8). C9 to C12: reads and polls of the
  sequence ring are sound at every capacity, exactly accounted for, and complete where the slot walk is seamless,
  with the exact case in which an item is lost. C13 to C17: the same under concurrency, with the bound on a
  poll's accesses, and between two threads. C18 to C20: the ring, \<open>forward\<close> and blocks. C21 to C26: flags and
  counters, alone, interleaved and between threads. C27 to C32: the latest-value exchange, sequentially,
  concurrently and between threads. C33 to C37: roles, their hand-over, static allocation, auto traits and Debug text.
  C38: the build. C39 and C40: the measuring programs.

  \<^bold>\<open>What is not modelled.\<close> Sizes, the documentation example that asks \<open>LatestBuf\<close> for a \<open>Source\<close> it
  does not have, derived \<open>Debug\<close> implementations, re-exports and the assembly of the cycle probe's markers. \<open>try_split\<close>, which \<open>bringup_split\<close> of the size probe calls, is not in this
  revision and an argument of its model. The orderings \<open>Relaxed\<close>, \<open>Acquire\<close> and \<open>Release\<close> appear as the values a
  load may return, not as an axiomatic memory model; that the fences of the sequence ring order the plain words of
  a payload is assumed, which is what the module documents as its known deviation from the formal model. Capacities
  of \<open>2 ^ 32\<close> and more are excluded for \<open>EventBuf\<close>, whose fullness test cannot see them.
\<close>
section \<open>EventBuf: the bounded queue\<close>

text \<open>
  C1. For a capacity that divides \<open>2 ^ 32\<close> (a power of two) every sequence of pushes, pops and peeks
  of a new EventBuf answers exactly as a FIFO queue of that capacity, however often the cursors wrap:
  no operation panics or reads an uninitialised slot, and the buffer then holds the queue's items.
\<close>

theorem event_buf_is_fifo:
  assumes "0 < N" and "N < 2 ^ 32" and "N dvd 2 ^ 32"
  shows "\<exists>b. chan_run eb_push eb_pop eb_peek (eb_new N) ops = Some (fst (fifo_run N [] ops), b) \<and>
    eb_contents b = snd (fifo_run N [] ops) \<and> eb_capacity b = N"
proof -
  have "eb_fifo_ok (eb_new N :: 'a event_buf)" using assms by (simp add: eb_fifo_ok_def eb_wf_new)
  from eb_fifo.run_refines [OF this, of ops] show ?thesis by auto
qed

theorem event_buf_is_fifo_witness:
  "\<exists>b. chan_run eb_push eb_pop eb_peek (eb_new 2) [Put (7 :: nat), Put 8, Put 9, Look, Take]
    = Some ([Accepted, Accepted, Rejected 9, Got (Some 7), Got (Some 7)], b) \<and> eb_contents b = [8]"
  using event_buf_is_fifo [of 2 "[Put (7 :: nat), Put 8, Put 9, Look, Take]"] by auto

text \<open>
  C2. Memory safety at every capacity below \<open>2 ^ 32\<close>, also where the queue is no FIFO: no run of pushes, pops
  and peeks on a new EventBuf indexes out of range or reads a slot that was never written, all answers are
  given, \<open>len\<close> stays within the capacity, and a \<open>drain\<close> after it returns within its limit under every hook
  that itself keeps the buffer safe (it may push), stopping early only at an empty buffer.
\<close>

theorem event_buf_is_memory_safe:
  assumes "0 < N" and "N < 2 ^ 32" and "eb_hook_ok hook"
  shows "\<exists>rs b n b' h'. chan_run eb_push eb_pop eb_peek (eb_new N) ops = Some (rs, b) \<and> length rs = length ops \<and>
    eb_len b \<le> N \<and> eb_drain b limit hook h = Some (n, b', h') \<and> n \<le> limit \<and> eb_safe b' \<and>
    (n < limit \<longrightarrow> eb_tail b' = eb_head b')"
proof -
  obtain rs b where b: "chan_run eb_push eb_pop eb_peek (eb_new N) ops = Some (rs, b)" "length rs = length ops"
    "eb_safe b" "eb_capacity b = N" using eb_run_safe [OF eb_safe_new [OF assms(1,2)], of ops] by auto
  moreover have "eb_len b \<le> N" using eb_safe_len [OF b(3)] b(4) by simp
  ultimately show ?thesis
    using eb_drain_loop_safe [OF assms(3) b(3), of 0 limit h] by (auto simp: eb_drain_def)
qed

theorem event_buf_is_memory_safe_witness:
  "\<exists>rs b n b' h'. chan_run eb_push eb_pop eb_peek (eb_new 3) [Put True, Look, Put False] = Some (rs, b) \<and>
    length rs = 3 \<and> eb_drain b 100 eb_repush () = Some (n, b', h') \<and> n \<le> 100"
  using event_buf_is_memory_safe [OF _ _ eb_repush_ok, of 3 "[Put True, Look, Put False]" 100 "()"]
  by (fastforce simp: numeral_3_eq_3)

text \<open>
  C3. A capacity that does not divide \<open>2 ^ 32\<close> is not a FIFO queue: across the wrap of the \<open>u32\<close> cursors
  two queued positions share slot 0. The run \<open>eb_wrap_run\<close> reaches them: its last push is accepted by
  the buffer and by the queue, and its pop returns the value pushed last, \<open>y\<close>, where the queue returns \<open>x\<close>.
\<close>

theorem event_buf_loses_an_item_at_the_wrap:
  assumes "0 < N" and "N < 2 ^ 32" and "\<not> N dvd 2 ^ 32" and "x \<noteq> y"
  shows "\<exists>rs rs' b q. chan_run eb_push eb_pop eb_peek (eb_new N) (eb_wrap_run N x y)
      = Some (rs @ [Accepted, Got (Some y)], b) \<and>
    fifo_run N [] (eb_wrap_run N x y) = (rs' @ [Accepted, Got (Some x)], q)"
proof -
  have "0 < 2 ^ 32 mod N" using assms(3) by (simp add: dvd_eq_mod_eq_0)
  with eb_wrap_run_response [OF assms(1,2) this, of x y] fifo_wrap_run_response [OF assms(1) this, of x y]
  show ?thesis by blast
qed

theorem event_buf_loses_an_item_at_the_wrap_witness:
  "\<exists>rs rs' b q. chan_run eb_push eb_pop eb_peek (eb_new 3) (eb_wrap_run 3 (7 :: nat) 8)
      = Some (rs @ [Accepted, Got (Some 8)], b) \<and>
    fifo_run 3 [] (eb_wrap_run 3 (7 :: nat) 8) = (rs' @ [Accepted, Got (Some 7)], q)"
  by (rule event_buf_loses_an_item_at_the_wrap) (simp_all add: dvd_eq_mod_eq_0)

section \<open>EventBuf under concurrency\<close>

text \<open>
  C4. When the lock-free queue is free of data races, for every capacity \<open>0 < N < 2 ^ 32\<close>. Whatever stale values the
  Acquire loads return, while fewer than \<open>2 ^ 32\<close> values have been published no access of either side races on a slot
  or reads an uninitialised one. After that, at the wrap of the cursors, it depends on the capacity: if \<open>N\<close>
  divides \<open>2 ^ 32\<close> no execution ever races, and for every other \<open>N\<close> some execution does.
\<close>

theorem event_buf_never_races:
  assumes "0 < N" and "N < 2 ^ 32"
  shows "(\<forall>s :: 'a ebc. reach (ebc_init N) ebc_step (Running s) \<and> pushes s < 2 ^ 32 \<longrightarrow>
      \<not> ebc_step (Running s) ebc_state.Undefined) \<and>
    (reach (ebc_init N) ebc_step (ebc_state.Undefined :: 'a ebc_state) \<longleftrightarrow> \<not> N dvd 2 ^ 32)"
  using ebc_never_undefined [OF assms] ebc_wrap_race [OF assms] by blast

theorem event_buf_never_races_witness:
  "reach (ebc_init 3) ebc_step (ebc_state.Undefined :: bool ebc_state) \<and> \<not> reach (ebc_init 4) ebc_step (ebc_state.Undefined :: bool ebc_state)"
  using event_buf_never_races [of 3, where ?'a = bool] event_buf_never_races [of 4, where ?'a = bool]
  by (simp add: dvd_eq_mod_eq_0)



text \<open>
  C6. Progress of the lock-free queue, for every capacity \<open>0 < N < 2 ^ 32\<close>: in every reachable state that has published
  fewer than \<open>2 ^ 32\<close> values, and in every reachable state at all if \<open>N\<close> divides \<open>2 ^ 32\<close>, wherever the producer
  stopped, the consumer alone can finish its call and go on to receive everything that was published; and a
  producer between calls alone can complete the push of any value while fewer than \<open>N\<close> are in flight.
\<close>

theorem event_buf_consumer_gets_everything:
  assumes "reach (ebc_init N) ebc_step (Running s)" and "0 < N" and "N < 2 ^ 32" and "N dvd 2 ^ 32 \<or> pushes s < 2 ^ 32"
  shows "(\<exists>s'. consumer_alone\<^sup>*\<^sup>* (Running s) (Running s') \<and> cons s' = ConsIdle \<and> received s' = sent s) \<and>
    (prod s = ProdIdle \<and> length (sent s) < length (received s) + N \<longrightarrow>
      (\<exists>s'. producer_alone\<^sup>*\<^sup>* (Running s) (Running s') \<and> prod s' = ProdIdle \<and> sent s' = sent s @ [v]))"
  using consumer_gets_everything [OF assms] producer_pushes_one [OF assms] by blast

theorem event_buf_consumer_gets_everything_witness:
  "\<exists>s'. consumer_alone\<^sup>*\<^sup>* (Running
    \<lparr>c_buf = (eb_new 1)\<lparr>eb_slots := [Some True], eb_head := 1\<rparr>, pushes = 1, pops = 0,
     tail_view = 0, head_view = 0, prod = ProdIdle, cons = ConsIdle, reads = 0, sent = [True],
     received = [], refused = [], pub_tail = [0], pop_head = []\<rparr>) (Running s') \<and>
    cons s' = ConsIdle \<and> received s' = [True]"
  using event_buf_consumer_gets_everything [OF ebc_one_push] by simp

text \<open>
  C7. At every capacity \<open>0 < N < 2 ^ 32\<close> a call of \<open>len\<close> during which fewer than \<open>2 ^ 32\<close> pops happen between the two tail
  loads of each of its samples never returns more than the capacity, whatever the other side does meanwhile
  and whether or not the cursors have wrapped: a sample whose two tail loads agree is a count of at most \<open>N\<close>,
  and the fallback is clamped.
\<close>

theorem event_buf_len_is_bounded:
  assumes "reach (ebc_init N) ebc_step (Running s)" and "0 < N" and "N < 2 ^ 32"
    and "\<forall>(t1, h, t2) \<in> set samples. len_sample s t1 h t2 \<and> t2 - t1 < 2 ^ 32"
  shows "eb_len_samples N (map (\<lambda>(t1, h, t2). (of_nat t1, of_nat h, of_nat t2)) samples) fallback \<le> N"
  using assms by (rule ebc_len_bound)

theorem event_buf_len_is_bounded_witness:
  "eb_len_samples 1 [(of_nat 0, of_nat 1, of_nat 0)] (0, 1) \<le> 1"
  using event_buf_len_is_bounded [OF ebc_one_push, of "[(0, 1, 0)]" "(0, 1)"] by (simp add: len_sample_def)

text \<open>
  C8. The threaded test of the queue, for every capacity \<open>0 < N < 2 ^ 32\<close>, every \<open>u32\<close> length and every schedule: a thread that pushes
  \<open>0, 1, ..., goal - 1\<close> and retries what is refused, against a thread that pops until it has seen \<open>goal\<close> values.
  No access races, the consumer never sees a value out of order, when both threads have ended everything was
  received once and the queue is empty, and from every reachable state both can end.
\<close>

theorem threaded_queue_delivers_everything:
  assumes "reach (fifo_init N goal) (fifo_step goal) (x, p, q)" and "0 < N" and "N < 2 ^ 32"
  shows "x \<noteq> ebc_state.Undefined \<and> q \<noteq> OutOfOrder \<and>
    (p = Pushed \<and> next_call (counting_consumer goal) q = None \<longrightarrow>
      (\<exists>s. x = Running s \<and> q = Popped goal \<and> received s = map of_nat [0..<unat goal] \<and> eb_len (c_buf s) = 0)) \<and>
    (\<exists>y. (fifo_step goal)\<^sup>*\<^sup>* (x, p, q) y \<and> snd y = (Pushed, Popped goal))"
  using fifo_result [OF assms] fifo_can_end [OF assms] by (auto simp: fifo_final_def)

theorem threaded_queue_delivers_everything_witness:
  "\<exists>y. (fifo_step 2)\<^sup>*\<^sup>* (Running \<lparr>c_buf = eb_new 1, pushes = 0, pops = 0, tail_view = 0, head_view = 0,
      prod = ProdIdle, cons = ConsIdle, reads = 0, sent = [], received = [], refused = [], pub_tail = [], pop_head = []\<rparr>,
    Pushing 0 0, Popping 0) y \<and> snd y = (Pushed, Popped 2)"
proof -
  have "fifo_init 1 2 (Running \<lparr>c_buf = eb_new 1, pushes = 0, pops = 0, tail_view = 0, head_view = 0,
      prod = ProdIdle, cons = ConsIdle, reads = 0, sent = [], received = [], refused = [], pub_tail = [], pop_head = []\<rparr>,
    Pushing 0 0, Popping 0)"
    by (simp add: fifo_init_def ebc_init_def enter_pushing_def enter_popping_def)
  from threaded_queue_delivers_everything [OF reach.start, of 1 2, OF this] show ?thesis by simp
qed

section \<open>SeqRing: the overwrite ring with sequence numbers\<close>

text \<open>
  C9. What a read of a sequence number returns, on a ring of any capacity: after the pushes \<open>vs\<close> the
  number of the \<open>m\<close>-th item gives exactly that item while its slot was not written again, and nothing
  otherwise. It never gives another item, and never an uninitialised slot.
\<close>

theorem seq_ring_reads_are_sound:
  assumes "0 < N" and "0 < m" and "m \<le> length vs" and "length vs - m < SPAN"
    and "sr_push_all (sr_new N) vs = Some r"
  shows "sr_read_seq_inner r (seq_at m)
    = Some (if \<forall>m'. m < m' \<and> m' \<le> length vs \<longrightarrow> sr_slot_of N m' \<noteq> sr_slot_of N m
            then Some (vs ! (m - 1)) else None)"
proof -
  obtain r' where r': "sr_push_all (sr_new N) vs = Some r'" "sr_rep r' vs" "sr_capacity r' = N"
    using assms(1) by (rule sr_push_all_rep)
  with assms(5) have "r = r'" by simp
  with sr_read_value [OF sr_rep_safe [OF r'(2)]] sr_value_rep [OF r'(2) assms(2-4)] assms(2) r'(3)
  show ?thesis by (simp add: sr_live_iff [OF assms(2,3)])
qed

theorem seq_ring_reads_are_sound_witness:
  "\<exists>r. sr_push_all (sr_new 2) [True, False, False] = Some r \<and>
    sr_read_seq_inner r (seq_at 3) = Some (Some False)"
proof -
  obtain r where r: "sr_push_all (sr_new 2) [True, False, False] = Some r" by (rule sr_push_all_rep [of 2]) simp
  have "\<forall>m'. 3 < m' \<and> m' \<le> length [True, False, False] \<longrightarrow> sr_slot_of 2 m' \<noteq> sr_slot_of 2 3" by auto
  with seq_ring_reads_are_sound [OF _ _ _ _ r, of 3] r show ?thesis
    by (auto simp: SPAN_eq numeral_2_eq_2 numeral_3_eq_3)
qed

text \<open>
  C10. \<open>poll_up_to\<close> always returns, under every hook that returns with the ring in a safe state (a hook
  may push, and so overwrite what the poll has yet to read), and its accounting is exact: the numbers read
  and the numbers dropped add up to the distance the cursor moved, the cursor does not pass the newest
  number sampled at entry, it stops before it only when the limit is reached, and it never stays
  more than \<open>N\<close> behind.
\<close>

theorem seq_ring_poll_accounts:
  assumes "sr_safe r" and "sr_newest_seq r = seq_at n" and "cursor_at c (sc_last_seq con)" and "c < n"
    and "n - c < SPAN" and "0 < limit" and "SPAN \<le> U" and "sr_hook_ok hook"
  shows "\<exists>st con' r' h' e. sr_poll_up_to U con r limit hook h = Some (st, con', r', h') \<and> sr_safe r' \<and>
    c < e \<and> e \<le> n \<and> n < e + sr_capacity r \<and> sc_last_seq con' = seq_at e \<and> ps_newest st = seq_at n \<and>
    ps_read st + ps_dropped st = e - c \<and> ps_read st \<le> limit \<and> (e = n \<or> ps_read st = limit) \<and>
    sc_dropped_accum con' = sat_add U (sc_dropped_accum con) (ps_dropped st)"
  using sr_poll_accounts [OF assms] by blast

theorem seq_ring_poll_accounts_witness:
  "\<exists>r st con' r'. sr_push_all (sr_new 2) [True, False, False] = Some r \<and>
    sr_poll_up_to SPAN \<lparr>sc_last_seq = 0, sc_dropped_accum = 0\<rparr> r 5 sr_repush () = Some (st, con', r', ()) \<and>
    ps_read st + ps_dropped st \<in> {2, 3}"
proof -
  obtain r where r: "sr_push_all (sr_new 2) [True, False, False] = Some r" "sr_rep r [True, False, False]"
    "sr_capacity r = 2" by (rule sr_push_all_rep [of 2]) simp
  have "\<exists>st con' r' h' e. sr_poll_up_to SPAN \<lparr>sc_last_seq = 0, sc_dropped_accum = 0\<rparr> r 5 sr_repush ()
      = Some (st, con', r', h') \<and> sr_safe r' \<and> 0 < e \<and> e \<le> 3 \<and> 3 < e + sr_capacity r \<and>
      sc_last_seq con' = seq_at e \<and> ps_newest st = seq_at 3 \<and> ps_read st + ps_dropped st = e - 0 \<and>
      ps_read st \<le> 5 \<and> (e = 3 \<or> ps_read st = 5) \<and>
      sc_dropped_accum con' = sat_add SPAN (sc_dropped_accum \<lparr>sc_last_seq = 0, sc_dropped_accum = 0\<rparr>) (ps_dropped st)"
    by (rule seq_ring_poll_accounts)
      (use sr_rep_safe [OF r(2)] sr_rep_newest [OF r(2)] sr_repush_ok in \<open>auto simp: SPAN_eq numeral_3_eq_3\<close>)
  then obtain st con' r' e where "sr_poll_up_to SPAN \<lparr>sc_last_seq = 0, sc_dropped_accum = 0\<rparr> r 5 sr_repush ()
      = Some (st, con', r', ())" "e \<le> 3" "3 < e + 2" "ps_read st + ps_dropped st = e" using r(3) by auto
  moreover from this have "e = 2 \<or> e = 3" by linarith
  ultimately show ?thesis using r(1) by blast
qed

text \<open>
  C11. Exactness of a poll: on a ring whose capacity divides \<open>2 ^ 32 - 1\<close>, or whose window does not
  straddle the wrap (\<open>sr_seamless\<close>), a poll reads the items from \<open>sr_start\<close> on, in order, up to the limit,
  and counts exactly the items it jumped over as dropped. The start is the cursor if the consumer is at most \<open>N\<close>
  behind, else the place where the newest \<open>N\<close> items begin, one later if the window straddles the wrap.
\<close>

theorem seq_ring_poll_exact:
  assumes "sr_push_all (sr_new N) vs = Some r" and "0 < N" and "sr_seamless N (length vs)"
    and "cursor_at c (sc_last_seq con)" and "c < length vs" and "length vs - c < SPAN" and "0 < limit"
    and "SPAN \<le> U" and "j = sr_start N c (length vs)" and "k = min limit (length vs - j)"
  shows "sr_poll_up_to U con r limit (sr_pure_hook f) h
    = Some (\<lparr>ps_read = k, ps_dropped = j - c, ps_newest = seq_at (length vs)\<rparr>,
        con\<lparr>sc_last_seq := seq_at (j + k), sc_dropped_accum := sat_add U (sc_dropped_accum con) (j - c)\<rparr>,
        r, fold (\<lambda>m. f (seq_at m) (vs ! (m - 1))) [Suc j..<Suc (j + k)] h)"
proof -
  obtain r' where r': "sr_push_all (sr_new N) vs = Some r'" "sr_rep r' vs" "sr_capacity r' = N"
    using assms(2) by (rule sr_push_all_rep)
  with assms(1) have "r = r'" by simp
  with sr_poll_exact [OF r'(2) refl, of c con j limit U f h] r'(3) assms show ?thesis by simp
qed

theorem seq_ring_poll_exact_witness:
  "\<exists>r con. sr_push_all (sr_new 2) [True, False, False] = Some r \<and>
    sr_poll_up_to SPAN \<lparr>sc_last_seq = 0, sc_dropped_accum = 0\<rparr> r 1 (sr_pure_hook (\<lambda>s v h. h @ [(s, v)])) []
      = Some (\<lparr>ps_read = 1, ps_dropped = 1, ps_newest = seq_at 3\<rparr>, con, r, [(seq_at 2, False)])"
proof -
  obtain r where r: "sr_push_all (sr_new 2) [True, False, False] = Some r" by (rule sr_push_all_rep [of 2]) simp
  have len: "length [True, False, False] = 3" by simp
  have start: "1 = sr_start 2 0 (length [True, False, False])"
    unfolding len by (simp add: sr_start_def sr_resume_def SPAN_eq)
  have "sr_poll_up_to SPAN \<lparr>sc_last_seq = 0, sc_dropped_accum = 0\<rparr> r 1 (sr_pure_hook (\<lambda>s v h. h @ [(s, v)])) []
    = Some (\<lparr>ps_read = 1, ps_dropped = 1 - 0, ps_newest = seq_at (length [True, False, False])\<rparr>,
        \<lparr>sc_last_seq = 0, sc_dropped_accum = 0\<rparr>\<lparr>sc_last_seq := seq_at (1 + 1),
          sc_dropped_accum := sat_add SPAN (sc_dropped_accum \<lparr>sc_last_seq = 0, sc_dropped_accum = 0\<rparr>) (1 - 0)\<rparr>,
        r, fold (\<lambda>m h. h @ [(seq_at m, [True, False, False] ! (m - 1))]) [Suc 1..<Suc (1 + 1)] [])"
    by (rule seq_ring_poll_exact [OF r _ _ _ _ _ _ _ start]) (simp_all add: sr_seamless_def SPAN_eq)
  with r show ?thesis unfolding len by (simp add: numeral_2_eq_2)
qed

text \<open>
  C12. The lag-recovery jump loses a live item at the wrap: although the capacity divides \<open>2 ^ 32 - 1\<close> and
  all of the newest \<open>N\<close> items can still be read, a consumer that lags behind a window straddling the wrap is
  given only \<open>N - 1\<close> of them; the oldest is counted as dropped.
\<close>

theorem seq_ring_jump_skips_a_live_item:
  assumes "sr_push_all (sr_new N) vs = Some r" and "N dvd SPAN" and "1 < N" and "n = length vs"
    and "(n - 1) mod SPAN + 1 < N" and "c + N < n" and "n - c < SPAN" and "cursor_at c (sc_last_seq con)"
    and "N \<le> limit" and "SPAN \<le> U"
  shows "sr_read_seq_inner r (seq_at (n - N + 1)) = Some (Some (vs ! (n - N))) \<and>
    (\<exists>con' h'. sr_poll_up_to U con r limit (sr_pure_hook f) h
      = Some (\<lparr>ps_read = N - 1, ps_dropped = n - N + 1 - c, ps_newest = seq_at n\<rparr>, con', r, h'))"
proof -
  obtain r' where "sr_push_all (sr_new N) vs = Some r'" "sr_rep r' vs" "sr_capacity r' = N"
    using assms(3) sr_push_all_rep [of N vs] by auto
  with assms(1) have r: "sr_rep r vs" "sr_capacity r = N" by simp_all
  have seamless: "sr_seamless N n" using assms(2) by (simp add: sr_seamless_def)
  have "sr_live N n (n - N + 1)" using assms(3,6) by (intro sr_live_window [OF seamless]) simp_all
  moreover have "0 < n - N + 1" "n - N + 1 \<le> n" "n - (n - N + 1) < SPAN" using assms(3,6,7) by linarith+
  ultimately have "sr_read_seq_inner r (seq_at (n - N + 1)) = Some (Some (vs ! (n - N)))"
    using sr_read_value [OF sr_rep_safe [OF r(1)]] sr_value_rep [OF r(1), of "n - N + 1"] r(2) assms(4) by simp
  moreover have start: "sr_start N c n = n - N + 1"
    using assms(5,6) by (simp add: sr_start_def sr_resume_def less_diff_conv add.commute)
  have "n - (n - N + 1) = N - 1" using assms(3,6) by linarith
  then have "\<exists>con' h'. sr_poll_up_to U con r limit (sr_pure_hook f) h
      = Some (\<lparr>ps_read = N - 1, ps_dropped = n - N + 1 - c, ps_newest = seq_at n\<rparr>, con', r, h')"
    using sr_poll_exact [OF r(1) assms(4) seamless [folded r(2)] assms(8) _ assms(7), of "n - N + 1" limit U f h]
      start r(2) assms(3,6,9,10) by (simp add: min_absorb2)
  ultimately show ?thesis by blast
qed

theorem seq_ring_jump_skips_a_live_item_witness:
  "\<exists>r con' h'. sr_push_all (sr_new 3) (replicate (SPAN + 1) True) = Some r \<and>
    sr_poll_up_to SPAN \<lparr>sc_last_seq = seq_at (SPAN - 10), sc_dropped_accum = 0\<rparr> r 9 (sr_pure_hook (\<lambda>s v h. h @ [s])) []
      = Some (\<lparr>ps_read = 3 - 1, ps_dropped = SPAN + 1 - 3 + 1 - (SPAN - 10), ps_newest = seq_at (SPAN + 1)\<rparr>, con', r, h')"
proof -
  obtain r where r: "sr_push_all (sr_new 3) (replicate (SPAN + 1) True) = Some r"
    by (rule sr_push_all_rep [of 3]) simp
  have "sr_read_seq_inner r (seq_at (SPAN + 1 - 3 + 1)) = Some (Some (replicate (SPAN + 1) True ! (SPAN + 1 - 3))) \<and>
    (\<exists>con' h'. sr_poll_up_to SPAN \<lparr>sc_last_seq = seq_at (SPAN - 10), sc_dropped_accum = 0\<rparr> r 9
        (sr_pure_hook (\<lambda>s v h. h @ [s])) []
      = Some (\<lparr>ps_read = 3 - 1, ps_dropped = SPAN + 1 - 3 + 1 - (SPAN - 10), ps_newest = seq_at (SPAN + 1)\<rparr>, con', r, h'))"
    by (rule seq_ring_jump_skips_a_live_item [OF r]) (simp_all add: SPAN_eq)
  with r show ?thesis by blast
qed

section \<open>SeqRing under concurrency\<close>

text \<open>
  C13. The seqlock: with the producer writing a slot word by word while the consumer copies it, a copy that the
  second check of the sequence number accepts is a whole published value, the one pushed under that number, as
  long as fewer than \<open>2 ^ 32 - 1\<close> pushes began during the read.
\<close>

theorem seq_ring_reads_are_never_torn:
  assumes "reach sqc_init (sqc_step N W) s" and "(w, v, m, k) \<in> set (delivered s)" and "k - m < SPAN"
  shows "0 < m \<and> m \<le> k \<and> k \<le> length (vals s) \<and> seq_at m = w \<and> v = vals s ! (m - 1)"
  using assms by (rule sqc_reads_whole)

theorem seq_ring_reads_are_never_torn_witness: "[True] = [[True]] ! (1 - 1) \<and> (1::nat) \<le> length [[True]]"
  using seq_ring_reads_are_never_torn [OF sqc_one_read, of 1 "[True]" 1 1] by (simp add: SPAN_eq)

text \<open>
  C14. The accounting of polls under concurrency: \<open>poll_up_to\<close> and \<open>latest\<close> run access by access against a producer
  that pushes word by word, in any order of their steps. Between calls, while no single poll was lapped by a
  whole span of the numbers, all items read and all items counted as dropped add up to the ordinal of the cursor,
  which is published, and the dropped counter of the consumer is their number, saturated.
\<close>

theorem seq_ring_concurrent_polls_account:
  assumes "reach (spc_init U N) (spc_step U N W) s" and "\<not> sp_lapped s" and "sp_pc s = PollIdle"
  shows "sp_read s + sp_dropped s = sp_at s \<and> sp_at s \<le> n_pub (sp_core s) \<and>
    sc_last_seq (sp_con s) = seq_at (sp_at s) \<and> sr_dropped (sp_con s) = min (sp_dropped s) U"
  using assms by (rule spc_polls_account)

theorem seq_ring_concurrent_polls_account_witness:
  "sp_read polled_state + sp_dropped polled_state = 1 \<and> sr_dropped (sp_con polled_state) = 0"
  using seq_ring_concurrent_polls_account [OF spc_one_poll] by (simp add: poll_state_def)

text \<open>
  C15. What concurrent polls hand out: as many items as they report read, in increasing order of their ordinals, each
  published and at or below the cursor, and each the very value pushed under its number unless \<open>2 ^ 32 - 1\<close> or
  more pushes began while it was read. The same holds of each item \<open>latest\<close> handed out.
\<close>

theorem seq_ring_concurrent_deliveries:
  assumes "reach (spc_init U N) (spc_step U N W) s" and "\<not> sp_lapped s" and "sp_pc s = PollIdle"
  shows "length (sp_log s) = sp_read s \<and> sorted_wrt (<) (map fst (sp_log s)) \<and>
    (\<forall>(m, v, k) \<in> set (sp_log s). 0 < m \<and> m \<le> sp_at s \<and> m \<le> k \<and> k \<le> length (vals (sp_core s)) \<and>
      (k - m < SPAN \<longrightarrow> v = vals (sp_core s) ! (m - 1))) \<and>
    (\<forall>(m, v, k) \<in> set (sp_latest s). 0 < m \<and> m \<le> n_pub (sp_core s) \<and>
      (k - m < SPAN \<longrightarrow> v = vals (sp_core s) ! (m - 1)))"
  using spc_deliveries [OF assms] spc_latest_whole [OF assms(1)] by (fastforce simp: entry_ok_def)

theorem seq_ring_concurrent_deliveries_witness:
  "length (sp_log polled_state) = 1 \<and> [True] = vals (sp_core polled_state) ! (1 - 1)"
  using seq_ring_concurrent_deliveries [OF spc_one_poll] by (simp add: poll_state_def SPAN_eq)

text \<open>
  C16. A poll is wait-free while the producer does not lap it by a whole span of numbers: from any point inside
  \<open>poll_up_to\<close>, however the producer's accesses interleave, the consumer makes at most \<open>N * (W + 2) + 1\<close> accesses of
  its own before the call returns (\<open>W\<close> words per item), and it can always return by its own accesses alone.
\<close>

theorem seq_ring_poll_returns_alone:
  assumes "reach (spc_init U N) (spc_step U N W) s" and "unlapped_poll s"
  shows "(\<forall>ss. successively (spc_step U N W) (s # ss) \<and> (\<forall>t \<in> set ss. unlapped_poll t) \<longrightarrow>
      own_steps (\<lambda>s s'. \<not> producer_step W s s') (s # ss) \<le> Suc (N * (W + 2))) \<and>
    (\<exists>ss. successively (\<lambda>s s'. spc_step U N W s s' \<and> \<not> producer_step W s s') (s # ss) \<and>
      sp_pc (last (s # ss)) = PollIdle \<and> length ss \<le> Suc (Suc (N * (W + 2))))"
  using poll_is_wait_free [OF assms] by blast

theorem seq_ring_poll_returns_alone_witness:
  "\<exists>ss. successively (\<lambda>s s'. spc_step SPAN 2 1 s s' \<and> \<not> producer_step 1 s s')
      (run_state (pushed_core 1 1 PushIdle) # ss) \<and>
    sp_pc (last (run_state (pushed_core 1 1 PushIdle) # ss)) = PollIdle \<and> length ss \<le> 8"
  using seq_ring_poll_returns_alone [OF spc_one_run]
  by (simp add: unlapped_poll_def polling_def poll_state_def)

text \<open>
  C17. The threaded test of the sequence ring, for every capacity, every schedule and every number of pushes below a whole
  span: a producer that pushes \<open>[0; 4], ..., [goal - 1; 4]\<close> without waiting, against a consumer that polls until a
  poll begun after the end of the pushes finds nothing. The closure never sees a number go back, a stale or a torn
  payload; when the consumer stops, the last item was delivered and the items read and dropped are \<open>goal\<close> in
  number; and from every reachable state both threads can end.
\<close>

theorem threaded_drain_accounts_for_everything:
  assumes "reach (overwrite_init U N goal) (overwrite_step U N goal) ((s, f), p, q)" and "unat goal < SPAN"
  shows "q \<noteq> Mismatch \<and>
    (\<forall>last_seq total. q = DrainOver last_seq total \<longrightarrow>
      last_seq = goal \<and> total + sr_dropped (sp_con s) = unat goal) \<and>
    (\<exists>y. (overwrite_step U N goal)\<^sup>*\<^sup>* ((s, f), p, q) y \<and> fst (snd y) = PushesDone \<and>
      (\<exists>last_seq total. snd (snd y) = DrainOver last_seq total))"
  using overwrite_result [OF assms] overwrite_can_end [OF assms] by blast

theorem threaded_drain_accounts_for_everything_witness:
  "\<exists>y. (overwrite_step SPAN 2 3)\<^sup>*\<^sup>* ((\<lparr>sp_core = \<lparr>vals = [], n_done = 0, n_pub = 0, ppc = PushIdle, rpc = ReadIdle,
        delivered = []\<rparr>, sp_con = \<lparr>sc_last_seq = 0, sc_dropped_accum = 0\<rparr>, sp_pc = PollIdle, sp_seen = 0,
        sp_at = 0, sp_read = 0, sp_dropped = 0, sp_log = [], sp_latest = [], sp_lapped = False\<rparr>, False),
      PushLoop 0, LoadDone 0 0) y \<and>
    fst (snd y) = PushesDone \<and> (\<exists>last_seq total. snd (snd y) = DrainOver last_seq total)"
proof -
  have "overwrite_init SPAN 2 3 ((\<lparr>sp_core = \<lparr>vals = [], n_done = 0, n_pub = 0, ppc = PushIdle, rpc = ReadIdle,
        delivered = []\<rparr>, sp_con = \<lparr>sc_last_seq = 0, sc_dropped_accum = 0\<rparr>, sp_pc = PollIdle, sp_seen = 0,
        sp_at = 0, sp_read = 0, sp_dropped = 0, sp_log = [], sp_latest = [], sp_lapped = False\<rparr>, False),
      PushLoop 0, LoadDone 0 0)"
    by (simp add: overwrite_init_def drain_init_def spc_init_def sqc_init_def enter_pushes_def)
  from threaded_drain_accounts_for_everything [OF reach.start, of SPAN 2 3, OF this] show ?thesis by (simp add: SPAN_eq)
qed

section \<open>RingBuf, forward and blocks\<close>

text \<open>
  C18. A RingBuf of any capacity up to \<open>usize::MAX\<close> is the window of the newest \<open>N\<close> values since the last
  clear: no push panics or overflows, \<open>get\<close>, \<open>latest\<close> and the iterator, whose size hint is exact, return the
  items of that window, oldest first.
\<close>

theorem ring_buf_is_a_window:
  assumes "0 < N" and "N \<le> U"
  shows "\<exists>r. ring_run U (ring_new N) ops = Some r \<and> ring_len r = length (window_run N [] ops) \<and>
    ring_get r i = Some (if i < ring_len r then Some (window_run N [] ops ! i) else None) \<and>
    ring_latest r = Some (if window_run N [] ops = [] then None else Some (last (window_run N [] ops))) \<and>
    ring_collect U (ring_iter_of r) = Some (window_run N [] ops) \<and>
    ring_iter_size_hint (ring_iter_of r) = (ring_len r, Some (ring_len r)) \<and> ring_len r \<le> N"
proof -
  have cap: "ring_capacity (ring_new N :: 'a ring_buf) = N" by (simp add: ring_new_def ring_capacity_def)
  obtain r where r: "ring_run U (ring_new N) ops = Some r" "ring_wf U r" "ring_capacity r = N"
    "ring_contents r = window_run N [] ops"
    using ring_run_refines [OF ring_wf_new [OF assms], of ops] by (auto simp: cap)
  have "rb_len r \<le> N" using r(2,3) by (simp add: ring_wf_def)
  moreover have "rb_len r = length (window_run N [] ops)" using r(4) by (metis length_ring_contents)
  ultimately show ?thesis
    using r(1,4) ring_get_contents [OF r(2)] ring_latest_contents [OF r(2)] ring_collect_from [OF r(2), of 0]
    by (simp add: ring_len_def ring_iter_of_def ring_iter_size_hint_def Let_def)
qed

theorem ring_buf_is_a_window_witness:
  "\<exists>r. ring_run 9 (ring_new 2) [RingPush True, RingPush False, RingPush False] = Some r \<and>
    ring_collect 9 (ring_iter_of r) = Some [False, False]"
  using ring_buf_is_a_window [of 2 9 "[RingPush True, RingPush False, RingPush False]"]
  by (auto simp: keep_last_def)



text \<open>
  C20. A BlockBuilder is a growing list of numbered samples: every sequence of pushes and clears of a new
  builder answers as \<open>fill_spec\<close> does, on each branch: the reserved number and a number that does not follow the
  last one in the numbering \<open>seq_at\<close> of the items (\<open>1, 2, ..., 2 ^ 32 - 1, 1, ...\<close>, without the \<open>0\<close>) are refused and
  change nothing, the \<open>N\<close>-th sample completes the block with its first and last numbers and all samples in order,
  and clears the window. No cell is read before it is written.
\<close>

theorem block_builder_refines:
  assumes "0 < N"
  shows "\<exists>b. bb_run (bb_new N) ops = Some (fst (fill_run N [] ops), b) \<and> bb_holds b (snd (fill_run N [] ops)) \<and>
    bb_len b = length (snd (fill_run N [] ops)) \<and> bb_len b < N"
proof -
  have "bb_capacity (bb_new N :: 'a block_builder) = N" by (simp add: bb_new_def bb_capacity_def)
  with bb_run_refines [OF bb_holds_new [OF assms], of ops] show ?thesis
    by (auto simp: bb_holds_def bb_len_def)
qed

theorem block_builder_refines_witness:
  "\<exists>b. bb_run (bb_new 2) [Fill 7 True, Fill 9 True, Fill 8 False, Fill u32_MAX True, Fill 0 True, Fill 2 True, Fill 1 False]
    = Some ([Inr None, Inl (Discontinuous 8 9 True), Inr (Some \<lparr>blk_first_sequence = 7, blk_last_sequence = 8,
        blk_samples = [True, False]\<rparr>), Inr None, Inl (ReservedSequence True), Inl (Discontinuous 1 2 True),
        Inr (Some \<lparr>blk_first_sequence = u32_MAX, blk_last_sequence = 1, blk_samples = [True, False]\<rparr>)], b)"
proof -
  have succ: "number_after 7 = 8" "number_after u32_MAX = 1" by (simp_all add: number_after_def seq_at_def SPAN_eq)
  have "(9 :: u32) \<noteq> 8" "(2 :: u32) \<noteq> 1" "u32_MAX \<noteq> (0 :: u32)" by simp_all
  with block_builder_refines [of 2 "[Fill 7 True, Fill 9 True, Fill 8 False, Fill u32_MAX True, Fill 0 True, Fill 2 True, Fill 1 False]"]
  show ?thesis by (auto simp: fill_spec_def succ block_of_def)
qed

section \<open>EventFlags\<close>

text \<open>
  C21. The shared word is a set of pending conditions: every sequence of raises and takes answers, as sets of
  condition numbers, as the set specification, in which a raise adds and a take returns all and clears, and
  whatever was raised is either returned by some take or still pending at the end.
\<close>

theorem event_flags_are_a_pending_set:
  "map conditions (fst (ef_run f ops)) = fst (ef_spec (ef_pending_set f) ops) \<and>
   ef_pending_set (snd (ef_run f ops)) = snd (ef_spec (ef_pending_set f) ops) \<and>
   \<Union> (set (map conditions (fst (ef_run f ops)))) \<union> ef_pending_set (snd (ef_run f ops))
     = ef_pending_set f \<union> raised ops"
proof -
  have "fst (ef_spec (ef_pending_set f) ops) = map conditions (fst (ef_run f ops))"
    and "snd (ef_spec (ef_pending_set f) ops) = ef_pending_set (snd (ef_run f ops))"
    by (simp_all add: ef_run_refines)
  with ef_spec_conserves [of "ef_pending_set f" ops] show ?thesis by simp
qed

text \<open>
  C22. An observed condition publishes what came before its raise. After any interleaving of raises, takes and other
  memory actions of the raising context, with \<open>raise\<close> a Release \<open>fetch_or\<close> and \<open>take_all\<close> an Acquire \<open>swap(0)\<close>, a
  take returns exactly the conditions raised since the previous take, and the taking context has then seen
  every action that came before any of the raises: it has seen those before the last raise, and no more.
\<close>

theorem event_flags_take_publishes:
  assumes "efv_trace evs s" and "efv_step (Took m) s s'"
  shows "conditions m = raised_since_take {} evs \<and> taker_view s' = actions_before_last_raise evs \<and>
    (\<forall>before m' after. evs = before @ Raised m' # after \<longrightarrow> actions_in before \<le> taker_view s')"
  using assms by (rule efv_take_publishes)

theorem event_flags_take_publishes_witness:
  "\<exists>m s. efv_step (Took m) (efv_raise \<lparr>fl = ef_new, clock = 1, word_view = 0, taker_view = 0\<rparr> mask_ALL) s \<and>
    conditions m = {..<32} \<and> taker_view s = 1"
proof -
  let ?s0 = "\<lparr>fl = ef_new, clock = 0, word_view = 0, taker_view = 0\<rparr>"
  let ?s1 = "?s0\<lparr>clock := 1\<rparr>"
  have "efv_trace [] ?s0" by (rule efv_trace.empty) (simp add: efv_init_def)
  from efv_trace.extend [OF this efv_step.action] have "efv_trace ([] @ [Other_Action]) ?s1" by simp
  from efv_trace.extend [OF this efv_step.raise] have
    trace: "efv_trace [Other_Action, Raised mask_ALL] (efv_raise ?s1 mask_ALL)" by simp
  obtain m s where "efv_take_all (efv_raise ?s1 mask_ALL) = (m, s)" by (cases "efv_take_all (efv_raise ?s1 mask_ALL)")
  then have took: "efv_step (Took m) (efv_raise ?s1 mask_ALL) s" by (rule efv_step.take)
  from event_flags_take_publishes [OF trace took] have "conditions m = {..<32}" "taker_view s = 1"
    by (simp_all add: actions_before_last_raise_def)
  with took show ?thesis by auto
qed

text \<open>
  C23. Raises racing a take, in every schedule: what that take and the one after it return together is exactly what
  was raised, and if no two raises share a condition, no condition is returned twice.
\<close>

theorem raise_race_is_partitioned:
  assumes "reach (partition_init ms) partition_step (f, [], Some first)" and "ef_take_all f = (second, f')"
  shows "conditions (mask_bitor first second) = all_conditions ms \<and>
    (disjoint_masks ms \<longrightarrow> mask_is_empty (mask_bitand first second))"
  using assms by (rule partition_exact)

theorem raise_race_is_partitioned_witness:
  "conditions (mask_bitor mask_EMPTY mask_ALL) = all_conditions [mask_ALL]"
proof -
  let ?f0 = "ef_new" and ?f1 = "ef_raise ef_new mask_ALL"
  have "reach (partition_init [mask_ALL]) partition_step (?f0, [mask_ALL], None)"
    by (rule reach.start) (simp add: partition_init_def)
  moreover have "partition_step (?f0, [mask_ALL], None) (?f0, [mask_ALL], Some mask_EMPTY)"
    using duo_step.right [of taking_once None "()" take_all_acc "Some mask_EMPTY" ef_new ef_new raise_acc raising_each "[mask_ALL]"]
    by (simp add: partition_step_def taking_once_def take_all_acc_def ef_take_all_def ef_new_def mask_from_bits_def mask_EMPTY_def)
  moreover have "partition_step (?f0, [mask_ALL], Some mask_EMPTY) (?f1, [], Some mask_EMPTY)"
    using duo_step.left [of raising_each "[mask_ALL]" mask_ALL raise_acc "Some ()" ef_new ?f1 take_all_acc taking_once "Some mask_EMPTY"]
    by (simp add: partition_step_def raising_each_def raise_acc_def)
  ultimately have "reach (partition_init [mask_ALL]) partition_step (?f1, [], Some mask_EMPTY)"
    by (blast intro: reach.move)
  moreover have "ef_take_all ?f1 = (mask_ALL, ef_new)"
    by (simp add: ef_take_all_def ef_raise_def ef_new_def mask_ALL_def mask_bits_def mask_from_bits_def)
  ultimately show ?thesis by (rule raise_race_is_partitioned [THEN conjunct1])
qed

section \<open>CountedSignal\<close>

text \<open>
  C24. The counter is exact below its top value and saturates at it: in every run each take returns the number of
  increments since the take before, \<open>u32::MAX\<close> standing for that many or more, and together with what
  is left the specification's takes count every increment.
\<close>

theorem counted_signal_counts:
  "map (\<lambda>s. unat (snap_count_of s)) (fst (cs_run cs_new ops)) = map (\<lambda>n. min n (2 ^ 32 - 1)) (fst (count_spec 0 ops)) \<and>
   unat (cs_count (snd (cs_run cs_new ops))) = min (snd (count_spec 0 ops)) (2 ^ 32 - 1) \<and>
   sum_list (fst (count_spec 0 ops)) + snd (count_spec 0 ops) = length (filter (\<lambda>op. op = Increment) ops)"
proof -
  have "cs_count cs_new = saturated 0" by (simp add: cs_new_def)
  from cs_run_refines [OF this, of ops]
  have taken: "map snap_count (fst (cs_run cs_new ops)) = map saturated (fst (count_spec 0 ops))"
    and left: "cs_count (snd (cs_run cs_new ops)) = saturated (snd (count_spec 0 ops))" by simp_all
  have "map (\<lambda>s. unat (snap_count_of s)) (fst (cs_run cs_new ops)) = map unat (map snap_count (fst (cs_run cs_new ops)))"
    by (simp add: snap_count_of_def)
  also have "\<dots> = map (\<lambda>n. min n (2 ^ 32 - 1)) (fst (count_spec 0 ops))" by (simp only: taken list.map_comp comp_def unat_saturated)
  finally show ?thesis using count_spec_total [of 0 ops] by (simp only: left unat_saturated) simp
qed

text \<open>
  C25. The same holds while the consumer's takes interleave with every access of \<open>increment\<close>, including the
  double check at the top value and stale loads: each take returns exactly the increments that completed since
  the take before, saturated.
\<close>

theorem counted_signal_concurrent_takes_are_exact:
  assumes "inc_reachable s" and "(v, n) \<in> set (takes s)"
  shows "unat v = min n (2 ^ 32 - 1)"
  using assms by (rule inc_takes_exact)

theorem counted_signal_concurrent_takes_are_exact_witness: "unat (1 :: u32) = min 1 (2 ^ 32 - 1)"
  using counted_signal_concurrent_takes_are_exact [OF inc_one_take, of 1 1] by simp

text \<open>
  C26. The threaded test of the counter, for every number of increments below \<open>2 ^ 32\<close> and every schedule: when the
  taking thread has seen the flag and taken once more, its 64-bit sum is exactly the number of increments;
  and from every reachable state the test can end.
\<close>

theorem threaded_counts_are_complete:
  assumes "reach (cs_stress_init n) (cs_stress_step n) (x, p, q)"
  shows "(\<forall>so_far. q = PollEnd so_far \<longrightarrow> so_far = ucast n) \<and>
    (\<exists>y. (cs_stress_step n)\<^sup>*\<^sup>* (x, p, q) y \<and> (\<exists>so_far. snd y = (LoopEnd, PollEnd so_far)))"
  using stress_total stress_ends [OF assms] assms by blast

theorem threaded_counts_are_complete_witness:
  "\<exists>y. (cs_stress_step 3)\<^sup>*\<^sup>* ((inc_init, False), Looping 0, PollFlag 0) y \<and> (\<exists>so_far. snd y = (LoopEnd, PollEnd so_far))"
proof -
  have "cs_stress_init 3 ((inc_init, False), Looping 0, PollFlag 0)"
    by (simp add: cs_stress_init_def stress_init_def enter_loop_def)
  from threaded_counts_are_complete [OF reach.start, of 3, OF this] show ?thesis by blast
qed

section \<open>LatestBuf\<close>

text \<open>
  C27. A LatestBuf is a register with a history: every sequence of publications, takes and role reacquisitions
  answers as the specification. A publication gets the next generation and reports whether it replaced an
  unread one; a take returns the newest publication once, with its generation and the number skipped.
\<close>

theorem latest_buf_refines:
  "\<exists>b. lb_run lb_new ops = Some (fst (lb_spec_run ([], 0) ops), b) \<and>
    lb_rep b (fst (snd (lb_spec_run ([], 0) ops))) (snd (snd (lb_spec_run ([], 0) ops)))"
  by (rule lb_run_refines [OF lb_rep_new])

section \<open>LatestBuf under concurrency\<close>

text \<open>
  C28. The three-slot exchange is memory safe: in no interleaving of the accesses of a publication and a take do
  the two sides touch the same slot without a happens-before edge, and no read finds an unwritten slot.
\<close>

theorem latest_buf_never_races: "\<not> reach lbc_init lbc_step (lbc_state.Undefined :: 'a lbc_state)"
  by (rule lbc_never_undefined)

text \<open>
  C29. In every concurrent execution the items the consumer got are publications in increasing order, whole,
  each with its own generation and the exact number (modulo whole spans) of publications between it and
  the item before.
\<close>

theorem latest_buf_concurrent_items:
  assumes "reach lbc_init lbc_step (Active s)"
  shows "\<exists>c. chain 0 (log s) c \<and> c \<le> length (hist s) \<and> items s = map (item_of (hist s)) (log s)"
  using assms by (rule lbc_items)

theorem latest_buf_concurrent_items_witness:
  "\<exists>c. chain 0 [(0, 1)] c \<and> c \<le> length [True] \<and>
    [\<lparr>li_value = True, li_generation = 1, li_skipped = 0\<rparr>] = map (item_of [True]) [(0, 1)]"
  using latest_buf_concurrent_items [OF lbc_one_take] by (simp add: lbc_published_def)

text \<open>
  C30. The reports of publications are exact under concurrency, although the producer learns of a replacement only
  from the exchange word: the reports returned so far are, in order, those of the generations, each
  \<open>replaced_unread\<close> exactly if the publication before it was never claimed by a take; and once every
  publication has returned its report, each publication is counted once: replaced, claimed or still pending.
\<close>

theorem latest_buf_reports_partition:
  assumes "reach lbc_init lbc_step (Active s)"
  shows "reports s = map (\<lambda>i. \<lparr>pr_generation = seq_at (Suc i), pr_replaced_unread = (0 < i \<and> i \<notin> claimed s)\<rparr>)
      [0..<settled s] \<and>
    (settled s = length (hist s) \<longrightarrow>
      length (filter pr_replaced_unread (reports s)) + card (claimed s) +
        (if lb_ready (lb_exchange (l_buf s)) then 1 else 0) = length (hist s))"
  using lbc_reports_exact [OF assms] lbc_publications_partition [OF assms] by (simp add: report_of_def [abs_def])

theorem latest_buf_reports_partition_witness:
  "reports lbc_published = [\<lparr>pr_generation = seq_at 1, pr_replaced_unread = False\<rparr>] \<and>
    card (claimed lbc_published) + (if lb_ready (lb_exchange (l_buf lbc_published)) then 1 else 0) = 1"
  using latest_buf_reports_partition [OF lbc_one_publish]
  by (simp add: lbc_published_def settled_def claimed_def)

text \<open>
  C31. Progress of the latest-value exchange: once something was published, the consumer alone, from wherever both
  sides stand, can reach the end of a take whose item is the newest publication with its generation; and in every
  reachable state a producer between calls can complete a publication by its own accesses alone.
\<close>

theorem latest_buf_newest_is_obtainable:
  assumes "reach lbc_init lbc_step (Active s)"
  shows "(hist s \<noteq> [] \<longrightarrow> (\<exists>s'. taker_alone\<^sup>*\<^sup>* (Active s) (Active s') \<and> tak s' = TakeIdle \<and> items s' \<noteq> [] \<and>
      li_value (last (items s')) = last (hist s) \<and> li_generation (last (items s')) = seq_at (length (hist s)))) \<and>
    (pub s = PubIdle \<longrightarrow>
      (\<exists>s'. publisher_alone\<^sup>*\<^sup>* (Active s) (Active s') \<and> pub s' = PubIdle \<and> hist s' = hist s @ [v]))"
  using taker_gets_newest_item [OF assms] publisher_publishes [OF assms] by blast

theorem latest_buf_newest_is_obtainable_witness:
  "\<exists>s'. taker_alone\<^sup>*\<^sup>* (Active lbc_published) (Active s') \<and> tak s' = TakeIdle \<and> items s' \<noteq> [] \<and>
    li_value (last (items s')) = True \<and> li_generation (last (items s')) = seq_at 1"
  using latest_buf_newest_is_obtainable [OF lbc_one_publish] by (simp add: lbc_published_def)

text \<open>
  C32. The threaded test of the exchange, for every number of publications and every schedule: a thread that
  publishes \<open>[1; 4]\<close>, ..., \<open>[goal; 4]\<close> against a thread that takes until it has seen generation \<open>goal\<close>. No access
  races, no item is torn, stale or out of order, the taker stops at \<open>goal\<close> and at nothing else, and from every
  reachable state both threads can end.
\<close>

theorem threaded_exchange_is_never_torn:
  assumes "reach (torn_init goal) (torn_step goal) (x, p, q)"
  shows "x \<noteq> lbc_state.Undefined \<and> q \<noteq> TornOrStale \<and> (next_call (taking_up_to goal) q = None \<longrightarrow> q = TakeDone goal) \<and>
    (\<exists>y. (torn_step goal)\<^sup>*\<^sup>* (x, p, q) y \<and> snd y = (PublishedAll, TakeDone goal))"
  using torn_result [OF assms] torn_can_end [OF assms] by auto

theorem threaded_exchange_is_never_torn_witness:
  "\<exists>y. (torn_step 2)\<^sup>*\<^sup>* (Active \<lparr>l_buf = lb_new, pub = PubIdle, tak = TakeIdle, p_dirty = {}, p_rel = {},
      c_dirty = {}, c_rel = {}, hist = [], upto = 0, from' = 0, items = [], log = [], reports = []\<rparr>,
    Publishing 1, TakeLoop 0) y \<and> snd y = (PublishedAll, TakeDone 2)"
proof -
  have "torn_init 2 (Active \<lparr>l_buf = lb_new, pub = PubIdle, tak = TakeIdle, p_dirty = {}, p_rel = {},
      c_dirty = {}, c_rel = {}, hist = [], upto = 0, from' = 0, items = [], log = [], reports = []\<rparr>,
    Publishing 1, TakeLoop 0)"
    by (simp add: torn_init_def lbc_init_def enter_publishing_def enter_taking_def)
  from threaded_exchange_is_never_torn [OF reach.start, of 2, OF this] show ?thesis by simp
qed

section \<open>Roles, static allocation, traits and text\<close>

text \<open>
  C33. At most one handle of each role exists: in every history of acquisitions and drops of the producer role,
  and of the consumer role, of each of the five shared containers.
\<close>

theorem roles_are_exclusive:
  "snd (role_run eb_try_producer eb_drop_producer (eb_new N) es) \<le> 1 \<and>
   snd (role_run eb_try_consumer eb_drop_consumer (eb_new N) es) \<le> 1 \<and>
   snd (role_run sr_try_producer sr_drop_producer (sr_new N) es) \<le> 1 \<and>
   snd (role_run sr_try_consumer sr_drop_consumer (sr_new N) es) \<le> 1 \<and>
   snd (role_run lb_try_producer lb_drop_producer lb_new es) \<le> 1 \<and>
   snd (role_run lb_try_consumer lb_drop_consumer lb_new es) \<le> 1 \<and>
   snd (role_run ef_try_producer ef_drop_producer ef_new es) \<le> 1 \<and>
   snd (role_run ef_try_consumer ef_drop_consumer ef_new es) \<le> 1 \<and>
   snd (role_run cs_try_producer cs_drop_producer cs_new es) \<le> 1 \<and>
   snd (role_run cs_try_consumer cs_drop_consumer cs_new es) \<le> 1"
  by (intro conjI eb_prod.run_exclusive [THEN conjunct1] eb_cons.run_exclusive [THEN conjunct1]
      sr_prod.run_exclusive [THEN conjunct1] sr_cons.run_exclusive [THEN conjunct1]
      lb_prod.run_exclusive [THEN conjunct1] lb_cons.run_exclusive [THEN conjunct1]
      ef_prod.run_exclusive [THEN conjunct1] ef_cons.run_exclusive [THEN conjunct1]
      cs_prod.run_exclusive [THEN conjunct1] cs_cons.run_exclusive [THEN conjunct1])
    (simp_all add: eb_new_def sr_new_def lb_new_def ef_new_def cs_new_def)

text \<open>
  C34. The state of a role survives its handle without a race: whatever contexts claim, use and drop a role, in any
  order and while the other role is at work, at most one holds it and the holder has seen every earlier use, so no use
  is a data race. For both roles of the queue, the producer of the sequence ring and both roles of the
  latest-value exchange; the only ordering used is that of the claim flag's swap and of the store on drop.
\<close>

theorem roles_hand_over_their_state:
  "handover_safe eb_try_producer eb_drop_producer eb_producer_taken eb_pushes eb_consumer_side \<and>
   handover_safe eb_try_consumer eb_drop_consumer eb_consumer_taken eb_pops eb_producer_side \<and>
   handover_safe sr_try_producer sr_drop_producer sr_producer_taken sr_pushes sr_consumer_side \<and>
   handover_safe lb_try_producer lb_drop_producer lb_producer_taken lb_publishes lb_consumer_side \<and>
   handover_safe lb_try_consumer lb_drop_consumer lb_consumer_taken lb_takes lb_producer_side"
  by (intro conjI eb_prod_handed.handed_safe eb_cons_handed.handed_safe sr_prod_handed.handed_safe
      lb_prod_handed.handed_safe lb_cons_handed.handed_safe)

text \<open>
  C35. \<open>take()\<close> of the modules that \<open>static_spsc!\<close> generates is all or nothing: it hands out both roles if both
  are free and claims them, and otherwise hands out none and leaves the container exactly as it was.
\<close>

theorem static_take_is_all_or_nothing:
  "eb_static_take b = (if eb_producer_taken b \<or> eb_consumer_taken b then (None, b)
     else (Some (EbProducer, EbConsumer), b\<lparr>eb_producer_taken := True, eb_consumer_taken := True\<rparr>)) \<and>
   sr_static_take r = (if sr_producer_taken r \<or> sr_consumer_taken r then (None, r)
     else (Some (SrProducer, \<lparr>sc_last_seq = 0, sc_dropped_accum = 0\<rparr>),
           r\<lparr>sr_producer_taken := True, sr_consumer_taken := True\<rparr>))"
  by (simp add: eb_static_take_def sr_static_take_def static_take_def eb_try_producer_def eb_try_consumer_def
      sr_try_producer_def sr_try_consumer_def eb_drop_producer_def sr_drop_producer_def Let_def)

text \<open>
  C36. The auto traits of the public types, for every payload (\<open>Send\<close> if \<open>s\<close>, \<open>Sync\<close> if \<open>y\<close>): a container with slots may
  be shared exactly if its payload is \<open>Send\<close>, by the \<open>unsafe impl\<close> alone; a handle may be moved under the same
  condition and is never shared, because of its marker alone; signals and their handles move unconditionally.
\<close>

theorem handles_move_but_are_not_shared:
  "list_all (\<lambda>t. is_sync s y t = s \<and> is_send s y t = s \<and> \<not> is_sync s y (derive_only t)) payload_containers \<and>
   list_all (\<lambda>t. is_send s y t = s) payload_handles \<and>
   list_all (is_send s y) (event_flags_type # counted_signal_type # signal_handles) \<and>
   list_all (\<lambda>t. \<not> is_sync s y t \<and> is_sync True y (without_marker t)) (payload_handles @ signal_handles)"
proof -
  have "list_all (\<lambda>t. is_sync s y t = s \<and> is_send s y t = s \<and> \<not> is_sync s y (derive_only t)) payload_containers"
    unfolding list_all_iff using container_traits unsafe_impl_needed by blast
  moreover have "list_all (\<lambda>t. is_send s y t = s) payload_handles"
    unfolding list_all_iff using handle_traits(1) by blast
  moreover have "list_all (is_send s y) (event_flags_type # counted_signal_type # signal_handles)"
    using handle_traits(2) signal_container_traits by (auto simp: list_all_iff)
  moreover have "list_all (\<lambda>t. \<not> is_sync s y t \<and> is_sync True y (without_marker t)) (payload_handles @ signal_handles)"
    unfolding list_all_iff using handle_traits(3) marker_needed by (metis set_append)
  ultimately show ?thesis by blast
qed

text \<open>
  C37. Debug output: the text of an event mask determines the mask, and the numbers in the text of a container are its
  length, capacity, cursors and counters, in the order of the fields.
\<close>

theorem debug_text_carries_the_state:
  "parse_mask (debug_event_mask m) = Some m \<and>
   numbers_in (debug_event_buf b) = [eb_len b, eb_capacity b] \<and>
   numbers_in (debug_seq_ring r) = [sr_capacity r, unat (sr_published_seq r)] \<and>
   numbers_in (debug_seq_ring_consumer r c) = [sr_capacity r, unat (sc_last_seq c), sc_dropped_accum c] \<and>
   numbers_in (debug_ring_buf rb) = [rb_len rb, ring_capacity rb] \<and>
   numbers_in (debug_ring_iter it) = [ring_len (ri_ring it) - ri_pos it] \<and>
   numbers_in (debug_block_builder fill) =
     [bb_length fill, bb_capacity fill, unat (bb_first_sequence fill), unat (bb_last_sequence fill)]"
  by (simp only: parse_mask_debug debug_numbers simp_thms)

section \<open>Build configuration and measuring programs\<close>



text \<open>
  C39. The structural twin that the probes measure behaves as the library's builder: on every sequence of pushes and
  clears of a new builder, also one with reserved or discontinuous numbers, both give the same results, error
  values included, and end in the same state.
\<close>

theorem block_shape_is_a_twin:
  "bb_run (bb_new N) ops = map_option (map_prod (map twin_result) twin_builder) (bbs_run (bbs_new N) ops) \<and>
   (twin_result r = twin_result r' \<longleftrightarrow> r = r')"
  using twin_run [of "bbs_new N" ops] by (simp add: twin_builder_new twin_result_inj)

text \<open>
  C40. The instruction-cost probe measures what its labels say: in every build with at most one payload matrix the
  program runs to its end and passes each declared marker but \<open>m_end\<close> exactly once, and \<open>label_ok\<close> holds of each
  region: the container is in the state the label names when the region starts (empty, nearly full, full, pending, a
  backlog beyond the capacity, a builder one sample short, a payload of the named width and length) and the
  operation takes the named path from there (accepted, rejected, overwriting, replacing, jumping to the oldest
  item left). The immediates that keep the linker from folding markers are distinct in exactly those builds.
\<close>

theorem cycle_probe_measures_its_labels:
  assumes "SPAN \<le> U"
  shows "(distinct (map fst (declared_markers f)) \<longleftrightarrow> at_most_one_matrix f) \<and>
    (at_most_one_matrix f \<longrightarrow> (\<exists>rs. probe_main U f = Some rs \<and> list_all (\<lambda>(m, before, r). label_ok m before r) rs \<and>
      mset (m_end # map fst rs) = mset (map snd (declared_markers f)) \<and> distinct (map fst rs)))"
proof (intro conjI impI)
  assume one: "at_most_one_matrix f"
  from probe_main_measures [OF assms one] obtain rs where
    rs: "probe_main U f = Some rs" "map fst rs = run_order f" "list_all (\<lambda>(m, before, r). label_ok m before r) rs"
    unfolding measures_def region_ok_def by blast
  have "mset (m_end # run_order f) = mset (map snd (declared_markers f))" by (rule run_order_mset [OF one])
  moreover from this have "distinct (m_end # run_order f)"
    using distinct_declared(2) [of f] one by (metis mset_eq_imp_distinct_iff)
  ultimately show "\<exists>rs. probe_main U f = Some rs \<and> list_all (\<lambda>(m, before, r). label_ok m before r) rs \<and>
      mset (m_end # map fst rs) = mset (map snd (declared_markers f)) \<and> distinct (map fst rs)"
    unfolding rs(2) [symmetric] using rs(1,3) by (intro exI [of _ rs]) simp
qed (rule distinct_declared(1))

theorem cycle_probe_measures_its_labels_witness:
  "\<exists>rs. probe_main SPAN \<lparr>block_matrix = False, latest_matrix = True, latest_block_matrix = False\<rparr> = Some rs \<and>
    list_all (\<lambda>(m, before, r). label_ok m before r) rs \<and> distinct (map fst rs)"
  using cycle_probe_measures_its_labels [of SPAN
      "\<lparr>block_matrix = False, latest_matrix = True, latest_block_matrix = False\<rparr>"]
  by (auto simp: at_most_one_matrix_def)

end
